(* ===== verification/RA_Prelude.thy ===== *)
theory RA_Prelude
  imports Main "HOL-Library.Word" "HOL-Library.Monad_Syntax"
begin

text \<open>
  What the component theories share: the machine types of the C code, memory as lists with
  checked access, and the arithmetic of \<^verbatim>\<open>size_t\<close>.

  A C buffer is a list; an access outside it, which in C is undefined behaviour, is the value
  \<^term>\<open>None\<close> of the option monad, so a theorem \<open>f x = Some y\<close> says in particular that the
  code stays inside its buffers.  Sizes and offsets are \<^typ>\<open>nat\<close>; where the code may
  subtract a larger \<^verbatim>\<open>size_t\<close> from a smaller one the subtraction is \<open>usub\<close>, which wraps
  around at 64 bits as the C does.
\<close>

section \<open>Machine types\<close>

type_synonym u8 = "8 word"
type_synonym u16 = "16 word"
type_synonym u32 = "32 word"
type_synonym u64 = "64 word"
type_synonym bytes = "u8 list"

named_theorems mem_simps \<open>rules for checked memory access\<close>

section \<open>Arithmetic of 64-bit sizes\<close>

definition usub :: "nat \<Rightarrow> nat \<Rightarrow> nat" where
  "usub a b = (if b \<le> a then a - b else 2 ^ 64 + a - b)"

lemma usub_le [simp]: "b \<le> a \<Longrightarrow> usub a b = a - b"
  by (simp add: usub_def)

lemma usub_wraps: "a < b \<Longrightarrow> usub a b = 2 ^ 64 + a - b"
  by (simp add: usub_def)

section \<open>Checked memory access\<close>

definition mem_get :: "'a list \<Rightarrow> nat \<Rightarrow> 'a option" where
  "mem_get m i = (if i < length m then Some (m ! i) else None)"

definition mem_set :: "'a list \<Rightarrow> nat \<Rightarrow> 'a \<Rightarrow> 'a list option" where
  "mem_set m i x = (if i < length m then Some (m[i := x]) else None)"

definition mem_read :: "'a list \<Rightarrow> nat \<Rightarrow> nat \<Rightarrow> 'a list option" where
  "mem_read m off n = (if off + n \<le> length m then Some (take n (drop off m)) else None)"

definition mem_write :: "'a list \<Rightarrow> nat \<Rightarrow> 'a list \<Rightarrow> 'a list option" where
  "mem_write m off xs =
     (if off + length xs \<le> length m
      then Some (take off m @ xs @ drop (off + length xs) m) else None)"

lemma mem_get_Some [mem_simps]: "i < length m \<Longrightarrow> mem_get m i = Some (m ! i)"
  by (simp add: mem_get_def)

lemma mem_set_Some [mem_simps]: "i < length m \<Longrightarrow> mem_set m i x = Some (m[i := x])"
  by (simp add: mem_set_def)

lemma mem_read_Some [mem_simps]:
  "off + n \<le> length m \<Longrightarrow> mem_read m off n = Some (take n (drop off m))"
  by (simp add: mem_read_def)

lemma mem_write_Some [mem_simps]:
  "off + length xs \<le> length m \<Longrightarrow>
     mem_write m off xs = Some (take off m @ xs @ drop (off + length xs) m)"
  by (simp add: mem_write_def)

lemma mem_get_SomeD: "mem_get m i = Some x \<Longrightarrow> i < length m \<and> x = m ! i"
  by (simp add: mem_get_def split: if_splits)

lemma mem_set_SomeD: "mem_set m i x = Some m' \<Longrightarrow> i < length m \<and> m' = m[i := x]"
  by (simp add: mem_set_def split: if_splits)

lemma mem_read_SomeD:
  "mem_read m off n = Some xs \<Longrightarrow> off + n \<le> length m \<and> xs = take n (drop off m)"
  by (simp add: mem_read_def split: if_splits)

lemma mem_write_SomeD:
  "mem_write m off xs = Some m' \<Longrightarrow>
     off + length xs \<le> length m \<and> m' = take off m @ xs @ drop (off + length xs) m"
  by (simp add: mem_write_def split: if_splits)

lemma length_mem_write: "mem_write m off xs = Some m' \<Longrightarrow> length m' = length m"
  by (auto dest!: mem_write_SomeD)

lemma length_mem_read: "mem_read m off n = Some xs \<Longrightarrow> length xs = n"
  by (auto dest!: mem_read_SomeD)

lemma length_mem_set: "mem_set m i x = Some m' \<Longrightarrow> length m' = length m"
  by (auto dest!: mem_set_SomeD)

text \<open>Reading back what was written, and reading what a write did not touch.\<close>

lemma mem_read_write_same:
  assumes "mem_write m off xs = Some m'" and "n = length xs"
  shows "mem_read m' off n = Some xs"
proof -
  from assms(1) have b: "off + length xs \<le> length m"
    and m': "m' = take off m @ xs @ drop (off + length xs) m"
    by (auto dest: mem_write_SomeD)
  show ?thesis
    using b assms(2) by (simp add: m' mem_read_def)
qed

lemma mem_write_nth:
  assumes "mem_write m off xs = Some m'" and "i < length m"
  shows "m' ! i = (if off \<le> i \<and> i < off + length xs then xs ! (i - off) else m ! i)"
proof -
  from assms(1) have b: "off + length xs \<le> length m"
    and m': "m' = take off m @ xs @ drop (off + length xs) m"
    by (auto dest: mem_write_SomeD)
  show ?thesis
    using b assms(2) by (auto simp: m' nth_append)
qed

lemma mem_read_cong:
  assumes "length m = length m'" and "\<And>i. off \<le> i \<Longrightarrow> i < off + n \<Longrightarrow> m ! i = m' ! i"
  shows "mem_read m off n = mem_read m' off n"
proof (cases "off + n \<le> length m")
  case True
  have "take n (drop off m) = take n (drop off m')"
    using True assms by (intro nth_equalityI) auto
  then show ?thesis using True assms(1) by (simp add: mem_read_def)
next
  case False
  then show ?thesis using assms(1) by (simp add: mem_read_def)
qed

lemma mem_read_write_other:
  assumes "mem_write m off xs = Some m'"
    and "p + n \<le> off \<or> off + length xs \<le> p"
  shows "mem_read m' p n = mem_read m p n"
proof (cases "p + n \<le> length m")
  case True
  show ?thesis
  proof (rule mem_read_cong)
    show "length m' = length m" by (rule length_mem_write [OF assms(1)])
    fix i assume "p \<le> i" "i < p + n"
    with True assms(2) show "m' ! i = m ! i"
      by (auto simp: mem_write_nth [OF assms(1)])
  qed
next
  case False
  then show ?thesis
    using length_mem_write [OF assms(1)] by (simp add: mem_read_def)
qed

lemma drop_ConsD:
  assumes "drop k xs = y # ys"
  shows "k < length xs" and "xs ! k = y" and "drop (Suc k) xs = ys"
proof -
  show k: "k < length xs" using assms by (cases "k < length xs") auto
  then show "xs ! k = y" "drop (Suc k) xs = ys"
    using assms by (simp_all add: Cons_nth_drop_Suc [symmetric])
qed

lemma drop_appendD: "drop k xs = ys @ zs \<Longrightarrow> drop (k + length ys) xs = zs"
  by (metis append_eq_conv_conj drop_drop add.commute)

section \<open>Integers in little-endian bytes\<close>

text \<open>
  The modelled host is little endian (x86-64): the bytes of an object of \<open>n\<close> bytes are its
  value, least significant byte first.
\<close>

fun le_bytes :: "nat \<Rightarrow> nat \<Rightarrow> bytes" where
  "le_bytes 0 v = []"
| "le_bytes (Suc n) v = of_nat (v mod 256) # le_bytes n (v div 256)"

fun le_value :: "bytes \<Rightarrow> nat" where
  "le_value [] = 0"
| "le_value (b # bs) = unat b + 256 * le_value bs"

lemma length_le_bytes [simp]: "length (le_bytes n v) = n"
  by (induction n arbitrary: v) auto

lemma le_value_le_bytes: "le_value (le_bytes n v) = v mod 256 ^ n"
proof (induction n arbitrary: v)
  case 0
  then show ?case by simp
next
  case (Suc n)
  have "unat (of_nat (v mod 256) :: u8) = v mod 256"
    by (simp add: unat_of_nat)
  with Suc.IH [of "v div 256"] show ?case
    by (simp add: mod_mult2_eq [of v 256 "256 ^ n"])
qed

lemma unat_u8: "unat (b :: u8) < 256"
  using unsigned_less [of b] by simp

lemma unat_u16: "unat (w :: u16) < 65536"
  using unsigned_less [of w] by simp

lemma le_value_bound: "le_value bs < 256 ^ length bs"
proof (induction bs)
  case Nil
  then show ?case by simp
next
  case (Cons b bs)
  have "unat b < 256" by (rule unat_u8)
  with Cons show ?case by simp
qed

lemma le_bytes_le_value: "length bs = n \<Longrightarrow> le_bytes n (le_value bs) = bs"
proof (induction n arbitrary: bs)
  case 0
  then show ?case by simp
next
  case (Suc n)
  then obtain b cs where bs: "bs = b # cs" and len: "length cs = n"
    by (cases bs) auto
  have "unat b < 256" by (rule unat_u8)
  then show ?case
    by (simp add: bs Suc.IH [OF len])
qed

section \<open>Exclusive or\<close>

unbundle bit_operations_syntax

lemma xor_cancel_right [simp]: "(x XOR k) XOR k = (x :: 'a :: len word)"
  by (simp add: xor.assoc)

lemma xor_right_inject [simp]: "(x XOR k = y XOR k) = (x = (y :: 'a :: len word))"
  by (metis xor_cancel_right)

lemma xor_left_inject [simp]: "(k XOR x = k XOR y) = (x = (y :: 'a :: len word))"
  by (simp add: xor.commute [of k])

end
