(* ===== verification/Rewind_Codec.thy ===== *)
theory Rewind_Codec
  imports RA_Prelude
begin

text \<open>
  The delta codec of the rewind buffer (\<^verbatim>\<open>managers/state_manager.c\<close>): the search for the next
  changed word (\<^verbatim>\<open>find_change\<close>, in its SSE2 and its portable form), for the next unchanged word
  (\<^verbatim>\<open>find_same\<close>), the compressor and the decompressor.  A pointer into a state buffer is the
  list of the 16-bit words from the pointee to the end of the allocation; reading past the
  allocation is \<^term>\<open>None\<close>.  The host is an x86-64: 8-byte \<^verbatim>\<open>size_t\<close>, unaligned access allowed.

  Proved here: both forms of \<^verbatim>\<open>find_change\<close> return the first differing word and stay inside the
  padded allocation of \<^verbatim>\<open>state_manager_raw_alloc\<close>; compressing always succeeds; decompressing
  the patch over the second state gives back the first; and the patch never exceeds
  \<^verbatim>\<open>state_manager_raw_maxsize\<close>.
\<close>

unbundle bit_operations_syntax

section \<open>find\_change\<close>

text \<open>\<^verbatim>\<open>while (*a == *b) { a++; b++; }\<close>, counting the words passed.\<close>

fun skip_equal :: "u16 list \<Rightarrow> u16 list \<Rightarrow> nat \<Rightarrow> nat option" where
  "skip_equal (x # xs) (y # ys) i = (if x = y then skip_equal xs ys (i + 1) else Some i)"
| "skip_equal _ _ i = None"

text \<open>
  The portable form: whole \<^verbatim>\<open>size_t\<close> steps (four words) while they are equal, then single words.
\<close>

fun find_change_from :: "u16 list \<Rightarrow> u16 list \<Rightarrow> nat \<Rightarrow> nat option" where
  "find_change_from (a0 # a1 # a2 # a3 # as) (b0 # b1 # b2 # b3 # bs) i =
     (if [a0, a1, a2, a3] = [b0, b1, b2, b3]
      then find_change_from as bs (i + 4)
      else skip_equal (a0 # a1 # a2 # a3 # as) (b0 # b1 # b2 # b3 # bs) i)"
| "find_change_from _ _ i = None"

definition find_change :: "u16 list \<Rightarrow> u16 list \<Rightarrow> nat option" where
  "find_change a b = find_change_from a b 0"

text \<open>
  The SSE2 form compares 16 bytes at a time as four 32-bit lanes; \<^verbatim>\<open>_mm_movemask_epi8\<close> gives one
  bit per byte, so an equal lane contributes four set bits.
\<close>

definition lane_mask :: "u16 \<Rightarrow> u16 \<Rightarrow> u16 \<Rightarrow> u16 \<Rightarrow> u32" where
  "lane_mask x0 x1 y0 y1 = (if x0 = y0 \<and> x1 = y1 then 0xF else 0)"

definition cmpeq_epi32_movemask :: "u16 list \<Rightarrow> u16 list \<Rightarrow> u32" where
  "cmpeq_epi32_movemask v w =
     lane_mask (v ! 0) (v ! 1) (w ! 0) (w ! 1)
     OR push_bit 4 (lane_mask (v ! 2) (v ! 3) (w ! 2) (w ! 3))
     OR push_bit 8 (lane_mask (v ! 4) (v ! 5) (w ! 4) (w ! 5))
     OR push_bit 12 (lane_mask (v ! 6) (v ! 7) (w ! 6) (w ! 7))"

text \<open>
  \<^verbatim>\<open>compat_ctz\<close> (\<^verbatim>\<open>compat/intrinsics.h\<close>) is \<^verbatim>\<open>__builtin_ctz\<close> with GCC, the index of the lowest set
  bit, and otherwise a test of the four low nibbles.  The search takes it as an argument.
\<close>

fun builtin_ctz_from :: "nat \<Rightarrow> nat \<Rightarrow> u32 \<Rightarrow> nat" where
  "builtin_ctz_from 0 i x = i"
| "builtin_ctz_from (Suc fuel) i x = (if bit x i then i else builtin_ctz_from fuel (Suc i) x)"

definition builtin_ctz :: "u32 \<Rightarrow> nat" where
  "builtin_ctz x = builtin_ctz_from 32 0 x"

definition compat_ctz :: "u32 \<Rightarrow> nat" where
  "compat_ctz x =
     (if x AND 0x000f \<noteq> 0 then 0
      else if x AND 0x00f0 \<noteq> 0 then 4
      else if x AND 0x0f00 \<noteq> 0 then 8
      else if x AND 0xf000 \<noteq> 0 then 12
      else 16)"

text \<open>The loop advances eight words at a time through the allocation, so its length is enough fuel.\<close>

fun find_change_sse2_from ::
  "(u32 \<Rightarrow> nat) \<Rightarrow> nat \<Rightarrow> u16 list \<Rightarrow> u16 list \<Rightarrow> nat \<Rightarrow> nat option" where
  "find_change_sse2_from ctz 0 a b i = None"
| "find_change_sse2_from ctz (Suc fuel) a b i = do {
     v0 \<leftarrow> mem_read a i 8;
     v1 \<leftarrow> mem_read b i 8;
     let mask = cmpeq_epi32_movemask v0 v1;
     if mask \<noteq> 0xffff
     then do {
       let ret = ((2 * i) OR ctz (NOT mask)) div 2;
       x \<leftarrow> mem_get a ret;
       y \<leftarrow> mem_get b ret;
       Some (ret OR (if x = y then 1 else 0))
     }
     else find_change_sse2_from ctz fuel a b (i + 8)
   }"

definition find_change_sse2 :: "(u32 \<Rightarrow> nat) \<Rightarrow> u16 list \<Rightarrow> u16 list \<Rightarrow> nat option" where
  "find_change_sse2 ctz a b = find_change_sse2_from ctz (length a) a b 0"

section \<open>find\_same\<close>

text \<open>\<^verbatim>\<open>while (*a_big != *b_big)\<close> on 32-bit words, that is on pairs.\<close>

fun skip_different :: "u16 list \<Rightarrow> u16 list \<Rightarrow> nat \<Rightarrow> nat option" where
  "skip_different (a0 # a1 # as) (b0 # b1 # bs) i =
     (if [a0, a1] \<noteq> [b0, b1] then skip_different as bs (i + 2) else Some i)"
| "skip_different _ _ i = None"

definition find_same :: "u16 list \<Rightarrow> u16 list \<Rightarrow> nat option" where
  "find_same a b = do {
     i \<leftarrow> skip_different a b 0;
     if i \<noteq> 0 then do {
       x \<leftarrow> mem_get a (i - 1);
       y \<leftarrow> mem_get b (i - 1);
       Some (if x = y then i - 1 else i)
     } else Some i
   }"

section \<open>Sizes and allocation\<close>

definition state_manager_raw_maxsize :: "nat \<Rightarrow> nat" where
  "state_manager_raw_maxsize uncomp =
     (let maxcblkcover = 65535 * 2;
          uncomp16 = (uncomp + 2 - 1) div 2 * 2;
          maxcblks = (uncomp + maxcblkcover - 1) div maxcblkcover
      in uncomp16 + maxcblks * 2 * 2 + 2 * 3)"

definition state_manager_raw_alloc :: "nat \<Rightarrow> u16 \<Rightarrow> u16 list" where
  "state_manager_raw_alloc len uniq =
     (let len16 = (len + 2 - 1) div 2 * 2
      in (replicate ((len16 + 2 * 4 + 16) div 2) 0)[len16 div 2 + 3 := uniq])"

section \<open>Compressor and decompressor\<close>

text \<open>
  \<^verbatim>\<open>old16\<close> and \<^verbatim>\<open>new16\<close> move together, so they are the two suffixes \<open>old\<close> and \<open>new\<close>; \<open>num16s\<close> is
  the \<^verbatim>\<open>size_t\<close> counter (its subtraction wraps).  The result is the list of words written at
  \<^verbatim>\<open>patch\<close>; \<^term>\<open>None\<close> is a read outside a buffer or a loop that does not end.
\<close>

partial_function (option) raw_compress_loop ::
  "u16 list \<Rightarrow> u16 list \<Rightarrow> nat \<Rightarrow> u16 list \<Rightarrow> u16 list option" where
  "raw_compress_loop old new num16s out =
     (if num16s = 0 then Some (out @ [0, 0, 0])
      else Option.bind (find_change old new) (\<lambda>skip.
        if skip \<ge> num16s then Some (out @ [0, 0, 0])
        else
          let old = drop skip old; new = drop skip new; num16s = usub num16s skip in
          if skip > 65535 then
            let skip = (if skip > 4294967295 then 4294967295 else skip) in
            raw_compress_loop old new num16s
              (out @ [0, of_nat skip, of_nat (skip div 65536)])
          else
            Option.bind (find_same old new) (\<lambda>changed.
              let changed = (if changed > 65535 then 65535 else changed) in
              Option.bind (mem_read old 0 changed) (\<lambda>ws.
                raw_compress_loop (drop changed old) (drop changed new) (usub num16s changed)
                  (out @ [of_nat changed, of_nat skip] @ ws)))))"

definition state_manager_raw_compress ::
  "u16 list \<Rightarrow> u16 list \<Rightarrow> nat \<Rightarrow> u16 list option" where
  "state_manager_raw_compress src dst len = raw_compress_loop src dst ((len + 2 - 1) div 2) []"

text \<open>
  The decompressor: \<open>patch\<close> is the pointer \<^verbatim>\<open>patch16\<close>, \<open>pos\<close> the index of \<^verbatim>\<open>out16\<close> in the state
  buffer.  Every iteration reads at least one word of the patch.
\<close>

function raw_decompress :: "u16 list \<Rightarrow> u16 list \<Rightarrow> nat \<Rightarrow> u16 list option" where
  "raw_decompress patch data pos =
     (case patch of
        [] \<Rightarrow> None
      | numchanged # p \<Rightarrow>
          if numchanged \<noteq> 0 then
            (case p of
               [] \<Rightarrow> None
             | skip # p \<Rightarrow>
                 (let out16 = pos + unat skip in
                  case mem_read p 0 (unat numchanged) of
                    None \<Rightarrow> None
                  | Some ws \<Rightarrow>
                      (case mem_write data out16 ws of
                         None \<Rightarrow> None
                       | Some data' \<Rightarrow>
                           raw_decompress (drop (unat numchanged) p) data'
                             (out16 + unat numchanged))))
          else
            (case p of
               lo # hi # p \<Rightarrow>
                 (let numunchanged = unat lo + 65536 * unat hi in
                  if numunchanged = 0 then Some data
                  else raw_decompress p data (pos + numunchanged))
             | _ \<Rightarrow> None))"
  by pat_completeness auto
termination
  by (relation "measure (\<lambda>(patch, data, pos). length patch)") auto

declare raw_decompress.simps [simp del]

definition state_manager_raw_decompress :: "u16 list \<Rightarrow> u16 list \<Rightarrow> u16 list option" where
  "state_manager_raw_decompress patch data = raw_decompress patch data 0"

section \<open>The searches find the first difference\<close>

definition first_diff :: "u16 list \<Rightarrow> u16 list \<Rightarrow> nat \<Rightarrow> bool" where
  "first_diff a b d \<longleftrightarrow> d < length a \<and> d < length b \<and> take d a = take d b \<and> a ! d \<noteq> b ! d"

lemma skip_equal_first_diff: "first_diff a b d \<Longrightarrow> skip_equal a b i = Some (i + d)"
proof (induction a b i arbitrary: d rule: skip_equal.induct)
  case (1 x xs y ys i)
  show ?case
  proof (cases d)
    case 0
    with 1 show ?thesis by (simp add: first_diff_def)
  next
    case (Suc d')
    with 1 show ?thesis by (simp add: first_diff_def)
  qed
qed (auto simp: first_diff_def)

lemma find_change_from_first_diff:
  "first_diff a b d \<Longrightarrow> d + 3 < length a \<Longrightarrow> d + 3 < length b \<Longrightarrow>
     find_change_from a b i = Some (i + d)"
proof (induction a b i arbitrary: d rule: find_change_from.induct)
  case (1 a0 a1 a2 a3 as b0 b1 b2 b3 bs i)
  let ?a = "a0 # a1 # a2 # a3 # as" and ?b = "b0 # b1 # b2 # b3 # bs"
  show ?case
  proof (cases "[a0, a1, a2, a3] = [b0, b1, b2, b3]")
    case True
    then have "4 \<le> d" using "1.prems"(1)
      by (auto simp: first_diff_def nth_Cons' split: if_splits)
    then obtain e where d: "d = 4 + e" using le_Suc_ex by blast
    have fd: "first_diff as bs e"
      using "1.prems"(1) by (simp add: first_diff_def d eval_nat_numeral)
    have "find_change_from as bs (i + 4) = Some (i + 4 + e)"
      by (rule "1.IH" [OF True fd]) (use "1.prems" in \<open>simp_all add: d\<close>)
    then show ?thesis using True by (simp add: d)
  next
    case False
    then have "find_change_from ?a ?b i = skip_equal ?a ?b i"
      by (simp only: find_change_from.simps if_False)
    then show ?thesis using skip_equal_first_diff [OF "1.prems"(1)] by simp
  qed
qed (auto simp: first_diff_def)

definition sentinel :: "nat \<Rightarrow> u16 list \<Rightarrow> u16 list \<Rightarrow> bool" where
  "sentinel n a b \<longleftrightarrow>
     length a = length b \<and> n + 12 \<le> length a \<and>
     a ! n = b ! n \<and> a ! (n + 1) = b ! (n + 1) \<and> a ! (n + 2) = b ! (n + 2) \<and>
     a ! (n + 3) \<noteq> b ! (n + 3)"

lemma sentinel_drop: "sentinel n a b \<Longrightarrow> k \<le> n \<Longrightarrow> sentinel (n - k) (drop k a) (drop k b)"
  by (auto simp: sentinel_def)

lemma first_diff_ex:
  assumes "j < length a" and "length a = length b" and "a ! j \<noteq> b ! j"
  obtains d where "d \<le> j" and "first_diff a b d"
proof -
  let ?d = "LEAST i. a ! i \<noteq> b ! i"
  have d: "a ! ?d \<noteq> b ! ?d" using assms(3) by (rule LeastI)
  have le: "?d \<le> j" using assms(3) by (rule Least_le)
  have "take ?d a = take ?d b"
    using le assms(1,2) by (intro nth_equalityI) (auto dest: not_less_Least)
  with d le assms(1,2) have "first_diff a b ?d"
    by (simp add: first_diff_def)
  with le show thesis by (rule that)
qed

lemma sentinel_first_diff:
  assumes "sentinel n a b"
  obtains d where "first_diff a b d" and "d < n \<or> d = n + 3"
proof -
  from assms have j: "n + 3 < length a" "length a = length b" "a ! (n + 3) \<noteq> b ! (n + 3)"
    by (auto simp: sentinel_def)
  obtain d where le: "d \<le> n + 3" and fd: "first_diff a b d"
    by (rule first_diff_ex [OF j])
  have "d \<noteq> n \<and> d \<noteq> n + 1 \<and> d \<noteq> n + 2"
    using fd assms by (auto simp: first_diff_def sentinel_def)
  with le have "d < n \<or> d = n + 3" by linarith
  with fd show thesis by (rule that)
qed

lemma find_change_first_diff:
  assumes "sentinel n a b" and "first_diff a b d" and "d \<le> n + 3"
  shows "find_change a b = Some d"
  using find_change_from_first_diff [OF assms(2), of 0] assms
  by (simp add: find_change_def sentinel_def)

definition lanes :: "bool \<Rightarrow> bool \<Rightarrow> bool \<Rightarrow> bool \<Rightarrow> u32" where
  "lanes e0 e1 e2 e3 = (if e0 then 0xF else 0) OR push_bit 4 (if e1 then 0xF else 0)
     OR push_bit 8 (if e2 then 0xF else 0) OR push_bit 12 (if e3 then 0xF else 0)"

definition lane_ctz :: "(u32 \<Rightarrow> nat) \<Rightarrow> bool" where
  "lane_ctz ctz \<longleftrightarrow> (\<forall>e0 e1 e2 e3. \<not> (e0 \<and> e1 \<and> e2 \<and> e3) \<longrightarrow>
     ctz (NOT (lanes e0 e1 e2 e3)) =
       (if \<not> e0 then 0 else if \<not> e1 then 4 else if \<not> e2 then 8 else 12))"

lemma lane_ctz_builtin: "lane_ctz builtin_ctz" by code_simp
lemma lane_ctz_compat: "lane_ctz compat_ctz" by code_simp
lemma lanes_full: "lanes e0 e1 e2 e3 = 0xffff \<longleftrightarrow> e0 \<and> e1 \<and> e2 \<and> e3"
  by (cases e0; cases e1; cases e2; cases e3; simp add: lanes_def)
lemma cmpeq_epi32_movemask_eq_lanes:
  "cmpeq_epi32_movemask v w =
     lanes (v ! 0 = w ! 0 \<and> v ! 1 = w ! 1) (v ! 2 = w ! 2 \<and> v ! 3 = w ! 3)
       (v ! 4 = w ! 4 \<and> v ! 5 = w ! 5) (v ! 6 = w ! 6 \<and> v ! 7 = w ! 7)"
  by (simp add: cmpeq_epi32_movemask_def lane_mask_def lanes_def)

lemma or_multiple_of_16:
  fixes k c :: nat
  assumes "c < 16"
  shows "(16 * k) OR c = 16 * k + c"
proof -
  have "(push_bit 4 k) AND (take_bit 4 c) = (0 :: nat)"
    by (rule bit_eqI) (auto simp: bit_and_iff bit_push_bit_iff bit_take_bit_iff)
  moreover have "take_bit 4 c = c" using assms by (simp add: take_bit_nat_eq_self)
  ultimately have "(16 * k) AND c = 0" by (simp add: push_bit_eq_mult mult.commute)
  then show ?thesis by (simp add: disjunctive_add_eq_or)
qed

lemma even_or_one:
  fixes r :: nat
  assumes "even r"
  shows "r OR 1 = r + 1"
proof -
  have "r OR 1 = r + of_bool (even r)" by (rule or_one_eq)
  also have "of_bool (even r) = (1 :: nat)" using assms by simp
  finally show ?thesis .
qed

text \<open>One iteration of the SSE2 loop, at an offset that is a multiple of eight words.\<close>

lemma sse2_chunk_equal:
  assumes "first_diff a b d" and "i + 8 \<le> d"
  shows "cmpeq_epi32_movemask (take 8 (drop i a)) (take 8 (drop i b)) = 0xffff"
proof -
  have eq: "a ! j = b ! j" if "j < d" for j
    using assms(1) that by (metis first_diff_def nth_take)
  show ?thesis
    unfolding cmpeq_epi32_movemask_eq_lanes lanes_full
    using assms by (auto simp: first_diff_def eq)
qed

lemma sse2_chunk_diff:
  assumes fd: "first_diff a b d" and "length a = length b" and "i + 8 \<le> length a"
    and "i \<le> d" and "d < i + 8" and "even i" and ctz: "lane_ctz ctz"
  shows "cmpeq_epi32_movemask (take 8 (drop i a)) (take 8 (drop i b)) \<noteq> 0xffff"
    and "ctz (NOT (cmpeq_epi32_movemask (take 8 (drop i a)) (take 8 (drop i b)))) = 4 * ((d - i) div 2)"
proof -
  have eq: "a ! j = b ! j" if "j < d" for j
    using fd that by (metis first_diff_def nth_take)
  have ne: "a ! d \<noteq> b ! d" using fd by (simp add: first_diff_def)
  define e where "e k \<longleftrightarrow> a ! (i + 2 * k) = b ! (i + 2 * k) \<and> a ! (i + (2 * k + 1)) = b ! (i + (2 * k + 1))" for k
  have mask: "cmpeq_epi32_movemask (take 8 (drop i a)) (take 8 (drop i b)) =
      lanes (e 0) (e 1) (e 2) (e 3)"
    using assms(2,3) by (simp add: cmpeq_epi32_movemask_eq_lanes e_def)
  let ?l = "(d - i) div 2"
  have lt: "e k" if "k < ?l" for k
    unfolding e_def using that by (intro conjI eq) linarith+
  have nl: "\<not> e ?l"
  proof (cases "even (d - i)")
    case True
    then have "i + 2 * ?l = d" using assms(4) by simp
    then show ?thesis using ne by (metis e_def)
  next
    case False
    then have "2 * ?l + 1 = d - i" by (rule odd_two_times_div_two_succ)
    then have "i + (2 * ?l + 1) = d" using assms(4) by linarith
    then show ?thesis using ne by (metis e_def)
  qed
  have l: "?l = 0 \<or> ?l = 1 \<or> ?l = 2 \<or> ?l = 3" using assms(5) by linarith
  then have not_all: "\<not> (e 0 \<and> e 1 \<and> e 2 \<and> e 3)" using nl by metis
  then show "cmpeq_epi32_movemask (take 8 (drop i a)) (take 8 (drop i b)) \<noteq> 0xffff"
    by (simp add: mask lanes_full)
  have "ctz (NOT (lanes (e 0) (e 1) (e 2) (e 3))) =
      (if \<not> e 0 then 0 else if \<not> e 1 then 4 else if \<not> e 2 then 8 else 12)"
    using ctz not_all unfolding lane_ctz_def by blast
  also have "\<dots> = 4 * ?l"
    using l nl lt [of 0] lt [of 1] lt [of 2] by auto
  finally show "ctz (NOT (cmpeq_epi32_movemask (take 8 (drop i a)) (take 8 (drop i b)))) = 4 * ?l"
    by (simp add: mask)
qed

lemma find_change_sse2_from_first_diff:
  assumes "first_diff a b d" and "length a = length b" and "d + 8 \<le> length a" and "lane_ctz ctz"
    and "i \<le> d" and "8 dvd i" and "d < i + 8 * fuel"
  shows "find_change_sse2_from ctz fuel a b i = Some d"
  using assms(5-7)
proof (induction fuel arbitrary: i)
  case 0
  then show ?case by simp
next
  case (Suc fuel)
  have b8: "i + 8 \<le> length a" using Suc.prems assms(3) by linarith
  show ?case
  proof (cases "i + 8 \<le> d")
    case True
    have "find_change_sse2_from ctz fuel a b (i + 8) = Some d"
      by (rule Suc.IH) (use True Suc.prems in auto)
    then show ?thesis
      using b8 assms(2) by (simp add: mem_simps sse2_chunk_equal [OF assms(1) True] Let_def)
  next
    case False
    have ev: "even i" using Suc.prems(2) by presburger
    note c = sse2_chunk_diff [OF assms(1,2) b8 Suc.prems(1) _ ev assms(4)]
    obtain k where k: "i = 8 * k" using Suc.prems(2) by (elim dvdE)
    define l where "l = (d - i) div 2"
    note c = c [folded l_def]
    have "((2 * i) OR (4 * l)) = 2 * i + 4 * l"
      using or_multiple_of_16 [of "4 * l" k] False by (simp add: k l_def)
    then have ret: "((2 * i) OR (4 * l)) div 2 = i + 2 * l" by simp
    have le: "i + 2 * l \<le> d" "d \<le> i + 2 * l + 1" using Suc.prems(1) unfolding l_def by linarith+
    have eq: "a ! j = b ! j" if "j < d" for j
      using assms(1) that by (metis first_diff_def nth_take)
    have ne: "a ! d \<noteq> b ! d" using assms(1) by (simp add: first_diff_def)
    have fin: "(i + 2 * l) OR (if a ! (i + 2 * l) = b ! (i + 2 * l) then 1 else 0) = d"
    proof (cases "d = i + 2 * l")
      case True
      then show ?thesis using ne by simp
    next
      case False
      then have d: "d = i + 2 * l + 1" using le by linarith
      then have "a ! (i + 2 * l) = b ! (i + 2 * l)" by (intro eq) linarith
      then show ?thesis using ev d by (simp add: even_or_one del: One_nat_def)
    qed
    have "i + 2 * l < length a" using le assms(3) by linarith
    moreover have "i + 2 * l < length b" using calculation assms(2) by simp
    moreover have "d < i + 8" using False by linarith
    ultimately show ?thesis
      using b8 assms(2) c [OF \<open>d < i + 8\<close>] fin by (simp add: mem_simps Let_def ret del: One_nat_def)
  qed
qed

lemma find_change_sse2_first_diff:
  assumes "sentinel n a b" and "first_diff a b d" and "d \<le> n + 3" and "lane_ctz ctz"
  shows "find_change_sse2 ctz a b = Some d"
  unfolding find_change_sse2_def
  by (rule find_change_sse2_from_first_diff [OF assms(2) _ _ assms(4)])
    (use assms in \<open>auto simp: sentinel_def\<close>)

section \<open>The next unchanged word\<close>

definition same_pair :: "u16 list \<Rightarrow> u16 list \<Rightarrow> nat \<Rightarrow> bool" where
  "same_pair a b e \<longleftrightarrow> a ! e = b ! e \<and> a ! (e + 1) = b ! (e + 1)"

lemma skip_different_stops:
  assumes "even e" and "e + 1 < length a" and "length a = length b" and "same_pair a b e"
  shows "\<exists>e0 \<le> e. even e0 \<and> skip_different a b i = Some (i + e0) \<and> same_pair a b e0"
  using assms
proof (induction a b i arbitrary: e rule: skip_different.induct)
  case (1 a0 a1 as b0 b1 bs i)
  show ?case
  proof (cases "[a0, a1] \<noteq> [b0, b1]")
    case True
    then have "e \<noteq> 0" using "1.prems" by (cases e) (auto simp: same_pair_def)
    then have "2 \<le> e" using "1.prems"(1) by presburger
    then obtain f where e: "e = f + 2" by (metis le_add_diff_inverse2)
    then have "even f" using "1.prems"(1) by simp
    have "\<exists>e0 \<le> f. even e0 \<and> skip_different as bs (i + 2) = Some (i + 2 + e0) \<and> same_pair as bs e0"
      by (rule "1.IH" [OF True \<open>even f\<close>]) (use "1.prems" in \<open>auto simp: e same_pair_def\<close>)
    then obtain e0 where "e0 \<le> f" "even e0" "skip_different as bs (i + 2) = Some (i + 2 + e0)"
      "same_pair as bs e0" by blast
    then show ?thesis using True
      by (intro exI [of _ "e0 + 2"]) (auto simp: e same_pair_def)
  next
    case False
    then show ?thesis by (intro exI [of _ 0]) (auto simp: same_pair_def)
  qed
qed auto

lemma find_same_sentinel:
  assumes s: "sentinel n a b" and d0: "a ! 0 \<noteq> b ! 0" and n0: "0 < n"
  obtains c where "find_same a b = Some c" and "1 \<le> c" and "c \<le> n"
    and "a ! c = b ! c" and "a ! (c + 1) = b ! (c + 1)"
proof -
  define e where "e = (if even n then n else n + 1)"
  have "even e" by (simp add: e_def)
  moreover have "e + 1 < length a" "length a = length b" "same_pair a b e"
    using s by (auto simp: sentinel_def e_def same_pair_def)
  ultimately obtain e0 where e0: "e0 \<le> e" "even e0" "skip_different a b 0 = Some e0" "same_pair a b e0"
    using skip_different_stops [of e a b 0] by auto
  have "e0 \<noteq> 0" using e0(4) d0 by (cases e0) (auto simp: same_pair_def)
  then have e2: "2 \<le> e0" using e0(2) by (cases "e0 = 1") auto
  have len: "e0 + 1 < length a" "length b = length a" using s e0(1) by (auto simp: sentinel_def e_def split: if_splits)
  define c where "c = (if a ! (e0 - 1) = b ! (e0 - 1) then e0 - 1 else e0)"
  have "find_same a b = Some c"
    using e0(3) e2 len by (simp add: find_same_def mem_simps c_def)
  moreover have "1 \<le> c"
  proof -
    have "e0 - 1 \<le> c" by (simp add: c_def)
    with e2 show ?thesis by linarith
  qed
  moreover have "c \<le> n"
  proof (cases "e0 = n + 1")
    case True
    then show ?thesis using s by (simp add: c_def sentinel_def)
  next
    case False
    then have "e0 \<le> n" using e0(1) by (simp add: e_def split: if_splits)
    moreover have "c \<le> e0" by (simp add: c_def)
    ultimately show ?thesis by simp
  qed
  moreover have "a ! c = b ! c \<and> a ! (c + 1) = b ! (c + 1)"
    using e0(4) e2 by (auto simp: c_def same_pair_def)
  ultimately show thesis using that by blast
qed

section \<open>What a patch does\<close>

definition patches :: "nat \<Rightarrow> u16 list \<Rightarrow> u16 list \<Rightarrow> u16 list \<Rightarrow> bool" where
  "patches n a b p \<longleftrightarrow>
     (\<forall>rest data pos. pos + n \<le> length data \<longrightarrow> take n (drop pos data) = take n b \<longrightarrow>
        raw_decompress (p @ rest) data pos = Some (take pos data @ take n a @ drop (pos + n) data))"

lemma unat_of_nat_u16: "unat (of_nat k :: u16) = k mod 65536"
  by (simp add: unat_of_nat)

lemma patches_end: "take n a = take n b \<Longrightarrow> patches n a b [0, 0, 0]"
  unfolding patches_def
proof (intro allI impI)
  fix rest data pos
  assume "take n a = take n b" "pos + n \<le> length data" "take n (drop pos data) = take n b"
  then have "take pos data @ take n a @ drop (pos + n) data = data"
    by (metis append_assoc append_take_drop_id take_add)
  then show "raw_decompress ([0, 0, 0] @ rest) data pos =
      Some (take pos data @ take n a @ drop (pos + n) data)"
    by (simp add: raw_decompress.simps)
qed

lemma patches_skip:
  assumes k: "0 < k" "k \<le> n" "k < 2 ^ 32" and eq: "take k a = take k b"
    and p: "patches (n - k) (drop k a) (drop k b) p"
  shows "patches n a b ([0, of_nat k, of_nat (k div 65536)] @ p)"
  unfolding patches_def
proof (intro allI impI)
  fix rest data pos
  assume len: "pos + n \<le> length data" and d: "take n (drop pos data) = take n b"
  have u: "unat (of_nat k :: u16) + 65536 * unat (of_nat (k div 65536) :: u16) = k"
    using k(3) by (simp add: unat_of_nat_u16)
  have nz: "unat (of_nat k :: u16) + 65536 * unat (of_nat (k div 65536) :: u16) \<noteq> 0"
    using k(1) by (simp only: u)
  have n: "n = k + (n - k)" using k by simp
  have dk: "take k (drop pos data) = take k b"
    using d k by (metis min.absorb1 take_take)
  have rem: "take (n - k) (drop (pos + k) data) = take (n - k) (drop k b)"
    using d by (metis add.commute drop_drop drop_take)
  have "raw_decompress (([0, of_nat k, of_nat (k div 65536)] @ p) @ rest) data pos =
      raw_decompress (p @ rest) data
        (pos + (unat (of_nat k :: u16) + 65536 * unat (of_nat (k div 65536) :: u16)))"
    using nz by (subst raw_decompress.simps) (auto simp: Let_def)
  also have "\<dots> = raw_decompress (p @ rest) data (pos + k)" by (simp only: u)
  also have "\<dots> = Some (take (pos + k) data @ take (n - k) (drop k a) @ drop (pos + k + (n - k)) data)"
    using p len k rem unfolding patches_def by simp
  also have "take (pos + k) data = take pos data @ take k a"
    using dk eq by (simp add: take_add)
  also have "(take pos data @ take k a) @ take (n - k) (drop k a) @ drop (pos + k + (n - k)) data =
      take pos data @ take n a @ drop (pos + n) data"
    using k by (simp add: take_add [symmetric])
  finally show "raw_decompress (([0, of_nat k, of_nat (k div 65536)] @ p) @ rest) data pos =
      Some (take pos data @ take n a @ drop (pos + n) data)" .
qed

lemma patches_block:
  assumes sc: "s + c \<le> n" "s \<le> 65535" "1 \<le> c" "c \<le> 65535" and la: "n \<le> length a"
    and eq: "take s a = take s b"
    and p: "patches (n - (s + c)) (drop (s + c) a) (drop (s + c) b) p"
  shows "patches n a b ([of_nat c, of_nat s] @ take c (drop s a) @ p)"
  unfolding patches_def
proof (intro allI impI)
  fix rest data pos
  assume len: "pos + n \<le> length data" and d: "take n (drop pos data) = take n b"
  let ?ws = "take c (drop s a)"
  let ?data = "take (pos + s) data @ ?ws @ drop (pos + s + c) data"
  have u: "unat (of_nat c :: u16) = c" "unat (of_nat s :: u16) = s" "(of_nat c :: u16) \<noteq> 0"
    using sc by (auto simp: unat_of_nat_u16 simp flip: unat_eq_zero)
  have lw: "length ?ws = c" using la sc by simp
  have wr: "mem_write data (pos + s) ?ws = Some ?data"
    using len sc lw by (simp add: mem_write_def)
  have rd: "mem_read (?ws @ p @ rest) 0 c = Some ?ws"
    using lw by (simp add: mem_read_def)
  have drp: "drop c (?ws @ p @ rest) = p @ rest" using lw by simp
  have n: "n = s + (c + (n - (s + c)))" using sc by simp
  have ds: "take s (drop pos data) = take s b"
    using d sc by (metis add_leD1 min.absorb1 take_take)
  have "take (n - (s + c)) (drop (pos + s + c) ?data) = take (n - (s + c)) (drop (pos + s + c) data)"
    using len sc lw by simp
  also have "\<dots> = take (n - (s + c)) (drop (s + c) b)"
    using d by (metis add.assoc add.commute drop_drop drop_take)
  finally have rem: "take (n - (s + c)) (drop (pos + s + c) ?data) = take (n - (s + c)) (drop (s + c) b)" .
  have "raw_decompress (([of_nat c, of_nat s] @ ?ws @ p) @ rest) data pos =
      raw_decompress (p @ rest) ?data (pos + s + c)"
    using u wr rd drp by (subst raw_decompress.simps) (simp add: Let_def)
  also have "\<dots> = Some (take (pos + s + c) ?data @ take (n - (s + c)) (drop (s + c) a) @
      drop (pos + s + c + (n - (s + c))) ?data)"
    using p len sc lw rem unfolding patches_def by simp
  also have "drop (pos + s + c + (n - (s + c))) ?data = drop (pos + n) data"
    using len sc lw by (simp add: add.commute)
  also have "take (pos + s + c) ?data = take (pos + s) data @ ?ws"
    using len sc lw by simp
  also have "take (pos + s) data = take pos data @ take s a"
    using ds eq by (simp add: take_add)
  also have "((take pos data @ take s a) @ ?ws) @ take (n - (s + c)) (drop (s + c) a) @ drop (pos + n) data =
      take pos data @ take n a @ drop (pos + n) data"
    by (subst (3) n) (simp add: take_add add.commute)
  finally show "raw_decompress (([of_nat c, of_nat s] @ ?ws @ p) @ rest) data pos =
      Some (take pos data @ take n a @ drop (pos + n) data)" .
qed

section \<open>How long a patch can be\<close>

definition words_bound :: "nat \<Rightarrow> nat" where
  "words_bound n = n + 2 * ((n + 65534) div 65535) + 3"

text \<open>The tighter bound that holds when the next skip is at least two words.\<close>

definition words_bound_skip :: "nat \<Rightarrow> nat" where
  "words_bound_skip n = n + 2 * (n div 65535) + 3"

definition next_skip_long :: "nat \<Rightarrow> u16 list \<Rightarrow> u16 list \<Rightarrow> bool" where
  "next_skip_long n a b \<longleftrightarrow> (\<forall>d. first_diff a b d \<longrightarrow> d < n \<longrightarrow> 2 \<le> d)"

definition compresses :: "nat \<Rightarrow> u16 list \<Rightarrow> u16 list \<Rightarrow> u16 list \<Rightarrow> bool" where
  "compresses n a b p \<longleftrightarrow>
     (\<forall>out. raw_compress_loop a b n out = Some (out @ p)) \<and> patches n a b p \<and>
     length p \<le> words_bound n \<and> (next_skip_long n a b \<longrightarrow> length p \<le> words_bound_skip n)"

lemma words_bound_ge: "words_bound_skip n \<le> words_bound n"
  by (simp add: words_bound_def words_bound_skip_def div_le_mono)

lemma words_bound_long: "65535 < d \<Longrightarrow> d < n \<Longrightarrow> 3 + words_bound (n - d) \<le> words_bound_skip n"
  using div_le_mono [of "n - d + 65534" n 65535]
  by (simp add: words_bound_def words_bound_skip_def)

lemma words_bound_block:
  assumes "1 \<le> c" and "d + c \<le> n"
  shows "2 + c + words_bound_skip (n - (d + c)) \<le> words_bound n"
    and "2 \<le> d \<Longrightarrow> 2 + c + words_bound_skip (n - (d + c)) \<le> words_bound_skip n"
proof -
  have "(n - (d + c)) div 65535 + 1 \<le> (n + 65534) div 65535"
    using div_le_mono [of "n - (d + c) + 65535" "n + 65534" 65535] assms by simp
  then show "2 + c + words_bound_skip (n - (d + c)) \<le> words_bound n"
    using assms by (simp add: words_bound_def words_bound_skip_def)
  have "(n - (d + c)) div 65535 \<le> n div 65535" by (simp add: div_le_mono)
  then show "2 + c + words_bound_skip (n - (d + c)) \<le> words_bound_skip n" if "2 \<le> d"
    using assms that by (simp add: words_bound_skip_def)
qed

lemma words_bound_capped:
  assumes "d + 65535 \<le> n"
  shows "2 + 65535 + words_bound (n - (d + 65535)) \<le> words_bound n"
    and "2 \<le> d \<Longrightarrow> 2 + 65535 + words_bound (n - (d + 65535)) \<le> words_bound_skip n"
proof -
  from assms obtain m where n: "n = d + 65535 + m" using le_Suc_ex by blast
  have "(m + 65534) div 65535 + 1 \<le> (n + 65534) div 65535"
    using div_le_mono [of "m + 65534 + 65535" "n + 65534" 65535] by (simp add: n)
  then show "2 + 65535 + words_bound (n - (d + 65535)) \<le> words_bound n"
    by (simp add: words_bound_def n)
  have "(m + 65534) div 65535 \<le> n div 65535"
    using div_le_mono [of "m + 65534" n 65535] by (simp add: n)
  then show "2 + 65535 + words_bound (n - (d + 65535)) \<le> words_bound_skip n" if "2 \<le> d"
    using that by (simp add: words_bound_def words_bound_skip_def n)
qed

text \<open>The steps of the compressor, each prepending its words to the rest of the patch.\<close>

lemma first_diff_takeD: "first_diff a b d \<Longrightarrow> k \<le> d \<Longrightarrow> take k a = take k b"
  unfolding first_diff_def by (metis min.absorb1 take_take)

lemma compresses_end:
  assumes s: "sentinel n a b" and fd: "first_diff a b d" and d: "n \<le> d" "d \<le> n + 3"
  shows "compresses n a b [0, 0, 0]"
proof -
  have "find_change a b = Some d" by (rule find_change_first_diff [OF s fd d(2)])
  then have "raw_compress_loop a b n out = Some (out @ [0, 0, 0])" for out
    using d(1) by (subst raw_compress_loop.simps) simp
  moreover have "patches n a b [0, 0, 0]"
    by (rule patches_end [OF first_diff_takeD [OF fd d(1)]])
  ultimately show ?thesis
    by (simp add: compresses_def words_bound_def words_bound_skip_def)
qed

lemma compresses_skip:
  assumes s: "sentinel n a b" and fd: "first_diff a b d" and d: "65535 < d" "d < n" and n: "n < 2 ^ 32"
    and p: "compresses (n - d) (drop d a) (drop d b) p"
  shows "compresses n a b ([0, of_nat d, of_nat (d div 65536)] @ p)"
proof -
  have "find_change a b = Some d"
    by (rule find_change_first_diff [OF s fd]) (use d in simp)
  then have "raw_compress_loop a b n out =
      raw_compress_loop (drop d a) (drop d b) (n - d) (out @ [0, of_nat d, of_nat (d div 65536)])" for out
    using d n by (subst raw_compress_loop.simps) (simp add: Let_def)
  then have "raw_compress_loop a b n out = Some (out @ [0, of_nat d, of_nat (d div 65536)] @ p)" for out
    using p by (simp add: compresses_def)
  moreover have "patches n a b ([0, of_nat d, of_nat (d div 65536)] @ p)"
    by (rule patches_skip) (use d n p first_diff_takeD [OF fd] in \<open>auto simp: compresses_def\<close>)
  moreover have "length ([0, of_nat d, of_nat (d div 65536)] @ p) \<le> words_bound_skip n"
    using p words_bound_long [OF d] by (simp add: compresses_def)
  ultimately show ?thesis
    using words_bound_ge [of n] unfolding compresses_def by auto
qed

lemma compresses_block:
  assumes s: "sentinel n a b" and fd: "first_diff a b d" and d: "d \<le> 65535" "d < n"
    and fs: "find_same (drop d a) (drop d b) = Some c0" and c: "c = min c0 65535" "1 \<le> c" "d + c \<le> n"
    and same: "c0 \<le> 65535 \<Longrightarrow> next_skip_long (n - (d + c)) (drop (d + c) a) (drop (d + c) b)"
    and p: "compresses (n - (d + c)) (drop (d + c) a) (drop (d + c) b) p"
  shows "compresses n a b ([of_nat c, of_nat d] @ take c (drop d a) @ p)"
proof -
  let ?q = "[of_nat c, of_nat d] @ take c (drop d a) @ p"
  have la: "n \<le> length a" using s by (simp add: sentinel_def)
  have "find_change a b = Some d"
    by (rule find_change_first_diff [OF s fd]) (use d in simp)
  moreover have "mem_read (drop d a) 0 c = Some (take c (drop d a))"
    using la c by (simp add: mem_read_def)
  moreover have "c = (if c0 > 65535 then 65535 else c0)" using c(1) by simp
  ultimately have "raw_compress_loop a b n out =
      raw_compress_loop (drop (d + c) a) (drop (d + c) b) (n - (d + c))
        (out @ [of_nat c, of_nat d] @ take c (drop d a))" for out
    using d c(2,3) fs by (subst raw_compress_loop.simps) (simp add: Let_def add.commute)
  then have "raw_compress_loop a b n out = Some (out @ ?q)" for out
    using p by (simp add: compresses_def)
  moreover have "patches n a b ?q"
    by (rule patches_block) (use d c p la first_diff_takeD [OF fd] in \<open>auto simp: compresses_def\<close>)
  moreover have lq: "length ?q = 2 + c + length p" using la c(3) by simp
  moreover have "2 + c + length p \<le> words_bound n \<and> (2 \<le> d \<longrightarrow> 2 + c + length p \<le> words_bound_skip n)"
  proof (cases "c0 \<le> 65535")
    case True
    then have "length p \<le> words_bound_skip (n - (d + c))"
      using p same by (simp add: compresses_def)
    then show ?thesis using words_bound_block [OF c(2,3)] by linarith
  next
    case False
    then have "c = 65535" using c(1) by simp
    moreover have "length p \<le> words_bound (n - (d + c))" using p by (simp add: compresses_def)
    ultimately show ?thesis using words_bound_capped [of d n] c(3) by auto
  qed
  moreover have "next_skip_long n a b \<Longrightarrow> 2 \<le> d" using fd d by (simp add: next_skip_long_def)
  ultimately show ?thesis unfolding compresses_def by metis
qed

lemma raw_compress_loop_total:
  "sentinel n a b \<Longrightarrow> n < 2 ^ 32 \<Longrightarrow> \<exists>p. compresses n a b p"
proof (induction n arbitrary: a b rule: less_induct)
  case (less n)
  obtain d where fd: "first_diff a b d" and d: "d < n \<or> d = n + 3"
    by (rule sentinel_first_diff [OF less.prems(1)])
  show ?case
  proof (cases "d < n")
    case False
    then have "n \<le> d" "d \<le> n + 3" using d by auto
    then show ?thesis using compresses_end [OF less.prems(1) fd] by blast
  next
    case dn: True
    show ?thesis
    proof (cases "65535 < d")
      case True
      have "sentinel (n - d) (drop d a) (drop d b)"
        using sentinel_drop [OF less.prems(1)] dn by simp
      then have "\<exists>p. compresses (n - d) (drop d a) (drop d b) p"
        by (rule less.IH [rotated]) (use True dn less.prems(2) in auto)
      then obtain p where "compresses (n - d) (drop d a) (drop d b) p" by blast
      then show ?thesis using compresses_skip [OF less.prems(1) fd True dn less.prems(2)] by blast
    next
      case False
      have s: "sentinel (n - d) (drop d a) (drop d b)"
        using sentinel_drop [OF less.prems(1)] dn by simp
      have "drop d a ! 0 \<noteq> drop d b ! 0" using fd by (simp add: first_diff_def)
      then obtain c0 where c0: "find_same (drop d a) (drop d b) = Some c0" "1 \<le> c0" "c0 \<le> n - d"
        "drop d a ! c0 = drop d b ! c0" "drop d a ! (c0 + 1) = drop d b ! (c0 + 1)"
        using find_same_sentinel [OF s] dn by auto
      define c where "c = min c0 65535"
      have c: "1 \<le> c" "d + c \<le> n" using c0 dn by (auto simp: c_def)
      have "sentinel (n - (d + c)) (drop (d + c) a) (drop (d + c) b)"
        by (rule sentinel_drop [OF less.prems(1) c(2)])
      then have "\<exists>p. compresses (n - (d + c)) (drop (d + c) a) (drop (d + c) b) p"
        by (rule less.IH [rotated]) (use c less.prems(2) in auto)
      then obtain p where p: "compresses (n - (d + c)) (drop (d + c) a) (drop (d + c) b) p" by blast
      have same: "next_skip_long (n - (d + c)) (drop (d + c) a) (drop (d + c) b)" if "c0 \<le> 65535"
      proof -
        have len: "d + c0 + 1 < length a" "length b = length a"
          using less.prems(1) c0(3) dn by (auto simp: sentinel_def)
        then have "drop (d + c) a ! 0 = drop (d + c) b ! 0" "drop (d + c) a ! 1 = drop (d + c) b ! 1"
          using c0 that by (simp_all add: c_def)
        then show ?thesis
          unfolding next_skip_long_def first_diff_def by (metis One_nat_def less_2_cases not_less)
      qed
      show ?thesis
        using compresses_block [OF less.prems(1) fd _ dn c0(1) c_def c same p] False by auto
    qed
  qed
qed

section \<open>State buffers\<close>

text \<open>
  A state buffer is an allocation of \<^verbatim>\<open>state_manager_raw_alloc\<close> in which the core has written a
  state of \<open>len\<close> bytes: the words after the state are as allocated.
\<close>

definition num16s :: "nat \<Rightarrow> nat" where
  "num16s len = (len + 2 - 1) div 2"

definition is_block :: "nat \<Rightarrow> u16 \<Rightarrow> u16 list \<Rightarrow> bool" where
  "is_block len uniq blk \<longleftrightarrow>
     length blk = length (state_manager_raw_alloc len uniq) \<and>
     drop (num16s len) blk = drop (num16s len) (state_manager_raw_alloc len uniq)"

lemma num16s_6: "num16s 6 = 3"
  by (simp add: num16s_def)

lemma length_alloc: "length (state_manager_raw_alloc len u) = num16s len + 12"
  by (simp add: state_manager_raw_alloc_def num16s_def Let_def)

lemma is_block_alloc: "is_block len u (state_manager_raw_alloc len u)"
  by (simp add: is_block_def)

lemma nth_block:
  assumes "is_block len u blk" and "j < 12"
  shows "blk ! (num16s len + j) = (if j = 3 then u else 0)"
proof -
  have "drop (num16s len) blk ! j = drop (num16s len) (state_manager_raw_alloc len u) ! j"
    using assms(1) by (simp add: is_block_def)
  moreover have "length blk = num16s len + 12"
    using assms(1) by (simp add: is_block_def length_alloc)
  moreover have "state_manager_raw_alloc len u ! (num16s len + j) = (if j = 3 then u else 0)"
    using assms(2) by (simp add: state_manager_raw_alloc_def num16s_def Let_def nth_list_update)
  ultimately show ?thesis using length_alloc [of len u] by simp
qed

lemma blocks_sentinel:
  assumes "is_block len u a" and "is_block len v b" and "u \<noteq> v"
  shows "sentinel (num16s len) a b"
proof -
  have "a ! (num16s len + j) = b ! (num16s len + j) \<longleftrightarrow> j \<noteq> 3" if "j < 12" for j
    using nth_block [OF assms(1) that] nth_block [OF assms(2) that] assms(3) by simp
  from this [of 0] this [of 1] this [of 2] this [of 3] show ?thesis
    using assms(1,2) by (simp add: sentinel_def is_block_def length_alloc)
qed

lemma words_bound_maxsize: "2 * words_bound (num16s len) = state_manager_raw_maxsize len"
proof -
  have "(num16s len + 65534) div 65535 = (len + 131069) div 131070"
  proof -
    have "num16s len + 65534 = (len + 131069) div 2" by (simp add: num16s_def)
    then show ?thesis by (simp add: div_mult2_eq [symmetric])
  qed
  then show ?thesis
    by (simp add: words_bound_def state_manager_raw_maxsize_def num16s_def Let_def)
qed

lemma compress_blocks:
  assumes "is_block len u src" and "is_block len v dst" and "u \<noteq> v" and "len \<le> 2 ^ 32"
  obtains p where "state_manager_raw_compress src dst len = Some p"
    and "patches (num16s len) src dst p" and "2 * length p \<le> state_manager_raw_maxsize len"
proof -
  have "num16s len < 2 ^ 32" using assms(4) by (simp add: num16s_def)
  then obtain p where p: "compresses (num16s len) src dst p"
    using raw_compress_loop_total [OF blocks_sentinel [OF assms(1-3)]] by blast
  then have "state_manager_raw_compress src dst len = Some p"
    by (simp add: compresses_def state_manager_raw_compress_def num16s_def)
  with p show thesis
    using that words_bound_maxsize [of len] by (simp add: compresses_def)
qed

lemma decompress_blocks:
  assumes "is_block len u src" and "is_block len v dst" and "patches (num16s len) src dst p"
  shows "state_manager_raw_decompress (p @ rest) dst =
    Some (take (num16s len) src @ drop (num16s len) dst)"
  using assms(3) unfolding state_manager_raw_decompress_def patches_def
  using assms(2) by (simp add: is_block_def length_alloc)

lemma is_block_decompressed:
  assumes "is_block len u src" and "is_block len v dst"
  shows "is_block len v (take (num16s len) src @ drop (num16s len) dst)"
  using assms by (simp add: is_block_def length_alloc)

section \<open>Correctness\<close>

text \<open>C2. Whatever two states the two buffers hold, compressing succeeds without leaving the
  allocations, and applying the patch to the second buffer restores the first state (the patch turns
  \<^verbatim>\<open>dst\<close> into \<^verbatim>\<open>src\<close>) and keeps the words after it.  Whatever follows the patch in the ring buffer
  is not read.\<close>

theorem rewind_delta_roundtrip:
  assumes "is_block len u src" and "is_block len v dst" and "u \<noteq> v" and "len \<le> 2 ^ 32"
  shows "\<exists>patch. state_manager_raw_compress src dst len = Some patch \<and>
    state_manager_raw_decompress (patch @ rest) dst =
      Some (take (num16s len) src @ drop (num16s len) dst)"
proof -
  obtain p where "state_manager_raw_compress src dst len = Some p" "patches (num16s len) src dst p"
    by (rule compress_blocks [OF assms])
  then show ?thesis using decompress_blocks [OF assms(1,2)] by blast
qed

theorem rewind_delta_roundtrip_witness:
  "\<exists>patch. state_manager_raw_compress
      (7 # tl (state_manager_raw_alloc 6 0)) (state_manager_raw_alloc 6 1) 6 = Some patch \<and>
    state_manager_raw_decompress (patch @ [9]) (state_manager_raw_alloc 6 1) =
      Some (take 3 (7 # tl (state_manager_raw_alloc 6 0)) @ drop 3 (state_manager_raw_alloc 6 1))"
proof (rule rewind_delta_roundtrip [of 6 0 _ 1, unfolded num16s_6])
  show "is_block 6 0 (7 # tl (state_manager_raw_alloc 6 0))" by code_simp
  show "is_block 6 1 (state_manager_raw_alloc 6 1)" by (rule is_block_alloc)
qed simp_all

text \<open>The patch never needs more than \<^verbatim>\<open>state_manager_raw_maxsize(len)\<close> bytes, so the space the ring
  buffer reserves for a frame is enough.\<close>

theorem rewind_patch_fits:
  assumes "is_block len u src" and "is_block len v dst" and "u \<noteq> v" and "len \<le> 2 ^ 32"
    and "state_manager_raw_compress src dst len = Some patch"
  shows "2 * length patch \<le> state_manager_raw_maxsize len"
proof -
  obtain p where "state_manager_raw_compress src dst len = Some p"
    "2 * length p \<le> state_manager_raw_maxsize len"
    by (rule compress_blocks [OF assms(1-4)])
  then show ?thesis using assms(5) by simp
qed

theorem rewind_patch_fits_witness:
  "state_manager_raw_compress (state_manager_raw_alloc 6 0) (state_manager_raw_alloc 6 1) 6 =
     Some [0, 0, 0] \<and> 2 * length [0, 0, 0 :: u16] \<le> state_manager_raw_maxsize 6"
proof -
  have alloc: "state_manager_raw_alloc 6 0 = [0, 0, 0, 0, 0, 0, 0, 0, 0, 0, 0, 0, 0, 0, 0]"
    "state_manager_raw_alloc 6 1 = [0, 0, 0, 0, 0, 0, 1, 0, 0, 0, 0, 0, 0, 0, 0]"
    by code_simp+
  have "state_manager_raw_compress (state_manager_raw_alloc 6 0) (state_manager_raw_alloc 6 1) 6 =
      Some [0, 0, 0]"
    by (simp add: alloc state_manager_raw_compress_def raw_compress_loop.simps find_change_def)
  then show ?thesis
    using rewind_patch_fits [OF is_block_alloc [of 6 0] is_block_alloc [of 6 1]] by simp
qed

text \<open>C8. The SSE2 search and the portable search agree, with either \<^verbatim>\<open>compat_ctz\<close>: both return the
  index of the first word in which the rest of the buffers differ.\<close>

theorem find_change_equivalent:
  assumes "is_block len u a" and "is_block len v b" and "u \<noteq> v" and "k \<le> num16s len"
  shows "\<exists>d. find_change (drop k a) (drop k b) = Some d \<and>
    find_change_sse2 compat_ctz (drop k a) (drop k b) = Some d \<and>
    find_change_sse2 builtin_ctz (drop k a) (drop k b) = Some d \<and>
    a ! (k + d) \<noteq> b ! (k + d) \<and> take d (drop k a) = take d (drop k b)"
proof -
  have s: "sentinel (num16s len - k) (drop k a) (drop k b)"
    by (rule sentinel_drop [OF blocks_sentinel [OF assms(1-3)] assms(4)])
  obtain d where fd: "first_diff (drop k a) (drop k b) d"
    and "d < num16s len - k \<or> d = num16s len - k + 3"
    by (rule sentinel_first_diff [OF s])
  then have d: "d \<le> num16s len - k + 3" by linarith
  show ?thesis
    using find_change_first_diff [OF s fd d] fd
      find_change_sse2_first_diff [OF s fd d lane_ctz_compat]
      find_change_sse2_first_diff [OF s fd d lane_ctz_builtin]
    by (auto simp: first_diff_def)
qed

theorem find_change_equivalent_witness:
  "find_change_sse2 compat_ctz (state_manager_raw_alloc 6 0) (state_manager_raw_alloc 6 1) =
     find_change (state_manager_raw_alloc 6 0) (state_manager_raw_alloc 6 1)"
  using find_change_equivalent [OF is_block_alloc [of 6 0] is_block_alloc [of 6 1], of 0] by auto

end
