(* ===== verification/Rewind_Ring.thy ===== *)
theory Rewind_Ring
  imports Rewind_Codec "HOL-Library.Sublist"
begin

text \<open>
  The rewind buffer itself (\<^verbatim>\<open>managers/state_manager.c\<close>): a ring of compressed frames in one byte
  buffer.  A frame at offset \<open>p\<close> is \<^verbatim>\<open>size_t nextstart\<close>, the patch, and \<^verbatim>\<open>size_t thisstart\<close>; the next
  frame starts right after \<^verbatim>\<open>thisstart\<close>, or at offset 8 when the frame ends near the edge, its
  \<^verbatim>\<open>thisstart\<close> then being stored at offset 0.  \<^verbatim>\<open>head\<close> and \<^verbatim>\<open>tail\<close> are offsets into the buffer.

  Proved here: with a buffer of at least two maximal frames the ring implements a stack of states.
  A pop returns the state pushed last and not yet popped; a push keeps every state except possibly
  the oldest ones; no operation leaves the buffer, and the loop that makes room ends.
\<close>

section \<open>State\<close>

record state_manager =
  sm_data :: bytes
  sm_capacity :: nat
  sm_head :: nat
  sm_tail :: nat
  sm_thisblock :: "u16 list"
  sm_nextblock :: "u16 list"
  sm_blocksize :: nat
  sm_maxcompsize :: nat
  sm_entries :: u32
  sm_thisblock_valid :: bool

section \<open>Words in bytes\<close>

definition words_bytes :: "u16 list \<Rightarrow> bytes" where
  "words_bytes ws = concat (map (\<lambda>w. le_bytes 2 (unat w)) ws)"

fun bytes_words :: "bytes \<Rightarrow> u16 list" where
  "bytes_words (a # b # bs) = of_nat (unat a + 256 * unat b) # bytes_words bs"
| "bytes_words _ = []"

definition write_size_t :: "bytes \<Rightarrow> nat \<Rightarrow> nat \<Rightarrow> bytes option" where
  "write_size_t m ptr val = mem_write m ptr (le_bytes 8 val)"

definition read_size_t :: "bytes \<Rightarrow> nat \<Rightarrow> nat option" where
  "read_size_t m ptr = map_option le_value (mem_read m ptr 8)"

section \<open>Operations\<close>

text \<open>
  \<^verbatim>\<open>state_manager_new\<close>: \<open>state_data\<close> is what \<^verbatim>\<open>malloc(buffer_size)\<close> returned, with whatever bytes the
  allocation holds; the two block allocations are taken to succeed.
\<close>

definition state_manager_new :: "nat \<Rightarrow> nat \<Rightarrow> bytes option \<Rightarrow> state_manager option" where
  "state_manager_new state_size buffer_size state_data =
     (case state_data of
        None \<Rightarrow> None
      | Some d \<Rightarrow> Some
          \<lparr> sm_data = d,
            sm_capacity = buffer_size,
            sm_head = 8,
            sm_tail = 8,
            sm_thisblock = state_manager_raw_alloc state_size 0,
            sm_nextblock = state_manager_raw_alloc state_size 1,
            sm_blocksize = (state_size + 2 - 1) div 2 * 2,
            sm_maxcompsize = state_manager_raw_maxsize state_size + 8 * 2,
            sm_entries = 0,
            sm_thisblock_valid = False \<rparr>)"

text \<open>
  \<^verbatim>\<open>state_manager_pop\<close>: the returned flag; the out parameter \<^verbatim>\<open>*data\<close> is \<^verbatim>\<open>thisblock\<close> on every path.
\<close>

definition state_manager_pop :: "state_manager \<Rightarrow> (bool \<times> state_manager) option" where
  "state_manager_pop st =
     (if sm_thisblock_valid st
      then Some (True, st\<lparr>sm_thisblock_valid := False, sm_entries := sm_entries st - 1\<rparr>)
      else if sm_head st = sm_tail st then Some (False, st)
      else do {
        start \<leftarrow> read_size_t (sm_data st) (sm_head st - 8);
        out \<leftarrow> state_manager_raw_decompress
                 (bytes_words (drop (start + 8) (sm_data st))) (sm_thisblock st);
        Some (True, st\<lparr>sm_head := start, sm_thisblock := out, sm_entries := sm_entries st - 1\<rparr>)
      })"

text \<open>\<^verbatim>\<open>state_manager_push_where\<close>: the caller is to write its state into \<^verbatim>\<open>nextblock\<close>.\<close>

definition state_manager_push_where :: "state_manager \<Rightarrow> state_manager option" where
  "state_manager_push_where st =
     (if \<not> sm_thisblock_valid st
      then do {
        (popped, st) \<leftarrow> state_manager_pop st;
        Some (if popped
              then st\<lparr>sm_thisblock_valid := True, sm_entries := sm_entries st + 1\<rparr>
              else st)
      }
      else Some st)"

text \<open>The \<^verbatim>\<open>recheckcapacity\<close> loop: frames are dropped at the tail until a maximal frame fits.\<close>

definition sm_remaining :: "state_manager \<Rightarrow> nat" where
  "sm_remaining st =
     usub (usub (usub (sm_tail st + sm_capacity st) 8) (sm_head st)) 1 mod sm_capacity st + 1"

partial_function (option) recheckcapacity :: "state_manager \<Rightarrow> state_manager option" where
  "recheckcapacity st =
     (if sm_remaining st \<le> sm_maxcompsize st
      then Option.bind (read_size_t (sm_data st) (sm_tail st)) (\<lambda>t.
        recheckcapacity (st\<lparr>sm_tail := t, sm_entries := sm_entries st - 1\<rparr>))
      else Some st)"

definition sm_swap_blocks :: "state_manager \<Rightarrow> state_manager" where
  "sm_swap_blocks st =
     st\<lparr>sm_thisblock := sm_nextblock st, sm_nextblock := sm_thisblock st,
        sm_entries := sm_entries st + 1\<rparr>"

text \<open>The frame is compressed in place at the head; then its end is chosen, and both links are set.\<close>

definition sm_store_frame :: "state_manager \<Rightarrow> state_manager option" where
  "sm_store_frame st = do {
     ws \<leftarrow> state_manager_raw_compress (sm_thisblock st) (sm_nextblock st) (sm_blocksize st);
     d \<leftarrow> mem_write (sm_data st) (sm_head st + 8) (words_bytes ws);
     let compressed = sm_head st + 8 + 2 * length ws;
     (t, compressed) \<leftarrow>
       (if compressed + sm_maxcompsize st > sm_capacity st
        then if sm_tail st = 8
             then do { t \<leftarrow> read_size_t d (sm_tail st); Some (t, 0) }
             else Some (sm_tail st, 0)
        else Some (sm_tail st, compressed));
     d \<leftarrow> write_size_t d compressed (sm_head st);
     d \<leftarrow> write_size_t d (sm_head st) (compressed + 8);
     Some (st\<lparr>sm_data := d, sm_tail := t, sm_head := compressed + 8\<rparr>)
   }"

definition state_manager_push_do :: "state_manager \<Rightarrow> state_manager option" where
  "state_manager_push_do st =
     (if sm_thisblock_valid st
      then if sm_capacity st < 8 + sm_maxcompsize st then Some st
           else do {
             st \<leftarrow> recheckcapacity st;
             st \<leftarrow> sm_store_frame st;
             Some (sm_swap_blocks st)
           }
      else Some (sm_swap_blocks (st\<lparr>sm_thisblock_valid := True\<rparr>)))"

text \<open>
  A push as the callers do it: \<^verbatim>\<open>push_where\<close>, the core serializes its state (\<open>ws\<close>) into the buffer
  it was given, \<^verbatim>\<open>push_do\<close>.
\<close>

definition sm_serialize_into :: "u16 list \<Rightarrow> state_manager \<Rightarrow> state_manager" where
  "sm_serialize_into ws st =
     st\<lparr>sm_nextblock := ws @ drop (length ws) (sm_nextblock st)\<rparr>"

definition sm_push :: "u16 list \<Rightarrow> state_manager \<Rightarrow> state_manager option" where
  "sm_push ws st = do {
     st \<leftarrow> state_manager_push_where st;
     state_manager_push_do (sm_serialize_into ws st)
   }"

section \<open>A stack of states kept as deltas\<close>

text \<open>
  \<open>undo_chain turns c ps ss\<close>: starting from the state \<open>c\<close>, the patches \<open>ps\<close> lead through the
  states \<open>ss\<close>, one patch each.
\<close>

fun undo_chain :: "('p \<Rightarrow> 'c \<Rightarrow> 'c \<Rightarrow> bool) \<Rightarrow> 'c \<Rightarrow> 'p list \<Rightarrow> 'c list \<Rightarrow> bool" where
  "undo_chain turns c [] ss = (ss = [])"
| "undo_chain turns c (p # ps) [] = False"
| "undo_chain turns c (p # ps) (s # ss) = (turns p c s \<and> undo_chain turns s ps ss)"

text \<open>
  What the ring needs from the codec: on two usable buffers compression gives a patch that turns
  the content of the second into the content of the first.
\<close>

locale delta_codec =
  fixes usable :: "'b \<Rightarrow> 'b \<Rightarrow> bool"
    and content :: "'b \<Rightarrow> 'c"
    and compress :: "'b \<Rightarrow> 'b \<Rightarrow> 'p option"
    and turns :: "'p \<Rightarrow> 'c \<Rightarrow> 'c \<Rightarrow> bool"
  assumes compress_total: "usable a b \<Longrightarrow> \<exists>p. compress a b = Some p"
    and compress_turns: "usable a b \<Longrightarrow> compress a b = Some p \<Longrightarrow> turns p (content b) (content a)"
begin

lemma undo_push:
  assumes "usable this new" and "undo_chain turns (content this) ps ss"
  obtains p where "compress this new = Some p"
    and "undo_chain turns (content new) (p # ps) (content this # ss)"
proof -
  obtain p where p: "compress this new = Some p"
    using compress_total [OF assms(1)] by blast
  with compress_turns [OF assms(1)] assms(2)
  have "undo_chain turns (content new) (p # ps) (content this # ss)" by simp
  with p show thesis by (rule that)
qed

lemma undo_pop:
  assumes "undo_chain turns c (p # ps) ss"
  obtains s ss' where "ss = s # ss'" and "turns p c s" and "undo_chain turns s ps ss'"
  using assms by (cases ss) auto

lemma undo_length: "undo_chain turns c ps ss \<Longrightarrow> length ss = length ps"
  by (induction turns c ps ss rule: undo_chain.induct) auto

text \<open>Dropping the oldest patches drops the oldest states.\<close>

lemma undo_take: "undo_chain turns c ps ss \<Longrightarrow> undo_chain turns c (take k ps) (take k ss)"
proof (induction turns c ps ss arbitrary: k rule: undo_chain.induct)
  case (3 turns c p ps s ss)
  then show ?case by (cases k) auto
qed auto

end

text \<open>The codec of this code: words of the state, and patches that may be followed by anything.\<close>

definition usable_blocks :: "nat \<Rightarrow> u16 list \<Rightarrow> u16 list \<Rightarrow> bool" where
  "usable_blocks len a b \<longleftrightarrow> len \<le> 2 ^ 32 \<and>
     ((is_block len 0 a \<and> is_block len 1 b) \<or> (is_block len 1 a \<and> is_block len 0 b))"

definition patch_turns :: "nat \<Rightarrow> u16 list \<Rightarrow> u16 list \<Rightarrow> u16 list \<Rightarrow> bool" where
  "patch_turns len p c s \<longleftrightarrow> length s = num16s len \<and> 2 * length p \<le> state_manager_raw_maxsize len \<and>
     (\<forall>blk rest. length blk = num16s len + 12 \<longrightarrow> take (num16s len) blk = c \<longrightarrow>
        state_manager_raw_decompress (p @ rest) blk = Some (s @ drop (num16s len) blk))"

lemma usable_blocksD:
  assumes "usable_blocks len a b"
  obtains u v where "is_block len u a" and "is_block len v b" and "u \<noteq> v" and "len \<le> 2 ^ 32"
  using assms unfolding usable_blocks_def by (metis zero_neq_one)

interpretation rewind_codec: delta_codec "usable_blocks len" "take (num16s len)"
  "\<lambda>a b. state_manager_raw_compress a b len" "patch_turns len"
proof
  fix a b assume "usable_blocks len a b"
  then obtain u v where uv: "is_block len u a" "is_block len v b" "u \<noteq> v" "len \<le> 2 ^ 32"
    by (rule usable_blocksD)
  obtain p where c: "state_manager_raw_compress a b len = Some p" "patches (num16s len) a b p"
    "2 * length p \<le> state_manager_raw_maxsize len"
    by (rule compress_blocks [OF uv])
  show "\<exists>p. state_manager_raw_compress a b len = Some p" using c by blast
  fix q assume "state_manager_raw_compress a b len = Some q"
  then have q: "q = p" using c(1) by simp
  have len: "length a = num16s len + 12" "length b = num16s len + 12"
    using uv by (auto simp: is_block_def length_alloc)
  show "patch_turns len q (take (num16s len) b) (take (num16s len) a)"
    using c(2,3) len
    by (auto simp: patch_turns_def q patches_def state_manager_raw_decompress_def)
qed

section \<open>Frames in memory\<close>

type_synonym frame = "nat \<times> u16 list \<times> nat"

lemma length_words_bytes [simp]: "length (words_bytes ws) = 2 * length ws"
  by (induction ws) (auto simp: words_bytes_def)

lemma bytes_words_words_bytes: "bytes_words (words_bytes ws @ rest) = ws @ bytes_words rest"
proof (induction ws)
  case Nil
  then show ?case by (simp add: words_bytes_def)
next
  case (Cons w ws)
  have v: "unat w mod 256 + 256 * (unat w div 256 mod 256) = unat w"
    using unat_u16 [of w] by (simp add: mod_mult2_eq [symmetric] mult.commute)
  have "words_bytes (w # ws) @ rest =
      of_nat (unat w mod 256) # of_nat (unat w div 256 mod 256) # (words_bytes ws @ rest)"
    by (simp add: words_bytes_def numeral_2_eq_2)
  moreover have "unat (of_nat (unat w mod 256) :: u8) = unat w mod 256"
    "unat (of_nat (unat w div 256 mod 256) :: u8) = unat w div 256 mod 256"
    by (simp_all add: unat_of_nat)
  ultimately show ?case using v Cons.IH by simp
qed

lemma read_write_size_t:
  assumes "write_size_t m p v = Some m'" and "v < 2 ^ 64"
  shows "read_size_t m' p = Some v"
  using assms mem_read_write_same [of m p "le_bytes 8 v" m' 8]
  by (simp add: write_size_t_def read_size_t_def le_value_le_bytes)

fun frame_at :: "bytes \<Rightarrow> frame \<Rightarrow> bool" where
  "frame_at d (p, ws, n) \<longleftrightarrow>
     read_size_t d p = Some n \<and> mem_read d (p + 8) (2 * length ws) = Some (words_bytes ws) \<and>
     8 \<le> n \<and> read_size_t d (n - 8) = Some p"

text \<open>A frame whose bytes lie outside \<open>[lo, hi)\<close> survives a write there.\<close>

fun avoids :: "nat \<Rightarrow> nat \<Rightarrow> frame \<Rightarrow> bool" where
  "avoids lo hi (p, ws, n) \<longleftrightarrow>
     (p + 8 + 2 * length ws \<le> lo \<or> hi \<le> p) \<and> (n \<le> lo \<or> hi + 8 \<le> n)"

lemma frame_at_mem_write:
  assumes "frame_at d f" and "mem_write d off xs = Some d'" and "avoids off (off + length xs) f"
  shows "frame_at d' f"
proof -
  obtain p ws n where f: "f = (p, ws, n)" by (cases f)
  have r: "mem_read d' q k = mem_read d q k" if "q + k \<le> off \<or> off + length xs \<le> q" for q k
    using mem_read_write_other [OF assms(2)] that by blast
  have "mem_read d' p 8 = mem_read d p 8" "mem_read d' (p + 8) (2 * length ws) = mem_read d (p + 8) (2 * length ws)"
    using assms(3) by (auto intro!: r simp: f)
  moreover have "mem_read d' (n - 8) 8 = mem_read d (n - 8) 8"
    using assms(1,3) by (intro r) (auto simp: f)
  ultimately show ?thesis using assms(1) by (simp add: f read_size_t_def)
qed

lemma frames_at_mem_write:
  assumes "\<forall>f\<in>set fs. frame_at d f" and "mem_write d off xs = Some d'"
    and "\<forall>f\<in>set fs. avoids off (off + length xs) f"
  shows "\<forall>f\<in>set fs. frame_at d' f"
  using assms frame_at_mem_write by blast

text \<open>Frames in a row: \<open>path t fs h\<close> links them from \<open>t\<close> to \<open>h\<close>.\<close>

fun path :: "nat \<Rightarrow> frame list \<Rightarrow> nat \<Rightarrow> bool" where
  "path p [] q = (p = q)"
| "path p ((s, ws, n) # fs) q = (s = p \<and> path n fs q)"

fun contiguous :: "frame \<Rightarrow> bool" where
  "contiguous (p, ws, n) = (n = p + 16 + 2 * length ws)"

lemma path_append: "path p (fs @ gs) q \<longleftrightarrow> (\<exists>m. path p fs m \<and> path m gs q)"
  by (induction p fs q rule: path.induct) auto

lemma contiguous_path_le: "path t fs h \<Longrightarrow> \<forall>f\<in>set fs. contiguous f \<Longrightarrow> t \<le> h"
  by (induction t fs h rule: path.induct) auto

lemma contiguous_path_bounds:
  "path t fs h \<Longrightarrow> \<forall>f\<in>set fs. contiguous f \<Longrightarrow> (p, ws, n) \<in> set fs \<Longrightarrow>
     t \<le> p \<and> n = p + 16 + 2 * length ws \<and> n \<le> h"
proof (induction t fs h rule: path.induct)
  case (2 t s ws' m fs h)
  have "m \<le> h" using 2 by (auto dest: contiguous_path_le)
  then show ?case using 2 by auto
qed auto

lemma contiguous_path_avoids:
  assumes "path t fs h" and "\<forall>f\<in>set fs. contiguous f" and "h \<le> lo \<or> hi \<le> t"
  shows "\<forall>f\<in>set fs. avoids lo hi f"
proof
  fix f assume f: "f \<in> set fs"
  obtain p ws n where e: "f = (p, ws, n)" by (cases f)
  show "avoids lo hi f"
    using contiguous_path_bounds [OF assms(1,2)] f assms(3) unfolding e by fastforce
qed

section \<open>The layout of the ring\<close>

definition linear :: "nat \<Rightarrow> nat \<Rightarrow> nat \<Rightarrow> frame list \<Rightarrow> nat \<Rightarrow> bool" where
  "linear cap mx t fs h \<longleftrightarrow>
     path t fs h \<and> (\<forall>f\<in>set fs. contiguous f) \<and> (t = 8 \<or> 16 < t) \<and> h + mx \<le> cap + 8"

text \<open>
  Once the writer has gone back to the start: \<open>hi\<close> are the frames from the tail, \<open>(pw, ws, 8)\<close> the one
  whose link to the start of the buffer is stored at offset 0, \<open>lo\<close> the frames after it.
\<close>

definition wrapped :: "nat \<Rightarrow> nat \<Rightarrow> nat \<Rightarrow> frame list \<Rightarrow> nat \<Rightarrow> bool" where
  "wrapped cap mx t fs h \<longleftrightarrow>
     (\<exists>hi pw ws lo. fs = hi @ (pw, ws, 8) # lo \<and>
        path t hi pw \<and> (\<forall>f\<in>set hi. contiguous f) \<and>
        path 8 lo h \<and> (\<forall>f\<in>set lo. contiguous f) \<and> h + 8 < t \<and> pw + mx \<le> cap + 8)"

definition layout :: "nat \<Rightarrow> nat \<Rightarrow> nat \<Rightarrow> frame list \<Rightarrow> nat \<Rightarrow> bool" where
  "layout cap mx t fs h \<longleftrightarrow> linear cap mx t fs h \<or> wrapped cap mx t fs h"

definition big_enough :: "nat \<Rightarrow> nat \<Rightarrow> bool" where
  "big_enough cap mx \<longleftrightarrow> 22 \<le> mx \<and> 2 * mx \<le> cap \<and> cap < 2 ^ 63"

definition remaining_at :: "nat \<Rightarrow> nat \<Rightarrow> nat \<Rightarrow> nat" where
  "remaining_at cap t h = usub (usub (usub (t + cap) 8) h) 1 mod cap + 1"

lemma linear_head: "linear cap mx t fs h \<Longrightarrow> 8 \<le> t \<and> t \<le> h"
  using contiguous_path_le [of t fs h] by (auto simp: linear_def)

lemma wrapped_head:
  assumes "wrapped cap mx t fs h"
  shows "8 \<le> h \<and> h + 8 < t \<and> t + mx \<le> cap + 8"
proof -
  obtain hi pw ws lo where w: "path t hi pw" "\<forall>f\<in>set hi. contiguous f"
    "path 8 lo h" "\<forall>f\<in>set lo. contiguous f" "h + 8 < t" "pw + mx \<le> cap + 8"
    using assms unfolding wrapped_def by blast
  have "t \<le> pw" "8 \<le> h" using contiguous_path_le w by blast+
  then show ?thesis using w by simp
qed

lemma remaining_linear:
  assumes "big_enough cap mx" and "linear cap mx t fs h"
  shows "remaining_at cap t h = cap + t - 8 - h"
proof -
  have h: "8 \<le> t" "t \<le> h" "h + mx \<le> cap + 8" "22 \<le> mx" "2 * mx \<le> cap"
    using linear_head [OF assms(2)] assms by (auto simp: linear_def big_enough_def)
  then have "usub (usub (usub (t + cap) 8) h) 1 = cap + t - 8 - h - 1" by simp
  moreover have "cap + t - 8 - h - 1 < cap" using h by simp
  ultimately show ?thesis using h by (simp add: remaining_at_def)
qed

lemma remaining_wrapped:
  assumes "big_enough cap mx" and "wrapped cap mx t fs h"
  shows "remaining_at cap t h = t - 8 - h"
proof -
  have h: "8 \<le> h" "h + 8 < t" "t + mx \<le> cap + 8" "22 \<le> mx"
    using wrapped_head [OF assms(2)] assms(1) by (auto simp: big_enough_def)
  then have e: "usub (usub (usub (t + cap) 8) h) 1 = cap + (t - 9 - h)" by simp
  have m: "(cap + x) mod cap = x" if "x < cap" for x using that by simp
  have "(cap + (t - 9 - h)) mod cap = t - 9 - h" by (rule m) (use h in linarith)
  then have "remaining_at cap t h = t - 9 - h + 1" unfolding remaining_at_def e by (simp only:)
  then show ?thesis using h by simp
qed

lemma remaining_empty: "big_enough cap mx \<Longrightarrow> layout cap mx t [] h \<Longrightarrow> mx < remaining_at cap t h"
  using remaining_linear [of cap mx t "[]" h]
  by (auto simp: layout_def linear_def wrapped_def big_enough_def)

text \<open>Dropping the frame at the tail.\<close>

lemma layout_drop_tail:
  assumes "layout cap mx t ((p, ws, n) # fs) h"
  shows "p = t \<and> layout cap mx n fs h"
proof -
  consider (l) "linear cap mx t ((p, ws, n) # fs) h" | (w) "wrapped cap mx t ((p, ws, n) # fs) h"
    using assms unfolding layout_def by blast
  then show ?thesis
  proof cases
    case l
    then have "linear cap mx n fs h" using linear_head [OF l] by (auto simp: linear_def)
    with l show ?thesis by (simp add: layout_def linear_def)
  next
    case w
    then obtain hi pw ws' lo where fs: "(p, ws, n) # fs = hi @ (pw, ws', 8) # lo"
      and hi: "path t hi pw" "\<forall>f\<in>set hi. contiguous f"
      and lo: "path 8 lo h" "\<forall>f\<in>set lo. contiguous f" "h + 8 < t" "pw + mx \<le> cap + 8"
      unfolding wrapped_def by blast
    show ?thesis
    proof (cases hi)
      case Nil
      with fs hi lo have "p = t" "n = 8" "fs = lo" "h + mx \<le> cap + 8" by auto
      then show ?thesis using lo by (simp add: layout_def linear_def)
    next
      case (Cons f hi')
      with fs have f: "f = (p, ws, n)" "fs = hi' @ (pw, ws', 8) # lo" by auto
      have "wrapped cap mx n fs h"
        unfolding wrapped_def using f hi lo Cons by (intro exI [of _ hi']) auto
      then show ?thesis using Cons f hi by (simp add: layout_def)
    qed
  qed
qed

text \<open>Taking the frame off at the head.\<close>

lemma layout_pop_head:
  assumes "layout cap mx t (fs @ [(p, ws, n)]) h"
  shows "n = h \<and> layout cap mx t fs p"
proof -
  consider (l) "linear cap mx t (fs @ [(p, ws, n)]) h" | (w) "wrapped cap mx t (fs @ [(p, ws, n)]) h"
    using assms unfolding layout_def by blast
  then show ?thesis
  proof cases
    case l
    then show ?thesis by (auto simp: layout_def linear_def path_append)
  next
    case w
    then obtain hi pw ws' lo where fs: "fs @ [(p, ws, n)] = hi @ (pw, ws', 8) # lo"
      and hi: "path t hi pw" "\<forall>f\<in>set hi. contiguous f"
      and lo: "path 8 lo h" "\<forall>f\<in>set lo. contiguous f" "h + 8 < t" "pw + mx \<le> cap + 8"
      unfolding wrapped_def by blast
    show ?thesis
    proof (cases lo rule: rev_cases)
      case Nil
      with fs lo hi have e: "fs = hi" "p = pw" "n = h" by auto
      have "8 \<le> h" using lo contiguous_path_le by blast
      then have "linear cap mx t fs p" using hi lo e by (simp add: linear_def) 
      then show ?thesis using e by (simp add: layout_def)
    next
      case (snoc lo' f)
      with fs have f: "f = (p, ws, n)" "fs = hi @ (pw, ws', 8) # lo'" by auto
      have lo': "path 8 lo' p" "n = h" "n = p + 16 + 2 * length ws"
        using lo f snoc by (auto simp: path_append)
      then have "wrapped cap mx t fs p"
        unfolding wrapped_def using f hi lo snoc by (intro exI [of _ hi]) auto
      then show ?thesis using lo' by (simp add: layout_def)
    qed
  qed
qed

section \<open>The operations on the ring\<close>

definition ring_inv :: "state_manager \<Rightarrow> frame list \<Rightarrow> bool" where
  "ring_inv st fs \<longleftrightarrow>
     length (sm_data st) = sm_capacity st \<and> big_enough (sm_capacity st) (sm_maxcompsize st) \<and>
     layout (sm_capacity st) (sm_maxcompsize st) (sm_tail st) fs (sm_head st) \<and>
     (\<forall>f\<in>set fs. frame_at (sm_data st) f)"

lemma sm_remaining_eq: "sm_remaining st = remaining_at (sm_capacity st) (sm_tail st) (sm_head st)"
  by (simp add: sm_remaining_def remaining_at_def)

text \<open>Making room: the loop ends, and drops frames only from the tail.\<close>

definition same_but_tail :: "state_manager \<Rightarrow> state_manager \<Rightarrow> bool" where
  "same_but_tail st st' \<longleftrightarrow> (\<exists>t e. st' = st\<lparr>sm_tail := t, sm_entries := e\<rparr>)"

lemma same_but_tail_refl: "same_but_tail st st"
  unfolding same_but_tail_def by (rule exI [of _ "sm_tail st"], rule exI [of _ "sm_entries st"]) simp

lemma recheckcapacity_ok:
  "ring_inv st fs \<Longrightarrow>
     \<exists>st' k. recheckcapacity st = Some st' \<and> same_but_tail st st' \<and> ring_inv st' (drop k fs) \<and>
       sm_maxcompsize st' < sm_remaining st'"
proof (induction fs arbitrary: st)
  case Nil
  then have "sm_maxcompsize st < sm_remaining st"
    using remaining_empty by (auto simp: ring_inv_def sm_remaining_eq)
  with Nil have "recheckcapacity st = Some st \<and> same_but_tail st st \<and> ring_inv st (drop 0 [])
      \<and> sm_maxcompsize st < sm_remaining st"
    by (auto simp: recheckcapacity.simps same_but_tail_refl)
  then show ?case by blast
next
  case (Cons f fs)
  show ?case
  proof (cases "sm_remaining st \<le> sm_maxcompsize st")
    case False
    with Cons.prems have "recheckcapacity st = Some st \<and> same_but_tail st st \<and> ring_inv st (drop 0 (f # fs))
      \<and> sm_maxcompsize st < sm_remaining st"
      by (auto simp: recheckcapacity.simps same_but_tail_refl)
    then show ?thesis by blast
  next
    case True
    obtain p ws n where f: "f = (p, ws, n)" by (cases f)
    let ?st = "st\<lparr>sm_tail := n, sm_entries := sm_entries st - 1\<rparr>"
    have lay: "p = sm_tail st \<and> layout (sm_capacity st) (sm_maxcompsize st) n fs (sm_head st)"
      using Cons.prems layout_drop_tail unfolding ring_inv_def f by blast
    have inv: "ring_inv ?st fs" using Cons.prems lay by (simp add: ring_inv_def)
    have "read_size_t (sm_data st) (sm_tail st) = Some n"
      using Cons.prems lay by (simp add: ring_inv_def f)
    then have step: "recheckcapacity st = recheckcapacity ?st"
      using True by (subst recheckcapacity.simps) simp
    from Cons.IH [OF inv] obtain st' k where st': "recheckcapacity ?st = Some st'"
      "same_but_tail ?st st'" "ring_inv st' (drop k fs)" "sm_maxcompsize st' < sm_remaining st'"
      by blast
    have "same_but_tail st st'" using st'(2) by (auto simp: same_but_tail_def)
    then show ?thesis using st' step by (intro exI [of _ st'] exI [of _ "Suc k"]) simp
  qed
qed

text \<open>Where the new frame goes: it fits, and the bytes written avoid every live frame.\<close>

lemma layout_push_contiguous:
  assumes b: "big_enough cap mx" and lay: "layout cap mx t fs h" and room: "mx < remaining_at cap t h"
    and c: "2 * length ws + 16 \<le> mx" and fit: "h + 8 + 2 * length ws + mx \<le> cap"
  shows "layout cap mx t (fs @ [(h, ws, h + 16 + 2 * length ws)]) (h + 16 + 2 * length ws)"
    and "\<forall>f\<in>set fs. avoids h (h + 16 + 2 * length ws) f"
proof -
  let ?f = "(h, ws, h + 16 + 2 * length ws)" and ?h = "h + 16 + 2 * length ws"
  consider (l) "linear cap mx t fs h" | (w) "wrapped cap mx t fs h"
    using lay unfolding layout_def by blast
  then have "layout cap mx t (fs @ [?f]) ?h \<and> (\<forall>f\<in>set fs. avoids h ?h f)"
  proof cases
    case l
    then have p: "path t fs h" "\<forall>f\<in>set fs. contiguous f" "t = 8 \<or> 16 < t"
      unfolding linear_def by blast+
    have "path t (fs @ [?f]) ?h" unfolding path_append using p(1) by (intro exI [of _ h]) simp
    moreover have "\<forall>f\<in>set (fs @ [?f]). contiguous f" using p(2) by simp
    moreover have "?h + mx \<le> cap + 8" using fit by simp
    ultimately have "linear cap mx t (fs @ [?f]) ?h"
      unfolding linear_def using p(3) by blast
    moreover have "\<forall>f\<in>set fs. avoids h ?h f"
      by (rule contiguous_path_avoids [OF p(1,2)]) simp
    ultimately show ?thesis by (simp add: layout_def)
  next
    case w
    then obtain hi pw ws' lo where fs: "fs = hi @ (pw, ws', 8) # lo"
      and hi: "path t hi pw" "\<forall>f\<in>set hi. contiguous f"
      and lo: "path 8 lo h" "\<forall>f\<in>set lo. contiguous f" "h + 8 < t" "pw + mx \<le> cap + 8"
      unfolding wrapped_def by blast
    have tpw: "t \<le> pw" "8 \<le> h" using contiguous_path_le hi lo by blast+
    have room': "?h + 8 < t" using room remaining_wrapped [OF b w] c by simp
    have "wrapped cap mx t (fs @ [?f]) ?h"
      unfolding wrapped_def fs using hi lo room'
      by (intro exI [of _ hi] exI [of _ pw] exI [of _ ws'] exI [of _ "lo @ [?f]"]) (auto simp: path_append)
    moreover have "\<forall>f\<in>set hi. avoids h ?h f"
      by (rule contiguous_path_avoids [OF hi]) (use room' in simp)
    moreover have "\<forall>f\<in>set lo. avoids h ?h f"
      by (rule contiguous_path_avoids [OF lo(1,2)]) simp
    moreover have "avoids h ?h (pw, ws', 8)" using tpw room' by simp
    ultimately show ?thesis unfolding layout_def fs by (auto simp del: avoids.simps)
  qed
  then show "layout cap mx t (fs @ [?f]) ?h" "\<forall>f\<in>set fs. avoids h ?h f" by blast+
qed

lemma wrap_only_linear:
  assumes b: "big_enough cap mx" and lay: "layout cap mx t fs h" and room: "mx < remaining_at cap t h"
    and c: "2 * length ws + 16 \<le> mx" and nofit: "cap < h + 8 + 2 * length ws + mx"
  shows "linear cap mx t fs h"
proof (rule ccontr)
  assume "\<not> linear cap mx t fs h"
  then have w: "wrapped cap mx t fs h" using lay unfolding layout_def by blast
  show False using wrapped_head [OF w] remaining_wrapped [OF b w] room c nofit by linarith
qed

lemma layout_push_wrap:
  assumes b: "big_enough cap mx" and l: "linear cap mx t fs h"
    and c: "2 * length ws + 16 \<le> mx" and nofit: "cap < h + 8 + 2 * length ws + mx"
  shows "t \<noteq> 8 \<Longrightarrow> wrapped cap mx t (fs @ [(h, ws, 8)]) 8"
    and "t = 8 \<Longrightarrow> \<exists>p ws' n gs. fs = (p, ws', n) # gs \<and> p = 8 \<and> wrapped cap mx n (gs @ [(h, ws, 8)]) 8"
    and "\<forall>f\<in>set fs. avoids h (h + 8 + 2 * length ws) f" and "\<forall>f\<in>set fs. avoids 0 8 f"
proof -
  have p: "path t fs h" "\<forall>f\<in>set fs. contiguous f" "t = 8 \<or> 16 < t" "h + mx \<le> cap + 8"
    using l by (auto simp: linear_def)
  have t8: "8 \<le> t" using linear_head [OF l] by simp
  show "wrapped cap mx t (fs @ [(h, ws, 8)]) 8" if "t \<noteq> 8"
    unfolding wrapped_def using p that
    by (intro exI [of _ fs] exI [of _ h] exI [of _ ws] exI [of _ "[]"]) auto
  show "\<exists>p ws' n gs. fs = (p, ws', n) # gs \<and> p = 8 \<and> wrapped cap mx n (gs @ [(h, ws, 8)]) 8" if t: "t = 8"
  proof (cases fs)
    case Nil
    then have "h = 8" using p t by simp
    then show ?thesis using nofit c b by (simp add: big_enough_def)
  next
    case (Cons f gs)
    obtain q ws' n where f: "f = (q, ws', n)" by (cases f)
    have n: "q = 8" "n = 24 + 2 * length ws'" "path n gs h" using p t by (auto simp: Cons f)
    have "wrapped cap mx n (gs @ [(h, ws, 8)]) 8"
      unfolding wrapped_def using p n Cons
      by (intro exI [of _ gs] exI [of _ h] exI [of _ ws] exI [of _ "[]"]) auto
    then show ?thesis using Cons f n by blast
  qed
  show "\<forall>f\<in>set fs. avoids h (h + 8 + 2 * length ws) f"
    by (rule contiguous_path_avoids [OF p(1,2)]) simp
  show "\<forall>f\<in>set fs. avoids 0 8 f"
    by (rule contiguous_path_avoids [OF p(1,2)]) (use t8 in simp)
qed

text \<open>Storing the frame: three writes, the last two being its links.\<close>

lemma mem_write_ex: "off + length xs \<le> length m \<Longrightarrow> \<exists>m'. mem_write m off xs = Some m'"
  by (simp add: mem_write_def)

lemma frame_stored:
  assumes len: "h + 8 + 2 * length ws \<le> length d" "e + 8 \<le> length d" "length d < 2 ^ 63"
    and fits: "mem_write d (h + 8) (words_bytes ws) = Some d1"
    and sep: "e + 8 \<le> h \<or> e = h + 8 + 2 * length ws"
  shows "\<exists>d2 d3. write_size_t d1 e h = Some d2 \<and> write_size_t d2 h (e + 8) = Some d3 \<and>
    length d3 = length d \<and> frame_at d3 (h, ws, e + 8) \<and>
    (\<forall>fs. (\<forall>f\<in>set fs. frame_at d f) \<longrightarrow> (\<forall>f\<in>set fs. avoids h (h + 8 + 2 * length ws) f) \<longrightarrow>
       (\<forall>f\<in>set fs. avoids e (e + 8) f) \<longrightarrow> (\<forall>f\<in>set fs. frame_at d3 f))"
proof -
  have l1: "length d1 = length d" by (rule length_mem_write [OF fits])
  obtain d2 where w2: "write_size_t d1 e h = Some d2"
    using mem_write_ex [of e "le_bytes 8 h" d1] len l1 by (auto simp: write_size_t_def)
  then have l2: "length d2 = length d"
    using length_mem_write l1 unfolding write_size_t_def by metis
  obtain d3 where w3: "write_size_t d2 h (e + 8) = Some d3"
    using mem_write_ex [of h "le_bytes 8 (e + 8)" d2] len l2 by (auto simp: write_size_t_def)
  then have l3: "length d3 = length d"
    using length_mem_write l2 unfolding write_size_t_def by metis
  note m2 = w2 [unfolded write_size_t_def] and m3 = w3 [unfolded write_size_t_def]
  have next': "read_size_t d3 h = Some (e + 8)"
    by (rule read_write_size_t [OF w3]) (use len in simp)
  have "mem_read d1 (h + 8) (2 * length ws) = Some (words_bytes ws)"
    by (rule mem_read_write_same [OF fits]) simp
  then have body: "mem_read d3 (h + 8) (2 * length ws) = Some (words_bytes ws)"
    using sep mem_read_write_other [OF m3, of "h + 8" "2 * length ws"]
      mem_read_write_other [OF m2, of "h + 8" "2 * length ws"] by auto
  have "read_size_t d2 e = Some h"
    by (rule read_write_size_t [OF w2]) (use len in simp)
  then have prev: "read_size_t d3 e = Some h"
    using sep mem_read_write_other [OF m3, of e 8] by (auto simp: read_size_t_def)
  have fr: "frame_at d3 (h, ws, e + 8)" using next' body prev by simp
  have keep: "\<forall>f\<in>set fs. frame_at d3 f"
    if a: "\<forall>f\<in>set fs. frame_at d f" "\<forall>f\<in>set fs. avoids h (h + 8 + 2 * length ws) f"
      "\<forall>f\<in>set fs. avoids e (e + 8) f" for fs
  proof
    fix f assume f: "f \<in> set fs"
    obtain p ws' n where fe: "f = (p, ws', n)" by (cases f)
    have av: "avoids h (h + 8 + 2 * length ws) f" using a(2) f by blast
    have "frame_at d1 f"
      by (rule frame_at_mem_write [OF _ fits]) (use a(1) f av in \<open>auto simp: fe\<close>)
    then have "frame_at d2 f"
      by (rule frame_at_mem_write [OF _ m2]) (use a(3) f in auto)
    then show "frame_at d3 f"
      by (rule frame_at_mem_write [OF _ m3]) (use av in \<open>auto simp: fe\<close>)
  qed
  show ?thesis using w2 w3 l3 fr keep by blast
qed

lemma avoids_split: "avoids a c f \<Longrightarrow> a \<le> b \<Longrightarrow> b \<le> c \<Longrightarrow> avoids a b f \<and> avoids b c f"
  by (cases f) auto

lemma layout_head: "layout cap mx t fs h \<Longrightarrow> h + mx \<le> cap + 8 \<and> 8 \<le> h"
  using wrapped_head [of cap mx t fs h] linear_head [of cap mx t fs h]
  unfolding layout_def linear_def by linarith

lemma sm_store_frame_ok:
  assumes inv: "ring_inv st fs" and room: "sm_maxcompsize st < sm_remaining st"
    and ws: "state_manager_raw_compress (sm_thisblock st) (sm_nextblock st) (sm_blocksize st) = Some ws"
    and c: "2 * length ws + 16 \<le> sm_maxcompsize st"
  shows "\<exists>st' p n k. sm_store_frame st = Some st' \<and> ring_inv st' (drop k fs @ [(p, ws, n)]) \<and>
    (\<exists>d t h. st' = st\<lparr>sm_data := d, sm_tail := t, sm_head := h\<rparr>)"
proof -
  let ?cap = "sm_capacity st" and ?mx = "sm_maxcompsize st" and ?h = "sm_head st" and ?t = "sm_tail st"
    and ?d = "sm_data st"
  have b: "big_enough ?cap ?mx" and lay: "layout ?cap ?mx ?t fs ?h" and ld: "length ?d = ?cap"
    and fr: "\<forall>f\<in>set fs. frame_at ?d f" using inv by (auto simp: ring_inv_def)
  have room': "?mx < remaining_at ?cap ?t ?h" using room by (simp add: sm_remaining_eq)
  have cap63: "?cap < 2 ^ 63" "22 \<le> ?mx" "2 * ?mx \<le> ?cap" using b by (auto simp: big_enough_def)
  have hcap: "?h + ?mx \<le> ?cap + 8" "8 \<le> ?h" using layout_head [OF lay] by simp_all
  obtain d1 where w1: "mem_write ?d (?h + 8) (words_bytes ws) = Some d1"
    using mem_write_ex [of "?h + 8" "words_bytes ws" ?d] hcap c ld by auto
  show ?thesis
  proof (cases "?h + 8 + 2 * length ws + ?mx \<le> ?cap")
    case fit: True
    let ?e = "?h + 8 + 2 * length ws"
    note push = layout_push_contiguous [OF b lay room' c fit]
    have e8: "?h + 16 + 2 * length ws = ?e + 8" by simp
    have av: "\<forall>f\<in>set fs. avoids ?h ?e f \<and> avoids ?e (?e + 8) f"
    proof
      fix f assume "f \<in> set fs"
      then have "avoids ?h (?e + 8) f" using push(2) unfolding e8 by blast
      then show "avoids ?h ?e f \<and> avoids ?e (?e + 8) f" by (rule avoids_split) simp_all
    qed
    obtain d2 d3 where s: "write_size_t d1 ?e ?h = Some d2" "write_size_t d2 ?h (?e + 8) = Some d3"
      "length d3 = ?cap" "frame_at d3 (?h, ws, ?e + 8)" "\<forall>f\<in>set fs. frame_at d3 f"
      using frame_stored [OF _ _ _ w1, of ?e] fit ld cap63 fr av by auto
    let ?st = "st\<lparr>sm_data := d3, sm_tail := ?t, sm_head := ?e + 8\<rparr>"
    have "sm_store_frame st = Some ?st"
      using ws w1 s fit by (simp add: sm_store_frame_def Let_def)
    moreover have "ring_inv ?st (drop 0 fs @ [(?h, ws, ?e + 8)])"
      using push(1) s b by (simp add: ring_inv_def ac_simps)
    ultimately show ?thesis by blast
  next
    case False
    then have nofit: "?cap < ?h + 8 + 2 * length ws + ?mx" by simp
    have lin: "linear ?cap ?mx ?t fs ?h" by (rule wrap_only_linear [OF b lay room' c nofit])
    note push = layout_push_wrap [OF b lin c nofit]
    have h16: "0 + 8 \<le> ?h" using hcap by simp
    obtain d2 d3 where s: "write_size_t d1 0 ?h = Some d2" "write_size_t d2 ?h (0 + 8) = Some d3"
      "length d3 = ?cap" "frame_at d3 (?h, ws, 0 + 8)" "\<forall>f\<in>set fs. frame_at d3 f"
      using frame_stored [OF _ _ _ w1, of 0] hcap c ld cap63 fr push(3,4) by auto
    show ?thesis
    proof (cases "?t = 8")
      case False
      let ?st = "st\<lparr>sm_data := d3, sm_tail := ?t, sm_head := 0 + 8\<rparr>"
      have "sm_store_frame st = Some ?st"
        using ws w1 s nofit False by (simp add: sm_store_frame_def Let_def)
      moreover have "ring_inv ?st (drop 0 fs @ [(?h, ws, 8)])"
        using push(1) [OF False] s b by (simp add: ring_inv_def layout_def)
      ultimately show ?thesis by blast
    next
      case True
      then obtain ws' n gs where fs: "fs = (8, ws', n) # gs"
        and w: "wrapped ?cap ?mx n (gs @ [(?h, ws, 8)]) 8" using push(2) by blast
      have "read_size_t d1 8 = Some n"
        using fr push(3) frame_at_mem_write [OF _ w1, of "(8, ws', n)"] unfolding fs
        by (auto simp: fs)
      let ?st = "st\<lparr>sm_data := d3, sm_tail := n, sm_head := 0 + 8\<rparr>"
      have "sm_store_frame st = Some ?st"
        using ws w1 s nofit True \<open>read_size_t d1 8 = Some n\<close> by (simp add: sm_store_frame_def Let_def)
      moreover have "ring_inv ?st (drop 1 fs @ [(?h, ws, 8)])"
        using w s b fs by (simp add: ring_inv_def layout_def)
      ultimately show ?thesis by blast
    qed
  qed
qed

section \<open>The ring is a stack of states\<close>

definition blocks_inv :: "nat \<Rightarrow> state_manager \<Rightarrow> bool" where
  "blocks_inv len st \<longleftrightarrow>
     usable_blocks len (sm_thisblock st) (sm_nextblock st) \<and>
     sm_blocksize st = (len + 2 - 1) div 2 * 2 \<and>
     sm_maxcompsize st = state_manager_raw_maxsize len + 8 * 2"

definition frame_patches :: "frame list \<Rightarrow> u16 list list" where
  "frame_patches fs = rev (map (\<lambda>(p, ws, n). ws) fs)"

definition holds_states :: "nat \<Rightarrow> state_manager \<Rightarrow> frame list \<Rightarrow> u16 list list \<Rightarrow> bool" where
  "holds_states len st fs ss \<longleftrightarrow>
     (let cur = take (num16s len) (sm_thisblock st);
          chain = undo_chain (patch_turns len) cur (frame_patches fs)
      in if sm_thisblock_valid st then ss \<noteq> [] \<and> hd ss = cur \<and> chain (tl ss) else chain ss)"

text \<open>\<open>rewind_stack len st ss\<close>: the states that pops will return, in that order, are \<open>ss\<close>.\<close>

definition rewind_stack :: "nat \<Rightarrow> state_manager \<Rightarrow> u16 list list \<Rightarrow> bool" where
  "rewind_stack len st ss \<longleftrightarrow>
     (\<exists>fs. ring_inv st fs \<and> blocks_inv len st \<and> holds_states len st fs ss)"

lemma frame_patches_snoc: "frame_patches (fs @ [(p, ws, n)]) = ws # frame_patches fs"
  by (simp add: frame_patches_def)

lemma frame_patches_drop: "frame_patches (drop k fs) = take (length fs - k) (frame_patches fs)"
proof (cases "k \<le> length fs")
  case True
  then show ?thesis by (simp add: frame_patches_def take_rev drop_map)
next
  case False
  then show ?thesis by (simp add: frame_patches_def)
qed

lemma length_frame_patches: "length (frame_patches fs) = length fs"
  by (simp add: frame_patches_def)

lemma usable_blocks_length:
  assumes "usable_blocks len a b"
  shows "length a = num16s len + 12 \<and> length b = num16s len + 12"
  using assms by (auto simp: usable_blocks_def is_block_def length_alloc)

lemma usable_blocks_update:
  assumes "usable_blocks len a b" and "length ws = num16s len"
  shows "usable_blocks len (ws @ drop (num16s len) a) b" and "usable_blocks len a (ws @ drop (num16s len) b)"
  using assms by (auto simp: usable_blocks_def is_block_def length_alloc)

lemma usable_blocks_swap: "usable_blocks len a b \<Longrightarrow> usable_blocks len b a"
  by (auto simp: usable_blocks_def)

lemma compress_blocksize:
  "state_manager_raw_compress a b (Suc len div 2 * 2) = state_manager_raw_compress a b len"
  by (simp add: state_manager_raw_compress_def)

text \<open>A pop.\<close>

lemma pop_empty:
  assumes "ring_inv st fs" and "sm_head st = sm_tail st"
  shows "fs = []"
proof (rule ccontr)
  assume "fs \<noteq> []"
  then obtain p ws n gs where fs: "fs = (p, ws, n) # gs" by (cases fs) auto
  have lay: "layout (sm_capacity st) (sm_maxcompsize st) (sm_tail st) fs (sm_head st)"
    using assms(1) by (simp add: ring_inv_def)
  then have "linear (sm_capacity st) (sm_maxcompsize st) (sm_tail st) fs (sm_head st)"
    using wrapped_head assms(2) unfolding layout_def by fastforce
  then have "p = sm_tail st" "contiguous (p, ws, n)" "path n gs (sm_head st)" "\<forall>f\<in>set gs. contiguous f"
    by (auto simp: linear_def fs)
  then show False using contiguous_path_le [of n gs "sm_head st"] assms(2) by simp
qed

lemma pop_nonempty:
  assumes "ring_inv st fs" and "sm_head st \<noteq> sm_tail st"
  obtains gs p ws where "fs = gs @ [(p, ws, sm_head st)]"
    and "layout (sm_capacity st) (sm_maxcompsize st) (sm_tail st) gs p"
    and "frame_at (sm_data st) (p, ws, sm_head st)"
proof -
  have lay: "layout (sm_capacity st) (sm_maxcompsize st) (sm_tail st) fs (sm_head st)"
    and fr: "\<forall>f\<in>set fs. frame_at (sm_data st) f"
    using assms(1) by (auto simp: ring_inv_def)
  have "fs \<noteq> []" using lay assms(2) by (auto simp: layout_def linear_def wrapped_def)
  then obtain gs p ws n where fs: "fs = gs @ [(p, ws, n)]" by (cases fs rule: rev_cases) auto
  with lay layout_pop_head have "n = sm_head st" "layout (sm_capacity st) (sm_maxcompsize st) (sm_tail st) gs p"
    by blast+
  with fs fr show thesis by (intro that) auto
qed

lemma bytes_words_frame:
  assumes "frame_at d (p, ws, n)"
  shows "\<exists>rest. bytes_words (drop (p + 8) d) = ws @ rest"
proof -
  have "p + 8 + 2 * length ws \<le> length d" "take (2 * length ws) (drop (p + 8) d) = words_bytes ws"
    using assms by (auto dest!: mem_read_SomeD)
  then have "drop (p + 8) d = words_bytes ws @ drop (2 * length ws) (drop (p + 8) d)"
    by (metis append_take_drop_id)
  then show ?thesis by (metis bytes_words_words_bytes)
qed

lemma pop_ok:
  assumes "rewind_stack len st ss"
  shows "\<exists>st'. state_manager_pop st = Some (ss \<noteq> [], st') \<and> rewind_stack len st' (tl ss) \<and>
    (ss \<noteq> [] \<longrightarrow> take (num16s len) (sm_thisblock st') = hd ss) \<and> \<not> sm_thisblock_valid st'"
proof -
  obtain fs where inv: "ring_inv st fs" and bl: "blocks_inv len st" and hs: "holds_states len st fs ss"
    using assms unfolding rewind_stack_def by blast
  show ?thesis
  proof (cases "sm_thisblock_valid st")
    case True
    let ?st = "st\<lparr>sm_thisblock_valid := False, sm_entries := sm_entries st - 1\<rparr>"
    have "rewind_stack len ?st (tl ss)"
      unfolding rewind_stack_def using inv bl hs True
      by (intro exI [of _ fs]) (auto simp: ring_inv_def blocks_inv_def holds_states_def Let_def)
    moreover have "state_manager_pop st = Some (True, ?st)" using True by (simp add: state_manager_pop_def)
    ultimately show ?thesis using hs True by (auto simp: holds_states_def Let_def)
  next
    case nv: False
    then have ch: "undo_chain (patch_turns len) (take (num16s len) (sm_thisblock st)) (frame_patches fs) ss"
      using hs by (simp add: holds_states_def)
    show ?thesis
    proof (cases "sm_head st = sm_tail st")
      case True
      then have "fs = []" by (rule pop_empty [OF inv])
      then have "ss = []" using ch by (simp add: frame_patches_def)
      then show ?thesis using assms nv True by (simp add: state_manager_pop_def)
    next
      case False
      obtain gs p ws where fs: "fs = gs @ [(p, ws, sm_head st)]"
        and lay: "layout (sm_capacity st) (sm_maxcompsize st) (sm_tail st) gs p"
        and fr: "frame_at (sm_data st) (p, ws, sm_head st)"
        by (rule pop_nonempty [OF inv False])
      obtain s ss' where ss: "ss = s # ss'" and t: "patch_turns len ws (take (num16s len) (sm_thisblock st)) s"
        and ch': "undo_chain (patch_turns len) s (frame_patches gs) ss'"
        using ch rewind_codec.undo_pop unfolding fs frame_patches_snoc by metis
      obtain rest where bw: "bytes_words (drop (p + 8) (sm_data st)) = ws @ rest"
        using bytes_words_frame [OF fr] by blast
      let ?out = "s @ drop (num16s len) (sm_thisblock st)"
      have lb: "length (sm_thisblock st) = num16s len + 12"
        using bl usable_blocks_length by (auto simp: blocks_inv_def)
      have ls: "length s = num16s len" using t by (simp add: patch_turns_def)
      have dec: "state_manager_raw_decompress (bytes_words (drop (p + 8) (sm_data st))) (sm_thisblock st) = Some ?out"
        using t lb unfolding bw patch_turns_def by blast
      let ?st = "st\<lparr>sm_head := p, sm_thisblock := ?out, sm_entries := sm_entries st - 1\<rparr>"
      have "state_manager_pop st = Some (True, ?st)"
        using nv False fr dec by (simp add: state_manager_pop_def)
      moreover have "ring_inv ?st gs" using inv lay by (auto simp: ring_inv_def fs)
      moreover have "blocks_inv len ?st" using bl usable_blocks_update(1) [OF _ ls] by (simp add: blocks_inv_def)
      moreover have "holds_states len ?st gs ss'" using ch' nv ls by (simp add: holds_states_def)
      ultimately show ?thesis using ss ls nv unfolding rewind_stack_def by auto
    qed
  qed
qed

text \<open>The push: \<^verbatim>\<open>push_where\<close> makes the newest state current, and keeps the stack.\<close>

lemma push_where_ok:
  assumes "rewind_stack len st ss"
  shows "\<exists>st'. state_manager_push_where st = Some st' \<and> rewind_stack len st' ss \<and>
    sm_thisblock_valid st' = (ss \<noteq> [])"
proof (cases "sm_thisblock_valid st")
  case True
  then have "ss \<noteq> []" using assms by (auto simp: rewind_stack_def holds_states_def Let_def)
  then show ?thesis using True assms by (simp add: state_manager_push_where_def)
next
  case False
  obtain st' where p: "state_manager_pop st = Some (ss \<noteq> [], st')" "rewind_stack len st' (tl ss)"
    "ss \<noteq> [] \<longrightarrow> take (num16s len) (sm_thisblock st') = hd ss" "\<not> sm_thisblock_valid st'"
    using pop_ok [OF assms] by blast
  show ?thesis
  proof (cases "ss = []")
    case True
    then show ?thesis using p False by (simp add: state_manager_push_where_def)
  next
    case ne: False
    let ?st = "st'\<lparr>sm_thisblock_valid := True, sm_entries := sm_entries st' + 1\<rparr>"
    have "state_manager_push_where st = Some ?st"
      using p ne False by (simp add: state_manager_push_where_def)
    moreover have "rewind_stack len ?st ss"
      using p ne unfolding rewind_stack_def
      by (auto simp: ring_inv_def blocks_inv_def holds_states_def Let_def)
    ultimately show ?thesis using ne by auto
  qed
qed

lemma push_do_first:
  assumes "rewind_stack len st []" and "\<not> sm_thisblock_valid st"
    and "take (num16s len) (sm_nextblock st) = ws"
  shows "\<exists>st'. state_manager_push_do st = Some st' \<and> rewind_stack len st' [ws]"
proof -
  obtain fs where inv: "ring_inv st fs" and bl: "blocks_inv len st" and hs: "holds_states len st fs []"
    using assms(1) unfolding rewind_stack_def by blast
  have "undo_chain (patch_turns len) (take (num16s len) (sm_thisblock st)) (frame_patches fs) []"
    using hs assms(2) by (simp add: holds_states_def)
  then have "fs = []"
    using rewind_codec.undo_length length_frame_patches [of fs] by fastforce
  let ?st = "sm_swap_blocks (st\<lparr>sm_thisblock_valid := True\<rparr>)"
  have "state_manager_push_do st = Some ?st" using assms(2) by (simp add: state_manager_push_do_def)
  moreover have "ring_inv ?st fs" using inv by (simp add: ring_inv_def sm_swap_blocks_def)
  moreover have "blocks_inv len ?st"
    using bl usable_blocks_swap by (auto simp: blocks_inv_def sm_swap_blocks_def)
  moreover have "holds_states len ?st fs [ws]"
    using \<open>fs = []\<close> assms(3) by (simp add: holds_states_def sm_swap_blocks_def frame_patches_def)
  ultimately show ?thesis unfolding rewind_stack_def by blast
qed

lemma push_do_again:
  assumes "rewind_stack len st ss" and v: "sm_thisblock_valid st"
    and new: "take (num16s len) (sm_nextblock st) = ws"
  shows "\<exists>st' k. state_manager_push_do st = Some st' \<and> rewind_stack len st' (ws # take (Suc k) ss)"
proof -
  obtain fs where inv: "ring_inv st fs" and bl: "blocks_inv len st" and hs: "holds_states len st fs ss"
    using assms(1) unfolding rewind_stack_def by blast
  let ?cur = "take (num16s len) (sm_thisblock st)"
  have ss: "ss = ?cur # tl ss" and ch: "undo_chain (patch_turns len) ?cur (frame_patches fs) (tl ss)"
    using hs v by (cases ss; simp add: holds_states_def Let_def)+
  have cap: "\<not> sm_capacity st < 8 + sm_maxcompsize st"
    using inv by (auto simp: ring_inv_def big_enough_def)
  obtain st1 k where st1: "recheckcapacity st = Some st1" "same_but_tail st st1" "ring_inv st1 (drop k fs)"
    "sm_maxcompsize st1 < sm_remaining st1"
    using recheckcapacity_ok [OF inv] by blast
  obtain t e where e1: "st1 = st\<lparr>sm_tail := t, sm_entries := e\<rparr>" using st1(2) by (auto simp: same_but_tail_def)
  have us: "usable_blocks len (sm_thisblock st) (sm_nextblock st)" using bl by (simp add: blocks_inv_def)
  obtain p where p: "state_manager_raw_compress (sm_thisblock st) (sm_nextblock st) len = Some p"
    using rewind_codec.compress_total [OF us] by blast
  have turn: "patch_turns len p ws ?cur"
    using rewind_codec.compress_turns [OF us p] new by simp
  have "2 * length p + 16 \<le> sm_maxcompsize st1"
    using turn bl by (simp add: patch_turns_def blocks_inv_def e1)
  moreover have "state_manager_raw_compress (sm_thisblock st1) (sm_nextblock st1) (sm_blocksize st1) = Some p"
    using p bl by (simp add: e1 blocks_inv_def compress_blocksize)
  ultimately obtain st2 q n j where st2: "sm_store_frame st1 = Some st2"
    "ring_inv st2 (drop j (drop k fs) @ [(q, p, n)])"
    "\<exists>d t h. st2 = st1\<lparr>sm_data := d, sm_tail := t, sm_head := h\<rparr>"
    using sm_store_frame_ok [OF st1(3,4)] by blast
  let ?gs = "drop (j + k) fs" and ?st = "sm_swap_blocks st2" and ?m = "length fs - (j + k)"
  have "state_manager_push_do st = Some ?st"
    using v cap st1(1) st2(1) by (simp add: state_manager_push_do_def)
  moreover have "ring_inv ?st (?gs @ [(q, p, n)])"
    using st2(2) by (simp add: ring_inv_def sm_swap_blocks_def)
  moreover have "blocks_inv len ?st"
    using st2(3) bl usable_blocks_swap by (auto simp: e1 blocks_inv_def sm_swap_blocks_def)
  moreover have "undo_chain (patch_turns len) ws (frame_patches (?gs @ [(q, p, n)])) (?cur # take ?m (tl ss))"
    using turn rewind_codec.undo_take [OF ch, of ?m] by (simp add: frame_patches_snoc frame_patches_drop)
  then have "holds_states len ?st (?gs @ [(q, p, n)]) (ws # ?cur # take ?m (tl ss))"
    using st2(3) v new by (auto simp: e1 holds_states_def sm_swap_blocks_def)
  moreover have "?cur # take ?m (tl ss) = take (Suc ?m) ss"
    by (subst (2) ss) simp
  ultimately show ?thesis unfolding rewind_stack_def by metis
qed

lemma serialize_into_ok:
  assumes "rewind_stack len st ss" and "length ws = num16s len"
  shows "rewind_stack len (sm_serialize_into ws st) ss"
    and "take (num16s len) (sm_nextblock (sm_serialize_into ws st)) = ws"
    and "sm_thisblock_valid (sm_serialize_into ws st) = sm_thisblock_valid st"
  using assms usable_blocks_update(2)
  by (auto simp: rewind_stack_def sm_serialize_into_def ring_inv_def blocks_inv_def holds_states_def Let_def)

section \<open>Sessions\<close>

text \<open>
  A session is a sequence of pushes (each with the state the core serialized) and pops.  The
  reference is an unbounded stack; a pop of the empty one leaves it empty.
\<close>

datatype rewind_op = Push "u16 list" | Pop

fun rewind_run :: "state_manager \<Rightarrow> rewind_op list \<Rightarrow> state_manager option" where
  "rewind_run st [] = Some st"
| "rewind_run st (Push ws # ops) = Option.bind (sm_push ws st) (\<lambda>st. rewind_run st ops)"
| "rewind_run st (Pop # ops) =
     Option.bind (state_manager_pop st) (\<lambda>(popped, st). rewind_run st ops)"

fun ideal_run :: "u16 list list \<Rightarrow> rewind_op list \<Rightarrow> u16 list list" where
  "ideal_run ss [] = ss"
| "ideal_run ss (Push ws # ops) = ideal_run (ws # ss) ops"
| "ideal_run ss (Pop # ops) = ideal_run (tl ss) ops"

fun op_fits :: "nat \<Rightarrow> rewind_op \<Rightarrow> bool" where
  "op_fits len (Push ws) = (length ws = num16s len)"
| "op_fits len Pop = True"

lemma new_ok:
  assumes "length d = cap" and "2 * (state_manager_raw_maxsize len + 16) \<le> cap" and "cap < 2 ^ 63"
    and "len \<le> 2 ^ 32"
  shows "\<exists>st. state_manager_new len cap (Some d) = Some st \<and> rewind_stack len st []"
proof -
  obtain st where st: "state_manager_new len cap (Some d) = Some st"
    by (simp add: state_manager_new_def)
  have "6 \<le> state_manager_raw_maxsize len" by (simp add: state_manager_raw_maxsize_def Let_def)
  then have "ring_inv st []"
    using st assms
    by (auto simp: state_manager_new_def ring_inv_def big_enough_def layout_def linear_def)
  moreover have "blocks_inv len st"
    using st assms(4) by (auto simp: state_manager_new_def blocks_inv_def usable_blocks_def is_block_alloc)
  moreover have "holds_states len st [] []"
    using st by (auto simp: state_manager_new_def holds_states_def frame_patches_def)
  ultimately show ?thesis using st unfolding rewind_stack_def by blast
qed

lemma push_ok:
  assumes "rewind_stack len st ss" and "length ws = num16s len"
  shows "\<exists>st' k. sm_push ws st = Some st' \<and> rewind_stack len st' (ws # take (Suc k) ss)"
proof -
  obtain st1 where st1: "state_manager_push_where st = Some st1" "rewind_stack len st1 ss"
    "sm_thisblock_valid st1 = (ss \<noteq> [])" using push_where_ok [OF assms(1)] by blast
  note st2 = serialize_into_ok [OF st1(2) assms(2)]
  show ?thesis
  proof (cases "ss = []")
    case True
    then have "\<exists>st'. state_manager_push_do (sm_serialize_into ws st1) = Some st' \<and> rewind_stack len st' [ws]"
      using push_do_first st2 st1(3) by blast
    then show ?thesis using True st1(1) by (auto simp: sm_push_def)
  next
    case False
    then have "\<exists>st' k. state_manager_push_do (sm_serialize_into ws st1) = Some st' \<and>
        rewind_stack len st' (ws # take (Suc k) ss)"
      using push_do_again st2 st1(3) by blast
    then show ?thesis using st1(1) by (auto simp: sm_push_def)
  qed
qed

lemma run_ok:
  "rewind_stack len st ss \<Longrightarrow> prefix ss hist \<Longrightarrow> \<forall>op\<in>set ops. op_fits len op \<Longrightarrow>
     \<exists>st' ss'. rewind_run st ops = Some st' \<and> rewind_stack len st' ss' \<and> prefix ss' (ideal_run hist ops)"
proof (induction ops arbitrary: st ss hist)
  case Nil
  then show ?case by auto
next
  case (Cons op ops)
  show ?case
  proof (cases op)
    case (Push ws)
    then obtain st1 k where st1: "sm_push ws st = Some st1" "rewind_stack len st1 (ws # take (Suc k) ss)"
      using push_ok [OF Cons.prems(1), of ws] Cons.prems(3) by auto
    have "prefix (take (Suc k) ss) hist" using Cons.prems(2) take_is_prefix prefix_order.trans by blast
    then have "prefix (ws # take (Suc k) ss) (ws # hist)" by simp
    from Cons.IH [OF st1(2) this] Cons.prems(3) show ?thesis using st1(1) by (simp add: Push)
  next
    case Pop
    obtain st1 where st1: "state_manager_pop st = Some (ss \<noteq> [], st1)" "rewind_stack len st1 (tl ss)"
      using pop_ok [OF Cons.prems(1)] by blast
    have "prefix (tl ss) (tl hist)" using Cons.prems(2) by (cases ss; cases hist) auto
    from Cons.IH [OF st1(2) this] Cons.prems(3) show ?thesis using st1(1) by (simp add: Pop)
  qed
qed

section \<open>Correctness\<close>

text \<open>C7. Popping returns the newest stored state: if the ring holds the states \<open>ss\<close>, a pop succeeds
  exactly when there is one, leaves the newest in \<^verbatim>\<open>thisblock\<close> (what \<^verbatim>\<open>*data\<close> points to), and the ring then
  holds the others.\<close>

theorem rewind_pop_newest:
  assumes "rewind_stack len st ss"
  shows "\<exists>st'. state_manager_pop st = Some (ss \<noteq> [], st') \<and> rewind_stack len st' (tl ss) \<and>
    (ss \<noteq> [] \<longrightarrow> take (num16s len) (sm_thisblock st') = hd ss)"
  using pop_ok [OF assms] by blast

text \<open>C6. Pushing never fails and never reads or writes outside the buffer; the pushed state becomes the
  newest, the state that was newest is kept, and only the oldest states can be lost.\<close>

theorem rewind_push_keeps:
  assumes "rewind_stack len st ss" and "length ws = num16s len"
  shows "\<exists>st' k. sm_push ws st = Some st' \<and> rewind_stack len st' (ws # take (Suc k) ss)"
  by (rule push_ok [OF assms])

text \<open>C9. The loop that makes room for a frame ends in every state the ring can be in, and afterwards
  a maximal frame fits.\<close>

theorem recheckcapacity_terminates:
  assumes "ring_inv st fs"
  shows "\<exists>st' k. recheckcapacity st = Some st' \<and> ring_inv st' (drop k fs) \<and>
    sm_maxcompsize st' < sm_remaining st'"
  using recheckcapacity_ok [OF assms] by blast

text \<open>C1. Any session of pushes and pops on a fresh ring of at least two maximal frames runs to the end,
  and what it can still rewind to is a prefix of what an unbounded stack would hold: rewinding never shows
  a wrong state, it only ends earlier.\<close>

theorem rewind_session_refines_stack:
  assumes "length d = cap" and "2 * (state_manager_raw_maxsize len + 16) \<le> cap" and "cap < 2 ^ 63"
    and "len \<le> 2 ^ 32" and "\<forall>op\<in>set ops. op_fits len op"
  shows "\<exists>st st' ss. state_manager_new len cap (Some d) = Some st \<and> rewind_run st ops = Some st' \<and>
    rewind_stack len st' ss \<and> prefix ss (ideal_run [] ops)"
proof -
  obtain st where "state_manager_new len cap (Some d) = Some st" "rewind_stack len st []"
    using new_ok [OF assms(1-4)] by blast
  then show ?thesis using run_ok [of len st "[]" "[]" ops] assms(5) by auto
qed

definition example_ring :: state_manager where
  "example_ring = the (state_manager_new 6 64 (Some (replicate 64 0)))"

lemma example_ring_stack: "rewind_stack 6 example_ring []"
proof -
  have "2 * (state_manager_raw_maxsize 6 + 16) \<le> 64" by (simp add: state_manager_raw_maxsize_def)
  then show ?thesis
    using new_ok [of "replicate 64 0" 64 6] by (auto simp: example_ring_def)
qed

theorem rewind_push_keeps_witness:
  "\<exists>st'. sm_push [1, 2, 3] example_ring = Some st' \<and> rewind_stack 6 st' [[1, 2, 3]]"
  using rewind_push_keeps [OF example_ring_stack, of "[1, 2, 3]"] by (simp add: num16s_6)

theorem rewind_pop_newest_witness:
  "\<exists>st st'. sm_push [1, 2, 3] example_ring = Some st \<and> state_manager_pop st = Some (True, st') \<and>
     take 3 (sm_thisblock st') = [1, 2, 3]"
proof -
  obtain st where st: "sm_push [1, 2, 3] example_ring = Some st" "rewind_stack 6 st [[1, 2, 3]]"
    using push_ok [OF example_ring_stack, of "[1, 2, 3]"] by (auto simp: num16s_6)
  show ?thesis using rewind_pop_newest [OF st(2)] st(1) by (auto simp: num16s_6)
qed

theorem recheckcapacity_terminates_witness:
  "\<exists>st'. recheckcapacity example_ring = Some st' \<and> sm_maxcompsize st' < sm_remaining st'"
  using recheckcapacity_terminates example_ring_stack unfolding rewind_stack_def by blast

theorem rewind_session_refines_stack_witness:
  "\<exists>st st' ss. state_manager_new 6 64 (Some (replicate 64 0)) = Some st \<and>
     rewind_run st [Push [1, 2, 3], Push [1, 5, 3], Pop] = Some st' \<and> rewind_stack 6 st' ss \<and>
     prefix ss [[1, 2, 3]]"
proof -
  have "2 * (state_manager_raw_maxsize 6 + 16) \<le> 64" by (simp add: state_manager_raw_maxsize_def)
  then show ?thesis
    using rewind_session_refines_stack
      [of "replicate 64 0" 64 6 "[Push [1, 2, 3], Push [1, 5, 3], Pop]"]
    by (simp add: num16s_6)
qed

text \<open>A ring smaller than two maximal frames is accepted (the code only checks for one), and then
  the very first stored frame takes the tail from memory that was never written: with a 6-byte state and
  a 41-byte buffer, two pushes leave \<^verbatim>\<open>tail\<close> at whatever \<^verbatim>\<open>malloc\<close> left in bytes 8 to 15.\<close>

theorem rewind_small_buffer_wild_tail:
  assumes "length d = 41"
  shows "\<exists>st st'. state_manager_new 6 41 (Some d) = Some st \<and>
    rewind_run st [Push [0, 0, 0], Push [0, 0, 0]] = Some st' \<and>
    sm_tail st' = le_value (take 8 (drop 8 d))"
proof -
  have alloc: "state_manager_raw_alloc 6 0 = [0, 0, 0, 0, 0, 0, 0, 0, 0, 0, 0, 0, 0, 0, 0]"
    "state_manager_raw_alloc 6 1 = [0, 0, 0, 0, 0, 0, 1, 0, 0, 0, 0, 0, 0, 0, 0]"
    by code_simp+
  have mx: "state_manager_raw_maxsize 6 = 16" by (simp add: state_manager_raw_maxsize_def)
  let ?a = "[0, 0, 0, 0, 0, 0, 0, 0, 0, 0, 0, 0, 0, 0, 0] :: u16 list"
  let ?b = "[0, 0, 0, 0, 0, 0, 1, 0, 0, 0, 0, 0, 0, 0, 0] :: u16 list"
  let ?s1 = "\<lparr>sm_data = d, sm_capacity = 41, sm_head = 8, sm_tail = 8, sm_thisblock = ?b,
    sm_nextblock = ?a, sm_blocksize = 6, sm_maxcompsize = 32, sm_entries = 1, sm_thisblock_valid = True\<rparr>"
  have c: "state_manager_raw_compress ?b ?a 6 = Some [0, 0, 0]"
    by (simp add: state_manager_raw_compress_def raw_compress_loop.simps find_change_def)
  have new: "\<exists>st. state_manager_new 6 41 (Some d) = Some st \<and> sm_push [0, 0, 0] st = Some ?s1"
    by (simp add: state_manager_new_def alloc mx sm_push_def state_manager_push_where_def
        state_manager_pop_def sm_serialize_into_def state_manager_push_do_def sm_swap_blocks_def)
  have room: "recheckcapacity ?s1 = Some ?s1"
    by (simp add: recheckcapacity.simps sm_remaining_def)
  obtain d1 where w1: "mem_write d 16 (words_bytes [0, 0, 0]) = Some d1"
    using mem_write_ex [of 16 "words_bytes [0, 0, 0]" d] assms by auto
  obtain d2 where w2: "write_size_t d1 0 8 = Some d2"
    using mem_write_ex [of 0 "le_bytes 8 8" d1] length_mem_write [OF w1] assms by (auto simp: write_size_t_def)
  obtain d3 where w3: "write_size_t d2 8 8 = Some d3"
    using mem_write_ex [of 8 "le_bytes 8 8" d2] length_mem_write [OF w2 [unfolded write_size_t_def]]
      length_mem_write [OF w1] assms by (auto simp: write_size_t_def)
  have "read_size_t d1 8 = read_size_t d 8"
    using mem_read_write_other [OF w1, of 8 8] by (simp add: read_size_t_def)
  also have "\<dots> = Some (le_value (take 8 (drop 8 d)))"
    using assms by (simp add: read_size_t_def mem_read_def)
  finally have t: "read_size_t d1 8 = Some (le_value (take 8 (drop 8 d)))" .
  have "\<exists>st'. sm_push [0, 0, 0] ?s1 = Some st' \<and> sm_tail st' = le_value (take 8 (drop 8 d))"
    using room c w1 w2 w3 t
    by (simp add: sm_push_def state_manager_push_where_def sm_serialize_into_def
        state_manager_push_do_def sm_store_frame_def sm_swap_blocks_def)
  then show ?thesis using new by auto
qed

theorem rewind_small_buffer_wild_tail_witness:
  "\<exists>st st'. state_manager_new 6 41 (Some (replicate 41 255)) = Some st \<and>
     rewind_run st [Push [0, 0, 0], Push [0, 0, 0]] = Some st' \<and> 41 < sm_tail st'"
proof -
  have "take 8 (drop 8 (replicate 41 (255 :: u8))) = replicate 8 255"
    by (simp only: drop_replicate take_replicate) simp
  moreover have "replicate 8 (255 :: u8) = [255, 255, 255, 255, 255, 255, 255, 255]"
    by (simp add: numeral_eq_Suc)
  moreover have "41 < le_value [255, 255, 255, 255, 255, 255, 255, 255]" by simp
  ultimately have "41 < le_value (take 8 (drop 8 (replicate 41 255)))" by simp
  then show ?thesis using rewind_small_buffer_wild_tail [of "replicate 41 255"] by fastforce
qed

end
