(* ===== verification/Rewind_Control.thy ===== *)
theory Rewind_Control
  imports Rewind_Ring
begin

text \<open>
  The entry points of the rewind support (\<^verbatim>\<open>state_manager_event_init\<close>, \<^verbatim>\<open>state_manager_event_deinit\<close> and
  \<^verbatim>\<open>state_manager_check_rewind\<close>, called once per frame).  The file's static variables are one record;
  the calls into other subsystems (audio, netplay, movie, core) are a list of effects in the order
  the code makes them.  What the core answers (its serialized state, its state size) and the state of
  other subsystems are arguments.

  Proved here: with a ring that holds a stack of states a frame never fails; the netplay desync
  counter is pushed once when a rewind starts and popped once when it ends, whatever the key does in
  between; a held rewind key feeds the core the stored states from the newest to the oldest.
\<close>

datatype rewind_effect =
    AudioFrameIsReverse | AudioSetupRewind | NetplayDesyncPush | NetplayDesyncPop
  | MsgRewinding nat | MsgReachedEnd nat
  | CoreUnserialize "u16 list" | BsvMovieFrameRewind | CoreSetRewindCallbacks

record rewind_globals =
  rw_state :: "state_manager option"
  rw_size :: nat
  frame_is_reversed :: bool
  rw_first :: bool
  rw_cnt :: u32

definition state_manager_frame_is_reversed :: "rewind_globals \<Rightarrow> bool" where
  "state_manager_frame_is_reversed g = frame_is_reversed g"

text \<open>
  \<^term>\<open>None\<close> is the null dereference in \<^verbatim>\<open>state_manager_push_where\<close> that follows a failed
  \<^verbatim>\<open>state_manager_new\<close> (the code only logs a warning there).
\<close>

definition state_manager_event_init ::
  "nat \<Rightarrow> bool \<Rightarrow> nat \<Rightarrow> bytes option \<Rightarrow> u16 list \<Rightarrow> rewind_globals \<Rightarrow> rewind_globals option" where
  "state_manager_event_init rewind_buffer_size has_callback info_size alloc serialized g =
     (if rw_state g \<noteq> None then Some g
      else if has_callback then Some g
      else
        let g = g\<lparr>rw_size := info_size\<rparr> in
        if rw_size g = 0 then Some g
        else case state_manager_new (rw_size g) rewind_buffer_size alloc of
               None \<Rightarrow> None
             | Some st \<Rightarrow> do {
                 st \<leftarrow> sm_push serialized st;
                 Some (g\<lparr>rw_state := Some st\<rparr>)
               })"

definition state_manager_event_deinit :: "rewind_globals \<Rightarrow> rewind_globals" where
  "state_manager_event_deinit g = g\<lparr>rw_state := None, rw_size := 0\<rparr>"

text \<open>The words of \<^verbatim>\<open>buf\<close> the core is given: \<^verbatim>\<open>rewind_state.size\<close> bytes of \<^verbatim>\<open>thisblock\<close>.\<close>

definition rewind_buf :: "rewind_globals \<Rightarrow> state_manager \<Rightarrow> u16 list" where
  "rewind_buf g st = take (num16s (rw_size g)) (sm_thisblock st)"

definition check_rewind_pressed ::
  "bool \<Rightarrow> bool \<Rightarrow> state_manager \<Rightarrow> rewind_globals \<Rightarrow>
     (bool \<times> rewind_effect list \<times> rewind_globals) option" where
  "check_rewind_pressed was_reversed is_paused st g = do {
     (popped, st) \<leftarrow> state_manager_pop st;
     if popped then
       Some (True,
         (if \<not> was_reversed then [NetplayDesyncPush] else []) @
         [AudioSetupRewind, MsgRewinding (if is_paused then 1 else 30),
          CoreUnserialize (rewind_buf g st), BsvMovieFrameRewind],
         g\<lparr>rw_state := Some st, frame_is_reversed := True\<rparr>)
     else
       Some (True,
         [CoreUnserialize (rewind_buf g st)] @
         (if was_reversed then [NetplayDesyncPop] else []) @ [MsgReachedEnd 30],
         g\<lparr>rw_state := Some st\<rparr>)
   }"

definition check_rewind_released ::
  "bool \<Rightarrow> u32 \<Rightarrow> bool \<Rightarrow> u16 list \<Rightarrow> state_manager \<Rightarrow> rewind_globals \<Rightarrow>
     (bool \<times> rewind_effect list \<times> rewind_globals) option" where
  "check_rewind_released was_reversed rewind_granularity bsv_inited serialized st g = do {
     let effs = (if was_reversed then [NetplayDesyncPop] else []);
     let g = g\<lparr>rw_cnt := (rw_cnt g + 1) mod (if rewind_granularity \<noteq> 0 then rewind_granularity else 1)\<rparr>;
     if rw_cnt g = 0 \<or> bsv_inited
     then do {
       st \<leftarrow> sm_push serialized st;
       Some (False, effs, g\<lparr>rw_state := Some st\<rparr>)
     }
     else Some (False, effs, g)
   }"

definition state_manager_check_rewind ::
  "bool \<Rightarrow> u32 \<Rightarrow> bool \<Rightarrow> bool \<Rightarrow> u16 list \<Rightarrow> rewind_globals \<Rightarrow>
     (bool \<times> rewind_effect list \<times> rewind_globals) option" where
  "state_manager_check_rewind pressed rewind_granularity is_paused bsv_inited serialized g =
     (let was_reversed = frame_is_reversed g;
          pre = (if was_reversed then [AudioFrameIsReverse] else []);
          g = g\<lparr>frame_is_reversed := False\<rparr>
      in if rw_first g then Some (False, pre, g\<lparr>rw_first := False\<rparr>)
         else case rw_state g of
           None \<Rightarrow> Some (False, pre, g)
         | Some st \<Rightarrow> do {
             (ret, effs, g) \<leftarrow>
               (if pressed then check_rewind_pressed was_reversed is_paused st g
                else check_rewind_released was_reversed rewind_granularity bsv_inited serialized st g);
             Some (ret, pre @ effs @ [CoreSetRewindCallbacks], g)
           })"

section \<open>Frames\<close>

text \<open>The inputs of one frame, and a run of frames with all its effects.\<close>

record frame_input =
  fi_pressed :: bool
  fi_granularity :: u32
  fi_paused :: bool
  fi_bsv_inited :: bool
  fi_serialized :: "u16 list"

fun rewind_frames ::
  "rewind_globals \<Rightarrow> frame_input list \<Rightarrow> (rewind_effect list \<times> rewind_globals) option" where
  "rewind_frames g [] = Some ([], g)"
| "rewind_frames g (i # is) = do {
     (ret, effs, g) \<leftarrow> state_manager_check_rewind (fi_pressed i) (fi_granularity i) (fi_paused i)
       (fi_bsv_inited i) (fi_serialized i) g;
     (effs', g) \<leftarrow> rewind_frames g is;
     Some (effs @ effs', g)
   }"

definition rewind_ready :: "nat \<Rightarrow> rewind_globals \<Rightarrow> u16 list list \<Rightarrow> bool" where
  "rewind_ready len g ss \<longleftrightarrow>
     rw_size g = len \<and> (\<exists>st. rw_state g = Some st \<and> rewind_stack len st ss) \<and>
     (rw_first g \<longrightarrow> \<not> frame_is_reversed g)"

fun desync_depth :: "rewind_effect list \<Rightarrow> int" where
  "desync_depth [] = 0"
| "desync_depth (NetplayDesyncPush # es) = 1 + desync_depth es"
| "desync_depth (NetplayDesyncPop # es) = - 1 + desync_depth es"
| "desync_depth (e # es) = desync_depth es"

lemma desync_depth_append [simp]: "desync_depth (xs @ ys) = desync_depth xs + desync_depth ys"
  by (induction xs rule: desync_depth.induct) auto

definition reversing :: "rewind_globals \<Rightarrow> int" where
  "reversing g = (if frame_is_reversed g then 1 else 0)"

lemma check_rewind_ok:
  assumes r: "rewind_ready len g ss" and l: "length (fi_serialized i) = num16s len"
  shows "\<exists>ret effs g' ss'.
    state_manager_check_rewind (fi_pressed i) (fi_granularity i) (fi_paused i) (fi_bsv_inited i)
      (fi_serialized i) g = Some (ret, effs, g') \<and>
    rewind_ready len g' ss' \<and> reversing g + desync_depth effs = reversing g'"
proof -
  obtain st where st: "rw_state g = Some st" "rewind_stack len st ss" and sz: "rw_size g = len"
    and fst: "rw_first g \<longrightarrow> \<not> frame_is_reversed g"
    using r unfolding rewind_ready_def by blast
  obtain st1 where pop: "state_manager_pop st = Some (ss \<noteq> [], st1)" "rewind_stack len st1 (tl ss)"
    using pop_ok [OF st(2)] by blast
  obtain st2 k where push: "sm_push (fi_serialized i) st = Some st2"
    "rewind_stack len st2 (fi_serialized i # take (Suc k) ss)"
    using push_ok [OF st(2) l] by blast
  consider "rw_first g" | "\<not> rw_first g" "fi_pressed i" "ss = []" | "\<not> rw_first g" "fi_pressed i" "ss \<noteq> []"
    | "\<not> rw_first g" "\<not> fi_pressed i" by blast
  then show ?thesis
  proof cases
    case 1
    then show ?thesis using st fst sz
      by (auto simp: state_manager_check_rewind_def rewind_ready_def reversing_def Let_def)
  next
    case 2
    then show ?thesis using st pop sz
      by (auto simp: state_manager_check_rewind_def check_rewind_pressed_def rewind_ready_def reversing_def Let_def)
  next
    case 3
    then show ?thesis using st pop sz
      by (auto simp: state_manager_check_rewind_def check_rewind_pressed_def rewind_ready_def reversing_def Let_def)
  next
    case 4
    then show ?thesis using st push sz
      by (auto simp: state_manager_check_rewind_def check_rewind_released_def rewind_ready_def reversing_def Let_def)
  qed
qed

section \<open>Runs of frames\<close>

lemma rewind_frames_ok:
  "rewind_ready len g ss \<Longrightarrow> \<forall>i\<in>set is. length (fi_serialized i) = num16s len \<Longrightarrow>
     \<exists>effs g' ss'. rewind_frames g is = Some (effs, g') \<and> rewind_ready len g' ss' \<and>
       reversing g + desync_depth effs = reversing g'"
proof (induction "is" arbitrary: g ss)
  case Nil
  then show ?case by auto
next
  case (Cons i "is")
  then obtain ret effs g1 ss1 where
    f: "state_manager_check_rewind (fi_pressed i) (fi_granularity i) (fi_paused i) (fi_bsv_inited i)
      (fi_serialized i) g = Some (ret, effs, g1)" "rewind_ready len g1 ss1"
      "reversing g + desync_depth effs = reversing g1"
    using check_rewind_ok by (metis list.set_intros(1))
  from Cons.IH [OF f(2)] Cons.prems(2) obtain effs' g2 ss2 where
    r: "rewind_frames g1 is = Some (effs', g2)" "rewind_ready len g2 ss2"
      "reversing g1 + desync_depth effs' = reversing g2"
    by auto
  show ?case using f r by auto
qed

text \<open>What the core is made to load, in order.\<close>

fun unserialized :: "rewind_effect list \<Rightarrow> u16 list list" where
  "unserialized [] = []"
| "unserialized (CoreUnserialize ws # es) = ws # unserialized es"
| "unserialized (e # es) = unserialized es"

lemma unserialized_append [simp]: "unserialized (xs @ ys) = unserialized xs @ unserialized ys"
  by (induction xs rule: unserialized.induct) auto

lemma check_rewind_held:
  assumes r: "rewind_ready len g (s # ss)" and "\<not> rw_first g" and "fi_pressed i"
  shows "\<exists>effs g'. state_manager_check_rewind (fi_pressed i) (fi_granularity i) (fi_paused i)
      (fi_bsv_inited i) (fi_serialized i) g = Some (True, effs, g') \<and>
    rewind_ready len g' ss \<and> \<not> rw_first g' \<and> unserialized effs = [s]"
proof -
  obtain st where st: "rw_state g = Some st" "rewind_stack len st (s # ss)" and sz: "rw_size g = len"
    using r unfolding rewind_ready_def by blast
  obtain st1 where pop: "state_manager_pop st = Some (True, st1)" "rewind_stack len st1 ss"
    "take (num16s len) (sm_thisblock st1) = s"
    using pop_ok [OF st(2)] by auto
  show ?thesis using st pop sz assms(2,3)
    by (auto simp: state_manager_check_rewind_def check_rewind_pressed_def rewind_ready_def
        rewind_buf_def Let_def)
qed

lemma rewind_held_frames:
  "rewind_ready len g ss \<Longrightarrow> \<not> rw_first g \<Longrightarrow> \<forall>i\<in>set is. fi_pressed i \<Longrightarrow> length is \<le> length ss \<Longrightarrow>
     \<exists>effs g'. rewind_frames g is = Some (effs, g') \<and> unserialized effs = take (length is) ss"
proof (induction "is" arbitrary: g ss)
  case Nil
  then show ?case by auto
next
  case (Cons i "is")
  then obtain s ss' where ss: "ss = s # ss'" by (cases ss) auto
  obtain effs g1 where
    f: "state_manager_check_rewind (fi_pressed i) (fi_granularity i) (fi_paused i) (fi_bsv_inited i)
      (fi_serialized i) g = Some (True, effs, g1)" "rewind_ready len g1 ss'" "\<not> rw_first g1"
      "unserialized effs = [s]"
    using check_rewind_held [of len g s ss' i] Cons.prems ss by auto
  from Cons.IH [OF f(2,3)] Cons.prems ss obtain effs' g2 where
    r: "rewind_frames g1 is = Some (effs', g2)" "unserialized effs' = take (length is) ss'"
    by auto
  show ?case using f r by (simp add: ss)
qed

lemma rewind_frames_dead:
  "rw_state g = None \<Longrightarrow> \<exists>effs g'. rewind_frames g is = Some (effs, g') \<and> desync_depth effs = 0"
proof (induction "is" arbitrary: g)
  case Nil
  then show ?case by simp
next
  case (Cons i "is")
  have "\<exists>ret effs g1. state_manager_check_rewind (fi_pressed i) (fi_granularity i) (fi_paused i)
      (fi_bsv_inited i) (fi_serialized i) g = Some (ret, effs, g1) \<and> rw_state g1 = None \<and>
      desync_depth effs = 0"
    using Cons.prems by (simp add: state_manager_check_rewind_def Let_def) blast
  then obtain ret effs g1 where f: "state_manager_check_rewind (fi_pressed i) (fi_granularity i) (fi_paused i)
      (fi_bsv_inited i) (fi_serialized i) g = Some (ret, effs, g1)" "rw_state g1 = None"
      "desync_depth effs = 0"
    by blast
  from Cons.IH [OF f(2)] f show ?case by auto
qed

section \<open>Correctness\<close>

text \<open>Frame by frame, whatever the rewind key, the granularity and the core do: no frame fails, and the
  netplay desync counter is exactly one higher while a rewind is shown and back where it was otherwise.\<close>

theorem rewind_frames_desync_balanced:
  assumes "rewind_ready len g ss" and "\<forall>i\<in>set is. length (fi_serialized i) = num16s len"
  shows "\<exists>effs g' ss'. rewind_frames g is = Some (effs, g') \<and> rewind_ready len g' ss' \<and>
    reversing g + desync_depth effs = reversing g'"
  by (rule rewind_frames_ok [OF assms])

text \<open>C10. While the key is held the core is given the stored states one per frame, newest first.\<close>

theorem rewind_held_replays_backwards:
  assumes "rewind_ready len g ss" and "\<not> rw_first g" and "\<forall>i\<in>set is. fi_pressed i"
    and "length is \<le> length ss"
  shows "\<exists>effs g'. rewind_frames g is = Some (effs, g') \<and> unserialized effs = take (length is) ss"
  by (rule rewind_held_frames [OF assms])

text \<open>Turning rewind off while a rewind is shown leaves the netplay desync counter raised: the frame
  that starts the rewind pushes it, and no frame after \<^verbatim>\<open>state_manager_event_deinit\<close> pops it.\<close>

theorem rewind_deinit_leaks_desync:
  assumes "rewind_ready len g (s # ss)" and "\<not> rw_first g" and "\<not> frame_is_reversed g" and "fi_pressed i"
  shows "\<exists>effs g' effs' g''. rewind_frames g [i] = Some (effs, g') \<and> desync_depth effs = 1 \<and>
    rewind_frames (state_manager_event_deinit g') is = Some (effs', g'') \<and> desync_depth effs' = 0"
proof -
  obtain st where st: "rw_state g = Some st" "rewind_stack len st (s # ss)"
    using assms(1) unfolding rewind_ready_def by blast
  obtain st1 where pop: "state_manager_pop st = Some (True, st1)"
    using pop_ok [OF st(2)] by auto
  have "\<exists>effs g'. rewind_frames g [i] = Some (effs, g') \<and> desync_depth effs = 1"
    using st pop assms
    by (auto simp: state_manager_check_rewind_def check_rewind_pressed_def Let_def)
  moreover have "rw_state (state_manager_event_deinit g') = None" for g'
    by (simp add: state_manager_event_deinit_def)
  ultimately show ?thesis using rewind_frames_dead by blast
qed

definition example_globals :: rewind_globals where
  "example_globals = \<lparr>rw_state = sm_push [1, 2, 3] example_ring, rw_size = 6,
     frame_is_reversed = False, rw_first = False, rw_cnt = 0\<rparr>"

definition example_frame :: "bool \<Rightarrow> frame_input" where
  "example_frame p = \<lparr>fi_pressed = p, fi_granularity = 1, fi_paused = False, fi_bsv_inited = False,
     fi_serialized = [4, 5, 6]\<rparr>"

lemma example_globals_ready: "rewind_ready 6 example_globals [[1, 2, 3]]"
  using push_ok [OF example_ring_stack, of "[1, 2, 3]"]
  by (auto simp: rewind_ready_def example_globals_def num16s_6)

theorem rewind_frames_desync_balanced_witness:
  "\<exists>effs g' ss'. rewind_frames example_globals [example_frame True, example_frame False] = Some (effs, g') \<and>
     rewind_ready 6 g' ss' \<and> 0 + desync_depth effs = reversing g'"
proof -
  have "reversing example_globals = 0" by (simp add: reversing_def example_globals_def)
  then show ?thesis
    using rewind_frames_desync_balanced
      [OF example_globals_ready, of "[example_frame True, example_frame False]"]
    by (simp add: example_frame_def num16s_6)
qed

theorem rewind_held_replays_backwards_witness:
  "\<exists>effs g'. rewind_frames example_globals [example_frame True] = Some (effs, g') \<and>
     unserialized effs = [[1, 2, 3]]"
  using rewind_held_replays_backwards [OF example_globals_ready, of "[example_frame True]"]
  by (simp add: example_globals_def example_frame_def)

theorem rewind_deinit_leaks_desync_witness:
  "\<exists>effs g' effs' g''. rewind_frames example_globals [example_frame True] = Some (effs, g') \<and>
     desync_depth effs = 1 \<and>
     rewind_frames (state_manager_event_deinit g') [example_frame False] = Some (effs', g'') \<and>
     desync_depth effs' = 0"
  using rewind_deinit_leaks_desync [OF example_globals_ready, of "example_frame True" "[example_frame False]"]
  by (simp add: example_globals_def example_frame_def)

end
