(* ===== verification/Crc32.thy ===== *)
theory Crc32
  imports RA_Prelude
begin

unbundle bit_operations_syntax

text \<open>
  The CRC-32 of \<^verbatim>\<open>libretro-common/encodings/encoding_crc32.c\<close>: the lookup table as the file writes
  it, and the loop over a buffer.

  Proved here: the 256 literals are the table of the reflected polynomial \<open>0xedb88320\<close>, so the loop
  computes the bitwise CRC; the CRC of a file read in pieces is that of the whole; and two buffers
  that differ in one byte have different CRCs.
\<close>

definition crc32_table :: "u32 list" where
  "crc32_table = [
    0x00000000, 0x77073096, 0xee0e612c, 0x990951ba, 0x076dc419, 0x706af48f, 0xe963a535, 0x9e6495a3,
    0x0edb8832, 0x79dcb8a4, 0xe0d5e91e, 0x97d2d988, 0x09b64c2b, 0x7eb17cbd, 0xe7b82d07, 0x90bf1d91,
    0x1db71064, 0x6ab020f2, 0xf3b97148, 0x84be41de, 0x1adad47d, 0x6ddde4eb, 0xf4d4b551, 0x83d385c7,
    0x136c9856, 0x646ba8c0, 0xfd62f97a, 0x8a65c9ec, 0x14015c4f, 0x63066cd9, 0xfa0f3d63, 0x8d080df5,
    0x3b6e20c8, 0x4c69105e, 0xd56041e4, 0xa2677172, 0x3c03e4d1, 0x4b04d447, 0xd20d85fd, 0xa50ab56b,
    0x35b5a8fa, 0x42b2986c, 0xdbbbc9d6, 0xacbcf940, 0x32d86ce3, 0x45df5c75, 0xdcd60dcf, 0xabd13d59,
    0x26d930ac, 0x51de003a, 0xc8d75180, 0xbfd06116, 0x21b4f4b5, 0x56b3c423, 0xcfba9599, 0xb8bda50f,
    0x2802b89e, 0x5f058808, 0xc60cd9b2, 0xb10be924, 0x2f6f7c87, 0x58684c11, 0xc1611dab, 0xb6662d3d,
    0x76dc4190, 0x01db7106, 0x98d220bc, 0xefd5102a, 0x71b18589, 0x06b6b51f, 0x9fbfe4a5, 0xe8b8d433,
    0x7807c9a2, 0x0f00f934, 0x9609a88e, 0xe10e9818, 0x7f6a0dbb, 0x086d3d2d, 0x91646c97, 0xe6635c01,
    0x6b6b51f4, 0x1c6c6162, 0x856530d8, 0xf262004e, 0x6c0695ed, 0x1b01a57b, 0x8208f4c1, 0xf50fc457,
    0x65b0d9c6, 0x12b7e950, 0x8bbeb8ea, 0xfcb9887c, 0x62dd1ddf, 0x15da2d49, 0x8cd37cf3, 0xfbd44c65,
    0x4db26158, 0x3ab551ce, 0xa3bc0074, 0xd4bb30e2, 0x4adfa541, 0x3dd895d7, 0xa4d1c46d, 0xd3d6f4fb,
    0x4369e96a, 0x346ed9fc, 0xad678846, 0xda60b8d0, 0x44042d73, 0x33031de5, 0xaa0a4c5f, 0xdd0d7cc9,
    0x5005713c, 0x270241aa, 0xbe0b1010, 0xc90c2086, 0x5768b525, 0x206f85b3, 0xb966d409, 0xce61e49f,
    0x5edef90e, 0x29d9c998, 0xb0d09822, 0xc7d7a8b4, 0x59b33d17, 0x2eb40d81, 0xb7bd5c3b, 0xc0ba6cad,
    0xedb88320, 0x9abfb3b6, 0x03b6e20c, 0x74b1d29a, 0xead54739, 0x9dd277af, 0x04db2615, 0x73dc1683,
    0xe3630b12, 0x94643b84, 0x0d6d6a3e, 0x7a6a5aa8, 0xe40ecf0b, 0x9309ff9d, 0x0a00ae27, 0x7d079eb1,
    0xf00f9344, 0x8708a3d2, 0x1e01f268, 0x6906c2fe, 0xf762575d, 0x806567cb, 0x196c3671, 0x6e6b06e7,
    0xfed41b76, 0x89d32be0, 0x10da7a5a, 0x67dd4acc, 0xf9b9df6f, 0x8ebeeff9, 0x17b7be43, 0x60b08ed5,
    0xd6d6a3e8, 0xa1d1937e, 0x38d8c2c4, 0x4fdff252, 0xd1bb67f1, 0xa6bc5767, 0x3fb506dd, 0x48b2364b,
    0xd80d2bda, 0xaf0a1b4c, 0x36034af6, 0x41047a60, 0xdf60efc3, 0xa867df55, 0x316e8eef, 0x4669be79,
    0xcb61b38c, 0xbc66831a, 0x256fd2a0, 0x5268e236, 0xcc0c7795, 0xbb0b4703, 0x220216b9, 0x5505262f,
    0xc5ba3bbe, 0xb2bd0b28, 0x2bb45a92, 0x5cb36a04, 0xc2d7ffa7, 0xb5d0cf31, 0x2cd99e8b, 0x5bdeae1d,
    0x9b64c2b0, 0xec63f226, 0x756aa39c, 0x026d930a, 0x9c0906a9, 0xeb0e363f, 0x72076785, 0x05005713,
    0x95bf4a82, 0xe2b87a14, 0x7bb12bae, 0x0cb61b38, 0x92d28e9b, 0xe5d5be0d, 0x7cdcefb7, 0x0bdbdf21,
    0x86d3d2d4, 0xf1d4e242, 0x68ddb3f8, 0x1fda836e, 0x81be16cd, 0xf6b9265b, 0x6fb077e1, 0x18b74777,
    0x88085ae6, 0xff0f6a70, 0x66063bca, 0x11010b5c, 0x8f659eff, 0xf862ae69, 0x616bffd3, 0x166ccf45,
    0xa00ae278, 0xd70dd2ee, 0x4e048354, 0x3903b3c2, 0xa7672661, 0xd06016f7, 0x4969474d, 0x3e6e77db,
    0xaed16a4a, 0xd9d65adc, 0x40df0b66, 0x37d83bf0, 0xa9bcae53, 0xdebb9ec5, 0x47b2cf7f, 0x30b5ffe9,
    0xbdbdf21c, 0xcabac28a, 0x53b39330, 0x24b4a3a6, 0xbad03605, 0xcdd70693, 0x54de5729, 0x23d967bf,
    0xb3667a2e, 0xc4614ab8, 0x5d681b02, 0x2a6f2b94, 0xb40bbe37, 0xc30c8ea1, 0x5a05df1b, 0x2d02ef8d]"

definition crc32_step :: "u32 \<Rightarrow> u8 \<Rightarrow> u32" where
  "crc32_step crc b = crc32_table ! unat ((crc XOR ucast b) AND 0xff) XOR drop_bit 8 crc"

fun crc32_loop :: "u32 \<Rightarrow> bytes \<Rightarrow> u32" where
  "crc32_loop crc [] = crc"
| "crc32_loop crc (b # bs) = crc32_loop (crc32_step crc b) bs"

definition encoding_crc32 :: "u32 \<Rightarrow> bytes \<Rightarrow> u32" where
  "encoding_crc32 crc buf = crc32_loop (crc XOR 0xffffffff) buf XOR 0xffffffff"

section \<open>The bitwise CRC\<close>

definition crc_bit :: "u32 \<Rightarrow> u32" where
  "crc_bit x = (if bit x 0 then drop_bit 1 x XOR 0xedb88320 else drop_bit 1 x)"

definition crc_byte :: "u32 \<Rightarrow> u32" where
  "crc_byte x = crc_bit (crc_bit (crc_bit (crc_bit (crc_bit (crc_bit (crc_bit (crc_bit x)))))))"

fun counting :: "nat \<Rightarrow> u32 \<Rightarrow> u32 list" where
  "counting 0 x = []"
| "counting (Suc n) x = x # counting n (x + 1)"

lemma counting_numeral: "counting (numeral k) x = x # counting (pred_numeral k) (x + 1)"
  by (simp add: numeral_eq_Suc)

lemma counting_nth: "i < n \<Longrightarrow> counting n x ! i = x + of_nat i"
proof (induction n arbitrary: x i)
  case (Suc n)
  then show ?case by (cases i) (auto simp: algebra_simps)
qed simp

lemma length_counting [simp]: "length (counting n x) = n"
  by (induction n arbitrary: x) auto

lemma crc32_table_eq: "crc32_table = map crc_byte (counting 256 0)"
  by (simp add: crc32_table_def crc_byte_def crc_bit_def counting_numeral)

lemma crc32_table_nth: "i < 256 \<Longrightarrow> crc32_table ! i = crc_byte (of_nat i)"
  by (simp add: crc32_table_eq counting_nth)

text \<open>Both halves of a register step independently: the CRC bit step is linear.\<close>

lemma crc_bit_even: "\<not> bit x 0 \<Longrightarrow> crc_bit x = drop_bit 1 x"
  by (simp add: crc_bit_def)

lemma crc_bit_xor: "crc_bit (x XOR y) = crc_bit x XOR crc_bit y"
  by (rule bit_word_eqI) (auto simp: crc_bit_def bit_xor_iff bit_drop_bit_eq)

lemma crc_byte_xor: "crc_byte (x XOR y) = crc_byte x XOR crc_byte y"
  by (simp add: crc_byte_def crc_bit_xor)

lemma crc_bit_drop:
  assumes "k < 8"
  shows "crc_bit (drop_bit k (x AND NOT (mask 8))) = drop_bit (Suc k) (x AND NOT (mask 8))"
proof -
  have "\<not> bit (drop_bit k (x AND NOT (mask 8))) 0"
    using assms by (simp add: bit_drop_bit_eq bit_and_iff bit_not_iff bit_mask_iff)
  then show ?thesis by (simp add: crc_bit_even)
qed

lemma crc_byte_high: "crc_byte (x AND NOT (mask 8)) = drop_bit 8 x"
proof -
  have "crc_byte (x AND NOT (mask 8)) = drop_bit 8 (x AND NOT (mask 8))"
    using crc_bit_drop [of 0 x] crc_bit_drop [of 1 x] crc_bit_drop [of 2 x] crc_bit_drop [of 3 x]
      crc_bit_drop [of 4 x] crc_bit_drop [of 5 x] crc_bit_drop [of 6 x] crc_bit_drop [of 7 x]
    by (simp add: crc_byte_def eval_nat_numeral)
  also have "\<dots> = drop_bit 8 x"
    by (rule bit_word_eqI)
      (auto simp: bit_drop_bit_eq bit_and_iff bit_not_iff bit_mask_iff dest: bit_imp_le_length)
  finally show ?thesis .
qed

lemma crc32_step_bits: "crc32_step crc b = crc_byte (crc XOR ucast b)"
proof -
  let ?x = "crc XOR ucast b"
  have m: "(0xff :: u32) = mask 8" by (simp add: mask_eq_exp_minus_1)
  have "unat (?x AND 0xff) = unat ?x mod 2 ^ 8"
    unfolding m take_bit_eq_mask [symmetric] unsigned_take_bit_eq by (rule take_bit_eq_mod)
  then have "unat (?x AND 0xff) < 256" by simp
  then have "crc32_step crc b = crc_byte (?x AND mask 8) XOR drop_bit 8 crc"
    unfolding m by (simp add: crc32_step_def crc32_table_nth m)
  also have "drop_bit 8 crc = drop_bit 8 ?x"
    by (rule bit_word_eqI) (auto simp: bit_drop_bit_eq bit_xor_iff bit_ucast_iff dest: bit_imp_le_length)
  also have "\<dots> = crc_byte (?x AND NOT (mask 8))" by (simp add: crc_byte_high)
  also have "crc_byte (?x AND mask 8) XOR crc_byte (?x AND NOT (mask 8)) =
      crc_byte ((?x AND mask 8) XOR (?x AND NOT (mask 8)))" by (simp add: crc_byte_xor)
  also have "(?x AND mask 8) XOR (?x AND NOT (mask 8)) = ?x"
    by (rule bit_word_eqI) (auto simp: bit_and_iff bit_xor_iff bit_not_iff)
  finally show ?thesis .
qed

text \<open>The bit step loses nothing: bit 31 of its result says whether the polynomial was added.\<close>

lemma crc_bit_inj: "crc_bit x = crc_bit y \<Longrightarrow> x = y"
proof -
  assume e: "crc_bit x = crc_bit y"
  have top: "bit (crc_bit z) 31 = bit z 0" for z
    by (simp add: crc_bit_def bit_xor_iff bit_drop_bit_eq bit_imp_le_length)
      (auto dest: bit_imp_le_length)
  have low: "bit x 0 = bit y 0" using e top by metis
  have d: "drop_bit 1 x = drop_bit 1 y"
    using e low by (simp add: crc_bit_def del: One_nat_def split: if_splits)
  show "x = y"
  proof (rule bit_word_eqI)
    fix n assume "n < LENGTH(32)"
    show "bit x n = bit y n"
    proof (cases n)
      case 0
      then show ?thesis using low by simp
    next
      case (Suc m)
      then show ?thesis using arg_cong [OF d, of "\<lambda>z. bit z m"] by (simp add: bit_drop_bit_eq)
    qed
  qed
qed

lemma crc_byte_inj: "crc_byte x = crc_byte y \<Longrightarrow> x = y"
  unfolding crc_byte_def by (blast dest: crc_bit_inj)

lemma crc32_step_inj_state: "crc32_step c b = crc32_step d b \<Longrightarrow> c = d"
  by (auto simp: crc32_step_bits dest!: crc_byte_inj)

lemma crc32_step_inj_byte: "crc32_step c a = crc32_step c b \<Longrightarrow> a = b"
proof -
  assume "crc32_step c a = crc32_step c b"
  then have "crc_byte (c XOR ucast a) = crc_byte (c XOR ucast b)"
    by (simp add: crc32_step_bits)
  then have "c XOR ucast a = c XOR (ucast b :: u32)" by (rule crc_byte_inj)
  then have "(ucast a :: u32) = ucast b" by simp
  then have e: "(ucast a :: u32) = ucast b" by simp
  show "a = b"
  proof (rule bit_word_eqI)
    fix n assume "n < LENGTH(8)"
    then show "bit a n = bit b n"
      using arg_cong [OF e, of "\<lambda>z. bit z n"] by (simp add: bit_ucast_iff)
  qed
qed

lemma crc32_loop_inj: "crc32_loop c bs = crc32_loop d bs \<Longrightarrow> c = d"
  by (induction bs arbitrary: c d) (auto dest: crc32_step_inj_state)

lemma crc32_loop_append: "crc32_loop c (as @ bs) = crc32_loop (crc32_loop c as) bs"
  by (induction as arbitrary: c) auto

section \<open>Checksums of a stream\<close>

text \<open>
  What the clients rely on (\<^verbatim>\<open>file_crc32\<close> reads in chunks, the patch code checksums byte by byte): a
  checksum can be continued.
\<close>

locale stream_checksum =
  fixes update :: "'c \<Rightarrow> 'b list \<Rightarrow> 'c"
  assumes update_Nil: "update c [] = c"
    and update_append: "update (update c as) bs = update c (as @ bs)"
begin

lemma update_chunks: "foldl update c chunks = update c (concat chunks)"
  by (induction chunks arbitrary: c) (auto simp: update_Nil update_append)

lemma update_bytes: "foldl (\<lambda>c b. update c [b]) c bs = update c bs"
proof (induction bs arbitrary: c)
  case (Cons b bs)
  then show ?case by (simp add: update_append)
qed (simp add: update_Nil)

lemma update_snoc: "update (update c as) [b] = update c (as @ [b])"
  by (rule update_append)

end

interpretation crc32: stream_checksum encoding_crc32
  by unfold_locales (simp_all add: encoding_crc32_def crc32_loop_append)

section \<open>Correctness\<close>

text \<open>C11. The table-driven loop computes the bitwise CRC of the reflected polynomial 0xedb88320: for
  every byte the register is xored with it and shifted eight times; the table literals are right.\<close>

theorem encoding_crc32_bitwise:
  "encoding_crc32 crc buf =
     foldl (\<lambda>c b. crc_byte (c XOR ucast b)) (crc XOR 0xffffffff) buf XOR 0xffffffff"
proof -
  have "crc32_loop c buf = foldl (\<lambda>c b. crc_byte (c XOR ucast b)) c buf" for c
    by (induction buf arbitrary: c) (simp_all add: crc32_step_bits)
  then show ?thesis by (simp add: encoding_crc32_def)
qed

text \<open>The CRC of data that arrives in pieces, each continuing the previous result, is the CRC of the
  whole, whatever the pieces.\<close>

theorem encoding_crc32_pieces: "foldl encoding_crc32 crc chunks = encoding_crc32 crc (concat chunks)"
  by (rule crc32.update_chunks)

text \<open>A changed byte is always detected: two buffers that differ in exactly one byte have different
  CRCs, whatever comes before and after it.\<close>

theorem encoding_crc32_detects_byte:
  assumes "a \<noteq> b"
  shows "encoding_crc32 crc (pre @ a # post) \<noteq> encoding_crc32 crc (pre @ b # post)"
proof
  assume "encoding_crc32 crc (pre @ a # post) = encoding_crc32 crc (pre @ b # post)"
  then have "crc32_step (crc32_loop (crc XOR 0xffffffff) pre) a =
      crc32_step (crc32_loop (crc XOR 0xffffffff) pre) b"
    by (auto simp: encoding_crc32_def crc32_loop_append dest: crc32_loop_inj)
  with assms show False by (auto dest: crc32_step_inj_byte)
qed

theorem encoding_crc32_detects_byte_witness:
  "encoding_crc32 0 ([1] @ 2 # [3]) \<noteq> encoding_crc32 0 ([1] @ 7 # [3])"
  by (rule encoding_crc32_detects_byte) simp

end
