(* ===== verification/Patch_Base.thy ===== *)
theory Patch_Base
  imports Crc32
begin

text \<open>
  What the soft-patch formats of \<^verbatim>\<open>tasks/task_patch.c\<close> share: the error codes, and the
  variable-length numbers of BPS and UPS.  The two decoders of the file differ only in how they read a
  byte; the locale states what such a decoder is, and proves once that it inverts the encoding.
\<close>

datatype patch_error =
    PATCH_UNKNOWN | PATCH_SUCCESS | PATCH_PATCH_TOO_SMALL | PATCH_PATCH_INVALID_HEADER
  | PATCH_PATCH_INVALID | PATCH_SOURCE_TOO_SMALL | PATCH_TARGET_TOO_SMALL | PATCH_SOURCE_INVALID
  | PATCH_TARGET_INVALID | PATCH_SOURCE_CHECKSUM_INVALID | PATCH_TARGET_CHECKSUM_INVALID
  | PATCH_PATCH_CHECKSUM_INVALID

section \<open>32-bit values from bytes\<close>

text \<open>\<^verbatim>\<open>v |= read() << i\<close> for four bytes, the least significant first.\<close>

definition u32_of_bytes :: "u8 \<Rightarrow> u8 \<Rightarrow> u8 \<Rightarrow> u8 \<Rightarrow> u32" where
  "u32_of_bytes a b c d =
     ucast a OR push_bit 8 (ucast b) OR push_bit 16 (ucast c) OR push_bit 24 (ucast d)"

lemma bit_ucast_u8: "bit (ucast (x :: u8) :: u32) n \<Longrightarrow> n < 8"
  by (auto simp: bit_ucast_iff dest: bit_imp_le_length)

lemma u32_of_bytes_value: "u32_of_bytes a b c d = of_nat (le_value [a, b, c, d])"
proof -
  let ?a = "ucast a :: u32" and ?b = "push_bit 8 (ucast b :: u32)"
    and ?c = "push_bit 16 (ucast c :: u32)" and ?d = "push_bit 24 (ucast d :: u32)"
  have "?c AND ?d = 0"
    by (rule bit_word_eqI) (auto simp: bit_and_iff bit_push_bit_iff dest: bit_ucast_u8)
  then have cd: "?c OR ?d = ?c + ?d" by (rule disjunctive_add_eq_or [symmetric])
  have "?b AND (?c OR ?d) = 0"
    by (rule bit_word_eqI) (auto simp: bit_and_iff bit_or_iff bit_push_bit_iff dest: bit_ucast_u8)
  then have bcd: "?b OR (?c OR ?d) = ?b + (?c OR ?d)" by (rule disjunctive_add_eq_or [symmetric])
  have "?a AND (?b OR (?c OR ?d)) = 0"
    by (rule bit_word_eqI) (auto simp: bit_and_iff bit_or_iff bit_push_bit_iff dest: bit_ucast_u8)
  then have abcd: "?a OR (?b OR (?c OR ?d)) = ?a + (?b OR (?c OR ?d))"
    by (rule disjunctive_add_eq_or [symmetric])
  have u: "(of_nat (unat x) :: u32) = ucast x" for x :: u8 by simp
  have "u32_of_bytes a b c d = ?a + (?b + (?c + ?d))"
    unfolding u32_of_bytes_def or.assoc abcd unfolding bcd unfolding cd ..
  also have "\<dots> = of_nat (le_value [a, b, c, d])"
    by (simp add: push_bit_eq_mult algebra_simps)
  finally show ?thesis .
qed

section \<open>Readers\<close>

text \<open>\<open>reads getb s bs s'\<close>: from the state \<open>s\<close> the reader \<open>getb\<close> delivers the bytes \<open>bs\<close>.\<close>

fun reads :: "('s \<Rightarrow> (u8 \<times> 's) option) \<Rightarrow> 's \<Rightarrow> bytes \<Rightarrow> 's \<Rightarrow> bool" where
  "reads getb s [] s' = (s = s')"
| "reads getb s (b # bs) s' = (\<exists>s1. getb s = Some (b, s1) \<and> reads getb s1 bs s')"

lemma reads_append: "reads getb s (as @ bs) s' \<longleftrightarrow> (\<exists>m. reads getb s as m \<and> reads getb m bs s')"
  by (induction as arbitrary: s) auto

section \<open>Variable-length numbers\<close>

text \<open>
  The encoding of the formats: seven bits a byte, least significant first, the last byte marked by its
  top bit; every further byte also counts one more, so that no number has two encodings.
\<close>

function number_bytes :: "nat \<Rightarrow> bytes" where
  "number_bytes n =
     (if n < 128 then [of_nat n OR 0x80] else of_nat (n mod 128) # number_bytes (n div 128 - 1))"
  by auto
termination by (relation "measure id") auto

declare number_bytes.simps [simp del]

lemma number_bytes_not_Nil [simp]: "number_bytes n \<noteq> []"
  by (subst number_bytes.simps) simp

lemma low7_and: "n < 128 \<Longrightarrow> (of_nat n :: u8) AND 0x7f = of_nat n"
proof -
  assume n: "n < 128"
  have "(of_nat n :: u8) AND 0x7f = take_bit 7 (of_nat n)"
    by (simp add: take_bit_eq_mask mask_eq_exp_minus_1)
  also have "\<dots> = of_nat n"
    using n by (intro word_unat_eq_iff [THEN iffD2])
      (simp add: unsigned_take_bit_eq unat_of_nat take_bit_nat_eq_self)
  finally show ?thesis .
qed

lemma low7_bit: "n < 128 \<Longrightarrow> (of_nat n :: u8) AND 0x80 = 0"
proof -
  assume n: "n < 128"
  have "(of_nat n :: u8) AND 0x80 = (of_nat n AND 0x7f) AND 0x80" by (simp only: low7_and [OF n])
  also have "\<dots> = 0" by (simp add: and.assoc)
  finally show ?thesis .
qed

lemma last_and: "n < 128 \<Longrightarrow> (of_nat n OR 0x80 :: u8) AND 0x7f = of_nat n"
  by (simp add: bit.conj_disj_distrib2 low7_and)

lemma last_bit: "(x OR 0x80 :: u8) AND 0x80 \<noteq> 0"
  by (simp add: bit.conj_disj_distrib2)

lemma ucast_small: "k < 256 \<Longrightarrow> ucast (of_nat k :: u8) = (of_nat k :: u64)"
  by (simp add: unsigned_of_nat take_bit_nat_eq_self)

locale number_reader =
  fixes getb :: "'s \<Rightarrow> (u8 \<times> 's) option"
    and decode :: "u64 \<Rightarrow> u64 \<Rightarrow> 's \<Rightarrow> (u64 \<times> 's) option"
  assumes decode_last: "getb s = Some (x, s1) \<Longrightarrow> x AND 0x80 \<noteq> 0 \<Longrightarrow>
      decode data shift s = Some (data + ucast (x AND 0x7f) * shift, s1)"
    and decode_more: "getb s = Some (x, s1) \<Longrightarrow> x AND 0x80 = 0 \<Longrightarrow>
      decode data shift s =
        decode (data + ucast (x AND 0x7f) * shift + push_bit 7 shift) (push_bit 7 shift) s1"
begin

lemma decode_number_acc:
  "reads getb s (number_bytes n) s' \<Longrightarrow> decode data shift s = Some (data + shift * of_nat n, s')"
proof (induction n arbitrary: s data shift rule: number_bytes.induct)
  case (1 n)
  show ?case
  proof (cases "n < 128")
    case True
    then have "getb s = Some (of_nat n OR 0x80, s')"
      using "1.prems" by (simp add: number_bytes.simps [of n])
    from decode_last [OF this last_bit] show ?thesis
      using True by (simp add: last_and unsigned_of_nat take_bit_nat_eq_self mult.commute)
  next
    case False
    then obtain s1 where s1: "getb s = Some (of_nat (n mod 128), s1)"
      "reads getb s1 (number_bytes (n div 128 - 1)) s'"
      using "1.prems" by (auto simp: number_bytes.simps [of n])
    have m: "(of_nat (n mod 128) :: u8) AND 0x80 = 0" by (simp add: low7_bit)
    have u: "ucast (of_nat (n mod 128) AND 0x7f :: u8) = (of_nat (n mod 128) :: u64)"
      using ucast_small [of "n mod 128"] mod_less_divisor [of 128 n] by (simp add: low7_and)
    define k where "k = n div 128 - 1"
    have n: "n = 128 * k + 128 + n mod 128"
      using False by (simp add: k_def algebra_simps)
    have "(of_nat n :: u64) = of_nat (128 * k + 128 + n mod 128)" using n by simp
    then show ?thesis
      using "1.IH" [OF False s1(2), folded k_def] decode_more [OF s1(1) m]
      by (simp add: u push_bit_eq_mult algebra_simps)
  qed
qed

lemma decode_number: "reads getb s (number_bytes n) s' \<Longrightarrow> decode 0 1 s = Some (of_nat n, s')"
  by (simp add: decode_number_acc)

end

end
