(* ===== verification/Patch_Bps.thy ===== *)
theory Patch_Bps
  imports Patch_Base
begin

text \<open>
  BPS patches (\<^verbatim>\<open>bps_apply_patch\<close> of \<^verbatim>\<open>tasks/task_patch.c\<close>): a record of three buffers with cursors, the
  byte primitives that keep running checksums, and the four commands.  The code checks no cursor
  against its buffer, so every access is a checked one here and \<^term>\<open>None\<close> is an access outside.

  Proved here: the numbers of the format are read back; a patch that is accepted has matched all
  three checksums, over the whole source, the whole patch and all of the output written; but the
  length reported is the one the header announces, whatever was written.
\<close>

datatype bps_mode = SOURCE_READ | TARGET_READ | SOURCE_COPY | TARGET_COPY

record bps_data =
  bp_modify_data :: bytes
  bp_source_data :: bytes
  bp_target_data :: bytes
  bp_modify_length :: nat
  bp_source_length :: nat
  bp_target_length :: nat
  bp_modify_offset :: nat
  bp_source_offset :: u64
  bp_target_offset :: u64
  bp_modify_checksum :: u32
  bp_source_checksum :: u32
  bp_target_checksum :: u32
  bp_source_relative_offset :: nat
  bp_target_relative_offset :: nat
  bp_output_offset :: nat

definition bps_read :: "bps_data \<Rightarrow> (u8 \<times> bps_data) option" where
  "bps_read bps = do {
     data \<leftarrow> mem_get (bp_modify_data bps) (bp_modify_offset bps);
     Some (data, bps\<lparr>
       bp_modify_offset := bp_modify_offset bps + 1,
       bp_modify_checksum := NOT (encoding_crc32 (NOT (bp_modify_checksum bps)) [data])\<rparr>)
   }"

partial_function (option) bps_decode_loop :: "u64 \<Rightarrow> u64 \<Rightarrow> bps_data \<Rightarrow> (u64 \<times> bps_data) option" where
  "bps_decode_loop data shift bps =
     Option.bind (bps_read bps) (\<lambda>(x, bps).
       if x AND 0x80 \<noteq> 0 then Some (data + ucast (x AND 0x7f) * shift, bps)
       else bps_decode_loop (data + ucast (x AND 0x7f) * shift + push_bit 7 shift) (push_bit 7 shift) bps)"

definition bps_decode :: "bps_data \<Rightarrow> (u64 \<times> bps_data) option" where
  "bps_decode bps = bps_decode_loop 0 1 bps"

definition bps_write :: "u8 \<Rightarrow> bps_data \<Rightarrow> bps_data option" where
  "bps_write data bps = do {
     t \<leftarrow> mem_set (bp_target_data bps) (bp_output_offset bps) data;
     Some (bps\<lparr>
       bp_target_data := t,
       bp_output_offset := bp_output_offset bps + 1,
       bp_target_checksum := NOT (encoding_crc32 (NOT (bp_target_checksum bps)) [data])\<rparr>)
   }"

section \<open>The commands\<close>

fun bps_source_read :: "nat \<Rightarrow> bps_data \<Rightarrow> bps_data option" where
  "bps_source_read 0 bps = Some bps"
| "bps_source_read (Suc n) bps = do {
     x \<leftarrow> mem_get (bp_source_data bps) (bp_output_offset bps);
     bps \<leftarrow> bps_write x bps;
     bps_source_read n bps
   }"

fun bps_target_read :: "nat \<Rightarrow> bps_data \<Rightarrow> bps_data option" where
  "bps_target_read 0 bps = Some bps"
| "bps_target_read (Suc n) bps = do {
     (x, bps) \<leftarrow> bps_read bps;
     bps \<leftarrow> bps_write x bps;
     bps_target_read n bps
   }"

fun bps_source_copy :: "nat \<Rightarrow> bps_data \<Rightarrow> bps_data option" where
  "bps_source_copy 0 bps = Some bps"
| "bps_source_copy (Suc n) bps = do {
     x \<leftarrow> mem_get (bp_source_data bps) (unat (bp_source_offset bps));
     bps \<leftarrow> bps_write x (bps\<lparr>bp_source_offset := bp_source_offset bps + 1\<rparr>);
     bps_source_copy n bps
   }"

fun bps_target_copy :: "nat \<Rightarrow> bps_data \<Rightarrow> bps_data option" where
  "bps_target_copy 0 bps = Some bps"
| "bps_target_copy (Suc n) bps = do {
     x \<leftarrow> mem_get (bp_target_data bps) (unat (bp_target_offset bps));
     bps \<leftarrow> bps_write x (bps\<lparr>bp_target_offset := bp_target_offset bps + 1\<rparr>);
     bps_target_copy n bps
   }"

text \<open>\<^verbatim>\<open>int offset = (int)bps_decode(bps)\<close>, its sign in bit 0, added to a \<^verbatim>\<open>size_t\<close>.\<close>

definition bps_relative :: "u64 \<Rightarrow> u64" where
  "bps_relative data =
     (let offset = (ucast data :: 32 word);
          negative = bit offset 0;
          offset = signed_drop_bit 1 offset;
          offset = (if negative then - offset else offset)
      in scast offset)"

definition bps_mode_of :: "u64 \<Rightarrow> bps_mode" where
  "bps_mode_of len =
     (let mode = len AND 3 in
      if mode = 0 then SOURCE_READ else if mode = 1 then TARGET_READ
      else if mode = 2 then SOURCE_COPY else TARGET_COPY)"

definition bps_command :: "bps_mode \<Rightarrow> nat \<Rightarrow> bps_data \<Rightarrow> bps_data option" where
  "bps_command mode n bps =
     (case mode of
        SOURCE_READ \<Rightarrow> bps_source_read n bps
      | TARGET_READ \<Rightarrow> bps_target_read n bps
      | SOURCE_COPY \<Rightarrow> do {
          (d, bps) \<leftarrow> bps_decode bps;
          bps_source_copy n (bps\<lparr>bp_source_offset := bp_source_offset bps + bps_relative d\<rparr>)
        }
      | TARGET_COPY \<Rightarrow> do {
          (d, bps) \<leftarrow> bps_decode bps;
          bps_target_copy n (bps\<lparr>bp_target_offset := bp_target_offset bps + bps_relative d\<rparr>)
        })"

partial_function (option) bps_commands :: "bps_data \<Rightarrow> bps_data option" where
  "bps_commands bps =
     (if bp_modify_offset bps < bp_modify_length bps - 12
      then Option.bind (bps_decode bps) (\<lambda>(len, bps).
             Option.bind (bps_command (bps_mode_of len) (unat (drop_bit 2 len + 1)) bps) bps_commands)
      else Some bps)"

section \<open>Applying a patch\<close>

text \<open>The header: the reads stop at the first byte that differs.\<close>

fun bps_expect :: "bytes \<Rightarrow> bps_data \<Rightarrow> (bool \<times> bps_data) option" where
  "bps_expect [] bps = Some (True, bps)"
| "bps_expect (c # cs) bps = do {
     (x, bps) \<leftarrow> bps_read bps;
     if x \<noteq> c then Some (False, bps) else bps_expect cs bps
   }"

fun bps_skip :: "nat \<Rightarrow> bps_data \<Rightarrow> bps_data option" where
  "bps_skip 0 bps = Some bps"
| "bps_skip (Suc n) bps = do { (x, bps) \<leftarrow> bps_read bps; bps_skip n bps }"

definition bps_read_u32 :: "bps_data \<Rightarrow> (u32 \<times> bps_data) option" where
  "bps_read_u32 bps = do {
     (a, bps) \<leftarrow> bps_read bps;
     (b, bps) \<leftarrow> bps_read bps;
     (c, bps) \<leftarrow> bps_read bps;
     (d, bps) \<leftarrow> bps_read bps;
     Some (u32_of_bytes a b c d, bps)
   }"

definition bps_init :: "bytes \<Rightarrow> nat \<Rightarrow> bytes \<Rightarrow> nat \<Rightarrow> bytes \<Rightarrow> nat \<Rightarrow> bps_data" where
  "bps_init modify_data modify_length source_data source_length target_data target_length =
     \<lparr> bp_modify_data = modify_data, bp_source_data = source_data, bp_target_data = target_data,
       bp_modify_length = modify_length, bp_source_length = source_length,
       bp_target_length = target_length,
       bp_modify_offset = 0, bp_source_offset = 0, bp_target_offset = 0,
       bp_modify_checksum = NOT 0, bp_source_checksum = 0, bp_target_checksum = NOT 0,
       bp_source_relative_offset = 0, bp_target_relative_offset = 0, bp_output_offset = 0 \<rparr>"

text \<open>What follows the commands: the three checksums are read and compared.\<close>

definition bps_finish :: "u64 \<Rightarrow> nat \<Rightarrow> bps_data \<Rightarrow> (patch_error \<times> bytes \<times> nat) option" where
  "bps_finish modify_target_size target_length bps = do {
     (modify_source_checksum, bps) \<leftarrow> bps_read_u32 bps;
     (modify_target_checksum, bps) \<leftarrow> bps_read_u32 bps;
     let checksum = NOT (bp_modify_checksum bps);
     (modify_modify_checksum, bps) \<leftarrow> bps_read_u32 bps;
     source \<leftarrow> mem_read (bp_source_data bps) 0 (bp_source_length bps);
     let bps = bps\<lparr>bp_source_checksum := encoding_crc32 0 source,
                   bp_target_checksum := NOT (bp_target_checksum bps)\<rparr>;
     if bp_source_checksum bps \<noteq> modify_source_checksum
     then Some (PATCH_SOURCE_CHECKSUM_INVALID, bp_target_data bps, target_length)
     else if bp_target_checksum bps \<noteq> modify_target_checksum
     then Some (PATCH_TARGET_CHECKSUM_INVALID, bp_target_data bps, target_length)
     else if checksum \<noteq> modify_modify_checksum
     then Some (PATCH_PATCH_CHECKSUM_INVALID, bp_target_data bps, target_length)
     else Some (PATCH_SUCCESS, bp_target_data bps, unat modify_target_size)
   }"

text \<open>The result: the error code, the target buffer, and \<^verbatim>\<open>*target_length\<close>.\<close>

definition bps_apply_patch ::
  "bytes \<Rightarrow> nat \<Rightarrow> bytes \<Rightarrow> nat \<Rightarrow> bytes \<Rightarrow> nat \<Rightarrow> (patch_error \<times> bytes \<times> nat) option" where
  "bps_apply_patch modify_data modify_length source_data source_length target_data target_length =
     (if modify_length < 19 then Some (PATCH_PATCH_TOO_SMALL, target_data, target_length)
      else do {
        let bps = bps_init modify_data modify_length source_data source_length target_data target_length;
        (ok, bps) \<leftarrow> bps_expect [0x42, 0x50, 0x53, 0x31] bps;
        if \<not> ok then Some (PATCH_PATCH_INVALID_HEADER, bp_target_data bps, target_length)
        else do {
          (modify_source_size, bps) \<leftarrow> bps_decode bps;
          (modify_target_size, bps) \<leftarrow> bps_decode bps;
          (modify_markup_size, bps) \<leftarrow> bps_decode bps;
          bps \<leftarrow> bps_skip (unat modify_markup_size) bps;
          if unat modify_source_size > bp_source_length bps
          then Some (PATCH_SOURCE_TOO_SMALL, bp_target_data bps, target_length)
          else if unat modify_target_size > bp_target_length bps
          then Some (PATCH_TARGET_TOO_SMALL, bp_target_data bps, target_length)
          else do {
            bps \<leftarrow> bps_commands bps;
            bps_finish modify_target_size target_length bps
          }
        }
      })"

interpretation bps_numbers: number_reader bps_read bps_decode_loop
  by unfold_locales (simp_all add: bps_decode_loop.simps)

section \<open>What the running checksums cover\<close>

definition bps_inv :: "bytes \<Rightarrow> bytes \<Rightarrow> bps_data \<Rightarrow> bool" where
  "bps_inv m s bps \<longleftrightarrow>
     bp_modify_data bps = m \<and> bp_source_data bps = s \<and>
     bp_modify_offset bps \<le> length m \<and>
     NOT (bp_modify_checksum bps) = encoding_crc32 0 (take (bp_modify_offset bps) m) \<and>
     bp_output_offset bps \<le> length (bp_target_data bps) \<and>
     NOT (bp_target_checksum bps) = encoding_crc32 0 (take (bp_output_offset bps) (bp_target_data bps))"

text \<open>What no primitive changes, the target behind the bytes that were written among it.\<close>

definition bps_same :: "bps_data \<Rightarrow> bps_data \<Rightarrow> bool" where
  "bps_same a b \<longleftrightarrow> bp_modify_length b = bp_modify_length a \<and> bp_source_length b = bp_source_length a \<and>
     length (bp_target_data b) = length (bp_target_data a) \<and> bp_target_length b = bp_target_length a \<and>
     bp_output_offset a \<le> bp_output_offset b \<and>
     drop (bp_output_offset b) (bp_target_data b) = drop (bp_output_offset b) (bp_target_data a)"

lemma bps_same_refl [simp]: "bps_same a a" by (simp add: bps_same_def)

lemma bps_same_trans:
  assumes "bps_same a b" "bps_same b c"
  shows "bps_same a c"
proof -
  let ?t = bp_target_data and ?o = bp_output_offset
  have "drop (?o c - ?o b) (drop (?o b) (?t b)) = drop (?o c - ?o b) (drop (?o b) (?t a))"
    using assms(1) by (simp add: bps_same_def)
  then have "drop (?o c) (?t b) = drop (?o c) (?t a)" using assms(2) by (simp add: bps_same_def)
  then show ?thesis using assms by (simp add: bps_same_def)
qed

definition bps_moves :: "bps_data \<Rightarrow> bps_data \<Rightarrow> bool" where
  "bps_moves a b \<longleftrightarrow> bps_same a b \<and> (\<forall>m s. bps_inv m s a \<longrightarrow> bps_inv m s b)"

lemma bps_moves_refl [simp]: "bps_moves a a" by (simp add: bps_moves_def)

lemma bps_moves_trans: "bps_moves a b \<Longrightarrow> bps_moves b c \<Longrightarrow> bps_moves a c"
  by (auto simp: bps_moves_def intro: bps_same_trans)

lemma bps_moves_cursor:
  "bps_moves a (a\<lparr>bp_source_offset := x\<rparr>)" "bps_moves a (a\<lparr>bp_target_offset := x\<rparr>)"
  by (simp_all add: bps_moves_def bps_same_def bps_inv_def)

lemma bps_read_moves: "bps_read a = Some (x, b) \<Longrightarrow> bps_moves a b"
  by (auto simp: bps_read_def bps_moves_def bps_same_def bps_inv_def crc32.update_snoc take_Suc_conv_app_nth
      dest!: mem_get_SomeD split: bind_splits)

lemma bps_write_moves: "bps_write x a = Some b \<Longrightarrow> bps_moves a b"
  by (auto simp: bps_write_def bps_moves_def bps_same_def bps_inv_def crc32.update_snoc take_Suc_conv_app_nth
      dest!: mem_set_SomeD split: bind_splits)

lemma bps_moves_source_cursor: "bps_moves (a\<lparr>bp_source_offset := x\<rparr>) b \<Longrightarrow> bps_moves a b"
  by (rule bps_moves_trans [OF bps_moves_cursor(1)])

lemma bps_moves_target_cursor: "bps_moves (a\<lparr>bp_target_offset := x\<rparr>) b \<Longrightarrow> bps_moves a b"
  by (rule bps_moves_trans [OF bps_moves_cursor(2)])

lemmas bps_moved = bps_read_moves bps_write_moves bps_moves_source_cursor bps_moves_target_cursor

lemma bps_decode_loop_moves: "bps_decode_loop d s a = Some r \<Longrightarrow> bps_moves a (snd r)"
proof (induction d s a r rule: bps_decode_loop.raw_induct [rotated, consumes 1, case_names step])
  case (step f d s a r)
  from step(2) show ?case
    by (auto dest!: bps_read_moves step(1) intro: bps_moves_trans split: bind_splits if_splits prod.splits)
qed

lemma bps_decode_moves: "bps_decode a = Some (x, b) \<Longrightarrow> bps_moves a b"
  using bps_decode_loop_moves [of 0 1 a "(x, b)"] by (simp add: bps_decode_def)

lemma bps_source_read_moves: "bps_source_read n a = Some b \<Longrightarrow> bps_moves a b"
  by (induction n arbitrary: a)
    (auto dest!: bps_moved intro: bps_moves_trans split: bind_splits)

lemma bps_target_read_moves: "bps_target_read n a = Some b \<Longrightarrow> bps_moves a b"
  by (induction n arbitrary: a)
    (auto dest!: bps_moved split: bind_splits, blast intro: bps_moves_trans)

lemma bps_source_copy_moves: "bps_source_copy n a = Some b \<Longrightarrow> bps_moves a b"
  by (induction n arbitrary: a)
    (auto dest!: bps_moved intro: bps_moves_trans split: bind_splits)

lemma bps_target_copy_moves: "bps_target_copy n a = Some b \<Longrightarrow> bps_moves a b"
  by (induction n arbitrary: a)
    (auto dest!: bps_moved intro: bps_moves_trans split: bind_splits)

lemma bps_command_moves: "bps_command mode n a = Some b \<Longrightarrow> bps_moves a b"
  by (auto simp: bps_command_def split: bps_mode.splits bind_splits
      dest!: bps_source_read_moves bps_target_read_moves bps_source_copy_moves bps_target_copy_moves
        bps_decode_moves bps_moved
      intro: bps_moves_trans)

lemma bps_commands_moves: "bps_commands a = Some b \<Longrightarrow> bps_moves a b"
proof (induction a b rule: bps_commands.raw_induct [rotated, consumes 1, case_names step])
  case (step f a b)
  from step(2) show ?case
    by (auto dest!: bps_decode_moves bps_command_moves step(1) intro: bps_moves_trans
        split: bind_splits if_splits prod.splits)
qed

lemma bps_commands_end: "bps_commands a = Some b \<Longrightarrow> bp_modify_length b - 12 \<le> bp_modify_offset b"
proof (induction a b rule: bps_commands.raw_induct [rotated, consumes 1, case_names step])
  case (step f a b)
  from step(2) show ?case
    by (auto dest!: step(1) split: bind_splits if_splits prod.splits)
qed

lemma bps_expect_moves: "bps_expect cs a = Some (x, b) \<Longrightarrow> bps_moves a b"
  by (induction cs arbitrary: a)
    (auto dest!: bps_read_moves intro: bps_moves_trans split: bind_splits if_splits)

lemma bps_skip_moves: "bps_skip n a = Some b \<Longrightarrow> bps_moves a b"
  by (induction n arbitrary: a)
    (auto dest!: bps_read_moves intro: bps_moves_trans split: bind_splits)

lemma bps_init_inv: "bps_inv m s (bps_init m ml s sl t tn)"
  by (simp add: bps_inv_def bps_init_def crc32.update_Nil)

lemma bps_read_u32_value:
  assumes "bps_read_u32 a = Some (v, b)"
  shows "bps_moves a b" and "bp_modify_offset b = bp_modify_offset a + 4"
    and "bp_modify_data b = bp_modify_data a"
    and "bp_modify_offset a + 4 \<le> length (bp_modify_data a)"
    and "v = of_nat (le_value (take 4 (drop (bp_modify_offset a) (bp_modify_data a))))"
proof -
  obtain w x y z a1 a2 a3 where
    r: "bps_read a = Some (w, a1)" "bps_read a1 = Some (x, a2)" "bps_read a2 = Some (y, a3)"
      "bps_read a3 = Some (z, b)" and v: "v = u32_of_bytes w x y z"
    using assms by (auto simp: bps_read_u32_def split: bind_splits)
  show "bps_moves a b" using r by (blast dest: bps_read_moves intro: bps_moves_trans)
  have o: "bp_modify_offset a1 = bp_modify_offset a + 1" "bp_modify_offset a2 = bp_modify_offset a + 2"
    "bp_modify_offset a3 = bp_modify_offset a + 3" "bp_modify_offset b = bp_modify_offset a + 4"
    and d: "bp_modify_data a1 = bp_modify_data a" "bp_modify_data a2 = bp_modify_data a"
    "bp_modify_data a3 = bp_modify_data a" "bp_modify_data b = bp_modify_data a"
    using r by (auto simp: bps_read_def split: bind_splits)
  show "bp_modify_offset b = bp_modify_offset a + 4" "bp_modify_data b = bp_modify_data a" by fact+
  show le: "bp_modify_offset a + 4 \<le> length (bp_modify_data a)"
    using r(4) o d by (auto simp: bps_read_def dest!: mem_get_SomeD split: bind_splits)
  have "take 4 (drop (bp_modify_offset a) (bp_modify_data a)) = [w, x, y, z]"
    using r o d le by (auto simp: bps_read_def dest!: mem_get_SomeD split: bind_splits
        intro!: nth_equalityI simp: less_Suc_eq numeral_eq_Suc)
  then show "v = of_nat (le_value (take 4 (drop (bp_modify_offset a) (bp_modify_data a))))"
    by (simp only: v u32_of_bytes_value)
qed

lemma bps_finish_ok:
  assumes f: "bps_finish sz tn a = Some (PATCH_SUCCESS, t, n)" and i: "bps_inv m s a"
    and ml: "bp_modify_length a = length m" and off: "length m - 12 \<le> bp_modify_offset a" "19 \<le> length m"
  shows "encoding_crc32 0 (take (bp_source_length a) s) = of_nat (le_value (take 4 (drop (length m - 12) m)))"
    and "t = bp_target_data a"
    and "encoding_crc32 0 (take (bp_output_offset a) t) = of_nat (le_value (take 4 (drop (length m - 8) m)))"
    and "encoding_crc32 0 (take (length m - 4) m) = of_nat (le_value (drop (length m - 4) m))"
    and "n = unat sz"
proof -
  obtain v1 v2 v3 b c d src where
    r: "bps_read_u32 a = Some (v1, b)" "bps_read_u32 b = Some (v2, c)" "bps_read_u32 c = Some (v3, d)"
    and src: "mem_read (bp_source_data d) 0 (bp_source_length d) = Some src"
    and e: "encoding_crc32 0 src = v1" "NOT (bp_target_checksum d) = v2"
      "NOT (bp_modify_checksum c) = v3" and t: "t = bp_target_data d" "n = unat sz"
    using f by (auto simp: bps_finish_def Let_def split: bind_splits if_splits)
  note b = bps_read_u32_value [OF r(1)] and c = bps_read_u32_value [OF r(2)]
    and d = bps_read_u32_value [OF r(3)]
  have m: "bp_modify_data a = m" using i by (simp add: bps_inv_def)
  have o: "bp_modify_offset a = length m - 12" using d(4) b(2,3) c(2,3) m off by simp
  have inv: "bps_inv m s c" "bps_inv m s d"
    using i b(1) c(1) d(1) by (auto simp: bps_moves_def)
  have same: "bps_same a d"
    using b(1) c(1) d(1) by (blast dest: bps_moves_trans intro: bps_moves_def [THEN iffD1, THEN conjunct1])
  show "encoding_crc32 0 (take (bp_source_length a) s) = of_nat (le_value (take 4 (drop (length m - 12) m)))"
    using e(1) src b(5) m o inv(2) same
    by (auto simp: bps_inv_def bps_same_def dest!: mem_read_SomeD)
  have keep: "bp_target_data d = bp_target_data a" "bp_output_offset d = bp_output_offset a"
    using r by (auto simp: bps_read_u32_def bps_read_def split: bind_splits)
  then show "t = bp_target_data a" using t by simp
  show "encoding_crc32 0 (take (bp_output_offset a) t) = of_nat (le_value (take 4 (drop (length m - 8) m)))"
    using e(2) c(5) b(2,3) m o inv(2) keep t off(2) by (simp add: bps_inv_def)
  have "drop (length m - 4) m = take 4 (drop (length m - 4) m)" by simp
  then show "encoding_crc32 0 (take (length m - 4) m) = of_nat (le_value (drop (length m - 4) m))"
    using e(3) d(5) c(2,3) b(2,3) m o inv(1) off(2) by (simp add: bps_inv_def)
  show "n = unat sz" by fact
qed

section \<open>Correctness\<close>

text \<open>A number written in the format's encoding is read back, from wherever the cursor stands, and the
  cursor moves past it.\<close>

theorem bps_decode_number:
  assumes "reads bps_read bps (number_bytes n) bps'"
  shows "bps_decode bps = Some (of_nat n, bps')"
  using bps_numbers.decode_number [OF assms] by (simp add: bps_decode_def)

text \<open>The header and the commands: the state in front of the checksums.\<close>

definition bps_after_commands :: "bytes \<Rightarrow> bytes \<Rightarrow> nat \<Rightarrow> bytes \<Rightarrow> nat \<Rightarrow> bps_data option" where
  "bps_after_commands modify_data source_data source_length target_data target_length = do {
     (ok, bps) \<leftarrow> bps_expect [0x42, 0x50, 0x53, 0x31]
       (bps_init modify_data (length modify_data) source_data source_length target_data target_length);
     (modify_source_size, bps) \<leftarrow> bps_decode bps;
     (modify_target_size, bps) \<leftarrow> bps_decode bps;
     (modify_markup_size, bps) \<leftarrow> bps_decode bps;
     bps \<leftarrow> bps_skip (unat modify_markup_size) bps;
     bps_commands bps
   }"

text \<open>C12. A patch reported as applied has passed all three checks.  The state \<open>bps\<close> in which its commands end has the
  target that is handed out; of this the first \<open>bp_output_offset bps\<close> bytes were written, and what is behind them is as it
  was before.  The CRC of the whole source, the CRC of exactly the bytes that were written, and the CRC of the whole
  patch up to its last field are the ones stored in the last twelve bytes of the patch.\<close>

theorem bps_success_verified:
  assumes "bps_apply_patch m (length m) s sl t tn = Some (PATCH_SUCCESS, t', tn')"
  shows "\<exists>bps. bps_after_commands m s sl t tn = Some bps \<and> t' = bp_target_data bps \<and> length t' = length t \<and>
    bp_output_offset bps \<le> length t \<and> drop (bp_output_offset bps) t' = drop (bp_output_offset bps) t \<and>
    encoding_crc32 0 (take sl s) = of_nat (le_value (take 4 (drop (length m - 12) m))) \<and>
    encoding_crc32 0 (take (bp_output_offset bps) t') = of_nat (le_value (take 4 (drop (length m - 8) m))) \<and>
    encoding_crc32 0 (take (length m - 4) m) = of_nat (le_value (drop (length m - 4) m))"
proof -
  let ?i = "bps_init m (length m) s sl t tn"
  have len: "19 \<le> length m" using assms by (auto simp: bps_apply_patch_def split: if_splits)
  obtain a b c d e f ss ts ms where
    r: "bps_expect [0x42, 0x50, 0x53, 0x31] ?i = Some (True, a)" "bps_decode a = Some (ss, b)"
    "bps_decode b = Some (ts, c)" "bps_decode c = Some (ms, d)" "bps_skip (unat ms) d = Some e"
    and f: "bps_commands e = Some f" "bps_finish ts tn f = Some (PATCH_SUCCESS, t', tn')"
    using assms len unfolding bps_apply_patch_def Let_def
    by (auto simp del: bps_expect.simps simp: bind_eq_Some_conv split: if_splits)
  have mv: "bps_moves ?i f"
    using bps_expect_moves [OF r(1)] bps_decode_moves [OF r(2)] bps_decode_moves [OF r(3)]
      bps_decode_moves [OF r(4)] bps_skip_moves [OF r(5)] bps_commands_moves [OF f(1)]
    by (meson bps_moves_trans)
  then have inv: "bps_inv m s f" and same: "bps_same ?i f"
    using bps_init_inv by (auto simp: bps_moves_def)
  have ml: "bp_modify_length f = length m" "bp_source_length f = sl"
    using same by (auto simp: bps_same_def bps_init_def)
  have off: "length m - 12 \<le> bp_modify_offset f" using bps_commands_end [OF f(1)] ml by simp
  note fin = bps_finish_ok [OF f(2) inv ml(1) off len]
  have "bps_after_commands m s sl t tn = Some f"
    using r f(1) by (simp add: bps_after_commands_def del: bps_expect.simps)
  moreover have "length t' = length t" "drop (bp_output_offset f) t' = drop (bp_output_offset f) t"
    using same fin(2) by (simp_all add: bps_same_def bps_init_def)
  moreover have "bp_output_offset f \<le> length t'" using inv fin(2) by (simp add: bps_inv_def)
  ultimately show ?thesis using fin(1-4) ml by simp
qed

text \<open>A patch with no commands, for an empty source, that announces a target of one byte.\<close>

definition example_bps :: bytes where
  "example_bps = [0x42, 0x50, 0x53, 0x31, 0x80, 0x81, 0x80, 0, 0, 0, 0, 0, 0, 0, 0, 173, 116, 26, 177]"

lemma example_bps_crc:
  "encoding_crc32 0 [0x42, 0x50, 0x53, 0x31, 0x80, 0x81, 0x80, 0, 0, 0, 0, 0, 0, 0, 0] = 0xb11a74ad"
  by (simp add: encoding_crc32_def crc32_step_bits crc_byte_def crc_bit_def)

text \<open>The reader after \<open>k\<close> bytes.\<close>

definition bps_seek :: "nat \<Rightarrow> bps_data \<Rightarrow> bps_data" where
  "bps_seek k bps = bps\<lparr>bp_modify_offset := bp_modify_offset bps + k,
     bp_modify_checksum := NOT (encoding_crc32 (NOT (bp_modify_checksum bps))
       (take k (drop (bp_modify_offset bps) (bp_modify_data bps))))\<rparr>"

lemma bps_seek_0: "bps_seek 0 bps = bps"
  by (simp add: bps_seek_def crc32.update_Nil)

lemma bps_read_seek:
  assumes "bp_modify_offset bps + k < length (bp_modify_data bps)"
  shows "bps_read (bps_seek k bps) =
    Some (bp_modify_data bps ! (bp_modify_offset bps + k), bps_seek (Suc k) bps)"
  using assms
  by (simp add: bps_read_def bps_seek_def mem_get_def crc32.update_append take_Suc_conv_app_nth)

definition example_bps_start :: bps_data where
  "example_bps_start = bps_init example_bps 19 [] 0 [9] 1"

lemma example_bps_read: "k < 19 \<Longrightarrow> bps_read (bps_seek k example_bps_start) =
    Some (example_bps ! k, bps_seek (Suc k) example_bps_start)"
  using bps_read_seek [of example_bps_start k]
  by (simp add: example_bps_start_def bps_init_def example_bps_def)

lemma example_bps_seek: "bp_modify_offset (bps_seek k example_bps_start) = k"
  "bp_modify_length (bps_seek k example_bps_start) = 19" "bp_source_length (bps_seek k example_bps_start) = 0"
  "bp_target_length (bps_seek k example_bps_start) = 1" "bp_source_data (bps_seek k example_bps_start) = []"
  "bp_target_data (bps_seek k example_bps_start) = [9]"
  "bp_target_checksum (bps_seek k example_bps_start) = NOT 0"
  "bp_modify_checksum (bps_seek k example_bps_start) = NOT (encoding_crc32 0 (take k example_bps))"
  by (simp_all add: example_bps_start_def bps_seek_def bps_init_def)

lemma example_bps_run:
  "bps_apply_patch example_bps 19 [] 0 [9] 1 = Some (PATCH_SUCCESS, [9], 1)"
proof -
  have i: "bps_init example_bps 19 [] 0 [9] 1 = bps_seek 0 example_bps_start"
    by (simp add: bps_seek_0 example_bps_start_def)
  have e: "example_bps ! 0 = 0x42" "example_bps ! Suc 0 = 0x50" "example_bps ! 2 = 0x53"
    "example_bps ! 3 = 0x31" "example_bps ! 4 = 0x80" "example_bps ! 5 = 0x81" "example_bps ! 6 = 0x80"
    "example_bps ! 7 = 0" "example_bps ! 8 = 0" "example_bps ! 9 = 0" "example_bps ! 10 = 0"
    "example_bps ! 11 = 0" "example_bps ! 12 = 0" "example_bps ! 13 = 0" "example_bps ! 14 = 0"
    "example_bps ! 15 = 173" "example_bps ! 16 = 116" "example_bps ! 17 = 26" "example_bps ! 18 = 177"
    by (simp_all add: example_bps_def)
  have c: "encoding_crc32 0 (take 15 example_bps) = 0xb11a74ad"
    using example_bps_crc by (simp add: example_bps_def)
  note r = example_bps_read [of 0] example_bps_read [of 1] example_bps_read [of 2] example_bps_read [of 3]
    example_bps_read [of 4] example_bps_read [of 5] example_bps_read [of 6] example_bps_read [of 7]
    example_bps_read [of 8] example_bps_read [of 9] example_bps_read [of 10] example_bps_read [of 11]
    example_bps_read [of 12] example_bps_read [of 13] example_bps_read [of 14] example_bps_read [of 15]
    example_bps_read [of 16] example_bps_read [of 17] example_bps_read [of 18]
  have h: "bps_expect [0x42, 0x50, 0x53, 0x31] (bps_seek 0 example_bps_start) =
      Some (True, bps_seek 4 example_bps_start)"
    using r(1-4) by (simp add: e numeral_2_eq_2 [symmetric])
  have d: "bps_decode (bps_seek 4 example_bps_start) = Some (of_nat 0, bps_seek 5 example_bps_start)"
    "bps_decode (bps_seek 5 example_bps_start) = Some (of_nat 1, bps_seek 6 example_bps_start)"
    "bps_decode (bps_seek 6 example_bps_start) = Some (of_nat 0, bps_seek 7 example_bps_start)"
    unfolding bps_decode_def using r(5-7)
      bps_numbers.decode_number [of "bps_seek 4 example_bps_start" 0 "bps_seek 5 example_bps_start"]
      bps_numbers.decode_number [of "bps_seek 5 example_bps_start" 1 "bps_seek 6 example_bps_start"]
      bps_numbers.decode_number [of "bps_seek 6 example_bps_start" 0 "bps_seek 7 example_bps_start"]
    by (simp_all add: number_bytes.simps e)
  have m: "bps_commands (bps_seek 7 example_bps_start) = Some (bps_seek 7 example_bps_start)"
    by (simp add: bps_commands.simps example_bps_seek)
  have u: "bps_read_u32 (bps_seek 7 example_bps_start) = Some (of_nat 0, bps_seek 11 example_bps_start)"
    "bps_read_u32 (bps_seek 11 example_bps_start) = Some (of_nat 0, bps_seek 15 example_bps_start)"
    "bps_read_u32 (bps_seek 15 example_bps_start) = Some (0xb11a74ad, bps_seek 19 example_bps_start)"
    using r(8-19) by (simp_all add: bps_read_u32_def u32_of_bytes_value e)
  have f: "bps_finish (of_nat 1) 1 (bps_seek 7 example_bps_start) = Some (PATCH_SUCCESS, [9], 1)"
    by (simp add: bps_finish_def u [simplified] example_bps_seek mem_read_def crc32.update_Nil c)
  show ?thesis
    unfolding bps_apply_patch_def Let_def i
    by (simp add: h d [simplified] m f [simplified] example_bps_seek del: bps_expect.simps)
qed

text \<open>The length reported is the one the header announces, not what was written: a patch with consistent
  checksums and no commands at all is accepted, and reports one byte of target that it never wrote.\<close>

theorem bps_accepts_unwritten_target:
  "bps_apply_patch example_bps (length example_bps) [] 0 [9] 1 = Some (PATCH_SUCCESS, [9], 1)"
proof -
  have "length example_bps = 19" by (simp add: example_bps_def)
  then show ?thesis using example_bps_run by simp
qed

text \<open>A patch with commands: the source is one byte, which is copied, and a byte of the patch follows.\<close>

definition small_bps :: bytes where
  "small_bps = [66, 80, 83, 49, 129, 130, 128, 128, 129, 5, 46, 122, 102, 76, 183, 112, 242, 126, 54, 170, 141, 46]"

lemma small_bps_crc:
  "encoding_crc32 0 [7] = 0x4c667a2e" "encoding_crc32 0 [7, 5] = 0x7ef270b7"
  "encoding_crc32 0 [66, 80, 83, 49, 129, 130, 128, 128, 129, 5, 46, 122, 102, 76, 183, 112, 242, 126] = 0x2e8daa36"
  by (simp_all add: encoding_crc32_def crc32_step_bits crc_byte_def crc_bit_def)

text \<open>The reader after \<open>k\<close> bytes, when \<open>w\<close> was written.\<close>

definition small_bps_at :: "nat \<Rightarrow> bytes \<Rightarrow> bps_data" where
  "small_bps_at k w = (bps_init small_bps 22 [7] 1 (w @ drop (length w) [0, 0, 0]) 3)\<lparr>
     bp_modify_offset := k, bp_modify_checksum := NOT (encoding_crc32 0 (take k small_bps)),
     bp_output_offset := length w, bp_target_checksum := NOT (encoding_crc32 0 w)\<rparr>"

lemma small_bps_at_fields:
  "bp_modify_offset (small_bps_at k w) = k" "bp_modify_length (small_bps_at k w) = 22" "bp_source_length (small_bps_at k w) = 1"
  "bp_target_length (small_bps_at k w) = 3" "bp_source_data (small_bps_at k w) = [7]" "bp_output_offset (small_bps_at k w) = length w"
  "bp_target_data (small_bps_at k w) = w @ drop (length w) [0, 0, 0]"
  "bp_target_checksum (small_bps_at k w) = NOT (encoding_crc32 0 w)"
  "bp_modify_checksum (small_bps_at k w) = NOT (encoding_crc32 0 (take k small_bps))"
  by (simp_all add: small_bps_at_def bps_init_def)

lemma small_bps_read:
  assumes "k < 22"
  shows "bps_read (small_bps_at k w) = Some (small_bps ! k, small_bps_at (Suc k) w)"
proof -
  have "length small_bps = 22" by (simp add: small_bps_def)
  then show ?thesis using assms
    by (simp add: bps_read_def small_bps_at_def bps_init_def mem_get_def crc32.update_snoc [symmetric] take_Suc_conv_app_nth)
qed

lemma small_bps_write:
  assumes "length w < 3"
  shows "bps_write x (small_bps_at k w) = Some (small_bps_at k (w @ [x]))"
proof -
  have "(w @ drop (length w) [0, 0, 0])[length w := x] = (w @ [x]) @ drop (length (w @ [x])) [0, 0, 0]"
    using assms by (simp add: list_update_append Cons_nth_drop_Suc [symmetric])
  then show ?thesis using assms
    by (simp add: bps_write_def small_bps_at_def bps_init_def mem_set_def crc32.update_snoc)
qed

lemma small_bps_run:
  "bps_after_commands small_bps [7] 1 [0, 0, 0] 3 = Some (small_bps_at 10 [7, 5])"
  "bps_apply_patch small_bps 22 [7] 1 [0, 0, 0] 3 = Some (PATCH_SUCCESS, [7, 5, 0], 2)"
proof -
  have len: "length small_bps = 22" by (simp add: small_bps_def)
  have i: "bps_init small_bps 22 [7] 1 [0, 0, 0] 3 = small_bps_at 0 []"
    by (simp add: small_bps_at_def bps_init_def crc32.update_Nil)
  have byte: "bps_read (small_bps_at k w) = Some (x, small_bps_at (Suc k) w)" if "k < 22" "small_bps ! k = x" for k w x
    using small_bps_read [OF that(1)] that(2) by simp
  have h: "bps_expect [0x42, 0x50, 0x53, 0x31] (small_bps_at 0 []) = Some (True, small_bps_at 4 [])"
    by (simp add: byte small_bps_def numeral_eq_Suc)
  have number: "bps_decode (small_bps_at k w) = Some (of_nat n, small_bps_at (Suc k) w)"
    if "n < 128" "k < 22" "small_bps ! k = of_nat n OR 0x80" for k w n
    unfolding bps_decode_def
    by (rule bps_numbers.decode_number) (use that in \<open>simp add: number_bytes.simps byte\<close>)
  have d: "bps_decode (small_bps_at 4 []) = Some (1, small_bps_at 5 [])" "bps_decode (small_bps_at 5 []) = Some (2, small_bps_at 6 [])"
    "bps_decode (small_bps_at 6 []) = Some (0, small_bps_at 7 [])" "bps_decode (small_bps_at 7 []) = Some (0, small_bps_at 8 [])"
    "bps_decode (small_bps_at 8 [7]) = Some (1, small_bps_at 9 [7])"
    using number [of 1 4 "[]"] number [of 2 5 "[]"] number [of 0 6 "[]"] number [of 0 7 "[]"] number [of 1 8 "[7]"]
    by (simp_all add: small_bps_def)
  have c: "bps_command SOURCE_READ 1 (small_bps_at 8 []) = Some (small_bps_at 8 [7])"
    "bps_command TARGET_READ 1 (small_bps_at 9 [7]) = Some (small_bps_at 10 [7, 5])"
    using byte [of 9 5 "[7]"] small_bps_write [of "[]" 7 8] small_bps_write [of "[7]" 5 10]
    by (simp_all add: bps_command_def small_bps_at_fields mem_get_def small_bps_def)
  have m: "bps_commands (small_bps_at 7 []) = Some (small_bps_at 10 [7, 5])"
    using c by (subst bps_commands.simps, simp add: small_bps_at_fields d bps_mode_of_def,
      subst bps_commands.simps, simp add: small_bps_at_fields d bps_mode_of_def, subst bps_commands.simps, simp add: small_bps_at_fields)
  show "bps_after_commands small_bps [7] 1 [0, 0, 0] 3 = Some (small_bps_at 10 [7, 5])"
    unfolding bps_after_commands_def len i by (simp add: h d m del: bps_expect.simps)
  have u: "bps_read_u32 (small_bps_at k w) = Some (u32_of_bytes (small_bps ! k) (small_bps ! Suc k) (small_bps ! Suc (Suc k))
      (small_bps ! Suc (Suc (Suc k))), small_bps_at (k + 4) w)" if "k + 4 \<le> 22" for k w
    using that by (simp add: bps_read_u32_def small_bps_read numeral_eq_Suc)
  have f: "bps_finish 2 3 (small_bps_at 10 [7, 5]) = Some (PATCH_SUCCESS, [7, 5, 0], 2)"
    using small_bps_crc by (simp add: bps_finish_def u small_bps_at_fields mem_read_def small_bps_def u32_of_bytes_value)
  show "bps_apply_patch small_bps 22 [7] 1 [0, 0, 0] 3 = Some (PATCH_SUCCESS, [7, 5, 0], 2)"
    unfolding bps_apply_patch_def Let_def i by (simp add: h d m f small_bps_at_fields del: bps_expect.simps)
qed

theorem bps_success_verified_witness:
  "\<exists>bps. bps_after_commands small_bps [7] 1 [0, 0, 0] 3 = Some bps \<and> bp_output_offset bps = 2 \<and>
    bp_target_data bps = [7, 5, 0] \<and> encoding_crc32 0 (take 1 [7]) = of_nat (le_value (take 4 (drop (22 - 12) small_bps))) \<and>
    encoding_crc32 0 (take 2 [7, 5, 0]) = of_nat (le_value (take 4 (drop (22 - 8) small_bps))) \<and>
    encoding_crc32 0 (take (22 - 4) small_bps) = of_nat (le_value (drop (22 - 4) small_bps))"
proof -
  have "length small_bps = 22" by (simp add: small_bps_def)
  then show ?thesis
    using bps_success_verified [of small_bps "[7]" 1 "[0, 0, 0]" 3 "[7, 5, 0]" 2] small_bps_run by (auto simp: small_bps_at_fields)
qed

theorem bps_decode_number_witness:
  "bps_decode (bps_seek 5 example_bps_start) = Some (1, bps_seek 6 example_bps_start)"
proof -
  have "reads bps_read (bps_seek 5 example_bps_start) (number_bytes 1) (bps_seek 6 example_bps_start)"
    using example_bps_read [of 5] by (simp add: number_bytes.simps example_bps_def)
  from bps_decode_number [OF this] show ?thesis by simp
qed

end
