(* ===== verification/Patch_Ups.thy ===== *)
theory Patch_Ups
  imports Patch_Base
begin

text \<open>
  UPS patches (\<^verbatim>\<open>ups_apply_patch\<close> of \<^verbatim>\<open>tasks/task_patch.c\<close>): cursors over patch, source and target,
  each guarded by its length, reads past the end giving 0.  The loops of the code that need not end are
  partial functions, for which \<^term>\<open>None\<close> is not returning.

  Proved here: a patch made of hunks is applied as the exclusive or of the source with the hunks' bytes,
  and a patch that relates two files turns each into the other; a number that is cut off at the end of
  the patch makes the decoder loop for ever.
\<close>

record ups_data =
  up_patch_data :: bytes
  up_source_data :: bytes
  up_target_data :: bytes
  up_patch_length :: nat
  up_source_length :: nat
  up_target_length :: nat
  up_patch_offset :: nat
  up_source_offset :: nat
  up_target_offset :: nat
  up_patch_checksum :: u32
  up_source_checksum :: u32
  up_target_checksum :: u32

text \<open>The \<^verbatim>\<open>unsigned\<close> fields are naturals below \<open>2 ^ 32\<close>; the one increment without a guard wraps.\<close>

definition ups_patch_read :: "ups_data \<Rightarrow> (u8 \<times> ups_data) option" where
  "ups_patch_read data =
     (if up_patch_offset data < up_patch_length data
      then do {
        n \<leftarrow> mem_get (up_patch_data data) (up_patch_offset data);
        Some (n, data\<lparr>up_patch_offset := up_patch_offset data + 1,
                      up_patch_checksum := NOT (encoding_crc32 (NOT (up_patch_checksum data)) [n])\<rparr>)
      }
      else Some (0, data))"

definition ups_source_read :: "ups_data \<Rightarrow> (u8 \<times> ups_data) option" where
  "ups_source_read data =
     (if up_source_offset data < up_source_length data
      then do {
        n \<leftarrow> mem_get (up_source_data data) (up_source_offset data);
        Some (n, data\<lparr>up_source_offset := up_source_offset data + 1,
                      up_source_checksum := NOT (encoding_crc32 (NOT (up_source_checksum data)) [n])\<rparr>)
      }
      else Some (0, data))"

definition ups_target_write :: "u8 \<Rightarrow> ups_data \<Rightarrow> ups_data option" where
  "ups_target_write n data = do {
     data \<leftarrow>
       (if up_target_offset data < up_target_length data
        then do {
          t \<leftarrow> mem_set (up_target_data data) (up_target_offset data) n;
          Some (data\<lparr>up_target_data := t,
                     up_target_checksum := NOT (encoding_crc32 (NOT (up_target_checksum data)) [n])\<rparr>)
        }
        else Some data);
     Some (data\<lparr>up_target_offset := (up_target_offset data + 1) mod 2 ^ 32\<rparr>)
   }"

partial_function (option) ups_decode_loop :: "u64 \<Rightarrow> u64 \<Rightarrow> ups_data \<Rightarrow> (u64 \<times> ups_data) option" where
  "ups_decode_loop offset shift data =
     Option.bind (ups_patch_read data) (\<lambda>(x, data).
       if x AND 0x80 \<noteq> 0 then Some (offset + ucast (x AND 0x7f) * shift, data)
       else ups_decode_loop (offset + ucast (x AND 0x7f) * shift + push_bit 7 shift) (push_bit 7 shift) data)"

definition ups_decode :: "ups_data \<Rightarrow> (u64 \<times> ups_data) option" where
  "ups_decode data = ups_decode_loop 0 1 data"

text \<open>\<^verbatim>\<open>ups_target_write(data, x ^ ups_source_read(data))\<close>\<close>

definition ups_xor_byte :: "u8 \<Rightarrow> ups_data \<Rightarrow> ups_data option" where
  "ups_xor_byte x data = do {
     (s, data) \<leftarrow> ups_source_read data;
     ups_target_write (x XOR s) data
   }"

text \<open>\<^verbatim>\<open>while (length--) ups_target_write(data, ups_source_read(data))\<close>\<close>

fun ups_skip :: "nat \<Rightarrow> ups_data \<Rightarrow> ups_data option" where
  "ups_skip 0 data = Some data"
| "ups_skip (Suc n) data = do {
     (s, data) \<leftarrow> ups_source_read data;
     data \<leftarrow> ups_target_write s data;
     ups_skip n data
   }"

partial_function (option) ups_xor_loop :: "ups_data \<Rightarrow> ups_data option" where
  "ups_xor_loop data =
     Option.bind (ups_patch_read data) (\<lambda>(patch_xor, data).
       Option.bind (ups_xor_byte patch_xor data) (\<lambda>data.
         if patch_xor = 0 then Some data else ups_xor_loop data))"

partial_function (option) ups_hunks :: "ups_data \<Rightarrow> ups_data option" where
  "ups_hunks data =
     (if up_patch_offset data < up_patch_length data - 12
      then Option.bind (ups_decode data) (\<lambda>(n, data).
             Option.bind (ups_skip (unat (ucast n :: u32)) data) (\<lambda>data.
               Option.bind (ups_xor_loop data) ups_hunks))
      else Some data)"

partial_function (option) ups_copy_source :: "ups_data \<Rightarrow> ups_data option" where
  "ups_copy_source data =
     (if up_source_offset data < up_source_length data
      then Option.bind (ups_source_read data) (\<lambda>(s, data).
             Option.bind (ups_target_write s data) ups_copy_source)
      else Some data)"

partial_function (option) ups_fill_target :: "ups_data \<Rightarrow> ups_data option" where
  "ups_fill_target data =
     (if up_target_offset data < up_target_length data
      then Option.bind (ups_source_read data) (\<lambda>(s, data).
             Option.bind (ups_target_write s data) ups_fill_target)
      else Some data)"

fun ups_expect :: "bytes \<Rightarrow> ups_data \<Rightarrow> (bool \<times> ups_data) option" where
  "ups_expect [] data = Some (True, data)"
| "ups_expect (c # cs) data = do {
     (x, data) \<leftarrow> ups_patch_read data;
     if x \<noteq> c then Some (False, data) else ups_expect cs data
   }"

definition ups_read_u32 :: "ups_data \<Rightarrow> (u32 \<times> ups_data) option" where
  "ups_read_u32 data = do {
     (a, data) \<leftarrow> ups_patch_read data;
     (b, data) \<leftarrow> ups_patch_read data;
     (c, data) \<leftarrow> ups_patch_read data;
     (d, data) \<leftarrow> ups_patch_read data;
     Some (u32_of_bytes a b c d, data)
   }"

definition ups_init :: "bytes \<Rightarrow> nat \<Rightarrow> bytes \<Rightarrow> nat \<Rightarrow> bytes \<Rightarrow> nat \<Rightarrow> ups_data" where
  "ups_init patchdata patchlength sourcedata sourcelength targetdata targetlength =
     \<lparr> up_patch_data = patchdata, up_source_data = sourcedata, up_target_data = targetdata,
       up_patch_length = patchlength mod 2 ^ 32, up_source_length = sourcelength mod 2 ^ 32,
       up_target_length = targetlength mod 2 ^ 32,
       up_patch_offset = 0, up_source_offset = 0, up_target_offset = 0,
       up_patch_checksum = NOT 0, up_source_checksum = NOT 0, up_target_checksum = NOT 0 \<rparr>"

text \<open>The checksums, and the verdict: the patch may have been applied in either direction.\<close>

definition ups_verdict :: "u32 \<Rightarrow> u32 \<Rightarrow> nat \<Rightarrow> nat \<Rightarrow> ups_data \<Rightarrow> patch_error" where
  "ups_verdict source_read_checksum target_read_checksum source_read_length target_read_length data =
     (if up_source_checksum data = source_read_checksum \<and> up_source_length data = source_read_length
      then if up_target_checksum data = target_read_checksum \<and> up_target_length data = target_read_length
           then PATCH_SUCCESS else PATCH_TARGET_INVALID
      else if up_source_checksum data = target_read_checksum \<and> up_source_length data = target_read_length
      then if up_target_checksum data = source_read_checksum \<and> up_target_length data = source_read_length
           then PATCH_SUCCESS else PATCH_TARGET_INVALID
      else PATCH_SOURCE_INVALID)"

definition ups_finish :: "nat \<Rightarrow> nat \<Rightarrow> nat \<Rightarrow> ups_data \<Rightarrow> (patch_error \<times> bytes \<times> nat) option" where
  "ups_finish source_read_length target_read_length targetlength data = do {
     (source_read_checksum, data) \<leftarrow> ups_read_u32 data;
     (target_read_checksum, data) \<leftarrow> ups_read_u32 data;
     let patch_result_checksum = NOT (up_patch_checksum data);
     let data = data\<lparr>up_source_checksum := NOT (up_source_checksum data),
                     up_target_checksum := NOT (up_target_checksum data)\<rparr>;
     (patch_read_checksum, data) \<leftarrow> ups_read_u32 data;
     Some (if patch_result_checksum \<noteq> patch_read_checksum then PATCH_PATCH_INVALID
           else ups_verdict source_read_checksum target_read_checksum
                  source_read_length target_read_length data,
           up_target_data data, targetlength)
   }"

definition ups_apply_patch ::
  "bytes \<Rightarrow> nat \<Rightarrow> bytes \<Rightarrow> nat \<Rightarrow> bytes \<Rightarrow> nat \<Rightarrow> (patch_error \<times> bytes \<times> nat) option" where
  "ups_apply_patch patchdata patchlength sourcedata sourcelength targetdata targetlength = do {
     let data = ups_init patchdata patchlength sourcedata sourcelength targetdata targetlength;
     if up_patch_length data < 18 then Some (PATCH_PATCH_INVALID, targetdata, targetlength)
     else do {
       (ok, data) \<leftarrow> ups_expect [0x55, 0x50, 0x53, 0x31] data;
       if \<not> ok then Some (PATCH_PATCH_INVALID, targetdata, targetlength)
       else do {
         (n, data) \<leftarrow> ups_decode data;
         let source_read_length = unat (ucast n :: u32);
         (n, data) \<leftarrow> ups_decode data;
         let target_read_length = unat (ucast n :: u32);
         if up_source_length data \<noteq> source_read_length \<and> up_source_length data \<noteq> target_read_length
         then Some (PATCH_SOURCE_INVALID, targetdata, targetlength)
         else do {
           let targetlength = (if up_source_length data = source_read_length
                               then target_read_length else source_read_length);
           if up_target_length data < targetlength
           then Some (PATCH_TARGET_TOO_SMALL, targetdata, targetlength)
           else do {
             data \<leftarrow> ups_hunks (data\<lparr>up_target_length := targetlength\<rparr>);
             data \<leftarrow> ups_copy_source data;
             data \<leftarrow> ups_fill_target data;
             ups_finish source_read_length target_read_length targetlength data
           }
         }
       }
     }
   }"

interpretation ups_numbers: number_reader ups_patch_read ups_decode_loop
  by unfold_locales (simp_all add: ups_decode_loop.simps)

section \<open>The state after a part of the patch\<close>

text \<open>
  \<open>ups_out s xs\<close>: the bytes \<open>xs\<close> of the patch xored with the source, which ends in zeros.
\<close>

definition padded :: "bytes \<Rightarrow> nat \<Rightarrow> u8" where
  "padded s i = (if i < length s then s ! i else 0)"

definition ups_out :: "bytes \<Rightarrow> bytes \<Rightarrow> bytes" where
  "ups_out s xs = map (\<lambda>i. xs ! i XOR padded s i) [0..<length xs]"

lemma length_ups_out [simp]: "length (ups_out s xs) = length xs"
  by (simp add: ups_out_def)

lemma ups_out_snoc: "ups_out s (xs @ [x]) = ups_out s xs @ [x XOR padded s (length xs)]"
  by (simp add: ups_out_def nth_append)

lemma ups_out_nth: "i < length xs \<Longrightarrow> ups_out s xs ! i = xs ! i XOR padded s i"
  by (simp add: ups_out_def)

text \<open>After \<open>k\<close> bytes of the patch that applied the stream \<open>xs\<close>, on a target buffer \<open>t\<close>.\<close>

definition ups_state :: "bytes \<Rightarrow> bytes \<Rightarrow> nat \<Rightarrow> bytes \<Rightarrow> nat \<Rightarrow> bytes \<Rightarrow> ups_data" where
  "ups_state p s n t k xs =
     \<lparr> up_patch_data = p, up_source_data = s,
       up_target_data = take n (ups_out s xs) @ drop (min n (length xs)) t,
       up_patch_length = length p, up_source_length = length s, up_target_length = n,
       up_patch_offset = k, up_source_offset = min (length xs) (length s),
       up_target_offset = length xs,
       up_patch_checksum = NOT (encoding_crc32 0 (take k p)),
       up_source_checksum = NOT (encoding_crc32 0 (take (length xs) s)),
       up_target_checksum = NOT (encoding_crc32 0 (take n (ups_out s xs))) \<rparr>"

lemma ups_state_read:
  assumes "drop k p = b # post"
  shows "ups_patch_read (ups_state p s n t k xs) = Some (b, ups_state p s n t (Suc k) xs)"
  using drop_ConsD [OF assms]
  by (simp add: ups_patch_read_def ups_state_def mem_get_def crc32.update_append take_Suc_conv_app_nth)

lemma ups_state_reads:
  "drop k p = bs @ post \<Longrightarrow>
     reads ups_patch_read (ups_state p s n t k xs) bs (ups_state p s n t (k + length bs) xs)"
proof (induction bs arbitrary: k)
  case (Cons b bs)
  have "drop k p = b # (bs @ post)" using Cons.prems by simp
  from ups_state_read [OF this] Cons.IH [OF drop_ConsD(3) [OF this]] show ?case by simp
qed simp

lemma ups_state_source:
  "ups_source_read (ups_state p s n t k xs) = Some (padded s (length xs),
     (ups_state p s n t k xs)\<lparr>up_source_offset := min (Suc (length xs)) (length s),
       up_source_checksum := NOT (encoding_crc32 0 (take (Suc (length xs)) s))\<rparr>)"
  by (auto simp: ups_source_read_def ups_state_def mem_get_def padded_def crc32.update_append
      take_Suc_conv_app_nth)

lemma ups_state_xor:
  assumes "n \<le> length t" and "length xs + 1 < 2 ^ 32"
  shows "ups_xor_byte x (ups_state p s n t k xs) = Some (ups_state p s n t k (xs @ [x]))"
proof (cases "length xs < n")
  case True
  have "(take n (ups_out s xs) @ drop (min n (length xs)) t)[length xs := y] =
      take n (ups_out s xs @ [y]) @ drop (min n (Suc (length xs))) t" for y
  proof -
    have "drop (length xs) t = t ! length xs # drop (Suc (length xs)) t"
      using True assms(1) by (simp add: Cons_nth_drop_Suc)
    then show ?thesis using True by (simp add: list_update_append)
  qed
  then show ?thesis
    using True assms
    by (simp add: ups_xor_byte_def ups_state_source ups_target_write_def mem_set_def)
      (simp add: ups_state_def ups_out_snoc crc32.update_append)
next
  case False
  then show ?thesis
    using assms by (simp add: ups_xor_byte_def ups_state_source ups_target_write_def)
      (simp add: ups_state_def ups_out_snoc)
qed

lemma ups_skip_eq: "ups_skip (Suc n) d = Option.bind (ups_xor_byte 0 d) (ups_skip n)"
  by (simp add: ups_xor_byte_def split: bind_splits)

lemma ups_state_skip:
  "n \<le> length t \<Longrightarrow> length xs + m < 2 ^ 32 \<Longrightarrow>
     ups_skip m (ups_state p s n t k xs) = Some (ups_state p s n t k (xs @ replicate m 0))"
proof (induction m arbitrary: xs)
  case (Suc m)
  then show ?case
    using Suc.IH [of "xs @ [0]"] ups_state_xor [of n t xs 0 p s k]
    by (simp add: ups_skip_eq del: ups_skip.simps)
qed simp

lemma ups_state_xor_loop:
  "drop k p = ys @ 0 # post \<Longrightarrow> 0 \<notin> set ys \<Longrightarrow> n \<le> length t \<Longrightarrow> length xs + length ys + 1 < 2 ^ 32 \<Longrightarrow>
     ups_xor_loop (ups_state p s n t k xs) =
       Some (ups_state p s n t (k + length ys + 1) (xs @ ys @ [0]))"
proof (induction ys arbitrary: k xs)
  case Nil
  then show ?case
    using ups_state_read [of k p 0 post s n t xs] ups_state_xor [of n t xs 0 p s "Suc k"]
    by (subst ups_xor_loop.simps) simp
next
  case (Cons y ys)
  have d: "drop k p = y # (ys @ 0 # post)" using Cons.prems(1) by simp
  have "ups_xor_loop (ups_state p s n t (Suc k) (xs @ [y])) =
      Some (ups_state p s n t (Suc k + length ys + 1) ((xs @ [y]) @ ys @ [0]))"
    using Cons.IH [OF drop_ConsD(3) [OF d], of "xs @ [y]"] Cons.prems by simp
  then show ?case
    using ups_state_read [OF d, of s n t xs] ups_state_xor [of n t xs y p s "Suc k"] Cons.prems
    by (subst ups_xor_loop.simps) simp
qed

section \<open>Patches as hunks\<close>

text \<open>A hunk skips some bytes, then changes a run of bytes; the 0 that ends the run leaves one more alone.\<close>

type_synonym ups_hunk = "nat \<times> bytes"

fun ups_hunk_bytes :: "ups_hunk \<Rightarrow> bytes" where
  "ups_hunk_bytes (m, ys) = number_bytes m @ ys @ [0]"

fun ups_hunk_stream :: "ups_hunk \<Rightarrow> bytes" where
  "ups_hunk_stream (m, ys) = replicate m 0 @ ys @ [0]"

definition ups_stream :: "ups_hunk list \<Rightarrow> bytes" where
  "ups_stream hs = concat (map ups_hunk_stream hs)"

definition ups_body :: "bytes \<Rightarrow> bytes \<Rightarrow> ups_hunk list \<Rightarrow> bytes" where
  "ups_body a b hs = [0x55, 0x50, 0x53, 0x31] @ number_bytes (length a) @ number_bytes (length b) @
     concat (map ups_hunk_bytes hs)"

definition ups_patch_bytes :: "bytes \<Rightarrow> bytes \<Rightarrow> ups_hunk list \<Rightarrow> bytes" where
  "ups_patch_bytes a b hs =
     (let p = ups_body a b hs @ le_bytes 4 (unat (encoding_crc32 0 a)) @ le_bytes 4 (unat (encoding_crc32 0 b))
      in p @ le_bytes 4 (unat (encoding_crc32 0 p)))"

text \<open>The stream is the difference of the two files, both followed by zeros.\<close>

definition ups_relates :: "ups_hunk list \<Rightarrow> bytes \<Rightarrow> bytes \<Rightarrow> bool" where
  "ups_relates hs a b \<longleftrightarrow> (\<forall>h\<in>set hs. 0 \<notin> set (snd h)) \<and>
     (\<forall>i < max (length a) (length b). padded (ups_stream hs) i = padded a i XOR padded b i)"

lemma ups_state_hunks:
  assumes "n \<le> length t" and "length tail = 12"
  shows "p = pre @ concat (map ups_hunk_bytes hs) @ tail \<Longrightarrow> length pre = k \<Longrightarrow>
     \<forall>h\<in>set hs. 0 \<notin> set (snd h) \<Longrightarrow> length xs + length (ups_stream hs) < 2 ^ 32 \<Longrightarrow>
     ups_hunks (ups_state p s n t k xs) =
       Some (ups_state p s n t (length p - 12) (xs @ ups_stream hs))"
proof (induction hs arbitrary: pre k xs)
  case Nil
  then show ?case using assms(2)
    by (subst ups_hunks.simps) (simp add: ups_state_def ups_stream_def)
next
  case (Cons h hs)
  obtain m ys where h: "h = (m, ys)" by (cases h)
  let ?rest = "concat (map ups_hunk_bytes hs) @ tail"
  have d: "drop k p = number_bytes m @ ys @ 0 # ?rest" using Cons.prems(1,2) by (simp add: h)
  have lens: "length xs + m + length ys + 1 + length (ups_stream hs) < 2 ^ 32"
    using Cons.prems(4) by (simp add: h ups_stream_def)
  let ?k1 = "k + length (number_bytes m)"
  have dec: "ups_decode (ups_state p s n t k xs) = Some (of_nat m, ups_state p s n t ?k1 xs)"
    unfolding ups_decode_def by (rule ups_numbers.decode_number [OF ups_state_reads [OF d]])
  have "m < 2 ^ 32" using lens by simp
  then have m: "unat (ucast (of_nat m :: u64) :: u32) = m"
    by (simp add: unsigned_of_nat take_bit_nat_eq_self unat_of_nat)
  have skip: "ups_skip m (ups_state p s n t ?k1 xs) = Some (ups_state p s n t ?k1 (xs @ replicate m 0))"
    by (rule ups_state_skip [OF assms(1)]) (use lens in simp)
  have "0 \<notin> set ys" using Cons.prems(3) by (simp add: h)
  then have xor: "ups_xor_loop (ups_state p s n t ?k1 (xs @ replicate m 0)) =
      Some (ups_state p s n t (?k1 + length ys + 1) ((xs @ replicate m 0) @ ys @ [0]))"
    using ups_state_xor_loop [OF drop_appendD [OF d] _ assms(1)] lens by simp
  have "ups_hunks (ups_state p s n t (?k1 + length ys + 1) ((xs @ replicate m 0) @ ys @ [0])) =
      Some (ups_state p s n t (length p - 12) (((xs @ replicate m 0) @ ys @ [0]) @ ups_stream hs))"
    using Cons.IH [of "pre @ ups_hunk_bytes h" "?k1 + length ys + 1" "(xs @ replicate m 0) @ ys @ [0]"]
      Cons.prems(1,2,3) lens by (simp add: h)
  moreover have "up_patch_offset (ups_state p s n t k xs) < up_patch_length (ups_state p s n t k xs) - 12"
    using Cons.prems(1,2) assms(2) by (simp add: ups_state_def h)
  ultimately show ?case
    using dec m skip xor by (subst ups_hunks.simps) (simp add: h ups_stream_def)
qed

lemma ups_state_copy_source:
  assumes "n \<le> length t" and "length s < 2 ^ 32"
  shows "ups_copy_source (ups_state p s n t k xs) =
    Some (ups_state p s n t k (xs @ replicate (length s - length xs) 0))"
proof (induction "length s - length xs" arbitrary: xs)
  case 0
  then show ?case by (subst ups_copy_source.simps) (simp add: ups_state_def)
next
  case (Suc m)
  have lt: "length xs < length s" using Suc.hyps(2) by simp
  have r: "replicate (length s - length xs) 0 = 0 # replicate (length s - length (xs @ [0])) (0 :: u8)"
    using lt by (simp add: Suc_diff_Suc [symmetric])
  have m: "m = length s - length (xs @ [0])" using Suc.hyps(2) by simp
  have "ups_xor_byte 0 (ups_state p s n t k xs) = Some (ups_state p s n t k (xs @ [0]))"
    by (rule ups_state_xor [OF assms(1)]) (use lt assms(2) in simp)
  then show ?case
    using Suc.hyps(1) [OF m] lt
    by (subst ups_copy_source.simps) (auto simp: r ups_xor_byte_def ups_state_def split: bind_splits)
qed

lemma ups_state_fill_target:
  assumes "n \<le> length t" and "n < 2 ^ 32"
  shows "ups_fill_target (ups_state p s n t k xs) =
    Some (ups_state p s n t k (xs @ replicate (n - length xs) 0))"
proof (induction "n - length xs" arbitrary: xs)
  case 0
  then show ?case by (subst ups_fill_target.simps) (simp add: ups_state_def)
next
  case (Suc m)
  have lt: "length xs < n" using Suc.hyps(2) by simp
  have r: "replicate (n - length xs) 0 = 0 # replicate (n - length (xs @ [0])) (0 :: u8)"
    using lt by (simp add: Suc_diff_Suc [symmetric])
  have m: "m = n - length (xs @ [0])" using Suc.hyps(2) by simp
  have "ups_xor_byte 0 (ups_state p s n t k xs) = Some (ups_state p s n t k (xs @ [0]))"
    by (rule ups_state_xor [OF assms(1)]) (use lt assms(2) in simp)
  then show ?case
    using Suc.hyps(1) [OF m] lt
    by (subst ups_fill_target.simps) (auto simp: r ups_xor_byte_def ups_state_def split: bind_splits)
qed


section \<open>The checksums\<close>

lemma le_bytes_crc: "of_nat (le_value (le_bytes 4 (unat (c :: u32)))) = c"
proof -
  have "unat c < 4294967296" using unsigned_less [of c] by simp
  then show ?thesis by (simp add: le_value_le_bytes)
qed

lemma ups_state_u32:
  assumes "drop k p = le_bytes 4 (unat c) @ post"
  shows "ups_read_u32 (ups_state p s n t k xs) = Some (c, ups_state p s n t (k + 4) xs)"
proof -
  have four: "(4 :: nat) = Suc (Suc (Suc (Suc 0)))" by simp
  have "length (le_bytes 4 (unat c)) = Suc (Suc (Suc (Suc 0)))" by simp
  then obtain x y z w where b: "le_bytes 4 (unat c) = [x, y, z, w]"
    by (auto simp: length_Suc_conv simp del: length_le_bytes)
  have d: "drop k p = x # y # z # w # post" using assms by (simp add: b)
  note d1 = drop_ConsD(3) [OF d] note d2 = drop_ConsD(3) [OF d1] note d3 = drop_ConsD(3) [OF d2]
  have "u32_of_bytes x y z w = c"
    unfolding u32_of_bytes_value b [symmetric] by (rule le_bytes_crc)
  then show ?thesis
    using ups_state_read [OF d] ups_state_read [OF d1] ups_state_read [OF d2] ups_state_read [OF d3]
    by (simp add: ups_read_u32_def four)
qed

text \<open>What the three checksum fields do once source and target are complete.\<close>

lemma ups_state_finish:
  assumes p: "p = body @ le_bytes 4 (unat ca) @ le_bytes 4 (unat cb) @ le_bytes 4 (unat cp)"
    and cp: "cp = encoding_crc32 0 (body @ le_bytes 4 (unat ca) @ le_bytes 4 (unat cb))"
    and xs: "length s \<le> length xs" "n \<le> length xs" and out: "take n (ups_out s xs) = d"
    and dir: "(encoding_crc32 0 s = ca \<and> length s = la \<and> encoding_crc32 0 d = cb \<and> n = lb) \<or>
      (encoding_crc32 0 s = cb \<and> length s = lb \<and> encoding_crc32 0 d = ca \<and> n = la)"
  shows "ups_finish la lb m (ups_state p s n t (length p - 12) xs) = Some (PATCH_SUCCESS, d @ drop n t, m)"
proof -
  have k: "length p - 12 = length body" using p by simp
  have u: "ups_read_u32 (ups_state p s n t (length body) xs) = Some (ca, ups_state p s n t (length body + 4) xs)"
    "ups_read_u32 (ups_state p s n t (length body + 4) xs) = Some (cb, ups_state p s n t (length body + 8) xs)"
    "ups_read_u32 (ups_state p s n t (length body + 8) xs) = Some (cp, ups_state p s n t (length body + 12) xs)"
    using ups_state_u32 [of "length body" p ca] ups_state_u32 [of "length body + 4" p cb]
      ups_state_u32 [of "length body + 8" p cp "[]"] p by (simp_all add: add.assoc)
  have upd: "ups_read_u32 (data\<lparr>up_source_checksum := x, up_target_checksum := y\<rparr>) =
      map_option (\<lambda>(v, data). (v, data\<lparr>up_source_checksum := x, up_target_checksum := y\<rparr>)) (ups_read_u32 data)"
    for data x y
    by (auto simp: ups_read_u32_def ups_patch_read_def split: bind_splits)
  have pc: "take (length body + 8) p = body @ le_bytes 4 (unat ca) @ le_bytes 4 (unat cb)" using p by simp
  show ?thesis
    using xs out dir
    by (simp add: ups_finish_def k u upd Let_def)
      (auto simp: ups_state_def ups_verdict_def pc cp)
qed

section \<open>Applying a whole patch\<close>

lemma padded_append_zeros: "padded (xs @ replicate m 0) i = padded xs i"
  by (auto simp: padded_def nth_append)

lemma ups_init_state:
  "length p < 2 ^ 32 \<Longrightarrow> length s < 2 ^ 32 \<Longrightarrow> length t < 2 ^ 32 \<Longrightarrow>
     ups_init p (length p) s (length s) t (length t) = ups_state p s (length t) t 0 []"
  by (simp add: ups_init_def ups_state_def crc32.update_Nil ups_out_def)

lemma ups_state_resize:
  "(ups_state p s n t k [])\<lparr>up_target_length := m\<rparr> = ups_state p s m t k []"
  by (simp add: ups_state_def ups_out_def)

lemma ups_expect_reads: "reads ups_patch_read d cs d' \<Longrightarrow> ups_expect cs d = Some (True, d')"
  by (induction cs arbitrary: d) auto

text \<open>Both directions at once: \<open>s\<close> is one of the two files and \<open>d\<close> the other.\<close>

lemma ups_apply_direction:
  assumes sd: "(s = a \<and> d = b) \<or> (s = b \<and> d = a)"
    and rel: "ups_relates hs a b"
    and len: "length a < 2 ^ 32" "length b < 2 ^ 32" "length (ups_patch_bytes a b hs) < 2 ^ 32"
      "length t < 2 ^ 32" "length (ups_stream hs) < 2 ^ 32"
    and fits: "length d \<le> length t"
  shows "ups_apply_patch (ups_patch_bytes a b hs) (length (ups_patch_bytes a b hs)) s (length s) t (length t) =
    Some (PATCH_SUCCESS, d @ drop (length d) t, length d)"
proof -
  define p where "p = ups_patch_bytes a b hs"
  let ?ca = "encoding_crc32 0 a" and ?cb = "encoding_crc32 0 b"
  define cp where "cp = encoding_crc32 0 (ups_body a b hs @ le_bytes 4 (unat ?ca) @ le_bytes 4 (unat ?cb))"
  have p: "p = ups_body a b hs @ le_bytes 4 (unat ?ca) @ le_bytes 4 (unat ?cb) @ le_bytes 4 (unat cp)"
    by (simp add: p_def ups_patch_bytes_def cp_def Let_def)
  let ?magic = "[0x55, 0x50, 0x53, 0x31] :: bytes" and ?na = "number_bytes (length a)"
    and ?nb = "number_bytes (length b)"
  define tail where "tail = le_bytes 4 (unat ?ca) @ le_bytes 4 (unat ?cb) @ le_bytes 4 (unat cp)"
  have tail: "length tail = 12" by (simp add: tail_def)
  let ?k1 = "4 + length ?na" and ?k2 = "4 + length ?na + length ?nb"
  have d0: "drop 0 p = ?magic @ (?na @ ?nb @ concat (map ups_hunk_bytes hs) @ tail)"
    by (simp add: p ups_body_def tail_def)
  have d4: "drop 4 p = ?na @ (?nb @ concat (map ups_hunk_bytes hs) @ tail)"
    using drop_appendD [OF d0] by (simp add: eval_nat_numeral)
  have d5: "drop ?k1 p = ?nb @ (concat (map ups_hunk_bytes hs) @ tail)"
    using drop_appendD [OF d4] by simp
  have lp: "18 \<le> length p"
  proof -
    have "1 \<le> length ?na" "1 \<le> length ?nb" by (simp_all add: Suc_le_eq)
    moreover have "length p = 4 + length ?na + length ?nb + length (concat (map ups_hunk_bytes hs)) + 12"
      using arg_cong [OF d0, of length] tail by simp
    ultimately show ?thesis by linarith
  qed
  have s: "length s < 2 ^ 32" "length d < 2 ^ 32" using sd len by auto
  have init: "ups_init p (length p) s (length s) t (length t) = ups_state p s (length t) t 0 []"
    by (rule ups_init_state) (use len s in \<open>auto simp: p_def\<close>)
  have h: "ups_expect ?magic (ups_state p s (length t) t 0 []) = Some (True, ups_state p s (length t) t 4 [])"
    by (rule ups_expect_reads) (use ups_state_reads [OF d0, of s "length t" t "[]"] in \<open>simp add: eval_nat_numeral\<close>)
  have n1: "ups_decode (ups_state p s (length t) t 4 []) =
      Some (of_nat (length a), ups_state p s (length t) t ?k1 [])"
    unfolding ups_decode_def by (rule ups_numbers.decode_number [OF ups_state_reads [OF d4]])
  have n2: "ups_decode (ups_state p s (length t) t ?k1 []) =
      Some (of_nat (length b), ups_state p s (length t) t ?k2 [])"
    unfolding ups_decode_def by (rule ups_numbers.decode_number [OF ups_state_reads [OF d5]])
  have l: "unat (ucast (of_nat (length a) :: u64) :: u32) = length a"
    "unat (ucast (of_nat (length b) :: u64) :: u32) = length b"
    using len(1,2) by (simp_all add: unsigned_of_nat take_bit_nat_eq_self)
  let ?x0 = "ups_stream hs"
  define x1 where "x1 = ?x0 @ replicate (length s - length ?x0) 0"
  define x2 where "x2 = x1 @ replicate (length d - length x1) 0"
  have "p = (?magic @ ?na @ ?nb) @ concat (map ups_hunk_bytes hs) @ tail"
    by (simp add: p ups_body_def tail_def)
  then have hunks: "ups_hunks (ups_state p s (length d) t ?k2 []) =
      Some (ups_state p s (length d) t (length p - 12) ?x0)"
    using ups_state_hunks [OF fits tail, of p "?magic @ ?na @ ?nb" hs ?k2 "[]" s] rel len(5)
    by (simp add: ups_relates_def)
  have copy: "ups_copy_source (ups_state p s (length d) t (length p - 12) ?x0) =
      Some (ups_state p s (length d) t (length p - 12) x1)"
    unfolding x1_def by (rule ups_state_copy_source [OF fits s(1)])
  have fill: "ups_fill_target (ups_state p s (length d) t (length p - 12) x1) =
      Some (ups_state p s (length d) t (length p - 12) x2)"
    unfolding x2_def by (rule ups_state_fill_target [OF fits s(2)])
  have x2: "length s \<le> length x2" "length d \<le> length x2" by (simp_all add: x1_def x2_def)
  have out: "take (length d) (ups_out s x2) = d"
  proof (rule nth_equalityI)
    show "length (take (length d) (ups_out s x2)) = length d" using x2 by simp
    fix i assume "i < length (take (length d) (ups_out s x2))"
    then have i: "i < length d" by simp
    then have "x2 ! i = padded x2 i" using x2(2) by (simp add: padded_def)
    also have "\<dots> = padded ?x0 i" by (simp only: x1_def x2_def padded_append_zeros)
    also have "\<dots> = padded a i XOR padded b i"
      using rel sd i by (auto simp: ups_relates_def less_max_iff_disj)
    finally have "x2 ! i XOR padded s i = padded d i"
      using sd by (auto simp: xor.commute xor.left_commute)
    then show "take (length d) (ups_out s x2) ! i = d ! i"
      using i x2(2) by (simp add: ups_out_nth padded_def [of d])
  qed
  have fin: "ups_finish (length a) (length b) (length d)
      (ups_state p s (length d) t (length p - 12) x2) = Some (PATCH_SUCCESS, d @ drop (length d) t, length d)"
    by (rule ups_state_finish [OF p cp_def x2 out]) (use sd in auto)
  have same: "up_source_length (ups_state p s n t k xs) = length s"
    "up_target_length (ups_state p s n t k xs) = n" "up_patch_length (ups_state p s n t k xs) = length p"
    for n k xs by (simp_all add: ups_state_def)
  note facts = same h n1 n2 l ups_state_resize
  show ?thesis
  proof (cases "length s = length a")
    case True
    then have ld: "length d = length b" using sd by auto
    show ?thesis
      unfolding p_def [symmetric] ups_apply_patch_def Let_def init
      using lp fits
      by (simp add: facts True ld hunks [unfolded ld] copy [unfolded ld] fill [unfolded ld] fin [unfolded ld]
          del: ups_expect.simps)
  next
    case False
    then have ld: "length d = length a" and ls: "length s = length b" using sd by auto
    show ?thesis
      unfolding p_def [symmetric] ups_apply_patch_def Let_def init
      using lp fits False
      by (simp add: facts ld ls hunks [unfolded ld] copy [unfolded ld] fill [unfolded ld] fin [unfolded ld]
          del: ups_expect.simps)
  qed
qed

section \<open>Correctness\<close>

text \<open>C13. A patch that holds the difference of two files turns the first into the second, and turns the
  second back into the first, with the target's length reported; what follows in the buffer is untouched.\<close>

theorem ups_patch_both_ways:
  assumes "ups_relates hs a b" and "length a < 2 ^ 32" and "length b < 2 ^ 32"
    and "length (ups_patch_bytes a b hs) < 2 ^ 32" and "length (ups_stream hs) < 2 ^ 32"
    and "length t < 2 ^ 32" and "length a \<le> length t" and "length b \<le> length t"
  shows "ups_apply_patch (ups_patch_bytes a b hs) (length (ups_patch_bytes a b hs)) a (length a) t (length t) =
      Some (PATCH_SUCCESS, b @ drop (length b) t, length b) \<and>
    ups_apply_patch (ups_patch_bytes a b hs) (length (ups_patch_bytes a b hs)) b (length b) t (length t) =
      Some (PATCH_SUCCESS, a @ drop (length a) t, length a)"
  using ups_apply_direction [of a a b b hs t] ups_apply_direction [of b a a b hs t] assms by blast

theorem ups_patch_both_ways_witness:
  "let p = ups_patch_bytes [1, 2, 3] [1, 5, 3, 9] [(1, [7]), (0, [9])] in
     ups_apply_patch p (length p) [1, 2, 3] 3 [0, 0, 0, 0, 0] 5 =
       Some (PATCH_SUCCESS, [1, 5, 3, 9, 0], 4) \<and>
     ups_apply_patch p (length p) [1, 5, 3, 9] 4 [0, 0, 0, 0, 0] 5 =
       Some (PATCH_SUCCESS, [1, 2, 3, 0, 0], 3)"
proof -
  let ?p = "ups_patch_bytes [1, 2, 3] [1, 5, 3, 9] [(1, [7]), (0, [9])]"
  have l: "length ?p = 24"
    by (simp add: ups_patch_bytes_def ups_body_def Let_def number_bytes.simps)
  moreover have "ups_stream [(1, [7]), (0, [9])] = [0, 7, 0, 9, 0]" by (simp add: ups_stream_def)
  moreover have "ups_relates [(1, [7]), (0, [9])] [1, 2, 3] [1, 5, 3, 9]"
    by (auto simp: ups_relates_def ups_stream_def padded_def less_Suc_eq)
  ultimately have
    "ups_apply_patch ?p 24 [1, 2, 3] (length [1, 2, 3 :: u8]) [0, 0, 0, 0, 0] (length [0, 0, 0, 0, 0 :: u8]) =
       Some (PATCH_SUCCESS, [1, 5, 3, 9, 0], length [1, 5, 3, 9 :: u8]) \<and>
     ups_apply_patch ?p 24 [1, 5, 3, 9] (length [1, 5, 3, 9 :: u8]) [0, 0, 0, 0, 0] (length [0, 0, 0, 0, 0 :: u8]) =
       Some (PATCH_SUCCESS, [1, 2, 3, 0, 0], length [1, 2, 3 :: u8])"
    using ups_patch_both_ways [of "[(1, [7]), (0, [9])]" "[1, 2, 3]" "[1, 5, 3, 9]" "[0, 0, 0, 0, 0]"]
    by simp
  then show ?thesis using l by (simp add: Let_def eval_nat_numeral)
qed

text \<open>A number cut off by the end of the patch is never completed: reads past the end give 0, which is not
  a last byte, so the decoder does not return.\<close>

theorem ups_decode_exhausted:
  assumes "up_patch_length data \<le> up_patch_offset data"
  shows "ups_decode data = None"
proof -
  have "ups_decode_loop offset shift d = Some r \<Longrightarrow> up_patch_length d \<le> up_patch_offset d \<Longrightarrow> False"
    for offset shift d r
  proof (induction offset shift d r rule: ups_decode_loop.raw_induct [rotated, consumes 1, case_names step])
    case (step f offset shift d r)
    from step(2,3) have "f (offset + 0 * shift + push_bit 7 shift) (push_bit 7 shift) d = Some r"
      by (simp add: ups_patch_read_def)
    from step(1) [OF this step(3)] show ?case .
  qed
  then show ?thesis using assms by (cases "ups_decode data") (auto simp: ups_decode_def)
qed

theorem ups_decode_exhausted_witness: "ups_decode (ups_state [] [] 0 [] 0 []) = None"
  by (rule ups_decode_exhausted) (simp add: ups_state_def)

end
