(* ===== verification/Patch_Ips.thy ===== *)
theory Patch_Ips
  imports Patch_Base
begin

text \<open>
  IPS patches (\<^verbatim>\<open>ips_apply_patch\<close> of \<^verbatim>\<open>tasks/task_patch.c\<close>).  The loop is written as the code has it: 32-bit
  offsets, the guards with their unsigned 64-bit subtractions, unchecked writes.

  Proved here: a patch made of any records (copies and runs) is applied record by record, in order,
  when the target buffer is large enough; a copy record longer than the whole patch passes its guard.
\<close>

text \<open>\<^verbatim>\<open>uint32_t\<close> arithmetic on the offset into the patch.\<close>

definition inc32 :: "nat \<Rightarrow> nat" where
  "inc32 n = (n + 1) mod 2 ^ 32"

definition ips_read :: "bytes \<Rightarrow> nat \<Rightarrow> (nat \<times> nat) option" where
  "ips_read patchdata offset = do {
     b \<leftarrow> mem_get patchdata offset;
     Some (unat b, inc32 offset)
   }"

text \<open>The 24-bit and 16-bit fields, most significant byte first.\<close>

definition ips_read24 :: "bytes \<Rightarrow> nat \<Rightarrow> (nat \<times> nat) option" where
  "ips_read24 patchdata offset = do {
     (b2, offset) \<leftarrow> ips_read patchdata offset;
     (b1, offset) \<leftarrow> ips_read patchdata offset;
     (b0, offset) \<leftarrow> ips_read patchdata offset;
     Some (b2 * 65536 + b1 * 256 + b0, offset)
   }"

definition ips_read16 :: "bytes \<Rightarrow> nat \<Rightarrow> (nat \<times> nat) option" where
  "ips_read16 patchdata offset = do {
     (b1, offset) \<leftarrow> ips_read patchdata offset;
     (b0, offset) \<leftarrow> ips_read patchdata offset;
     Some (b1 * 256 + b0, offset)
   }"

text \<open>\<^verbatim>\<open>while (length--) targetdata[address++] = patchdata[offset++]\<close>, and the run.\<close>

fun ips_copy :: "bytes \<Rightarrow> nat \<Rightarrow> nat \<Rightarrow> nat \<Rightarrow> bytes \<Rightarrow> (nat \<times> nat \<times> bytes) option" where
  "ips_copy patchdata 0 offset address targetdata = Some (offset, address, targetdata)"
| "ips_copy patchdata (Suc len) offset address targetdata = do {
     b \<leftarrow> mem_get patchdata offset;
     targetdata \<leftarrow> mem_set targetdata address b;
     ips_copy patchdata len (inc32 offset) (inc32 address) targetdata
   }"

fun ips_run :: "bytes \<Rightarrow> nat \<Rightarrow> nat \<Rightarrow> nat \<Rightarrow> bytes \<Rightarrow> (nat \<times> bytes) option" where
  "ips_run patchdata 0 offset address targetdata = Some (address, targetdata)"
| "ips_run patchdata (Suc len) offset address targetdata = do {
     b \<leftarrow> mem_get patchdata offset;
     targetdata \<leftarrow> mem_set targetdata address b;
     ips_run patchdata len offset (inc32 address) targetdata
   }"

text \<open>
  One pass of the \<^verbatim>\<open>for (;;)\<close>: \<open>Inl\<close> is a return (the error code and \<^verbatim>\<open>*targetlength\<close>), \<open>Inr\<close> the next
  offset, target and length.
\<close>

definition ips_pass ::
  "bytes \<Rightarrow> nat \<Rightarrow> nat \<Rightarrow> bytes \<Rightarrow> nat \<Rightarrow> ((patch_error \<times> bytes \<times> nat) + (nat \<times> bytes \<times> nat)) option" where
  "ips_pass patchdata patchlen offset targetdata targetlength =
     (if offset > usub patchlen 3 then Some (Inl (PATCH_PATCH_INVALID, targetdata, targetlength))
      else do {
        (address, offset) \<leftarrow> ips_read24 patchdata offset;
        if address = 0x454f46 \<and> offset = patchlen
        then Some (Inl (PATCH_SUCCESS, targetdata, targetlength))
        else if address = 0x454f46 \<and> offset = usub patchlen 3
        then do {
          (size, offset) \<leftarrow> ips_read24 patchdata offset;
          Some (Inl (PATCH_SUCCESS, targetdata, size))
        }
        else if offset > usub patchlen 2
        then Some (Inl (PATCH_PATCH_INVALID, targetdata, targetlength))
        else do {
          (len, offset) \<leftarrow> ips_read16 patchdata offset;
          if len \<noteq> 0
          then if offset > usub patchlen len
               then Some (Inl (PATCH_PATCH_INVALID, targetdata, targetlength))
               else do {
                 (offset, address, targetdata) \<leftarrow> ips_copy patchdata len offset address targetdata;
                 Some (Inr (offset, targetdata, if address > targetlength then address else targetlength))
               }
          else if offset > usub patchlen 3
          then Some (Inl (PATCH_PATCH_INVALID, targetdata, targetlength))
          else do {
            (len, offset) \<leftarrow> ips_read16 patchdata offset;
            if len = 0 then Some (Inl (PATCH_PATCH_INVALID, targetdata, targetlength))
            else do {
              (address, targetdata) \<leftarrow> ips_run patchdata len offset address targetdata;
              Some (Inr (inc32 offset, targetdata, if address > targetlength then address else targetlength))
            }
          }
        }
      })"

partial_function (option) ips_loop ::
  "bytes \<Rightarrow> nat \<Rightarrow> nat \<Rightarrow> bytes \<Rightarrow> nat \<Rightarrow> (patch_error \<times> bytes \<times> nat) option" where
  "ips_loop patchdata patchlen offset targetdata targetlength =
     Option.bind (ips_pass patchdata patchlen offset targetdata targetlength) (\<lambda>r.
       case r of
         Inl result \<Rightarrow> Some result
       | Inr (offset, targetdata, targetlength) \<Rightarrow>
           ips_loop patchdata patchlen offset targetdata targetlength)"

text \<open>\<^verbatim>\<open>PATCH\<close>, compared byte by byte.\<close>

definition ips_magic :: bytes where
  "ips_magic = [0x50, 0x41, 0x54, 0x43, 0x48]"

fun ips_expect :: "bytes \<Rightarrow> bytes \<Rightarrow> nat \<Rightarrow> bool option" where
  "ips_expect patchdata [] i = Some True"
| "ips_expect patchdata (c # cs) i = do {
     x \<leftarrow> mem_get patchdata i;
     if x \<noteq> c then Some False else ips_expect patchdata cs (Suc i)
   }"

definition ips_apply_patch ::
  "bytes \<Rightarrow> nat \<Rightarrow> bytes \<Rightarrow> nat \<Rightarrow> bytes \<Rightarrow> nat \<Rightarrow> (patch_error \<times> bytes \<times> nat) option" where
  "ips_apply_patch patchdata patchlen sourcedata sourcelength targetdata targetlength =
     (if patchlen < 8 then Some (PATCH_PATCH_INVALID, targetdata, targetlength)
      else do {
        ok \<leftarrow> ips_expect patchdata ips_magic 0;
        if \<not> ok then Some (PATCH_PATCH_INVALID, targetdata, targetlength)
        else do {
          source \<leftarrow> mem_read sourcedata 0 sourcelength;
          targetdata \<leftarrow> mem_write targetdata 0 source;
          ips_loop patchdata patchlen 5 targetdata sourcelength
        }
      })"

section \<open>Patches as records\<close>

datatype ips_record = Copy nat bytes | Fill nat nat u8

fun be_bytes :: "nat \<Rightarrow> nat \<Rightarrow> bytes" where
  "be_bytes 0 v = []"
| "be_bytes (Suc n) v = of_nat (v div 256 ^ n mod 256) # be_bytes n v"

fun ips_record_bytes :: "ips_record \<Rightarrow> bytes" where
  "ips_record_bytes (Copy a bs) = be_bytes 3 a @ be_bytes 2 (length bs) @ bs"
| "ips_record_bytes (Fill a n b) = be_bytes 3 a @ be_bytes 2 0 @ be_bytes 2 n @ [b]"

definition ips_patch_bytes :: "ips_record list \<Rightarrow> bytes" where
  "ips_patch_bytes rs = ips_magic @ concat (map ips_record_bytes rs) @ [0x45, 0x4f, 0x46]"

text \<open>What a record means: bytes of the target are replaced, and the target is extended up to them.\<close>

fun ips_overwrite :: "nat \<Rightarrow> bytes \<Rightarrow> bytes \<times> nat \<Rightarrow> bytes \<times> nat" where
  "ips_overwrite a bs (t, n) = (take a t @ bs @ drop (a + length bs) t, max n (a + length bs))"

fun ips_apply_record :: "bytes \<times> nat \<Rightarrow> ips_record \<Rightarrow> bytes \<times> nat" where
  "ips_apply_record s (Copy a bs) = ips_overwrite a bs s"
| "ips_apply_record s (Fill a n b) = ips_overwrite a (replicate n b) s"

text \<open>The records the format can hold, within a target of \<open>cap\<close> bytes.\<close>

fun ips_record_ok :: "nat \<Rightarrow> ips_record \<Rightarrow> bool" where
  "ips_record_ok cap (Copy a bs) \<longleftrightarrow>
     a < 2 ^ 24 \<and> a \<noteq> 0x454f46 \<and> bs \<noteq> [] \<and> length bs < 2 ^ 16 \<and> a + length bs \<le> cap"
| "ips_record_ok cap (Fill a n b) \<longleftrightarrow>
     a < 2 ^ 24 \<and> a \<noteq> 0x454f46 \<and> 0 < n \<and> n < 2 ^ 16 \<and> a + n \<le> cap"

section \<open>Reading records\<close>

lemma inc32_small: "n + 1 < 2 ^ 32 \<Longrightarrow> inc32 n = n + 1"
  by (simp add: inc32_def)

lemma ips_read_at:
  assumes "off < length p" and "length p < 2 ^ 32"
  shows "ips_read p off = Some (unat (p ! off), off + 1)"
  using assms inc32_small [of off] by (simp add: ips_read_def mem_get_def)

lemma be_bytes_2: "be_bytes 2 v = [of_nat (v div 256 mod 256), of_nat (v mod 256)]"
  by (simp add: numeral_2_eq_2)

lemma be_bytes_3:
  "be_bytes 3 v = [of_nat (v div 65536 mod 256), of_nat (v div 256 mod 256), of_nat (v mod 256)]"
  by (simp add: numeral_3_eq_3)

lemma unat_byte: "unat (of_nat (v mod 256) :: u8) = v mod 256"
  by (simp add: unat_of_nat)

lemma be_value_2: "v < 2 ^ 16 \<Longrightarrow> v div 256 mod 256 * 256 + v mod 256 = (v :: nat)"
  by simp

lemma be_value_3:
  assumes "(v :: nat) < 2 ^ 24"
  shows "v div 65536 mod 256 * 65536 + v div 256 mod 256 * 256 + v mod 256 = v"
proof -
  have e: "v div 65536 = v div 256 div 256" by (simp add: div_mult2_eq [symmetric])
  have "v div 256 < 65536" using assms by (simp add: less_mult_imp_div_less)
  then have "v div 65536 mod 256 = v div 256 div 256"
    unfolding e by (simp add: less_mult_imp_div_less)
  moreover have "v div 256 div 256 * 256 + v div 256 mod 256 = v div 256" by (rule div_mult_mod_eq)
  moreover have "v div 256 * 256 + v mod 256 = v" by (rule div_mult_mod_eq)
  ultimately show ?thesis by linarith
qed

text \<open>A field of the patch, read where it stands.\<close>

lemma ips_read16_field:
  assumes "p = pre @ be_bytes 2 v @ post" and "length p < 2 ^ 32" and "v < 2 ^ 16" and "length pre = off"
  shows "ips_read16 p off = Some (v, off + 2)"
proof -
  have l: "off + 1 < length p" using assms(1,4) by (simp add: be_bytes_2)
  have b: "p ! off = of_nat (v div 256 mod 256)" "p ! (off + 1) = of_nat (v mod 256)"
    using assms(1,4) by (auto simp: be_bytes_2 nth_append)
  have "ips_read p off = Some (v div 256 mod 256, off + 1)"
    using ips_read_at [of off p] l assms(2) by (simp only: b unat_byte)
  moreover have "ips_read p (off + 1) = Some (v mod 256, off + 2)"
    using ips_read_at [of "off + 1" p] l assms(2) by (simp only: b unat_byte) simp
  ultimately show ?thesis using be_value_2 [OF assms(3)] unfolding ips_read16_def by simp
qed

lemma ips_read24_field:
  assumes "p = pre @ be_bytes 3 v @ post" and "length p < 2 ^ 32" and "v < 2 ^ 24" and "length pre = off"
  shows "ips_read24 p off = Some (v, off + 3)"
proof -
  have l: "off + 2 < length p" using assms(1,4) by (simp add: be_bytes_3)
  have b: "p ! off = of_nat (v div 65536 mod 256)" "p ! (off + 1) = of_nat (v div 256 mod 256)"
    "p ! (off + 2) = of_nat (v mod 256)"
    using assms(1,4) by (auto simp: be_bytes_3 nth_append)
  have "ips_read p off = Some (v div 65536 mod 256, off + 1)"
    using ips_read_at [of off p] l assms(2) by (simp only: b unat_byte)
  moreover have "ips_read p (off + 1) = Some (v div 256 mod 256, off + 2)"
    using ips_read_at [of "off + 1" p] l assms(2) by (simp only: b unat_byte) simp
  moreover have "ips_read p (off + 2) = Some (v mod 256, off + 3)"
    using ips_read_at [of "off + 2" p] l assms(2) by (simp only: b unat_byte) simp
  ultimately show ?thesis using be_value_3 [OF assms(3)] unfolding ips_read24_def by (simp del: mod_less)
qed

lemma ips_copy_bytes:
  "drop off p = bs @ post \<Longrightarrow> length p < 2 ^ 32 \<Longrightarrow> length t < 2 ^ 32 \<Longrightarrow> a + length bs < length t + 1 \<Longrightarrow>
   a + length bs < 2 ^ 32 \<Longrightarrow>
     ips_copy p (length bs) off a t =
       Some (off + length bs, a + length bs, take a t @ bs @ drop (a + length bs) t)"
proof (induction bs arbitrary: off a t)
  case Nil
  then show ?case by simp
next
  case (Cons b bs)
  have off: "off < length p" using Cons.prems(1) by (metis append_Cons drop_all linorder_not_less list.simps(3))
  then have b: "p ! off = b" and d: "drop (Suc off) p = bs @ post"
    using Cons.prems(1) by (simp_all add: Cons_nth_drop_Suc [symmetric])
  have o: "inc32 off = Suc off" "inc32 a = Suc a"
    using off Cons.prems(2,5) inc32_small [of off] inc32_small [of a] by auto
  have "take (Suc a) (t[a := b]) = take a t @ [b]"
    using Cons.prems(4) by (simp add: take_Suc_conv_app_nth)
  then show ?case
    using Cons.IH [OF d, of "t[a := b]" "Suc a"] Cons.prems off b o
    by (simp add: mem_get_def mem_set_def)
qed

lemma ips_copy_outside:
  "length p < off + k \<Longrightarrow> off \<le> length p \<Longrightarrow> length p < 2 ^ 32 \<Longrightarrow> ips_copy p k off a t = None"
proof (induction k arbitrary: off a t)
  case (Suc k)
  show ?case
  proof (cases "off < length p")
    case True
    then have "inc32 off = off + 1" using Suc.prems(3) inc32_small [of off] by simp
    then show ?thesis using Suc.IH [of "off + 1"] Suc.prems True by (auto simp: mem_get_def mem_set_def)
  qed (simp add: mem_get_def)
qed simp

lemma ips_run_bytes:
  "off < length p \<Longrightarrow> p ! off = b \<Longrightarrow> a + n < length t + 1 \<Longrightarrow> a + n < 2 ^ 32 \<Longrightarrow>
     ips_run p n off a t = Some (a + n, take a t @ replicate n b @ drop (a + n) t)"
proof (induction n arbitrary: a t)
  case 0
  then show ?case by simp
next
  case (Suc n)
  have o: "inc32 a = Suc a" using Suc.prems(4) inc32_small [of a] by simp
  have "take (Suc a) (t[a := b]) = take a t @ [b]"
    using Suc.prems(3) by (simp add: take_Suc_conv_app_nth)
  then show ?case
    using Suc.IH [of "Suc a" "t[a := b]"] Suc.prems o by (simp add: mem_get_def mem_set_def)
qed
lemma length_be_bytes [simp]: "length (be_bytes n v) = n"
  by (induction n) auto

text \<open>What one pass does with the record that stands at the offset.\<close>

lemma ips_pass_copy:
  assumes p: "p = pre @ ips_record_bytes (Copy a bs) @ post" and len: "length p < 2 ^ 32"
    and "3 \<le> length post" and off: "length pre = off" and t: "length t < 2 ^ 32"
    and ok: "ips_record_ok (length t) (Copy a bs)"
  shows "ips_pass p (length p) off t n =
    Some (Inr (off + length (ips_record_bytes (Copy a bs)), ips_apply_record (t, n) (Copy a bs)))"
proof -
  have a: "ips_read24 p off = Some (a, off + 3)"
    using ips_read24_field [of p pre a "be_bytes 2 (length bs) @ bs @ post" off] p len off ok by auto
  have l: "ips_read16 p (off + 3) = Some (length bs, off + 5)"
    using ips_read16_field [of p "pre @ be_bytes 3 a" "length bs" "bs @ post" "off + 3"] p len off ok
    by simp
  have d: "drop (off + 5) p = bs @ post" using p off by simp
  have c: "ips_copy p (length bs) (off + 5) a t =
      Some (off + 5 + length bs, a + length bs, take a t @ bs @ drop (a + length bs) t)"
    by (rule ips_copy_bytes [OF d len t]) (use ok t in auto)
  have L: "length p = off + 5 + length bs + length post" using p off by simp
  show ?thesis
    using ok assms(3) by (simp add: ips_pass_def a l c L max_def)
qed

lemma ips_pass_fill:
  assumes p: "p = pre @ ips_record_bytes (Fill a k b) @ post" and len: "length p < 2 ^ 32"
    and "3 \<le> length post" and off: "length pre = off" and t: "length t < 2 ^ 32"
    and ok: "ips_record_ok (length t) (Fill a k b)"
  shows "ips_pass p (length p) off t n =
    Some (Inr (off + length (ips_record_bytes (Fill a k b)), ips_apply_record (t, n) (Fill a k b)))"
proof -
  have a: "ips_read24 p off = Some (a, off + 3)"
    using ips_read24_field [of p pre a "be_bytes 2 0 @ be_bytes 2 k @ [b] @ post" off] p len off ok by auto
  have l: "ips_read16 p (off + 3) = Some (0, off + 5)"
    using ips_read16_field [of p "pre @ be_bytes 3 a" 0 "be_bytes 2 k @ [b] @ post" "off + 3"] p len off
    by simp
  have k: "ips_read16 p (off + 5) = Some (k, off + 7)"
    using ips_read16_field [of p "pre @ be_bytes 3 a @ be_bytes 2 0" k "[b] @ post" "off + 5"] p len off ok
    by simp
  have L: "length p = off + 8 + length post" using p off by simp
  have b: "p ! (off + 7) = b" using p off by (simp add: nth_append)
  have c: "ips_run p k (off + 7) a t = Some (a + k, take a t @ replicate k b @ drop (a + k) t)"
    by (rule ips_run_bytes [OF _ b]) (use ok t L in auto)
  have i: "inc32 (off + 7) = off + 8" using inc32_small [of "off + 7"] L len by simp
  show ?thesis
    using ok assms(3) by (simp add: ips_pass_def a l k c i L max_def)
qed

lemma ips_pass_record:
  assumes "p = pre @ ips_record_bytes r @ post" and "length p < 2 ^ 32"
    and "3 \<le> length post" and "length pre = off" and "length t < 2 ^ 32"
    and "ips_record_ok (length t) r"
  shows "ips_pass p (length p) off t n =
    Some (Inr (off + length (ips_record_bytes r), ips_apply_record (t, n) r))"
proof (cases r)
  case (Copy a bs)
  from ips_pass_copy [OF assms [unfolded Copy]] show ?thesis by (simp only: Copy)
next
  case (Fill a k b)
  from ips_pass_fill [OF assms [unfolded Fill]] show ?thesis by (simp only: Fill)
qed

lemma ips_pass_end:
  assumes p: "p = pre @ [0x45, 0x4f, 0x46]" and len: "length p < 2 ^ 32" and off: "length pre = off"
  shows "ips_pass p (length p) off t n = Some (Inl (PATCH_SUCCESS, t, n))"
proof -
  have e: "[0x45, 0x4f, 0x46] = be_bytes 3 0x454f46" by (simp add: be_bytes_3)
  have a: "ips_read24 p off = Some (0x454f46, off + 3)"
    using ips_read24_field [of p pre "0x454f46" "[]" off] p len off by (auto simp: e)
  have L: "length p = off + 3" using p off by simp
  show ?thesis by (simp add: ips_pass_def a L)
qed

lemma length_ips_apply_record:
  "ips_record_ok (length t) r \<Longrightarrow> length (fst (ips_apply_record (t, n) r)) = length t"
  by (cases r) auto

lemma ips_loop_records:
  "p = pre @ concat (map ips_record_bytes rs) @ [0x45, 0x4f, 0x46] \<Longrightarrow> length p < 2 ^ 32 \<Longrightarrow>
   length pre = off \<Longrightarrow> length t < 2 ^ 32 \<Longrightarrow> \<forall>r\<in>set rs. ips_record_ok (length t) r \<Longrightarrow>
     ips_loop p (length p) off t n = Some (PATCH_SUCCESS, foldl ips_apply_record (t, n) rs)"
proof (induction rs arbitrary: pre off t n)
  case Nil
  then show ?case using ips_pass_end [of p pre off t n] by (simp add: ips_loop.simps)
next
  case (Cons r rs)
  obtain t' n' where r: "ips_apply_record (t, n) r = (t', n')" by force
  have pass: "ips_pass p (length p) off t n = Some (Inr (off + length (ips_record_bytes r), t', n'))"
    using ips_pass_record [of p pre r "concat (map ips_record_bytes rs) @ [0x45, 0x4f, 0x46]" off t n]
      Cons.prems r by auto
  have "length t' = length t" using length_ips_apply_record [of t r n] Cons.prems(5) r by simp
  then have "ips_loop p (length p) (off + length (ips_record_bytes r)) t' n' =
      Some (PATCH_SUCCESS, foldl ips_apply_record (t', n') rs)"
    using Cons.IH [of "pre @ ips_record_bytes r" "off + length (ips_record_bytes r)" t' n'] Cons.prems by simp
  then show ?case using pass r by (subst ips_loop.simps) simp
qed

section \<open>Correctness\<close>

lemma ips_apply_patch_records:
  assumes "length (ips_patch_bytes rs) < 2 ^ 32" and "length source \<le> length t" and "length t < 2 ^ 32"
    and "\<forall>r\<in>set rs. ips_record_ok (length t) r"
  shows "ips_apply_patch (ips_patch_bytes rs) (length (ips_patch_bytes rs)) source (length source) t n =
    Some (PATCH_SUCCESS,
      foldl ips_apply_record (source @ drop (length source) t, length source) rs)"
proof -
  let ?p = "ips_patch_bytes rs" and ?t = "source @ drop (length source) t"
  have magic: "ips_expect ?p ips_magic 0 = Some True"
    by (simp add: ips_patch_bytes_def ips_magic_def mem_get_def)
  have "length ?t = length t" using assms(2) by simp
  then have "ips_loop ?p (length ?p) 5 ?t (length source) =
      Some (PATCH_SUCCESS, foldl ips_apply_record (?t, length source) rs)"
    using ips_loop_records [of ?p ips_magic rs 5 ?t "length source"] assms
    by (simp add: ips_patch_bytes_def ips_magic_def)
  moreover have "8 \<le> length ?p" by (simp add: ips_patch_bytes_def ips_magic_def)
  ultimately show ?thesis
    using magic assms(2) by (simp add: ips_apply_patch_def mem_read_def mem_write_def)
qed

text \<open>C14. A patch of records (byte strings and runs, each at most 65535 bytes and none at the address that
  spells EOF) is applied record by record: the target starts as the source, each record replaces its bytes,
  and the target ends where the source or the furthest record ends.  The buffer has to be large enough.\<close>

theorem ips_applies_records:
  assumes "length (ips_patch_bytes rs) < 2 ^ 32" and "length source \<le> length t" and "length t < 2 ^ 32"
    and "\<forall>r\<in>set rs. ips_record_ok (length t) r"
  shows "ips_apply_patch (ips_patch_bytes rs) (length (ips_patch_bytes rs)) source (length source) t n =
    Some (PATCH_SUCCESS,
      foldl ips_apply_record (source @ drop (length source) t, length source) rs)"
  by (rule ips_apply_patch_records [OF assms])

theorem ips_applies_records_witness:
  "ips_apply_patch (ips_patch_bytes [Copy 1 [7, 8], Fill 4 2 9])
     (length (ips_patch_bytes [Copy 1 [7, 8], Fill 4 2 9])) [1, 2, 3] 3 [0, 0, 0, 0, 0, 0, 0] 0 =
     Some (PATCH_SUCCESS, [1, 7, 8, 0, 9, 9, 0], 6)"
proof -
  have "length (ips_patch_bytes [Copy 1 [7, 8], Fill 4 2 9]) = 23"
    by (simp add: ips_patch_bytes_def ips_magic_def)
  moreover have "foldl ips_apply_record ([1, 2, 3, 0, 0, 0, 0], 3) [Copy 1 [7, 8], Fill 4 2 9] =
      ([1, 7, 8, 0, 9, 9, 0], 6)"
    by (simp add: numeral_2_eq_2)
  ultimately show ?thesis
    using ips_applies_records [of "[Copy 1 [7, 8], Fill 4 2 9]" "[1, 2, 3]" "[0, 0, 0, 0, 0, 0, 0]" 0]
    by (simp add: numeral_3_eq_3)
qed

text \<open>The guard of a copy record is an unsigned subtraction: a record that asks for more bytes than the whole
  patch has passes it, and the copy then reads past the end of the patch (or writes past the end of the
  target before that): the value \<^term>\<open>None\<close>, whatever follows the record.\<close>

theorem ips_overlong_copy_reads_outside:
  assumes "length rest + 10 < k" and "k < 2 ^ 16" and "a < 2 ^ 24" and "a \<noteq> 0x454f46"
    and "length source \<le> length t"
  shows "ips_apply_patch (ips_magic @ be_bytes 3 a @ be_bytes 2 k @ rest) (length rest + 10)
    source (length source) t n = None"
proof -
  let ?p = "ips_magic @ be_bytes 3 a @ be_bytes 2 k @ rest" and ?t = "source @ drop (length source) t"
  have len: "length ?p = length rest + 10" by (simp add: ips_magic_def)
  have magic: "ips_expect ?p ips_magic 0 = Some True"
    by (simp add: ips_magic_def mem_get_def)
  have a: "ips_read24 ?p 5 = Some (a, 8)"
    using ips_read24_field [of ?p ips_magic a "be_bytes 2 k @ rest" 5] assms len by (simp add: ips_magic_def)
  have l: "ips_read16 ?p 8 = Some (k, 10)"
    using ips_read16_field [of ?p "ips_magic @ be_bytes 3 a" k rest 8] assms len by (simp add: ips_magic_def)
  have c: "ips_copy ?p k 10 a ?t = None"
    by (rule ips_copy_outside) (use assms len in auto)
  have g: "\<not> usub (length rest + 10) k < 10"
    using assms(1,2) by (simp add: usub_wraps)
  have "ips_pass ?p (length rest + 10) 5 ?t (length source) = None"
    using assms(1,4) g by (simp add: ips_pass_def a l c)
  then have "ips_loop ?p (length rest + 10) 5 ?t (length source) = None"
    by (subst ips_loop.simps) simp
  then show ?thesis
    using magic assms(5) by (simp add: ips_apply_patch_def mem_read_def mem_write_def)
qed

theorem ips_overlong_copy_reads_outside_witness:
  "ips_apply_patch (ips_magic @ be_bytes 3 0 @ be_bytes 2 11 @ []) (length ([] :: bytes) + 10)
     [1, 2] (length [1, 2 :: u8]) [0, 0, 0] 0 = None"
  by (rule ips_overlong_copy_reads_outside) simp_all

end
