(* ===== verification/Soft_Patch.thy ===== *)
theory Soft_Patch
  imports Patch_Bps Patch_Ups Patch_Ips
begin

text \<open>
  Choosing and applying a soft patch (\<^verbatim>\<open>apply_patch_content\<close>, the \<^verbatim>\<open>try_\<close> functions and \<^verbatim>\<open>patch_content\<close> of
  \<^verbatim>\<open>tasks/task_patch.c\<close>).  The file system and the allocator are parameters, collected in one record;
  the content is its buffer and its size, returned updated with the boolean result.

  Proved here: the content is replaced only by the output of a patch that reported success, and at most
  one of the three formats is tried to the end: a patch file that is found but does not apply stops the
  search, with the result \<^verbatim>\<open>true\<close>.
\<close>

record patch_env =
  pe_path_is_valid :: "string \<Rightarrow> bool"
  pe_read_file :: "string \<Rightarrow> (bytes \<times> int) option"
  pe_malloc :: "nat \<Rightarrow> bytes option"

type_synonym patch_func =
  "bytes \<Rightarrow> nat \<Rightarrow> bytes \<Rightarrow> nat \<Rightarrow> bytes \<Rightarrow> nat \<Rightarrow> (patch_error \<times> bytes \<times> nat) option"

type_synonym content = "bytes \<times> nat"

definition apply_patch_content ::
  "patch_env \<Rightarrow> patch_func \<Rightarrow> bytes \<Rightarrow> nat \<Rightarrow> content \<Rightarrow> (bool \<times> content) option" where
  "apply_patch_content env func patch_data patch_size content =
     (let (ret_buf, ret_size) = content;
          target_size = ret_size * 4 mod 2 ^ 64
      in case pe_malloc env target_size of
           None \<Rightarrow> Some (False, ret_buf, ret_size)
         | Some patched_content \<Rightarrow> do {
             (err, patched_content, target_size) \<leftarrow>
               func patch_data patch_size ret_buf ret_size patched_content target_size;
             if err = PATCH_SUCCESS then Some (True, patched_content, target_size)
             else Some (True, ret_buf, ret_size)
           })"

text \<open>The three \<^verbatim>\<open>try_\<close> functions have the same text; the name is empty for \<^verbatim>\<open>NULL\<close> too.\<close>

definition try_patch ::
  "patch_env \<Rightarrow> patch_func \<Rightarrow> bool \<Rightarrow> string \<Rightarrow> content \<Rightarrow> (bool \<times> content) option" where
  "try_patch env func allow name content =
     (if allow \<and> name \<noteq> [] \<and> pe_path_is_valid env name
      then case pe_read_file env name of
             None \<Rightarrow> Some (False, content)
           | Some (patch_data, patch_size) \<Rightarrow>
               if patch_size \<ge> 0
               then apply_patch_content env func patch_data (nat patch_size) content
               else Some (False, content)
      else Some (False, content))"

definition try_bps_patch :: "patch_env \<Rightarrow> bool \<Rightarrow> string \<Rightarrow> content \<Rightarrow> (bool \<times> content) option" where
  "try_bps_patch env = try_patch env bps_apply_patch"

definition try_ups_patch :: "patch_env \<Rightarrow> bool \<Rightarrow> string \<Rightarrow> content \<Rightarrow> (bool \<times> content) option" where
  "try_ups_patch env = try_patch env ups_apply_patch"

definition try_ips_patch :: "patch_env \<Rightarrow> bool \<Rightarrow> string \<Rightarrow> content \<Rightarrow> (bool \<times> content) option" where
  "try_ips_patch env = try_patch env ips_apply_patch"

definition patch_content ::
  "patch_env \<Rightarrow> bool \<Rightarrow> bool \<Rightarrow> bool \<Rightarrow> string \<Rightarrow> string \<Rightarrow> string \<Rightarrow> content \<Rightarrow> (bool \<times> content) option" where
  "patch_content env is_ips_pref is_bps_pref is_ups_pref name_ips name_bps name_ups content =
     (let allow_ups = \<not> is_bps_pref \<and> \<not> is_ips_pref;
          allow_ips = \<not> is_ups_pref \<and> \<not> is_bps_pref;
          allow_bps = \<not> is_ups_pref \<and> \<not> is_ips_pref
      in if of_bool is_ips_pref + of_bool is_bps_pref + of_bool is_ups_pref > (1 :: nat)
         then Some (False, content)
         else do {
           (done_ips, content) \<leftarrow> try_ips_patch env allow_ips name_ips content;
           if done_ips then Some (True, content)
           else do {
             (done_bps, content) \<leftarrow> try_bps_patch env allow_bps name_bps content;
             if done_bps then Some (True, content)
             else do {
               (done_ups, content) \<leftarrow> try_ups_patch env allow_ups name_ups content;
               Some (done_ups, content)
             }
           }
         })"

section \<open>Correctness\<close>

text \<open>\<open>patched_by env func name c c'\<close>: the patch file \<open>name\<close> turns the content \<open>c\<close> into \<open>c'\<close>.\<close>

definition patched_by :: "patch_env \<Rightarrow> patch_func \<Rightarrow> string \<Rightarrow> content \<Rightarrow> content \<Rightarrow> bool" where
  "patched_by env func name c c' \<longleftrightarrow>
     (\<exists>p k buf. pe_read_file env name = Some (p, k) \<and> 0 \<le> k \<and>
       pe_malloc env (snd c * 4 mod 2 ^ 64) = Some buf \<and>
       func p (nat k) (fst c) (snd c) buf (snd c * 4 mod 2 ^ 64) = Some (PATCH_SUCCESS, c'))"

lemma try_patch_cases:
  assumes "try_patch env func allow name c = Some (r, c')"
  shows "c' = c \<or> r \<and> allow \<and> patched_by env func name c c'"
  using assms
  by (auto simp: try_patch_def apply_patch_content_def patched_by_def Let_def
      split: if_splits option.splits prod.splits bind_splits)

lemma try_patch_False: "try_patch env func allow name c = Some (False, c') \<Longrightarrow> c' = c"
  using try_patch_cases by blast

text \<open>C15. The content changes only into what a patch of an allowed format reported as successfully applied to
  it, and it is left alone when the result is false.  In particular no two patches are ever combined.\<close>

theorem patch_content_sound:
  assumes "patch_content env ip bp up ni nb nu c = Some (r, c')"
  shows "c' = c \<or> r \<and>
    (\<not> up \<and> \<not> bp \<and> patched_by env ips_apply_patch ni c c' \<or>
     \<not> up \<and> \<not> ip \<and> patched_by env bps_apply_patch nb c c' \<or>
     \<not> bp \<and> \<not> ip \<and> patched_by env ups_apply_patch nu c c')"
proof (cases "of_bool ip + of_bool bp + of_bool up > (1 :: nat)")
  case True
  then show ?thesis using assms by (simp add: patch_content_def)
next
  case False
  let ?ips = "try_ips_patch env (\<not> up \<and> \<not> bp) ni" and ?bps = "try_bps_patch env (\<not> up \<and> \<not> ip) nb"
    and ?ups = "try_ups_patch env (\<not> bp \<and> \<not> ip) nu"
  have run: "Option.bind (?ips c) (\<lambda>(d, c). if d then Some (True, c) else
      Option.bind (?bps c) (\<lambda>(d, c). if d then Some (True, c) else
      Option.bind (?ups c) (\<lambda>(d, c). Some (d, c)))) = Some (r, c')"
    using assms unfolding patch_content_def Let_def if_not_P [OF False] by simp
  obtain r1 c1 where 1: "?ips c = Some (r1, c1)"
    using run by (cases "?ips c") auto
  note run1 = run [unfolded 1, simplified]
  show ?thesis
  proof (cases r1)
    case True
    then have "r" "c' = c1" using run1 by auto
    then show ?thesis using True 1 try_patch_cases unfolding try_ips_patch_def by blast
  next
    case False
    then have c1: "c1 = c" using 1 by (auto simp: try_ips_patch_def dest: try_patch_False)
    obtain r2 c2 where 2: "?bps c = Some (r2, c2)"
      using run1 False by (cases "?bps c") (auto simp: c1)
    note run2 = run1 [unfolded c1 2, simplified]
    show ?thesis
    proof (cases r2)
      case True
      then have "r" "c' = c2" using run2 False by auto
      then show ?thesis using True 2 try_patch_cases unfolding try_bps_patch_def by blast
    next
      case r2: False
      then have "c2 = c" using 2 r2 by (auto simp: try_bps_patch_def dest: try_patch_False)
      then have "?ups c = Some (r, c')"
        using run2 False r2 by (cases "?ups c") auto
      then show ?thesis using try_patch_cases unfolding try_ups_patch_def by blast
    qed
  qed
qed

text \<open>A patch that is found and does not apply ends the search with the result true: the content is
  unchanged, and the BPS and UPS patches beside it are not looked at.\<close>

theorem patch_content_failed_ips_hides_others:
  assumes "\<not> bp" and "\<not> up" and "ni \<noteq> []" and "pe_path_is_valid env ni"
    and "pe_read_file env ni = Some (p, k)" and "0 \<le> k"
    and "pe_malloc env (snd c * 4 mod 2 ^ 64) = Some buf"
    and "ips_apply_patch p (nat k) (fst c) (snd c) buf (snd c * 4 mod 2 ^ 64) = Some (e, b, n)"
    and "e \<noteq> PATCH_SUCCESS"
  shows "patch_content env ip bp up ni nb nu c = Some (True, c)"
  using assms
  by (cases c)
    (simp add: patch_content_def try_ips_patch_def try_patch_def apply_patch_content_def)

definition example_env :: "bytes \<Rightarrow> patch_env" where
  "example_env p = \<lparr>pe_path_is_valid = (\<lambda>_. True), pe_read_file = (\<lambda>_. Some (p, int (length p))),
     pe_malloc = (\<lambda>n. Some (replicate n 0))\<rparr>"

text \<open>A patch of two records for a content of three bytes, and patches that are not valid beside it.\<close>

definition example_records :: bytes where
  "example_records = ips_patch_bytes [Copy 1 [7, 8], Fill 4 2 9]"

definition records_env :: patch_env where
  "records_env = \<lparr>pe_path_is_valid = (\<lambda>_. True),
     pe_read_file = (\<lambda>p. if p = ''a.ips'' then Some (example_records, int (length example_records)) else Some ([1], 1)),
     pe_malloc = (\<lambda>n. Some (replicate n 0))\<rparr>"

lemma example_records_run:
  "ips_apply_patch example_records (length example_records) [1, 2, 3] 3 [0, 0, 0, 0, 0, 0, 0, 0, 0, 0, 0, 0] 12 =
    Some (PATCH_SUCCESS, [1, 7, 8, 0, 9, 9, 0, 0, 0, 0, 0, 0], 6)"
proof -
  have "length example_records = 23" by (simp add: example_records_def ips_patch_bytes_def ips_magic_def)
  moreover have "foldl ips_apply_record ([1, 2, 3, 0, 0, 0, 0, 0, 0, 0, 0, 0], 3) [Copy 1 [7, 8], Fill 4 2 9] =
      ([1, 7, 8, 0, 9, 9, 0, 0, 0, 0, 0, 0], 6)"
    by (simp add: numeral_2_eq_2)
  ultimately show ?thesis
    using ips_apply_patch_records [of "[Copy 1 [7, 8], Fill 4 2 9]" "[1, 2, 3]" "[0, 0, 0, 0, 0, 0, 0, 0, 0, 0, 0, 0]" 12]
    by (simp add: example_records_def numeral_3_eq_3)
qed

theorem patch_content_sound_witness:
  "patch_content records_env False False False ''a.ips'' ''a.bps'' ''a.ups'' ([1, 2, 3], 3) =
     Some (True, [1, 7, 8, 0, 9, 9, 0, 0, 0, 0, 0, 0], 6) \<and>
   (patched_by records_env ips_apply_patch ''a.ips'' ([1, 2, 3], 3) ([1, 7, 8, 0, 9, 9, 0, 0, 0, 0, 0, 0], 6) \<or>
    patched_by records_env bps_apply_patch ''a.bps'' ([1, 2, 3], 3) ([1, 7, 8, 0, 9, 9, 0, 0, 0, 0, 0, 0], 6) \<or>
    patched_by records_env ups_apply_patch ''a.ups'' ([1, 2, 3], 3) ([1, 7, 8, 0, 9, 9, 0, 0, 0, 0, 0, 0], 6))"
proof -
  have twelve: "replicate 12 (0 :: u8) = [0, 0, 0, 0, 0, 0, 0, 0, 0, 0, 0, 0]" by (simp add: numeral_eq_Suc)
  have run: "patch_content records_env False False False ''a.ips'' ''a.bps'' ''a.ups'' ([1, 2, 3], 3) =
      Some (True, [1, 7, 8, 0, 9, 9, 0, 0, 0, 0, 0, 0], 6)"
    using example_records_run twelve
    by (simp add: patch_content_def try_ips_patch_def try_patch_def apply_patch_content_def records_env_def)
  from patch_content_sound [OF this] show ?thesis using run by simp
qed

theorem patch_content_failed_ips_hides_others_witness:
  "patch_content (example_env [1]) False False False ''a'' ''b'' ''c'' ([7], 1) = Some (True, ([7], 1))"
  by (rule patch_content_failed_ips_hides_others
      [where p = "[1]" and k = 1 and buf = "replicate 4 0" and e = PATCH_PATCH_INVALID
        and b = "replicate 4 0" and n = 4])
    (simp_all add: example_env_def ips_apply_patch_def)

end
