(* ===== verification/Byte_Ring.thy ===== *)
theory Byte_Ring
  imports RA_Prelude
begin

text \<open>
  Bytes kept in a ring: what the two circular buffers of the code (\<^verbatim>\<open>libretro-common/queues/fifo_queue.c\<close>
  and \<^verbatim>\<open>network/netplay/netplay_buf.c\<close>) have in common.  \<open>ring_take d p n\<close> are the \<open>n\<close> bytes from
  position \<open>p\<close> on; both codes write and read them in at most two pieces.  The locale states what a
  client of such a buffer relies on: it is a queue.
\<close>

definition ring_take :: "'a list \<Rightarrow> nat \<Rightarrow> nat \<Rightarrow> 'a list" where
  "ring_take d p n = map (\<lambda>i. d ! ((p + i) mod length d)) [0..<n]"

lemma length_ring_take [simp]: "length (ring_take d p n) = n"
  by (simp add: ring_take_def)

lemma ring_take_0 [simp]: "ring_take d p 0 = []"
  by (simp add: ring_take_def)

lemma ring_take_nth: "i < n \<Longrightarrow> ring_take d p n ! i = d ! ((p + i) mod length d)"
  by (simp add: ring_take_def)

lemma ring_take_mod: "ring_take d (p mod length d) n = ring_take d p n"
  by (rule nth_equalityI) (simp_all add: ring_take_nth mod_add_left_eq)

lemma ring_take_take: "m \<le> n \<Longrightarrow> take m (ring_take d p n) = ring_take d p m"
  by (rule nth_equalityI) (simp_all add: ring_take_nth)

lemma ring_take_drop: "drop m (ring_take d p n) = ring_take d (p + m) (n - m)"
  by (rule nth_equalityI) (simp_all add: ring_take_nth add.assoc)

text \<open>A read in one or two pieces.\<close>

lemma ring_take_straight:
  assumes "p + n \<le> length d"
  shows "ring_take d p n = take n (drop p d)"
  using assms by (intro nth_equalityI) (auto simp: ring_take_nth)

lemma ring_take_split:
  assumes "p \<le> length d" and "length d \<le> p + n" and "n \<le> length d"
  shows "ring_take d p n = drop p d @ take (n - (length d - p)) d"
proof (rule nth_equalityI)
  show "length (ring_take d p n) = length (drop p d @ take (n - (length d - p)) d)"
    using assms by simp
  fix i assume i: "i < length (ring_take d p n)"
  show "ring_take d p n ! i = (drop p d @ take (n - (length d - p)) d) ! i"
  proof (cases "p + i < length d")
    case True
    then have "i < length d - p" using assms(1) by linarith
    then show ?thesis using i True by (simp add: ring_take_nth nth_append)
  next
    case False
    then have "(p + i) mod length d = p + i - length d"
      using i assms by (simp add: mod_if)
    moreover have "i - (length d - p) = p + i - length d" "\<not> i < length d - p"
      using False assms(1) by linarith+
    ultimately show ?thesis using i False assms by (simp add: ring_take_nth nth_append)
  qed
qed

text \<open>A write in two pieces, the first up to the end of the buffer.\<close>

definition ring_write :: "'a list \<Rightarrow> nat \<Rightarrow> 'a list \<Rightarrow> 'a list option" where
  "ring_write d e xs =
     (let k = min (length xs) (length d - e) in do {
        d \<leftarrow> mem_write d e (take k xs);
        mem_write d 0 (drop k xs)
      })"

lemma ring_write_Some:
  assumes "e \<le> length d" and "length xs \<le> length d"
  shows "\<exists>d'. ring_write d e xs = Some d' \<and> length d' = length d \<and>
    (\<forall>i < length d. d' ! i =
       (if i + (length d - e) < length xs then xs ! (i + (length d - e))
        else if e \<le> i \<and> i < e + length xs then xs ! (i - e) else d ! i))"
proof -
  define k where "k = min (length xs) (length d - e)"
  obtain d1 where d1: "mem_write d e (take k xs) = Some d1"
    using assms mem_write_Some [of e "take k xs" d] by (simp add: k_def)
  have l1: "length d1 = length d" using length_mem_write [OF d1] .
  obtain d2 where d2: "mem_write d1 0 (drop k xs) = Some d2"
    using assms l1 mem_write_Some [of 0 "drop k xs" d1] by simp
  have l2: "length d2 = length d" using length_mem_write [OF d2] l1 by simp
  have "d2 ! i = (if i + (length d - e) < length xs then xs ! (i + (length d - e))
      else if e \<le> i \<and> i < e + length xs then xs ! (i - e) else d ! i)" if i: "i < length d" for i
  proof -
    have "i < length d1" using i l1 by simp
    note n2 = mem_write_nth [OF d2 this] and n1 = mem_write_nth [OF d1 i]
    show ?thesis
      using assms i by (auto simp: n1 n2 k_def min_def add.commute)
  qed
  then show ?thesis
    using d1 d2 l2 unfolding ring_write_def Let_def k_def [symmetric] by auto
qed

lemma ring_take_write:
  assumes w: "ring_write d e xs = Some d'" and p: "p < length d" and fits: "n + length xs \<le> length d"
    and e: "e = p + n \<or> p + n = e + length d" and le: "e \<le> length d"
  shows "ring_take d' p (n + length xs) = ring_take d p n @ xs"
proof -
  obtain l: "length d' = length d" and
    nth: "\<forall>i < length d. d' ! i =
       (if i + (length d - e) < length xs then xs ! (i + (length d - e))
        else if e \<le> i \<and> i < e + length xs then xs ! (i - e) else d ! i)"
    using ring_write_Some [of e d xs] le fits w by auto
  show ?thesis
  proof (rule nth_equalityI)
    show "length (ring_take d' p (n + length xs)) = length (ring_take d p n @ xs)" by simp
    fix i assume "i < length (ring_take d' p (n + length xs))"
    then have i: "i < n + length xs" by simp
    define x where "x = (p + i) mod length d"
    have "0 < length d" using p by linarith
    then have xl: "x < length d" by (simp add: x_def)
    have xc: "x = p + i \<or> x + length d = p + i"
    proof (cases "p + i < length d")
      case False
      then have "(p + i) mod length d = p + i - length d"
        using i fits p by (simp add: mod_if)
      then show ?thesis using False by (simp add: x_def)
    qed (simp add: x_def)
    have goal: "d' ! x = (if i < n then d ! x else xs ! (i - n))"
    proof (cases "i < n")
      case True
      have "\<not> x + (length d - e) < length xs" "\<not> (e \<le> x \<and> x < e + length xs)"
        using True xc xl e le fits p by linarith+
      then show ?thesis using nth xl True by auto
    next
      case False
      show ?thesis
      proof (cases "x + (length d - e) < length xs")
        case True
        have "x + (length d - e) = i - n"
          using True False xc xl e le fits p i by linarith
        then show ?thesis using nth xl True False by simp
      next
        case no: False
        have "e \<le> x" "x < e + length xs" "x - e = i - n"
          using no False xc xl e le fits p i by linarith+
        then show ?thesis using nth xl no False by simp
      qed
    qed
    show "ring_take d' p (n + length xs) ! i = (ring_take d p n @ xs) ! i"
      using i goal by (simp add: ring_take_nth nth_append l x_def)
  qed
qed

section \<open>The interface\<close>

text \<open>A session of writes (\<^term>\<open>Inl\<close>) and reads (\<^term>\<open>Inr\<close>), with all bytes read.\<close>

fun fifo_session ::
  "(bytes \<Rightarrow> 's \<Rightarrow> 's option) \<Rightarrow> (nat \<Rightarrow> 's \<Rightarrow> (bytes \<times> 's) option) \<Rightarrow> (bytes + nat) list \<Rightarrow> 's \<Rightarrow>
     (bytes \<times> 's) option" where
  "fifo_session put get [] s = Some ([], s)"
| "fifo_session put get (Inl xs # ops) s = do { s \<leftarrow> put xs s; fifo_session put get ops s }"
| "fifo_session put get (Inr n # ops) s = do {
     (xs, s) \<leftarrow> get n s;
     (ys, s) \<leftarrow> fifo_session put get ops s;
     Some (xs @ ys, s)
   }"

fun fifo_written :: "(bytes + nat) list \<Rightarrow> bytes" where
  "fifo_written [] = []"
| "fifo_written (Inl xs # ops) = xs @ fifo_written ops"
| "fifo_written (Inr n # ops) = fifo_written ops"

text \<open>\<open>fifo_feasible used free ops\<close>: no write larger than the room, no read larger than the contents.\<close>

fun fifo_feasible :: "nat \<Rightarrow> nat \<Rightarrow> (bytes + nat) list \<Rightarrow> bool" where
  "fifo_feasible used free [] = True"
| "fifo_feasible used free (Inl xs # ops) =
     (length xs \<le> free \<and> fifo_feasible (used + length xs) (free - length xs) ops)"
| "fifo_feasible used free (Inr n # ops) = (n \<le> used \<and> fifo_feasible (used - n) (free + n) ops)"

locale byte_fifo =
  fixes invar :: "'s \<Rightarrow> bool"
    and contents :: "'s \<Rightarrow> bytes"
    and room :: "'s \<Rightarrow> nat"
    and put :: "bytes \<Rightarrow> 's \<Rightarrow> 's option"
    and get :: "nat \<Rightarrow> 's \<Rightarrow> (bytes \<times> 's) option"
  assumes put_ok: "invar s \<Longrightarrow> length xs \<le> room s \<Longrightarrow>
      \<exists>s'. put xs s = Some s' \<and> invar s' \<and> contents s' = contents s @ xs \<and>
        room s' + length xs = room s"
    and get_ok: "invar s \<Longrightarrow> n \<le> length (contents s) \<Longrightarrow>
      \<exists>s'. get n s = Some (take n (contents s), s') \<and> invar s' \<and> contents s' = drop n (contents s) \<and>
        room s' = room s + n"
begin

text \<open>Every byte is read once, in the order it was written.\<close>

lemma session_fifo:
  "invar s \<Longrightarrow> fifo_feasible (length (contents s)) (room s) ops \<Longrightarrow>
     \<exists>out s'. fifo_session put get ops s = Some (out, s') \<and> invar s' \<and>
       out @ contents s' = contents s @ fifo_written ops"
proof (induction ops arbitrary: s rule: fifo_written.induct)
  case 1
  then show ?case by simp
next
  case (2 xs ops)
  then obtain s1 where s1: "put xs s = Some s1" "invar s1" "contents s1 = contents s @ xs"
    "room s1 + length xs = room s"
    using put_ok [of s xs] by auto
  then have "fifo_feasible (length (contents s1)) (room s1) ops"
    using 2(3) by (auto simp: s1(4) [symmetric])
  then show ?case using 2(1) [OF s1(2)] s1 by auto
next
  case (3 n ops)
  then obtain s1 where s1: "get n s = Some (take n (contents s), s1)" "invar s1"
    "contents s1 = drop n (contents s)" "room s1 = room s + n"
    using get_ok [of s n] by auto
  then have "fifo_feasible (length (contents s1)) (room s1) ops" using 3(3) by simp
  then obtain out s' where r: "fifo_session put get ops s1 = Some (out, s')" "invar s'"
    "out @ contents s' = contents s1 @ fifo_written ops"
    using 3(1) [OF s1(2)] by blast
  have "(take n (contents s) @ out) @ contents s' = contents s @ fifo_written ops"
    using r(3) s1(3) by (metis append.assoc append_take_drop_id)
  then show ?case using r s1 by simp
qed

end

end
