(* ===== verification/Fifo_Queue.thy ===== *)
theory Fifo_Queue
  imports Byte_Ring
begin

text \<open>
  The byte queue of \<^verbatim>\<open>libretro-common/queues/fifo_queue.c\<close> and its header: one buffer with one byte more
  than it holds, and the two positions.  Sizes are \<^verbatim>\<open>size_t\<close>; the callers of \<^verbatim>\<open>fifo_write\<close> and \<^verbatim>\<open>fifo_read\<close>
  must ask first, and a call that asks for too much is \<^term>\<open>None\<close> where it leaves the buffer.

  Proved here: it is a queue, of exactly the capacity asked for; and what a write that ignores
  \<^verbatim>\<open>fifo_write_avail\<close> does.
\<close>

record fifo_buffer =
  fb_buffer :: bytes
  fb_size :: nat
  fb_first :: nat
  fb_end :: nat

text \<open>\<^verbatim>\<open>fifo_new\<close>: the two allocations succeed or not.\<close>

definition fifo_new :: "bool \<Rightarrow> bool \<Rightarrow> nat \<Rightarrow> fifo_buffer option" where
  "fifo_new got_struct got_buffer len =
     (if \<not> got_struct then None
      else if \<not> got_buffer then None
      else Some \<lparr>fb_buffer = replicate (len + 1) 0, fb_size = len + 1, fb_first = 0, fb_end = 0\<rparr>)"

definition fifo_clear :: "fifo_buffer \<Rightarrow> fifo_buffer" where
  "fifo_clear buffer = buffer\<lparr>fb_first := 0, fb_end := 0\<rparr>"

definition fifo_write :: "bytes \<Rightarrow> fifo_buffer \<Rightarrow> fifo_buffer option" where
  "fifo_write in_buf buffer =
     (let len = length in_buf;
          first_write = (if fb_end buffer + len > fb_size buffer then fb_size buffer - fb_end buffer else len)
      in do {
        d \<leftarrow> mem_write (fb_buffer buffer) (fb_end buffer) (take first_write in_buf);
        d \<leftarrow> mem_write d 0 (drop first_write in_buf);
        Some (buffer\<lparr>fb_buffer := d, fb_end := (fb_end buffer + len) mod fb_size buffer\<rparr>)
      })"

definition fifo_read :: "nat \<Rightarrow> fifo_buffer \<Rightarrow> (bytes \<times> fifo_buffer) option" where
  "fifo_read len buffer =
     (let first_read = (if fb_first buffer + len > fb_size buffer then fb_size buffer - fb_first buffer else len);
          rest_read = len - first_read
      in do {
        a \<leftarrow> mem_read (fb_buffer buffer) (fb_first buffer) first_read;
        b \<leftarrow> mem_read (fb_buffer buffer) 0 rest_read;
        Some (a @ b, buffer\<lparr>fb_first := (fb_first buffer + len) mod fb_size buffer\<rparr>)
      })"

definition fifo_read_avail :: "fifo_buffer \<Rightarrow> nat" where
  "fifo_read_avail buffer =
     usub (fb_end buffer + (if fb_end buffer < fb_first buffer then fb_size buffer else 0)) (fb_first buffer)"

definition fifo_write_avail :: "fifo_buffer \<Rightarrow> nat" where
  "fifo_write_avail buffer =
     usub (usub (fb_size buffer) 1)
       (usub (fb_end buffer + (if fb_end buffer < fb_first buffer then fb_size buffer else 0)) (fb_first buffer))"

section \<open>A queue\<close>

definition fifo_ok :: "fifo_buffer \<Rightarrow> bool" where
  "fifo_ok b \<longleftrightarrow> length (fb_buffer b) = fb_size b \<and> fb_first b < fb_size b \<and> fb_end b < fb_size b"

definition fifo_contents :: "fifo_buffer \<Rightarrow> bytes" where
  "fifo_contents b = ring_take (fb_buffer b) (fb_first b) (fifo_read_avail b)"

lemma fifo_avail:
  assumes "fifo_ok b"
  shows "fifo_read_avail b = (if fb_first b \<le> fb_end b then fb_end b - fb_first b
      else fb_end b + fb_size b - fb_first b)"
    and "fifo_write_avail b + fifo_read_avail b + 1 = fb_size b"
  using assms by (auto simp: fifo_ok_def fifo_read_avail_def fifo_write_avail_def)

lemma fifo_write_ring:
  assumes "fifo_ok b"
  shows "fifo_write xs b = Option.bind (ring_write (fb_buffer b) (fb_end b) xs) (\<lambda>d.
     Some (b\<lparr>fb_buffer := d, fb_end := (fb_end b + length xs) mod fb_size b\<rparr>))"
proof -
  have "(if fb_end b + length xs > fb_size b then fb_size b - fb_end b else length xs) =
      min (length xs) (length (fb_buffer b) - fb_end b)"
    using assms by (auto simp: fifo_ok_def)
  then show ?thesis by (simp add: fifo_write_def ring_write_def Let_def)
qed

lemma fifo_put_ok:
  assumes ok: "fifo_ok b" and fits: "length xs \<le> fifo_write_avail b"
  shows "\<exists>b'. fifo_write xs b = Some b' \<and> fifo_ok b' \<and> fifo_contents b' = fifo_contents b @ xs \<and>
    fifo_write_avail b' + length xs = fifo_write_avail b"
proof -
  let ?d = "fb_buffer b" and ?p = "fb_first b" and ?e = "fb_end b" and ?sz = "fb_size b"
    and ?n = "fifo_read_avail b"
  have len: "length ?d = ?sz" "?p < ?sz" "?e < ?sz" using ok by (auto simp: fifo_ok_def)
  have room: "?n + length xs < ?sz" using fifo_avail(2) [OF ok] fits by linarith
  obtain d' where d': "ring_write ?d ?e xs = Some d'" "length d' = ?sz"
    using ring_write_Some [of ?e ?d xs] len room by auto
  let ?b = "b\<lparr>fb_buffer := d', fb_end := (?e + length xs) mod ?sz\<rparr>"
  have ok': "fifo_ok ?b" using len d'(2) by (simp add: fifo_ok_def)
  have e: "?e = ?p + ?n \<or> ?p + ?n = ?e + length ?d"
    using fifo_avail(1) [OF ok] len by auto
  have n': "fifo_read_avail ?b = ?n + length xs"
  proof (cases "?e + length xs < ?sz")
    case True
    then show ?thesis using fifo_avail(1) [OF ok'] fifo_avail(1) [OF ok] room len by auto
  next
    case False
    have "(?e + length xs) mod ?sz = ?e + length xs - ?sz"
      using False room len e by (simp add: mod_if)
    then show ?thesis using fifo_avail(1) [OF ok'] fifo_avail(1) [OF ok] room len False by auto
  qed
  have "ring_take d' ?p (?n + length xs) = ring_take ?d ?p ?n @ xs"
    by (rule ring_take_write [OF d'(1)]) (use len room e in auto)
  then have "fifo_contents ?b = fifo_contents b @ xs" by (simp only: fifo_contents_def n') simp
  moreover have "fifo_write_avail ?b + length xs = fifo_write_avail b"
    using fifo_avail(2) [OF ok'] fifo_avail(2) [OF ok] n' by simp
  ultimately show ?thesis using ok' d'(1) by (simp add: fifo_write_ring [OF ok])
qed

lemma fifo_get_ok:
  assumes ok: "fifo_ok b" and n: "n \<le> length (fifo_contents b)"
  shows "\<exists>b'. fifo_read n b = Some (take n (fifo_contents b), b') \<and> fifo_ok b' \<and>
    fifo_contents b' = drop n (fifo_contents b) \<and> fifo_write_avail b' = fifo_write_avail b + n"
proof -
  let ?d = "fb_buffer b" and ?p = "fb_first b" and ?sz = "fb_size b" and ?m = "fifo_read_avail b"
  have len: "length ?d = ?sz" "?p < ?sz" "fb_end b < ?sz" using ok by (auto simp: fifo_ok_def)
  have nm: "n \<le> ?m" "?m < ?sz" using n fifo_avail(2) [OF ok] by (auto simp: fifo_contents_def)
  let ?b = "b\<lparr>fb_first := (?p + n) mod ?sz\<rparr>"
  have ok': "fifo_ok ?b" using len by (simp add: fifo_ok_def)
  have read: "fifo_read n b = Some (ring_take ?d ?p n, ?b)"
  proof (cases "?p + n > ?sz")
    case True
    then have "ring_take ?d ?p n = drop ?p ?d @ take (n - (?sz - ?p)) ?d"
      using ring_take_split [of ?p ?d n] len nm by simp
    then show ?thesis using True len nm by (simp add: fifo_read_def mem_read_def Let_def)
  next
    case False
    then show ?thesis using len by (simp add: fifo_read_def mem_read_def ring_take_straight Let_def)
  qed
  have m': "fifo_read_avail ?b = ?m - n"
  proof (cases "?p + n < ?sz")
    case True
    then show ?thesis using fifo_avail(1) [OF ok'] fifo_avail(1) [OF ok] nm len by (auto split: if_splits)
  next
    case False
    have "(?p + n) mod ?sz = ?p + n - ?sz" using False nm len by (simp add: mod_if)
    then show ?thesis using fifo_avail(1) [OF ok'] fifo_avail(1) [OF ok] nm len False by (auto split: if_splits)
  qed
  have "fifo_contents ?b = drop n (fifo_contents b)"
    using ring_take_mod [of ?d "?p + n" "?m - n"] len
    by (simp add: fifo_contents_def m' ring_take_drop)
  moreover have "take n (fifo_contents b) = ring_take ?d ?p n"
    using nm by (simp add: fifo_contents_def ring_take_take)
  moreover have "fifo_write_avail ?b = fifo_write_avail b + n"
    using fifo_avail(2) [OF ok'] fifo_avail(2) [OF ok] m' nm by simp
  ultimately show ?thesis using read ok' by auto
qed

interpretation fifo_queue: byte_fifo fifo_ok fifo_contents fifo_write_avail fifo_write fifo_read
  by unfold_locales (use fifo_put_ok fifo_get_ok in blast)+

section \<open>Correctness\<close>

text \<open>C16. The buffer made for \<open>size\<close> bytes is a queue of exactly that capacity: in any session of writes
  and reads that stays within what \<^verbatim>\<open>fifo_write_avail\<close> and \<^verbatim>\<open>fifo_read_avail\<close> report, no access leaves the
  buffer, and the bytes read followed by the bytes still held are the bytes written, in order.\<close>

theorem fifo_session_in_order:
  assumes "fifo_feasible 0 cap ops"
  shows "\<exists>b out b'. fifo_new True True cap = Some b \<and> fifo_write_avail b = cap \<and>
    fifo_session fifo_write fifo_read ops b = Some (out, b') \<and> fifo_ok b' \<and>
    out @ fifo_contents b' = fifo_written ops"
proof -
  obtain b where b: "fifo_new True True cap = Some b" "fifo_ok b" "fifo_read_avail b = 0"
    by (simp add: fifo_new_def fifo_ok_def fifo_read_avail_def)
  have w: "fifo_write_avail b = cap"
    using fifo_avail(2) [OF b(2)] b(1,3) by (auto simp: fifo_new_def)
  have c: "fifo_contents b = []" using b(3) by (simp add: fifo_contents_def)
  show ?thesis
    using fifo_queue.session_fifo [OF b(2), of ops] assms b(1) w c by auto
qed

theorem fifo_session_in_order_witness:
  "\<exists>b out b'. fifo_new True True 3 = Some b \<and>
     fifo_session fifo_write fifo_read [Inl [1, 2], Inr 1, Inl [3, 4], Inr 3] b = Some (out, b') \<and>
     out @ fifo_contents b' = [1, 2, 3, 4]"
  using fifo_session_in_order [of 3 "[Inl [1, 2], Inr 1, Inl [3, 4], Inr 3]"] by auto

text \<open>The queue forgets everything when it is filled to the brim past its capacity: one byte more than
  \<^verbatim>\<open>fifo_write_avail\<close> allows is not an error, it makes the queue look empty.\<close>

theorem fifo_overfull_looks_empty:
  assumes "fifo_ok b" and "length xs = fifo_write_avail b + 1"
  shows "\<exists>b'. fifo_write xs b = Some b' \<and> fifo_read_avail b' = 0"
proof -
  let ?sz = "fb_size b" and ?e = "fb_end b"
  have len: "length (fb_buffer b) = ?sz" "fb_first b < ?sz" "?e < ?sz" using assms(1) by (auto simp: fifo_ok_def)
  obtain d' where d': "ring_write (fb_buffer b) ?e xs = Some d'" "length d' = ?sz"
    using ring_write_Some [of ?e "fb_buffer b" xs] len fifo_avail(2) [OF assms(1)] assms(2) by auto
  let ?b = "b\<lparr>fb_buffer := d', fb_end := (?e + length xs) mod ?sz\<rparr>"
  have "(?e + length xs) mod ?sz = fb_first b"
  proof (cases "fb_first b \<le> ?e")
    case True
    then have "?e + length xs = fb_first b + ?sz"
      using fifo_avail [OF assms(1)] assms(2) len by auto
    then show ?thesis using len by simp
  next
    case False
    then have "?e + length xs = fb_first b"
      using fifo_avail [OF assms(1)] assms(2) len by auto
    then show ?thesis using len by simp
  qed
  then have "fifo_read_avail ?b = 0" by (simp add: fifo_read_avail_def)
  then show ?thesis using d'(1) by (simp add: fifo_write_ring [OF assms(1)])
qed

theorem fifo_overfull_looks_empty_witness:
  "\<exists>b'. fifo_write [1, 2] \<lparr>fb_buffer = [0, 0], fb_size = 2, fb_first = 0, fb_end = 0\<rparr> = Some b' \<and>
     fifo_read_avail b' = 0"
  by (rule fifo_overfull_looks_empty)
    (simp_all add: fifo_ok_def fifo_write_avail_def usub_def)

end
