(* ===== verification/Net_Socket.thy ===== *)
theory Net_Socket
  imports RA_Prelude
begin

text \<open>
  The transfer loops of \<^verbatim>\<open>libretro-common/net/net_socket.c\<close>.  The operating system is a script of
  answers, one per call of \<^verbatim>\<open>send\<close> or \<^verbatim>\<open>recv\<close>: so many bytes are ready, try again, or an error; after
  the script every call fails.  A socket also carries what was sent so far and what is still to come.

  Proved here: whatever the answers, what the loops report is what was transferred, in order.
\<close>

datatype os_answer = Ready nat | Again | Failed

record net_socket =
  so_answers :: "os_answer list"
  so_sent :: bytes
  so_incoming :: bytes

text \<open>
  One call of the operating system: the return value (\<open>Ready\<close> is its size, 0 when the peer has
  closed or nothing was asked for), the bytes transferred, and the socket after it.
\<close>

definition os_next :: "net_socket \<Rightarrow> os_answer \<times> net_socket" where
  "os_next s =
     (case so_answers s of
        [] \<Rightarrow> (Failed, s)
      | a # as \<Rightarrow> (a, s\<lparr>so_answers := as\<rparr>))"

definition os_send :: "bytes \<Rightarrow> net_socket \<Rightarrow> os_answer \<times> net_socket" where
  "os_send data s =
     (case os_next s of
        (Ready n, s) \<Rightarrow>
          let k = min n (length data) in (Ready k, s\<lparr>so_sent := so_sent s @ take k data\<rparr>)
      | r \<Rightarrow> r)"

definition os_recv :: "nat \<Rightarrow> net_socket \<Rightarrow> os_answer \<times> bytes \<times> net_socket" where
  "os_recv len s =
     (case os_next s of
        (Ready n, s) \<Rightarrow>
          let got = take (min n len) (so_incoming s) in
          (Ready (length got), got, s\<lparr>so_incoming := drop (length got) (so_incoming s)\<rparr>)
      | (a, s) \<Rightarrow> (a, [], s))"

lemma os_next_shorter: "os_next s = (a, s') \<Longrightarrow> a \<noteq> Failed \<Longrightarrow> length (so_answers s') < length (so_answers s)"
  by (auto simp: os_next_def split: list.splits)

lemma os_send_shorter:
  "os_send data s = (a, s') \<Longrightarrow> a \<noteq> Failed \<Longrightarrow> length (so_answers s') < length (so_answers s)"
  by (auto simp: os_send_def Let_def split: prod.splits os_answer.splits dest: os_next_shorter)

lemma os_recv_shorter:
  "os_recv len s = (a, got, s') \<Longrightarrow> a \<noteq> Failed \<Longrightarrow> length (so_answers s') < length (so_answers s)"
  by (auto simp: os_recv_def Let_def split: prod.splits os_answer.splits dest: os_next_shorter)

section \<open>The loops\<close>

text \<open>\<^verbatim>\<open>socket_send_all_blocking\<close>: \<open>Again\<close> is retried, 0 and errors end the loop.\<close>

function socket_send_all_blocking :: "bytes \<Rightarrow> net_socket \<Rightarrow> bool \<times> net_socket" where
  "socket_send_all_blocking data s =
     (if data = [] then (True, s)
      else case os_send data s of
        (Again, s) \<Rightarrow> socket_send_all_blocking data s
      | (Failed, s) \<Rightarrow> (False, s)
      | (Ready n, s) \<Rightarrow> if n = 0 then (False, s) else socket_send_all_blocking (drop n data) s)"
  by auto
termination
  by (relation "measure (\<lambda>(data, s). length (so_answers s))") (auto dest: os_send_shorter [OF sym])

declare socket_send_all_blocking.simps [simp del]

text \<open>\<^verbatim>\<open>socket_send_all_nonblocking\<close>: the number of bytes sent, or -1.\<close>

function send_all_nonblocking_loop :: "int \<Rightarrow> bytes \<Rightarrow> net_socket \<Rightarrow> int \<times> net_socket" where
  "send_all_nonblocking_loop sent data s =
     (if data = [] then (sent, s)
      else case os_send data s of
        (Again, s) \<Rightarrow> (sent, s)
      | (Failed, s) \<Rightarrow> (- 1, s)
      | (Ready n, s) \<Rightarrow>
          if n = 0 then (sent, s) else send_all_nonblocking_loop (sent + int n) (drop n data) s)"
  by auto
termination
  by (relation "measure (\<lambda>(sent, data, s). length (so_answers s))") (auto dest: os_send_shorter [OF sym])

declare send_all_nonblocking_loop.simps [simp del]

definition socket_send_all_nonblocking :: "bytes \<Rightarrow> net_socket \<Rightarrow> int \<times> net_socket" where
  "socket_send_all_nonblocking data s = send_all_nonblocking_loop 0 data s"

text \<open>\<^verbatim>\<open>socket_receive_all_nonblocking\<close>: the return value, \<^verbatim>\<open>*error\<close>, the bytes received.\<close>

definition socket_receive_all_nonblocking :: "nat \<Rightarrow> net_socket \<Rightarrow> int \<times> bool \<times> bytes \<times> net_socket" where
  "socket_receive_all_nonblocking len s =
     (case os_recv len s of
        (Ready n, got, s) \<Rightarrow> if n > 0 then (int n, False, got, s) else (- 1, True, [], s)
      | (Again, got, s) \<Rightarrow> (0, False, [], s)
      | (Failed, got, s) \<Rightarrow> (- 1, True, [], s))"

text \<open>\<^verbatim>\<open>socket_receive_all_blocking\<close>: here every return value that is not positive is an error.\<close>

function socket_receive_all_blocking :: "nat \<Rightarrow> net_socket \<Rightarrow> bool \<times> bytes \<times> net_socket" where
  "socket_receive_all_blocking len s =
     (if len = 0 then (True, [], s)
      else case os_recv len s of
        (Ready n, got, s) \<Rightarrow>
          if n = 0 then (False, [], s)
          else (case socket_receive_all_blocking (len - n) s of (ok, rest, s) \<Rightarrow> (ok, got @ rest, s))
      | (a, got, s) \<Rightarrow> (False, [], s))"
  by auto
termination
  by (relation "measure (\<lambda>(len, s). length (so_answers s))") (auto dest: os_recv_shorter [OF sym])

declare socket_receive_all_blocking.simps [simp del]

section \<open>What the loops report\<close>

lemma os_send_sent:
  "os_send data s = (a, s') \<Longrightarrow>
     so_incoming s' = so_incoming s \<and>
     (case a of Ready n \<Rightarrow> n \<le> length data \<and> so_sent s' = so_sent s @ take n data
              | _ \<Rightarrow> so_sent s' = so_sent s)"
  by (auto simp: os_send_def os_next_def Let_def split: list.splits prod.splits os_answer.splits)

lemma take_drop_min: "take k xs @ drop (min (length xs) k) xs = xs"
  by (cases "k \<le> length xs") (simp_all add: min_def)

lemma os_recv_got:
  "os_recv len s = (a, got, s') \<Longrightarrow>
     so_incoming s = got @ so_incoming s' \<and> so_sent s' = so_sent s \<and>
     (case a of Ready n \<Rightarrow> n = length got \<and> n \<le> len | _ \<Rightarrow> got = [])"
  by (auto simp: os_recv_def os_next_def Let_def take_drop_min split: list.splits prod.splits os_answer.splits)

lemma send_all_blocking_sent:
  "socket_send_all_blocking data s = (ok, s') \<Longrightarrow>
     so_incoming s' = so_incoming s \<and>
     (\<exists>n \<le> length data. so_sent s' = so_sent s @ take n data \<and> (ok \<longrightarrow> n = length data))"
proof (induction data s arbitrary: ok s' rule: socket_send_all_blocking.induct)
  case (1 data s)
  show ?case
  proof (cases "data = []")
    case True
    then show ?thesis using 1(3) by (auto simp: socket_send_all_blocking.simps [of "[]" s])
  next
    case ne: False
    obtain a t where os: "os_send data s = (a, t)" by force
    note sent = os_send_sent [OF os]
    show ?thesis
    proof (cases a)
      case (Ready n)
      show ?thesis
      proof (cases "n = 0")
        case True
        then show ?thesis using 1(3) ne os sent Ready
          by (auto simp: socket_send_all_blocking.simps [of data s])
      next
        case False
        then have r: "socket_send_all_blocking (drop n data) t = (ok, s')"
          using 1(3) ne os Ready by (simp add: socket_send_all_blocking.simps [of data s])
        from 1(1) [OF ne os [symmetric] Ready False r] obtain m where
          m: "m \<le> length (drop n data)" "so_sent s' = so_sent t @ take m (drop n data)"
          "ok \<longrightarrow> m = length (drop n data)" and i: "so_incoming s' = so_incoming t" by blast
        have "so_sent s' = so_sent s @ take (n + m) data" using m(2) sent Ready by (simp add: take_add)
        moreover have "n + m \<le> length data" using m(1) sent Ready by auto
        ultimately show ?thesis using m(3) i sent Ready by auto
      qed
    next
      case Again
      then have "socket_send_all_blocking data t = (ok, s')"
        using 1(3) ne os by (simp add: socket_send_all_blocking.simps [of data s])
      from 1(2) [OF ne os [symmetric] Again this] show ?thesis using sent Again by auto
    next
      case Failed
      then show ?thesis using 1(3) ne os sent by (auto simp: socket_send_all_blocking.simps [of data s])
    qed
  qed
qed

lemma send_all_nonblocking_loop_sent:
  "send_all_nonblocking_loop c data s = (r, s') \<Longrightarrow> 0 \<le> c \<Longrightarrow>
     so_incoming s' = so_incoming s \<and>
     (r = - 1 \<or> (\<exists>n \<le> length data. r = c + int n \<and> so_sent s' = so_sent s @ take n data))"
proof (induction c data s arbitrary: r s' rule: send_all_nonblocking_loop.induct)
  case (1 c data s)
  show ?case
  proof (cases "data = []")
    case True
    then show ?thesis using 1(2) by (auto simp: send_all_nonblocking_loop.simps [of c "[]" s])
  next
    case ne: False
    obtain a t where os: "os_send data s = (a, t)" by force
    note sent = os_send_sent [OF os]
    show ?thesis
    proof (cases "\<exists>n. a = Ready n \<and> n \<noteq> 0")
      case True
      then obtain n where n: "a = Ready n" "n \<noteq> 0" by blast
      then have r: "send_all_nonblocking_loop (c + int n) (drop n data) t = (r, s')"
        using 1(2) ne os by (simp add: send_all_nonblocking_loop.simps [of c data s])
      have IH: "so_incoming s' = so_incoming t \<and> (r = - 1 \<or>
          (\<exists>m \<le> length (drop n data). r = c + int n + int m \<and> so_sent s' = so_sent t @ take m (drop n data)))"
        using 1(1) [OF ne os [symmetric] n r] 1(3) by simp
      show ?thesis
      proof (cases "r = - 1")
        case False
        then obtain m where m: "m \<le> length (drop n data)" "r = c + int n + int m"
          "so_sent s' = so_sent t @ take m (drop n data)" using IH by blast
        have "so_sent s' = so_sent s @ take (n + m) data" using m(3) sent n by (simp add: take_add)
        moreover have "n + m \<le> length data" "r = c + int (n + m)" using m(1,2) sent n by auto
        ultimately show ?thesis using IH sent by metis
      qed (use IH sent in auto)
    next
      case False
      then show ?thesis using 1(2) ne os sent
        by (cases a) (auto simp: send_all_nonblocking_loop.simps [of c data s])
    qed
  qed
qed

lemma send_all_nonblocking_sent:
  "socket_send_all_nonblocking data s = (r, s') \<Longrightarrow>
     so_incoming s' = so_incoming s \<and>
     (r = - 1 \<or> (\<exists>n \<le> length data. r = int n \<and> so_sent s' = so_sent s @ take n data))"
  using send_all_nonblocking_loop_sent [of 0 data s r s'] by (simp add: socket_send_all_nonblocking_def)

lemma receive_all_nonblocking_got:
  "socket_receive_all_nonblocking len s = (r, err, got, s') \<Longrightarrow> \<not> err \<Longrightarrow>
     r = int (length got) \<and> length got \<le> len \<and> so_incoming s = got @ so_incoming s' \<and> so_sent s' = so_sent s"
  using os_recv_got [of len s]
  by (auto simp: socket_receive_all_nonblocking_def split: prod.splits os_answer.splits if_splits)

lemma receive_all_blocking_got:
  "socket_receive_all_blocking len s = (ok, got, s') \<Longrightarrow>
     so_incoming s = got @ so_incoming s' \<and> so_sent s' = so_sent s \<and> length got \<le> len \<and>
     (ok \<longrightarrow> length got = len)"
proof (induction len s arbitrary: ok got s' rule: socket_receive_all_blocking.induct)
  case (1 len s)
  obtain a g t where os: "os_recv len s = (a, g, t)" by (metis prod_cases3)
  note got = os_recv_got [OF os]
  show ?case
  proof (cases "len = 0 \<or> a = Again \<or> a = Failed \<or> a = Ready 0")
    case True
    then show ?thesis using "1.prems" got os
      by (auto simp: socket_receive_all_blocking.simps [of len s] split: if_splits)
  next
    case False
    then obtain n where n: "a = Ready n" "n \<noteq> 0" "len \<noteq> 0" by (cases a) auto
    obtain ok1 rest u where r: "socket_receive_all_blocking (len - n) t = (ok1, rest, u)"
      by (metis prod_cases3)
    have res: "ok = ok1" "got = g @ rest" "s' = u"
      using "1.prems" os n r by (auto simp: socket_receive_all_blocking.simps [of len s])
    from "1.IH" [OF n(3) os [symmetric] n(1) refl n(2) r] got n res show ?thesis by auto
  qed
qed

end
