(* ===== verification/Netplay_Buf.thy ===== *)
theory Netplay_Buf
  imports Byte_Ring Net_Socket
begin

text \<open>
  The socket buffers of netplay (\<^verbatim>\<open>network/netplay/netplay_buf.c\<close>): a ring with a third position, \<^verbatim>\<open>read\<close>,
  up to which received data has been handed out but can still be handed out again.

  Proved here: what is sent goes out once and in order, whatever the socket does, and what is received
  is handed out once and in order; no operation leaves the buffer.  A receive into a full buffer asks
  the system for no bytes, takes the answer 0 for a closed connection, and fails.
\<close>

record socket_buffer =
  sb_data :: bytes
  sb_bufsz :: nat
  sb_start :: nat
  sb_end :: nat
  sb_read :: nat

text \<open>\<^verbatim>\<open>while (newend < limit) newend += bufsz\<close>\<close>

partial_function (option) buf_wrap :: "nat \<Rightarrow> nat \<Rightarrow> nat \<Rightarrow> nat option" where
  "buf_wrap bufsz limit newend =
     (if newend < limit then buf_wrap bufsz limit (newend + bufsz) else Some newend)"

definition buf_used :: "socket_buffer \<Rightarrow> nat option" where
  "buf_used sbuf =
     (if sb_end sbuf < sb_start sbuf
      then do { newend \<leftarrow> buf_wrap (sb_bufsz sbuf) (sb_start sbuf) (sb_end sbuf);
                Some (newend - sb_start sbuf) }
      else Some (sb_end sbuf - sb_start sbuf))"

definition buf_unread :: "socket_buffer \<Rightarrow> nat option" where
  "buf_unread sbuf =
     (if sb_end sbuf < sb_read sbuf
      then do { newend \<leftarrow> buf_wrap (sb_bufsz sbuf) (sb_read sbuf) (sb_end sbuf);
                Some (newend - sb_read sbuf) }
      else Some (sb_end sbuf - sb_read sbuf))"

definition buf_remaining :: "socket_buffer \<Rightarrow> nat option" where
  "buf_remaining sbuf = do {
     used \<leftarrow> buf_used sbuf;
     Some (usub (usub (sb_bufsz sbuf) used) 1)
   }"

definition netplay_init_socket_buffer :: "bytes option \<Rightarrow> nat \<Rightarrow> socket_buffer option" where
  "netplay_init_socket_buffer allocated sz =
     (case allocated of
        None \<Rightarrow> None
      | Some d \<Rightarrow> Some \<lparr>sb_data = d, sb_bufsz = sz, sb_start = 0, sb_end = 0, sb_read = 0\<rparr>)"

definition netplay_resize_socket_buffer ::
  "bytes option \<Rightarrow> nat \<Rightarrow> socket_buffer \<Rightarrow> (bool \<times> socket_buffer) option" where
  "netplay_resize_socket_buffer allocated newsize sbuf =
     (case allocated of
        None \<Rightarrow> Some (False, sbuf)
      | Some newdata \<Rightarrow> do {
          newdata \<leftarrow>
            (if sb_end sbuf < sb_start sbuf then do {
               a \<leftarrow> mem_read (sb_data sbuf) (sb_start sbuf) (usub (sb_bufsz sbuf) (sb_start sbuf));
               newdata \<leftarrow> mem_write newdata 0 a;
               b \<leftarrow> mem_read (sb_data sbuf) 0 (sb_end sbuf);
               mem_write newdata (usub (sb_bufsz sbuf) (sb_start sbuf)) b
             }
             else if sb_end sbuf > sb_start sbuf then do {
               a \<leftarrow> mem_read (sb_data sbuf) (sb_start sbuf) (sb_end sbuf - sb_start sbuf);
               mem_write newdata 0 a
             }
             else Some newdata);
          let sbuf = sbuf\<lparr>sb_read :=
            (if sb_read sbuf < sb_start sbuf
             then sb_read sbuf + usub (sb_bufsz sbuf) (sb_start sbuf)
             else sb_read sbuf - sb_start sbuf)\<rparr>;
          used \<leftarrow> buf_used sbuf;
          Some (True, sbuf\<lparr>sb_end := used, sb_start := 0, sb_data := newdata, sb_bufsz := newsize\<rparr>)
        })"

definition netplay_clear_socket_buffer :: "socket_buffer \<Rightarrow> socket_buffer" where
  "netplay_clear_socket_buffer sbuf = sbuf\<lparr>sb_start := 0, sb_read := 0, sb_end := 0\<rparr>"

section \<open>Sending\<close>

partial_function (option) netplay_send_flush ::
  "bool \<Rightarrow> socket_buffer \<Rightarrow> net_socket \<Rightarrow> (bool \<times> socket_buffer \<times> net_socket) option" where
  "netplay_send_flush block sbuf s =
     Option.bind (buf_used sbuf) (\<lambda>used.
       if used = 0 then Some (True, sbuf, s)
       else if sb_end sbuf > sb_start sbuf
       then Option.bind (mem_read (sb_data sbuf) (sb_start sbuf) used) (\<lambda>data.
         if block
         then case socket_send_all_blocking data s of (ok, s) \<Rightarrow>
           if \<not> ok then Some (False, sbuf, s)
           else Some (True, sbuf\<lparr>sb_start := 0, sb_end := 0\<rparr>, s)
         else case socket_send_all_nonblocking data s of (sent, s) \<Rightarrow>
           if sent < 0 then Some (False, sbuf, s)
           else if sb_start sbuf + nat sent = sb_end sbuf
           then Some (True, sbuf\<lparr>sb_start := 0, sb_end := 0\<rparr>, s)
           else Some (True, sbuf\<lparr>sb_start := sb_start sbuf + nat sent\<rparr>, s))
       else Option.bind (mem_read (sb_data sbuf) (sb_start sbuf) (usub (sb_bufsz sbuf) (sb_start sbuf))) (\<lambda>data.
         if block
         then case socket_send_all_blocking data s of (ok, s) \<Rightarrow>
           if \<not> ok then Some (False, sbuf, s)
           else netplay_send_flush True (sbuf\<lparr>sb_start := 0\<rparr>) s
         else case socket_send_all_nonblocking data s of (sent, s) \<Rightarrow>
           if sent < 0 then Some (False, sbuf, s)
           else if sb_start sbuf + nat sent \<ge> sb_bufsz sbuf
           then netplay_send_flush False (sbuf\<lparr>sb_start := 0\<rparr>) s
           else Some (True, sbuf\<lparr>sb_start := sb_start sbuf + nat sent\<rparr>, s)))"

text \<open>The copy into the buffer at the end of \<^verbatim>\<open>netplay_send\<close>, in one or two pieces.\<close>

definition send_store :: "bytes \<Rightarrow> socket_buffer \<Rightarrow> socket_buffer option" where
  "send_store buf sbuf =
     (let len = length buf in
      if usub (sb_bufsz sbuf) (sb_end sbuf) < len
      then do {
        let chunka = usub (sb_bufsz sbuf) (sb_end sbuf);
        let chunkb = len - chunka;
        d \<leftarrow> mem_write (sb_data sbuf) (sb_end sbuf) (take chunka buf);
        d \<leftarrow> mem_write d 0 (drop chunka buf);
        Some (sbuf\<lparr>sb_data := d, sb_end := chunkb\<rparr>)
      }
      else do {
        d \<leftarrow> mem_write (sb_data sbuf) (sb_end sbuf) buf;
        Some (sbuf\<lparr>sb_data := d, sb_end := sb_end sbuf + len\<rparr>)
      })"

text \<open>What follows the forced flush: data too large for the buffer is sent directly.\<close>

definition send_or_queue ::
  "bytes \<Rightarrow> socket_buffer \<Rightarrow> net_socket \<Rightarrow> (bool \<times> socket_buffer \<times> net_socket) option" where
  "send_or_queue buf sbuf s = do {
     remaining \<leftarrow> buf_remaining sbuf;
     if remaining < length buf
     then (case socket_send_all_blocking buf s of (ok, s) \<Rightarrow> Some (ok, sbuf, s))
     else do { sbuf \<leftarrow> send_store buf sbuf; Some (True, sbuf, s) }
   }"

definition netplay_send ::
  "bytes \<Rightarrow> socket_buffer \<Rightarrow> net_socket \<Rightarrow> (bool \<times> socket_buffer \<times> net_socket) option" where
  "netplay_send buf sbuf s = do {
     remaining \<leftarrow> buf_remaining sbuf;
     if remaining < length buf
     then do {
       (ok, sbuf, s) \<leftarrow> netplay_send_flush True sbuf s;
       if \<not> ok then Some (False, sbuf, s) else send_or_queue buf sbuf s
     }
     else send_or_queue buf sbuf s
   }"

section \<open>Receiving\<close>

text \<open>One receive into the buffer at \<^verbatim>\<open>end\<close>; \<open>False\<close> is the return of -1.\<close>

definition recv_into :: "nat \<Rightarrow> socket_buffer \<Rightarrow> net_socket \<Rightarrow> (bool \<times> socket_buffer \<times> net_socket) option" where
  "recv_into len sbuf s =
     (case socket_receive_all_nonblocking len s of (recvd, err, got, s) \<Rightarrow>
        if recvd < 0 \<or> err then Some (False, sbuf, s)
        else do {
          d \<leftarrow> mem_write (sb_data sbuf) (sb_end sbuf) got;
          Some (True, sbuf\<lparr>sb_data := d, sb_end := sb_end sbuf + nat recvd\<rparr>, s)
        })"

definition recv_fill :: "socket_buffer \<Rightarrow> net_socket \<Rightarrow> (bool \<times> socket_buffer \<times> net_socket) option" where
  "recv_fill sbuf s =
     (if sb_end sbuf \<ge> sb_start sbuf
      then do {
        (ok, sbuf, s) \<leftarrow> recv_into
          (usub (usub (sb_bufsz sbuf) (sb_end sbuf)) (if sb_start sbuf = 0 then 1 else 0)) sbuf s;
        if \<not> ok then Some (False, sbuf, s)
        else if sb_end sbuf \<ge> sb_bufsz sbuf
        then recv_into (usub (sb_start sbuf) 1) (sbuf\<lparr>sb_end := 0\<rparr>) s
        else Some (True, sbuf, s)
      }
      else recv_into (usub (usub (sb_start sbuf) (sb_end sbuf)) 1) sbuf s)"

definition recv_copy :: "nat \<Rightarrow> socket_buffer \<Rightarrow> (bytes \<times> socket_buffer) option" where
  "recv_copy len sbuf =
     (if sb_end sbuf \<ge> sb_read sbuf \<or> usub (sb_bufsz sbuf) (sb_read sbuf) \<ge> len
      then do {
        unread \<leftarrow> buf_unread sbuf;
        let n = (if len \<le> unread then len else unread);
        buf \<leftarrow> mem_read (sb_data sbuf) (sb_read sbuf) n;
        let read = sb_read sbuf + n;
        Some (buf, sbuf\<lparr>sb_read := (if read \<ge> sb_bufsz sbuf then 0 else read)\<rparr>)
      }
      else do {
        let chunka = usub (sb_bufsz sbuf) (sb_read sbuf);
        let pchunklen = len - chunka;
        let chunkb = (if pchunklen \<ge> sb_end sbuf then sb_end sbuf else pchunklen);
        a \<leftarrow> mem_read (sb_data sbuf) (sb_read sbuf) chunka;
        b \<leftarrow> mem_read (sb_data sbuf) 0 chunkb;
        Some (a @ b, sbuf\<lparr>sb_read := chunkb\<rparr>)
      })"

text \<open>\<^verbatim>\<open>netplay_recv\<close>: the return value, and the bytes in the caller's buffer.\<close>

definition netplay_recv ::
  "nat \<Rightarrow> bool \<Rightarrow> socket_buffer \<Rightarrow> net_socket \<Rightarrow> (int \<times> bytes \<times> socket_buffer \<times> net_socket) option" where
  "netplay_recv len block sbuf s = do {
     (ok, sbuf, s) \<leftarrow> recv_fill sbuf s;
     if \<not> ok then Some (- 1, [], sbuf, s)
     else do {
       (buf, sbuf) \<leftarrow> recv_copy len sbuf;
       if block
       then do {
         let sbuf = sbuf\<lparr>sb_start := sb_read sbuf\<rparr>;
         if length buf < len
         then (case socket_receive_all_blocking (len - length buf) s of (ok, got, s) \<Rightarrow>
           if \<not> ok then Some (- 1, buf @ got, sbuf, s)
           else Some (int len, buf @ got, sbuf, s))
         else Some (int (length buf), buf, sbuf, s)
       }
       else Some (int (length buf), buf, sbuf, s)
     }
   }"

definition netplay_recv_reset :: "socket_buffer \<Rightarrow> socket_buffer" where
  "netplay_recv_reset sbuf = sbuf\<lparr>sb_read := sb_start sbuf\<rparr>"

definition netplay_recv_flush :: "socket_buffer \<Rightarrow> socket_buffer" where
  "netplay_recv_flush sbuf = sbuf\<lparr>sb_start := sb_read sbuf\<rparr>"

section \<open>The send buffer as a queue\<close>

definition circ :: "nat \<Rightarrow> nat \<Rightarrow> nat \<Rightarrow> nat" where
  "circ sz a b = (if b < a then b + sz - a else b - a)"

definition sb_queue :: "socket_buffer \<Rightarrow> bytes" where
  "sb_queue b = ring_take (sb_data b) (sb_start b) (circ (sb_bufsz b) (sb_start b) (sb_end b))"

definition sb_inv :: "socket_buffer \<Rightarrow> bool" where
  "sb_inv b \<longleftrightarrow> length (sb_data b) = sb_bufsz b \<and> sb_start b < sb_bufsz b \<and> sb_end b \<le> sb_bufsz b \<and>
     (sb_start b = 0 \<longrightarrow> sb_end b < sb_bufsz b)"

lemma buf_wrap_once: "e < a \<Longrightarrow> a \<le> e + sz \<Longrightarrow> buf_wrap sz a e = Some (e + sz)"
  by (simp add: buf_wrap.simps [of sz a e] buf_wrap.simps [of sz a "e + sz"])

lemma buf_used_circ: "sb_start b \<le> sb_bufsz b \<Longrightarrow> buf_used b = Some (circ (sb_bufsz b) (sb_start b) (sb_end b))"
  by (auto simp: buf_used_def circ_def buf_wrap_once)

lemma buf_unread_circ: "sb_read b \<le> sb_bufsz b \<Longrightarrow> buf_unread b = Some (circ (sb_bufsz b) (sb_read b) (sb_end b))"
  by (auto simp: buf_unread_def circ_def buf_wrap_once)

lemma sb_inv_used: "sb_inv b \<Longrightarrow> circ (sb_bufsz b) (sb_start b) (sb_end b) < sb_bufsz b"
  by (auto simp: sb_inv_def circ_def)

lemma buf_remaining_circ:
  "sb_inv b \<Longrightarrow> buf_remaining b = Some (sb_bufsz b - circ (sb_bufsz b) (sb_start b) (sb_end b) - 1)"
  using sb_inv_used [of b] by (simp add: buf_remaining_def buf_used_circ sb_inv_def)

lemma sb_queue_empty: "sb_start b = sb_end b \<Longrightarrow> sb_queue b = []"
  by (simp add: sb_queue_def circ_def)

lemma sb_queue_straight:
  assumes "sb_inv b" and "sb_start b \<le> sb_end b"
  shows "sb_queue b = take (sb_end b - sb_start b) (drop (sb_start b) (sb_data b))"
  using assms by (simp add: sb_queue_def circ_def sb_inv_def ring_take_straight)

lemma sb_queue_wrapped:
  assumes "sb_inv b" and "sb_end b < sb_start b"
  shows "sb_queue b = drop (sb_start b) (sb_data b) @ take (sb_end b) (sb_data b)"
proof -
  have n: "circ (sb_bufsz b) (sb_start b) (sb_end b) = sb_end b + sb_bufsz b - sb_start b"
    using assms(2) by (simp add: circ_def)
  have "sb_end b + sb_bufsz b - sb_start b - (sb_bufsz b - sb_start b) = sb_end b"
    using assms by (simp add: sb_inv_def)
  then show ?thesis
    using ring_take_split [of "sb_start b" "sb_data b" "sb_end b + sb_bufsz b - sb_start b"] assms
    by (simp add: sb_queue_def n sb_inv_def)
qed

text \<open>Dropping what was sent from the front of the queue.\<close>

lemma sb_queue_advance:
  assumes "sb_inv b" and "k \<le> circ (sb_bufsz b) (sb_start b) (sb_end b)" and "sb_start b + k < sb_bufsz b"
  shows "sb_queue (b\<lparr>sb_start := sb_start b + k\<rparr>) = drop k (sb_queue b)"
proof -
  have "circ (sb_bufsz b) (sb_start b + k) (sb_end b) = circ (sb_bufsz b) (sb_start b) (sb_end b) - k"
    using assms by (auto simp: circ_def sb_inv_def split: if_splits)
  then show ?thesis by (simp add: sb_queue_def ring_take_drop)
qed

text \<open>The result of a flush or a send: totality, and what is on the wire followed by what is queued.\<close>

definition send_result ::
  "bytes \<Rightarrow> (bool \<times> socket_buffer \<times> net_socket) option \<Rightarrow> bool" where
  "send_result stream r \<longleftrightarrow>
     (\<exists>ok b s. r = Some (ok, b, s) \<and> (ok \<longrightarrow> sb_inv b \<and> so_sent s @ sb_queue b = stream))"

lemma send_result_Some [simp]:
  "send_result stream (Some (ok, b, s)) \<longleftrightarrow> (ok \<longrightarrow> sb_inv b \<and> so_sent s @ sb_queue b = stream)"
  by (simp add: send_result_def)

lemma send_resultE:
  assumes "send_result stream r"
  obtains ok b s where "r = Some (ok, b, s)" and "ok \<longrightarrow> sb_inv b \<and> so_sent s @ sb_queue b = stream"
  using assms by (auto simp: send_result_def)

lemma flush_straight:
  assumes inv: "sb_inv b" and lt: "sb_start b < sb_end b"
  shows "send_result (so_sent s @ sb_queue b) (netplay_send_flush block b s) \<and>
    (block \<longrightarrow> (\<forall>b' s'. netplay_send_flush block b s = Some (True, b', s') \<longrightarrow> sb_queue b' = []))"
proof -
  let ?n = "sb_end b - sb_start b" and ?q = "sb_queue b"
  have u: "buf_used b = Some ?n" using inv lt by (simp add: buf_used_circ sb_inv_def circ_def)
  have q: "?q = take ?n (drop (sb_start b) (sb_data b))" using sb_queue_straight [OF inv] lt by simp
  have m: "mem_read (sb_data b) (sb_start b) ?n = Some ?q"
    using inv lt by (simp add: mem_read_def q sb_inv_def)
  have lq: "length ?q = ?n" using length_mem_read [OF m] .
  have e: "sb_inv (b\<lparr>sb_start := 0, sb_end := 0\<rparr>)" "sb_queue (b\<lparr>sb_start := 0, sb_end := 0\<rparr>) = []"
    using inv by (auto simp: sb_inv_def sb_queue_empty)
  show ?thesis
  proof (cases block)
    case True
    obtain ok t where r: "socket_send_all_blocking ?q s = (ok, t)" by force
    have f: "netplay_send_flush block b s =
        (if \<not> ok then Some (False, b, t) else Some (True, b\<lparr>sb_start := 0, sb_end := 0\<rparr>, t))"
      using lt by (subst netplay_send_flush.simps) (simp add: u m r True)
    show ?thesis
    proof (cases ok)
      case True
      then have "so_sent t = so_sent s @ ?q" using send_all_blocking_sent [OF r] by auto
      then show ?thesis unfolding f using True e by simp
    next
      case False
      then show ?thesis unfolding f by simp
    qed
  next
    case False
    obtain k t where r: "socket_send_all_nonblocking ?q s = (k, t)" by force
    have f: "netplay_send_flush block b s =
        (if k < 0 then Some (False, b, t)
         else if sb_start b + nat k = sb_end b then Some (True, b\<lparr>sb_start := 0, sb_end := 0\<rparr>, t)
         else Some (True, b\<lparr>sb_start := sb_start b + nat k\<rparr>, t))"
      using lt by (subst netplay_send_flush.simps) (simp add: u m r False)
    show ?thesis
    proof (cases "k < 0")
      case True
      then show ?thesis using False unfolding f by simp
    next
      case pos: False
      then obtain j where j: "k = int j" "j \<le> ?n" "so_sent t = so_sent s @ take j ?q"
        using send_all_nonblocking_sent [OF r] lq by auto
      show ?thesis
      proof (cases "sb_start b + j = sb_end b")
        case True
        then have "take j ?q = ?q" using lq by simp
        then show ?thesis using True False j e unfolding f by simp
      next
        case part: False
        then have st: "sb_start b + j < sb_end b" using j(2) lt by linarith
        have "sb_queue (b\<lparr>sb_start := sb_start b + j\<rparr>) = drop j ?q"
          by (rule sb_queue_advance [OF inv]) (use st lt inv in \<open>auto simp: circ_def sb_inv_def\<close>)
        moreover have "sb_inv (b\<lparr>sb_start := sb_start b + j\<rparr>)" using inv st by (auto simp: sb_inv_def)
        ultimately show ?thesis using part False j unfolding f by simp
      qed
    qed
  qed
qed

lemma flush_empty:
  assumes "sb_inv b" and "sb_start b = sb_end b"
  shows "netplay_send_flush block b s = Some (True, b, s)"
  using assms by (subst netplay_send_flush.simps) (simp add: buf_used_circ sb_inv_def circ_def)

lemma flush_ok:
  assumes inv: "sb_inv b"
  shows "send_result (so_sent s @ sb_queue b) (netplay_send_flush block b s) \<and>
    (block \<longrightarrow> (\<forall>b' s'. netplay_send_flush block b s = Some (True, b', s') \<longrightarrow> sb_queue b' = []))"
proof -
  consider "sb_start b < sb_end b" | "sb_start b = sb_end b" | "sb_end b < sb_start b" by linarith
  then show ?thesis
  proof cases
    case 1
    then show ?thesis by (rule flush_straight [OF inv])
  next
    case 2
    then show ?thesis using inv by (simp add: flush_empty sb_queue_empty)
  next
    case 3
    let ?b0 = "b\<lparr>sb_start := 0\<rparr>" and ?d = "drop (sb_start b) (sb_data b)"
    have start: "sb_start b < sb_bufsz b" and len: "length (sb_data b) = sb_bufsz b"
      using inv by (auto simp: sb_inv_def)
    have u: "buf_used b = Some (sb_end b + sb_bufsz b - sb_start b)"
      using inv 3 by (simp add: buf_used_circ sb_inv_def circ_def)
    have nz: "sb_end b + sb_bufsz b - sb_start b \<noteq> 0" using start by simp
    have m: "mem_read (sb_data b) (sb_start b) (usub (sb_bufsz b) (sb_start b)) = Some ?d"
      using start len by (simp add: mem_read_def)
    have inv0: "sb_inv ?b0" using inv 3 by (auto simp: sb_inv_def)
    have q: "sb_queue b = ?d @ sb_queue ?b0"
      using sb_queue_wrapped [OF inv 3] sb_queue_straight [OF inv0] by simp
    have rest: "send_result (so_sent t @ sb_queue ?b0) (netplay_send_flush bl ?b0 t) \<and>
        (bl \<longrightarrow> (\<forall>b' s'. netplay_send_flush bl ?b0 t = Some (True, b', s') \<longrightarrow> sb_queue b' = []))" for bl t
    proof (cases "sb_end b = 0")
      case True
      then show ?thesis using inv0 by (simp add: flush_empty sb_queue_empty)
    next
      case False
      then show ?thesis using flush_straight [OF inv0] by simp
    qed
    show ?thesis
    proof (cases block)
      case True
      obtain ok t where r: "socket_send_all_blocking ?d s = (ok, t)" by force
      have f: "netplay_send_flush block b s =
          (if \<not> ok then Some (False, b, t) else netplay_send_flush True ?b0 t)"
        using 3 nz by (subst netplay_send_flush.simps) (simp add: u m r True del: usub_le)
      show ?thesis
      proof (cases ok)
        case True
        then show ?thesis using send_all_blocking_sent [OF r] rest [where bl = True and t = t] q unfolding f by auto
      next
        case False
        then show ?thesis unfolding f by simp
      qed
    next
      case False
      obtain k t where r: "socket_send_all_nonblocking ?d s = (k, t)" by force
      have f: "netplay_send_flush block b s =
          (if k < 0 then Some (False, b, t)
           else if sb_start b + nat k \<ge> sb_bufsz b then netplay_send_flush False ?b0 t
           else Some (True, b\<lparr>sb_start := sb_start b + nat k\<rparr>, t))"
        using 3 nz by (subst netplay_send_flush.simps) (simp add: u m r False del: usub_le)
      show ?thesis
      proof (cases "k < 0")
        case True
        then show ?thesis using False unfolding f by simp
      next
        case pos: False
        then obtain j where j: "k = int j" "j \<le> length ?d" "so_sent t = so_sent s @ take j ?d"
          using send_all_nonblocking_sent [OF r] by auto
        show ?thesis
        proof (cases "sb_start b + j \<ge> sb_bufsz b")
          case True
          then have "take j ?d = ?d" using len by simp
          then show ?thesis using True False j rest [where bl = False and t = t] q unfolding f by auto
        next
          case part: False
          have "sb_queue (b\<lparr>sb_start := sb_start b + j\<rparr>) = drop j (sb_queue b)"
            by (rule sb_queue_advance [OF inv]) (use part 3 in \<open>auto simp: circ_def\<close>)
          moreover have "so_sent t @ drop j (sb_queue b) = so_sent s @ sb_queue b"
          proof -
            have "take j (sb_queue b) = take j ?d" using q j(2) by simp
            then have "so_sent t @ drop j (sb_queue b) = so_sent s @ (take j (sb_queue b) @ drop j (sb_queue b))"
              using j(3) by simp
            then show ?thesis by (simp only: append_take_drop_id)
          qed
          moreover have "sb_inv (b\<lparr>sb_start := sb_start b + j\<rparr>)" using inv part 3 by (auto simp: sb_inv_def)
          moreover have "\<not> k < 0" "nat k = j" using j(1) by simp_all
          ultimately show ?thesis using part False unfolding f by simp
        qed
      qed
    qed
  qed
qed

lemma send_store_ok:
  assumes inv: "sb_inv b" and fits: "length buf + circ (sb_bufsz b) (sb_start b) (sb_end b) < sb_bufsz b"
  shows "\<exists>b'. send_store buf b = Some b' \<and> sb_inv b' \<and> sb_queue b' = sb_queue b @ buf"
proof -
  let ?sz = "sb_bufsz b" and ?e = "sb_end b" and ?p = "sb_start b" and ?n = "circ (sb_bufsz b) (sb_start b) (sb_end b)"
  have len: "length (sb_data b) = ?sz" "?p < ?sz" "?e \<le> ?sz" using inv by (auto simp: sb_inv_def)
  obtain d' where d': "ring_write (sb_data b) ?e buf = Some d'" "length d' = ?sz"
    using ring_write_Some [of ?e "sb_data b" buf] len fits by auto
  define e' where "e' = (if ?sz - ?e < length buf then length buf - (?sz - ?e) else ?e + length buf)"
  have st: "send_store buf b = Some (b\<lparr>sb_data := d', sb_end := e'\<rparr>)"
  proof (cases "?sz - ?e < length buf")
    case True
    then show ?thesis using d' len
      by (auto simp: send_store_def ring_write_def Let_def e'_def min_def split: bind_splits)
  next
    case False
    obtain d1 where d1: "mem_write (sb_data b) ?e buf = Some d1" "length d1 = ?sz"
      using mem_write_Some [of ?e buf "sb_data b"] length_mem_write False len by fastforce
    moreover have "sb_end b + length buf \<le> length (sb_data b)" using False len by linarith
    ultimately have "d1 = d'" using d' len False by (simp add: ring_write_def Let_def min_def mem_write_def)
    then show ?thesis using False len d1 by (simp add: send_store_def Let_def e'_def)
  qed
  have c: "circ ?sz ?p e' = ?n + length buf \<and> (?p = 0 \<longrightarrow> e' < ?sz) \<and> e' \<le> ?sz"
    using fits len inv by (auto simp: circ_def e'_def sb_inv_def split: if_splits)
  have "ring_take d' ?p (?n + length buf) = ring_take (sb_data b) ?p ?n @ buf"
    by (rule ring_take_write [OF d'(1)]) (use len fits in \<open>auto simp: circ_def split: if_splits\<close>)
  then have "sb_queue (b\<lparr>sb_data := d', sb_end := e'\<rparr>) = sb_queue b @ buf"
    using c by (simp add: sb_queue_def)
  moreover have "sb_inv (b\<lparr>sb_data := d', sb_end := e'\<rparr>)" using c d'(2) len by (simp add: sb_inv_def)
  ultimately show ?thesis using st by blast
qed

lemma send_or_queue_ok:
  assumes c: "sb_inv c"
    and e: "sb_bufsz c - circ (sb_bufsz c) (sb_start c) (sb_end c) - 1 < length buf \<longrightarrow> sb_queue c = []"
  shows "send_result (so_sent t @ sb_queue c @ buf) (send_or_queue buf c t)"
proof (cases "sb_bufsz c - circ (sb_bufsz c) (sb_start c) (sb_end c) - 1 < length buf")
  case True
  obtain ok u where r: "socket_send_all_blocking buf t = (ok, u)" by force
  have "ok \<longrightarrow> so_sent u = so_sent t @ buf" using send_all_blocking_sent [OF r] by auto
  then show ?thesis using True e c
    by (simp add: send_or_queue_def buf_remaining_circ [OF c] r)
next
  case False
  then have fits: "length buf + circ (sb_bufsz c) (sb_start c) (sb_end c) < sb_bufsz c"
    using sb_inv_used [OF c] by linarith
  obtain c' where "send_store buf c = Some c'" "sb_inv c'" "sb_queue c' = sb_queue c @ buf"
    using send_store_ok [OF c fits] by blast
  then show ?thesis using False
    by (simp add: send_or_queue_def buf_remaining_circ [OF c])
qed

lemma send_ok:
  assumes inv: "sb_inv b"
  shows "send_result (so_sent s @ sb_queue b @ buf) (netplay_send buf b s)"
proof (cases "sb_bufsz b - circ (sb_bufsz b) (sb_start b) (sb_end b) - 1 < length buf")
  case False
  then show ?thesis using send_or_queue_ok [OF inv, of buf s]
    by (simp add: netplay_send_def buf_remaining_circ [OF inv])
next
  case True
  have flush: "netplay_send buf b s =
      Option.bind (netplay_send_flush True b s) (\<lambda>(ok, b, s).
        if \<not> ok then Some (False, b, s) else send_or_queue buf b s)"
    using True by (simp add: netplay_send_def buf_remaining_circ [OF inv])
  obtain ok c t where f: "netplay_send_flush True b s = Some (ok, c, t)"
    "ok \<longrightarrow> sb_inv c \<and> so_sent t @ sb_queue c = so_sent s @ sb_queue b"
    using flush_ok [OF inv, of s True] by (blast elim: send_resultE)
  have empty: "ok \<longrightarrow> sb_queue c = []" using flush_ok [OF inv, of s True] f(1) by auto
  show ?thesis
  proof (cases ok)
    case True
    then have c: "sb_inv c" "sb_queue c = []" "so_sent t = so_sent s @ sb_queue b" using f(2) empty by auto
    have "send_result (so_sent t @ sb_queue c @ buf) (send_or_queue buf c t)"
      by (rule send_or_queue_ok [OF c(1)]) (simp add: c(2))
    then have "send_result (so_sent s @ sb_queue b @ buf) (send_or_queue buf c t)"
      by (simp only: c append.assoc append_Nil)
    then show ?thesis unfolding flush f(1) by (simp only: True simp_thms if_False bind.bind_lunit split_conv)
  next
    case False
    then show ?thesis unfolding flush f(1) by simp
  qed
qed

section \<open>The receive buffer as a queue\<close>

text \<open>Received and not flushed, and the part of it not handed out yet.\<close>

definition rb_kept :: "socket_buffer \<Rightarrow> bytes" where
  "rb_kept b = ring_take (sb_data b) (sb_start b) (circ (sb_bufsz b) (sb_start b) (sb_end b))"

definition rb_unread :: "socket_buffer \<Rightarrow> bytes" where
  "rb_unread b = ring_take (sb_data b) (sb_read b) (circ (sb_bufsz b) (sb_read b) (sb_end b))"

definition rb_inv :: "socket_buffer \<Rightarrow> bool" where
  "rb_inv b \<longleftrightarrow> length (sb_data b) = sb_bufsz b \<and> sb_start b < sb_bufsz b \<and> sb_read b < sb_bufsz b \<and>
     sb_end b < sb_bufsz b \<and>
     circ (sb_bufsz b) (sb_start b) (sb_read b) \<le> circ (sb_bufsz b) (sb_start b) (sb_end b)"

text \<open>What a fill keeps.\<close>

definition same_marks :: "socket_buffer \<Rightarrow> socket_buffer \<Rightarrow> bool" where
  "same_marks b c \<longleftrightarrow> sb_bufsz c = sb_bufsz b \<and> sb_start c = sb_start b \<and> sb_read c = sb_read b"

lemma rb_unread_kept:
  assumes "rb_inv b"
  shows "rb_unread b = drop (circ (sb_bufsz b) (sb_start b) (sb_read b)) (rb_kept b)"
proof -
  let ?sz = "sb_bufsz b" and ?p = "sb_start b" and ?r = "sb_read b" and ?e = "sb_end b"
  have "circ ?sz ?r ?e = circ ?sz ?p ?e - circ ?sz ?p ?r"
    using assms by (auto simp: rb_inv_def circ_def split: if_splits)
  moreover have "(?p + circ ?sz ?p ?r) mod ?sz = ?r"
    using assms by (auto simp: rb_inv_def circ_def)
  ultimately show ?thesis
    using ring_take_mod [of "sb_data b" "?p + circ ?sz ?p ?r"] assms
    by (simp add: rb_unread_def rb_kept_def ring_take_drop rb_inv_def)
qed

lemma recv_into_ok:
  assumes len: "length (sb_data b) = sb_bufsz b" "sb_start b < sb_bufsz b"
    and room: "sb_end b + m \<le> sb_bufsz b" "circ (sb_bufsz b) (sb_start b) (sb_end b) + m < sb_bufsz b"
  shows "\<exists>ok c s'. recv_into m b s = Some (ok, c, s') \<and> so_sent s' = so_sent s \<and> same_marks b c \<and>
    (ok \<longrightarrow> (\<exists>got. length got \<le> m \<and> sb_end c = sb_end b + length got \<and> length (sb_data c) = sb_bufsz b \<and>
      so_incoming s = got @ so_incoming s' \<and>
      ring_take (sb_data c) (sb_start b) (circ (sb_bufsz b) (sb_start b) (sb_end b) + length got) = rb_kept b @ got))"
proof -
  obtain r err got t where rc: "socket_receive_all_nonblocking m s = (r, err, got, t)" by (metis prod_cases4)
  have sent: "so_sent t = so_sent s"
    using rc os_recv_got [of m s]
    by (auto simp: socket_receive_all_nonblocking_def split: prod.splits os_answer.splits if_splits)
  show ?thesis
  proof (cases "r < 0 \<or> err")
    case True
    then show ?thesis using rc sent by (auto simp: recv_into_def same_marks_def)
  next
    case False
    then have g: "r = int (length got)" "length got \<le> m" "so_incoming s = got @ so_incoming t"
      using receive_all_nonblocking_got [OF rc] by auto
    have "sb_end b + length got \<le> length (sb_data b)" using g(2) room(1) len by simp
    then obtain d where d: "mem_write (sb_data b) (sb_end b) got = Some d" using mem_write_Some by blast
    have ld: "length d = sb_bufsz b" using length_mem_write [OF d] len by simp
    have "length got \<le> sb_bufsz b - sb_end b" using g(2) room(1) by linarith
    then have "ring_write (sb_data b) (sb_end b) got = Some d"
      using d g(2) room(1) len ld by (simp add: ring_write_def Let_def min_def mem_write_def)
    then have "ring_take d (sb_start b) (circ (sb_bufsz b) (sb_start b) (sb_end b) + length got) = rb_kept b @ got"
      unfolding rb_kept_def
      by (rule ring_take_write) (use len room g(2) in \<open>auto simp: circ_def split: if_splits\<close>)
    moreover have "recv_into m b s = Some (True, b\<lparr>sb_data := d, sb_end := sb_end b + length got\<rparr>, t)"
      using False g(1) by (simp add: recv_into_def rc d)
    ultimately show ?thesis using g sent ld by (auto simp: same_marks_def)
  qed
qed

lemma recv_fill_ok:
  assumes inv: "rb_inv b"
  shows "\<exists>ok c s'. recv_fill b s = Some (ok, c, s') \<and>
    (ok \<longrightarrow> rb_inv c \<and> same_marks b c \<and> so_sent s' = so_sent s \<and>
      rb_kept c @ so_incoming s' = rb_kept b @ so_incoming s)"
proof -
  let ?sz = "sb_bufsz b" and ?p = "sb_start b" and ?r = "sb_read b" and ?e = "sb_end b"
  have len: "length (sb_data b) = ?sz" "?p < ?sz" "?r < ?sz" "?e < ?sz"
    and rd: "circ ?sz ?p ?r \<le> circ ?sz ?p ?e" using inv by (auto simp: rb_inv_def)
  show ?thesis
  proof (cases "?p \<le> ?e")
    case False
    then have u: "usub (usub ?p ?e) 1 = ?p - ?e - 1" by simp
    have pre: "?e + (?p - ?e - 1) \<le> ?sz" "circ ?sz ?p ?e + (?p - ?e - 1) < ?sz"
      using False len by (auto simp: circ_def)
    obtain ok c t where f: "recv_into (?p - ?e - 1) b s = Some (ok, c, t)" "so_sent t = so_sent s" "same_marks b c"
      "ok \<longrightarrow> (\<exists>got. length got \<le> ?p - ?e - 1 \<and> sb_end c = ?e + length got \<and> length (sb_data c) = ?sz \<and>
        so_incoming s = got @ so_incoming t \<and>
        ring_take (sb_data c) ?p (circ ?sz ?p ?e + length got) = rb_kept b @ got)"
      using recv_into_ok [OF len(1,2) pre, of s] by blast
    have "rb_inv c \<and> rb_kept c @ so_incoming t = rb_kept b @ so_incoming s" if ok: ok
    proof -
      obtain got where g: "length got \<le> ?p - ?e - 1" "sb_end c = ?e + length got" "length (sb_data c) = ?sz"
        "so_incoming s = got @ so_incoming t" "ring_take (sb_data c) ?p (circ ?sz ?p ?e + length got) = rb_kept b @ got"
        using f(4) ok by blast
      have c: "circ ?sz ?p (sb_end c) = circ ?sz ?p ?e + length got" "sb_end c < ?sz"
        using g(1,2) False len by (auto simp: circ_def)
      show ?thesis using c g f(3) len rd by (auto simp: rb_inv_def rb_kept_def same_marks_def)
    qed
    then show ?thesis using False f u by (auto simp: recv_fill_def)
  next
    case True
    define m where "m = ?sz - ?e - (if ?p = 0 then 1 else 0)"
    have u: "usub (usub ?sz ?e) (if ?p = 0 then 1 else 0) = m" using len by (simp add: m_def)
    obtain ok c t where f: "recv_into m b s = Some (ok, c, t)" "so_sent t = so_sent s" "same_marks b c"
      "ok \<longrightarrow> (\<exists>got. length got \<le> m \<and> sb_end c = ?e + length got \<and> length (sb_data c) = ?sz \<and>
        so_incoming s = got @ so_incoming t \<and>
        ring_take (sb_data c) ?p (circ ?sz ?p ?e + length got) = rb_kept b @ got)"
      using recv_into_ok [of b m s] len True by (auto simp: circ_def m_def)
    show ?thesis
    proof (cases ok)
      case no: False
      then show ?thesis using True f(1) u by (auto simp: recv_fill_def)
    next
      case ok: True
      obtain got where g: "length got \<le> m" "sb_end c = ?e + length got" "length (sb_data c) = ?sz"
        "so_incoming s = got @ so_incoming t" "ring_take (sb_data c) ?p (circ ?sz ?p ?e + length got) = rb_kept b @ got"
        using f(4) ok by blast
      show ?thesis
      proof (cases "?sz \<le> sb_end c")
        case small: False
        have c: "circ ?sz ?p (sb_end c) = circ ?sz ?p ?e + length got" using g(2) True by (auto simp: circ_def)
        have "rb_inv c" "rb_kept c @ so_incoming t = rb_kept b @ so_incoming s"
          using c small g f(3) len rd by (auto simp: rb_inv_def rb_kept_def same_marks_def)
        then show ?thesis using True f(1,2,3) u ok small by (auto simp: recv_fill_def same_marks_def)
      next
        case full: True
        have p1: "?p - 1 \<le> ?sz" using len by linarith
        have p0: "0 < ?p" using full g(1,2) len by (auto simp: m_def split: if_splits)
        have e: "sb_end c = ?sz" using full g(1,2) len by (auto simp: m_def split: if_splits)
        let ?c = "c\<lparr>sb_end := 0\<rparr>"
        have n: "circ ?sz ?p 0 = circ ?sz ?p ?e + length got" using e g(2) p0 True by (simp add: circ_def)
        have marks: "sb_bufsz c = ?sz" "sb_start c = ?p" "sb_read c = ?r" using f(3) by (auto simp: same_marks_def)
        obtain ok2 c2 t2 where f2: "recv_into (?p - 1) ?c t = Some (ok2, c2, t2)" "so_sent t2 = so_sent t"
          "same_marks ?c c2"
          "ok2 \<longrightarrow> (\<exists>got2. length got2 \<le> ?p - 1 \<and> sb_end c2 = length got2 \<and> length (sb_data c2) = ?sz \<and>
            so_incoming t = got2 @ so_incoming t2 \<and>
            ring_take (sb_data c2) ?p (circ ?sz ?p 0 + length got2) = rb_kept ?c @ got2)"
          using recv_into_ok [of ?c "?p - 1" t] len p0 p1 g(3) marks by (auto simp: circ_def)
        have kc: "rb_kept ?c = rb_kept b @ got" using g(5) n marks by (simp add: rb_kept_def)
        have "rb_inv c2 \<and> rb_kept c2 @ so_incoming t2 = rb_kept b @ so_incoming s" if ok2: ok2
        proof -
          obtain got2 where g2: "length got2 \<le> ?p - 1" "sb_end c2 = length got2" "length (sb_data c2) = ?sz"
            "so_incoming t = got2 @ so_incoming t2"
            "ring_take (sb_data c2) ?p (circ ?sz ?p 0 + length got2) = rb_kept ?c @ got2"
            using f2(4) ok2 by blast
          have c: "circ ?sz ?p (sb_end c2) = circ ?sz ?p 0 + length got2" "sb_end c2 < ?sz"
            using g2(1,2) p0 len by (auto simp: circ_def)
          show ?thesis
            using c g2 f2(3) marks len rd n kc g(4) by (auto simp: rb_inv_def rb_kept_def same_marks_def)
        qed
        moreover have "same_marks b c2" using f2(3) f(3) by (simp add: same_marks_def)
        ultimately show ?thesis using True f(1,2) u ok full f2(1,2) marks p0 by (auto simp: recv_fill_def)
      qed
    qed
  qed
qed

lemma recv_copy_ok:
  assumes inv: "rb_inv b"
  shows "\<exists>c. recv_copy len b = Some (take len (rb_unread b), c) \<and> rb_inv c \<and>
    rb_unread c = drop len (rb_unread b) \<and> rb_kept c = rb_kept b \<and> sb_start c = sb_start b \<and> sb_bufsz c = sb_bufsz b"
proof -
  let ?sz = "sb_bufsz b" and ?p = "sb_start b" and ?r = "sb_read b" and ?e = "sb_end b" and ?d = "sb_data b"
  have l: "length ?d = ?sz" "?p < ?sz" "?r < ?sz" "?e < ?sz"
    and rd: "circ ?sz ?p ?r \<le> circ ?sz ?p ?e" using inv by (auto simp: rb_inv_def)
  define n where "n = circ ?sz ?r ?e"
  define k where "k = min len n"
  define r' where "r' = (?r + k) mod ?sz"
  have n: "n < ?sz" using l by (auto simp: n_def circ_def)
  have copy: "recv_copy len b = Some (ring_take ?d ?r k, b\<lparr>sb_read := r'\<rparr>)"
  proof (cases "?r \<le> ?e \<or> len \<le> ?sz - ?r")
    case True
    have fit: "?r + k \<le> ?sz" using True l by (auto simp: k_def n_def circ_def)
    have r': "r' = (if ?sz \<le> ?r + k then 0 else ?r + k)" using fit l by (auto simp: r'_def)
    have "(if len \<le> n then len else n) = k" by (simp add: k_def)
    then show ?thesis
      using True l fit r' unfolding recv_copy_def
      by (simp add: buf_unread_circ n_def [symmetric] Let_def mem_read_def ring_take_straight)
  next
    case False
    then have kk: "k = ?sz - ?r + min ?e (len - (?sz - ?r))" using l by (auto simp: k_def n_def circ_def)
    have "ring_take ?d ?r k = drop ?r ?d @ take (k - (?sz - ?r)) ?d"
      using ring_take_split [of ?r ?d k] l kk n by (simp add: k_def)
    moreover have "r' = min ?e (len - (?sz - ?r))" using kk l by (simp add: r'_def)
    moreover have "(if len - (?sz - ?r) \<ge> ?e then ?e else len - (?sz - ?r)) = min ?e (len - (?sz - ?r))" by simp
    moreover have "min ?e x \<le> ?sz" for x using l by simp
    ultimately show ?thesis
      using False l kk unfolding recv_copy_def by (simp add: Let_def mem_read_def)
  qed
  let ?c = "b\<lparr>sb_read := r'\<rparr>"
  have rc: "r' < ?sz \<and> circ ?sz ?p r' = circ ?sz ?p ?r + k \<and> circ ?sz r' ?e = n - k"
  proof (cases "?r + k < ?sz")
    case True
    then have "r' = ?r + k" by (simp add: r'_def)
    moreover have "k \<le> n" by (simp add: k_def)
    ultimately show ?thesis using True l rd by (auto simp: n_def circ_def split: if_splits)
  next
    case False
    have "k \<le> n" by (simp add: k_def)
    then have "r' = ?r + k - ?sz" using False l n by (simp add: r'_def mod_if)
    then show ?thesis using False l rd \<open>k \<le> n\<close> by (auto simp: n_def circ_def split: if_splits)
  qed
  have "circ ?sz ?p ?r + n = circ ?sz ?p ?e" using l rd by (auto simp: n_def circ_def split: if_splits)
  then have inv': "rb_inv ?c" using rc l by (auto simp: rb_inv_def k_def)
  have "rb_unread ?c = drop k (rb_unread b)"
    using rc ring_take_mod [of ?d "?r + k"] l
    by (simp add: rb_unread_def n_def [symmetric] ring_take_drop r'_def)
  moreover have "drop k (rb_unread b) = drop len (rb_unread b)"
    by (simp add: k_def rb_unread_def n_def [symmetric] min_def)
  moreover have "ring_take ?d ?r k = take len (rb_unread b)"
    by (simp add: k_def rb_unread_def n_def [symmetric] min_def ring_take_take)
  ultimately show ?thesis using copy inv' by (simp add: rb_kept_def)
qed


lemma recv_ok:
  assumes inv: "rb_inv b"
  shows "\<exists>r buf c s'. netplay_recv len block b s = Some (r, buf, c, s') \<and>
    (0 \<le> r \<longrightarrow> r = int (length buf) \<and> length buf \<le> len \<and> (block \<longrightarrow> length buf = len) \<and> rb_inv c \<and>
      rb_unread b @ so_incoming s = buf @ rb_unread c @ so_incoming s' \<and>
      (\<not> block \<longrightarrow> rb_kept c @ so_incoming s' = rb_kept b @ so_incoming s))"
proof -
  let ?k = "circ (sb_bufsz b) (sb_start b) (sb_read b)"
  obtain ok b1 s1 where f: "recv_fill b s = Some (ok, b1, s1)"
    "ok \<longrightarrow> rb_inv b1 \<and> same_marks b b1 \<and> so_sent s1 = so_sent s \<and>
      rb_kept b1 @ so_incoming s1 = rb_kept b @ so_incoming s"
    using recv_fill_ok [OF inv] by blast
  show ?thesis
  proof (cases ok)
    case False
    then show ?thesis using f(1) by (simp add: netplay_recv_def)
  next
    case True
    have inv1: "rb_inv b1" and kept: "rb_kept b1 @ so_incoming s1 = rb_kept b @ so_incoming s"
      and marks: "same_marks b b1" using f(2) True by auto
    have k: "?k \<le> length (rb_kept b)" "?k \<le> length (rb_kept b1)"
      using inv inv1 marks by (auto simp: rb_inv_def rb_kept_def same_marks_def)
    have unread: "rb_unread b @ so_incoming s = rb_unread b1 @ so_incoming s1"
    proof -
      have "rb_unread b @ so_incoming s = drop ?k (rb_kept b @ so_incoming s)"
        using k by (simp add: rb_unread_kept [OF inv])
      also have "\<dots> = drop ?k (rb_kept b1 @ so_incoming s1)" by (simp only: kept)
      also have "\<dots> = rb_unread b1 @ so_incoming s1"
        using k marks by (simp add: rb_unread_kept [OF inv1] same_marks_def)
      finally show ?thesis .
    qed
    obtain b2 where c: "recv_copy len b1 = Some (take len (rb_unread b1), b2)" "rb_inv b2"
      "rb_unread b2 = drop len (rb_unread b1)" "rb_kept b2 = rb_kept b1"
      using recv_copy_ok [OF inv1] by blast
    have step: "netplay_recv len block b s =
      (if block
       then do {
         let b2 = b2\<lparr>sb_start := sb_read b2\<rparr>;
         if length (take len (rb_unread b1)) < len
         then (case socket_receive_all_blocking (len - length (take len (rb_unread b1))) s1 of (ok, got, s) \<Rightarrow>
           if \<not> ok then Some (- 1, take len (rb_unread b1) @ got, b2, s)
           else Some (int len, take len (rb_unread b1) @ got, b2, s))
         else Some (int (length (take len (rb_unread b1))), take len (rb_unread b1), b2, s1)
       }
       else Some (int (length (take len (rb_unread b1))), take len (rb_unread b1), b2, s1))"
      using f(1) c(1) True by (simp add: netplay_recv_def)
    have all: "rb_unread b @ so_incoming s = take len (rb_unread b1) @ rb_unread b2 @ so_incoming s1"
      unfolding unread c(3) by (metis append.assoc append_take_drop_id)
    show ?thesis
    proof (cases block)
      case False
      then show ?thesis using step all c(2,4) kept by simp
    next
      case bl: True
      let ?b3 = "b2\<lparr>sb_start := sb_read b2\<rparr>"
      have b3: "rb_inv ?b3" "rb_unread ?b3 = rb_unread b2"
        using c(2) by (auto simp: rb_inv_def rb_unread_def circ_def)
      show ?thesis
      proof (cases "length (rb_unread b1) < len")
        case False
        then show ?thesis using step all b3 bl by (simp add: Let_def)
      next
        case short: True
        obtain ok2 got s2 where g: "socket_receive_all_blocking (len - length (rb_unread b1)) s1 = (ok2, got, s2)"
          by (metis prod_cases3)
        note got = receive_all_blocking_got [OF g]
        have "rb_unread b2 = []" using c(3) short by simp
        then show ?thesis using step all b3 bl short g got by (cases ok2) (auto simp: Let_def)
      qed
    qed
  qed
qed

section \<open>Sequences\<close>

text \<open>A run of sends (\<^term>\<open>Inl\<close> the data) and flushes (\<^term>\<open>Inr\<close> whether blocking) up to the first failure.\<close>

fun send_run ::
  "(bytes + bool) list \<Rightarrow> socket_buffer \<Rightarrow> net_socket \<Rightarrow> (bool \<times> socket_buffer \<times> net_socket) option" where
  "send_run [] b s = Some (True, b, s)"
| "send_run (op # ops) b s = do {
     (ok, b, s) \<leftarrow> (case op of Inl buf \<Rightarrow> netplay_send buf b s | Inr block \<Rightarrow> netplay_send_flush block b s);
     if ok then send_run ops b s else Some (False, b, s)
   }"

fun send_data :: "(bytes + bool) list \<Rightarrow> bytes" where
  "send_data [] = []"
| "send_data (Inl buf # ops) = buf @ send_data ops"
| "send_data (Inr block # ops) = send_data ops"

lemma send_run_ok:
  "sb_inv b \<Longrightarrow> send_result (so_sent s @ sb_queue b @ send_data ops) (send_run ops b s)"
proof (induction ops arbitrary: b s)
  case Nil
  then show ?case by simp
next
  case (Cons op ops)
  define new where "new = (case op of Inl buf \<Rightarrow> buf | Inr block \<Rightarrow> [])"
  have "send_result (so_sent s @ sb_queue b @ new)
      (case op of Inl buf \<Rightarrow> netplay_send buf b s | Inr block \<Rightarrow> netplay_send_flush block b s)"
    using send_ok [OF Cons.prems] flush_ok [OF Cons.prems] by (cases op) (auto simp: new_def)
  then obtain ok b1 s1 where r: "(case op of Inl buf \<Rightarrow> netplay_send buf b s
      | Inr block \<Rightarrow> netplay_send_flush block b s) = Some (ok, b1, s1)"
    "ok \<longrightarrow> sb_inv b1 \<and> so_sent s1 @ sb_queue b1 = so_sent s @ sb_queue b @ new"
    by (rule send_resultE)
  have data: "send_data (op # ops) = new @ send_data ops" by (cases op) (simp_all add: new_def)
  show ?case
  proof (cases ok)
    case True
    then have i: "sb_inv b1" and "so_sent s1 @ sb_queue b1 = so_sent s @ sb_queue b @ new" using r(2) by auto
    then have "so_sent s1 @ sb_queue b1 @ send_data ops = so_sent s @ sb_queue b @ send_data (op # ops)"
      by (metis append.assoc data)
    then show ?thesis using Cons.IH [OF i, of s1] r(1) True by simp
  next
    case False
    then show ?thesis using r(1) by simp
  qed
qed

section \<open>Correctness\<close>

text \<open>C17. Sent data goes out once and in order: a run of sends and flushes, blocking or not, on a socket that
  takes any part of the data at any call, never leaves the buffer, and as long as it succeeds the bytes
  on the wire followed by the bytes still queued are exactly the bytes handed to \<^verbatim>\<open>netplay_send\<close>.\<close>

theorem netplay_send_in_order:
  assumes "sb_inv b" and "sb_queue b = []"
  shows "\<exists>ok b' s'. send_run ops b s = Some (ok, b', s') \<and>
    (ok \<longrightarrow> sb_inv b' \<and> so_sent s' @ sb_queue b' = so_sent s @ send_data ops)"
  using send_run_ok [OF assms(1), of s ops] assms(2) by (auto elim!: send_resultE)

text \<open>C18. Received data is handed out once and in order: a receive never leaves the buffer, and when it does not
  fail, what was unread and to come is what it returns followed by what is then unread and to come.  A
  blocking receive returns all it was asked for; a receive that does not block discards nothing, so that
  \<^verbatim>\<open>netplay_recv_reset\<close> makes all of it readable again.\<close>

theorem netplay_recv_in_order:
  assumes "rb_inv b"
  shows "\<exists>r buf c s'. netplay_recv len block b s = Some (r, buf, c, s') \<and>
    (0 \<le> r \<longrightarrow> r = int (length buf) \<and> length buf \<le> len \<and> (block \<longrightarrow> length buf = len) \<and> rb_inv c \<and>
      rb_unread b @ so_incoming s = buf @ rb_unread c @ so_incoming s' \<and>
      (\<not> block \<longrightarrow> rb_unread (netplay_recv_reset c) @ so_incoming s' =
        rb_unread (netplay_recv_reset b) @ so_incoming s))"
proof -
  have "rb_unread (netplay_recv_reset x) = rb_kept x" for x
    by (simp add: rb_unread_def rb_kept_def netplay_recv_reset_def)
  then show ?thesis using recv_ok [OF assms, of len block s] by simp
qed

text \<open>A full receive buffer breaks the connection: with \<^verbatim>\<open>bufsz - 1\<close> bytes kept the receive asks the system
  for no bytes at all, and its answer, 0 bytes, is taken for a closed connection; -1 is returned even though
  there is data to hand out.\<close>

theorem netplay_recv_full_buffer_fails:
  assumes "rb_inv b" and "length (rb_kept b) = sb_bufsz b - 1" and "so_answers s = Ready k # as"
  shows "\<exists>c s'. netplay_recv len block b s = Some (- 1, [], c, s')"
proof -
  have zero: "socket_receive_all_nonblocking 0 s = (- 1, True, [], s\<lparr>so_answers := as\<rparr>)"
    using assms(3) by (simp add: socket_receive_all_nonblocking_def os_recv_def os_next_def Let_def)
  have n: "circ (sb_bufsz b) (sb_start b) (sb_end b) = sb_bufsz b - 1" using assms(2) by (simp add: rb_kept_def)
  have l: "sb_start b < sb_bufsz b" "sb_end b < sb_bufsz b" using assms(1) by (auto simp: rb_inv_def)
  have "recv_fill b s = Some (False, b, s\<lparr>so_answers := as\<rparr>)"
  proof (cases "sb_start b \<le> sb_end b")
    case True
    then have "sb_start b = 0" "sb_end b = sb_bufsz b - 1" using n l by (auto simp: circ_def)
    then show ?thesis using zero l by (simp add: recv_fill_def recv_into_def)
  next
    case False
    then have "sb_start b - sb_end b - 1 = 0" using n l by (auto simp: circ_def)
    then show ?thesis using zero False by (simp add: recv_fill_def recv_into_def)
  qed
  then show ?thesis by (simp add: netplay_recv_def)
qed

text \<open>C19. Resizing to a buffer with room for what is kept keeps all of it, and what of it was handed out.\<close>

theorem netplay_resize_keeps:
  assumes "rb_inv b" and "length d = newsize" and "length (rb_kept b) < newsize"
  shows "\<exists>c. netplay_resize_socket_buffer (Some d) newsize b = Some (True, c) \<and> rb_inv c \<and>
    rb_kept c = rb_kept b \<and> rb_unread c = rb_unread b"
proof -
  let ?sz = "sb_bufsz b" and ?p = "sb_start b" and ?r = "sb_read b" and ?e = "sb_end b" and ?d = "sb_data b"
  let ?n = "circ ?sz ?p ?e"
  have l: "length ?d = ?sz" "?p < ?sz" "?r < ?sz" "?e < ?sz" and rd: "circ ?sz ?p ?r \<le> ?n"
    using assms(1) by (auto simp: rb_inv_def)
  have n: "?n < newsize" "length (rb_kept b) = ?n" using assms(3) by (simp_all add: rb_kept_def)
  have nw: "mem_write d 0 (rb_kept b) = Some (rb_kept b @ drop ?n d)"
    using n assms(2) by (simp add: mem_write_def)
  let ?r' = "if ?r < ?p then ?r + usub ?sz ?p else ?r - ?p"
  have r': "?r' = circ ?sz ?p ?r" using l by (auto simp: circ_def)
  have used: "buf_used (b\<lparr>sb_read := x\<rparr>) = Some ?n" for x using l by (simp add: buf_used_circ)
  let ?c = "b\<lparr>sb_read := circ ?sz ?p ?r, sb_end := ?n, sb_start := 0, sb_data := rb_kept b @ drop ?n d, sb_bufsz := newsize\<rparr>"
  have copied: "(if ?e < ?p then do {
      a \<leftarrow> mem_read ?d ?p (usub ?sz ?p);
      newdata \<leftarrow> mem_write d 0 a;
      b' \<leftarrow> mem_read ?d 0 ?e;
      mem_write newdata (usub ?sz ?p) b'
    } else if ?e > ?p then do { a \<leftarrow> mem_read ?d ?p (?e - ?p); mem_write d 0 a } else Some d) =
      Some (rb_kept b @ drop ?n d)"
  proof -
    consider "?e < ?p" | "?p < ?e" | "?p = ?e" by linarith
    then show ?thesis
    proof cases
      case 1
      then have nn: "?n = ?e + ?sz - ?p" by (simp add: circ_def)
      have "rb_kept b = drop ?p ?d @ take ?e ?d"
        using ring_take_split [of ?p ?d ?n] l 1 by (simp add: rb_kept_def nn)
      moreover have "?e + ?sz - ?p \<le> length d" using n assms(2) nn by simp
      moreover from this have "?sz + ?e - ?p \<le> length d" "?sz - ?p \<le> length d" by linarith+
      ultimately show ?thesis using 1 l by (simp add: nn mem_read_def mem_write_def)
    next
      case 2
      then have "rb_kept b = take ?n (drop ?p ?d)"
        using l by (simp add: rb_kept_def circ_def ring_take_straight)
      then show ?thesis using 2 l nw by (simp add: circ_def mem_read_def)
    next
      case 3
      then show ?thesis by (simp add: rb_kept_def circ_def)
    qed
  qed
  have step: "netplay_resize_socket_buffer (Some d) newsize b = Some (True, ?c)"
    unfolding netplay_resize_socket_buffer_def option.case copied
    by (simp only: bind.bind_lunit Let_def used r')
  have kept: "rb_kept ?c = rb_kept b"
    using n by (simp add: rb_kept_def [of ?c] circ_def [of _ 0] ring_take_straight)
  have inv: "rb_inv ?c"
    using n assms(2) rd by (simp add: rb_inv_def circ_def [of _ 0])
  have "rb_unread ?c = drop (circ ?sz ?p ?r) (rb_kept ?c)"
    using rb_unread_kept [OF inv] by (simp add: circ_def [of _ 0])
  then show ?thesis using step kept inv rb_unread_kept [OF assms(1)] by auto
qed

definition example_sbuf :: "nat \<Rightarrow> nat \<Rightarrow> nat \<Rightarrow> socket_buffer" where
  "example_sbuf start read end = \<lparr>sb_data = [1, 2, 3, 4], sb_bufsz = 4, sb_start = start, sb_end = end, sb_read = read\<rparr>"

theorem netplay_send_in_order_witness:
  "\<exists>ok b' s'. send_run [Inl [7, 8], Inr False, Inl [9]] (example_sbuf 0 0 0)
      \<lparr>so_answers = [Ready 1], so_sent = [], so_incoming = []\<rparr> = Some (ok, b', s') \<and>
     (ok \<longrightarrow> sb_inv b' \<and> so_sent s' @ sb_queue b' = [7, 8, 9])"
  using netplay_send_in_order [of "example_sbuf 0 0 0" "[Inl [7, 8], Inr False, Inl [9]]"
      "\<lparr>so_answers = [Ready 1], so_sent = [], so_incoming = []\<rparr>"]
  by (simp add: example_sbuf_def sb_inv_def sb_queue_empty)

theorem netplay_recv_in_order_witness:
  "\<exists>r buf c s'. netplay_recv 2 False (example_sbuf 1 2 3)
     \<lparr>so_answers = [Ready 1], so_sent = [], so_incoming = [5]\<rparr> = Some (r, buf, c, s') \<and>
     (0 \<le> r \<longrightarrow> [3, 5] = buf @ rb_unread c @ so_incoming s')"
proof -
  have "rb_inv (example_sbuf 1 2 3)" by (simp add: example_sbuf_def rb_inv_def circ_def)
  moreover have "rb_unread (example_sbuf 1 2 3) = [3]"
    by (simp add: example_sbuf_def rb_unread_def circ_def ring_take_def)
  ultimately show ?thesis
    using netplay_recv_in_order [of "example_sbuf 1 2 3" 2 False
        "\<lparr>so_answers = [Ready 1], so_sent = [], so_incoming = [5]\<rparr>"]
    by auto
qed

theorem netplay_recv_full_buffer_fails_witness:
  "\<exists>c s'. netplay_recv 1 False (example_sbuf 0 0 3)
     \<lparr>so_answers = [Ready 0], so_sent = [], so_incoming = [5]\<rparr> = Some (- 1, [], c, s')"
  by (rule netplay_recv_full_buffer_fails [where k = 0 and as = "[]"])
    (simp_all add: example_sbuf_def rb_inv_def rb_kept_def circ_def)

theorem netplay_resize_keeps_witness:
  "\<exists>c. netplay_resize_socket_buffer (Some [0, 0, 0, 0, 0]) 5 (example_sbuf 3 0 1) = Some (True, c) \<and>
     rb_kept c = rb_kept (example_sbuf 3 0 1)"
  using netplay_resize_keeps [of "example_sbuf 3 0 1" "[0, 0, 0, 0, 0]" 5]
  by (auto simp: example_sbuf_def rb_inv_def rb_kept_def circ_def)

end
