(* ===== verification/File_Stream.thy ===== *)
theory File_Stream
  imports RA_Prelude
begin

text \<open>
  Files: \<^verbatim>\<open>libretro-common/streams/file_stream.c\<close> over the VFS interface of libretro.

  Below \<^verbatim>\<open>RFILE\<close> is an open file of the VFS, which the interface lets a front end replace.  It is a record
  with the bytes of the file, the position, the size noted at the opening (what the built-in
  implementation reports), \<^verbatim>\<open>errno\<close>, and a script of what the operating system does with the next
  calls: move at most so many bytes, or fail with an error number.  Asking for the size or the position and
  seeking are calls that can fail too.  After the script every call does all that is asked.  The
  interface says that seeking returns the new position, while the built-in implementation returns the 0 of
  \<^verbatim>\<open>fseeko\<close>; \<open>vh_reports_pos\<close> says which of the two the file does.
  The callers' results of type \<^verbatim>\<open>int64_t\<close> with -1 for an error are options.

  Proved here: what \<^verbatim>\<open>filestream_getline\<close> returns, the growth of its buffer included, and that
  \<^verbatim>\<open>filestream_read_file\<close> and \<^verbatim>\<open>filestream_write_file\<close> move whole files.
\<close>

section \<open>The VFS\<close>

datatype os_call = Works nat | Fails nat

record vfs_handle =
  vh_data :: bytes
  vh_pos :: nat
  vh_size :: nat
  vh_reports_pos :: bool
  vh_calls :: "os_call list"
  vh_errno :: nat

definition vfs_next :: "nat \<Rightarrow> vfs_handle \<Rightarrow> nat option \<times> vfs_handle" where
  "vfs_next n h =
     (case vh_calls h of
        [] \<Rightarrow> (Some n, h)
      | Works k # cs \<Rightarrow> (Some (min k n), h\<lparr>vh_calls := cs\<rparr>)
      | Fails e # cs \<Rightarrow> (None, h\<lparr>vh_calls := cs, vh_errno := e\<rparr>))"

definition vfs_read :: "nat \<Rightarrow> vfs_handle \<Rightarrow> bytes option \<times> vfs_handle" where
  "vfs_read len h =
     (case vfs_next len h of
        (None, h) \<Rightarrow> (None, h)
      | (Some n, h) \<Rightarrow>
          let xs = take n (drop (vh_pos h) (vh_data h))
          in (Some xs, h\<lparr>vh_pos := vh_pos h + length xs\<rparr>))"

definition vfs_overwrite :: "bytes \<Rightarrow> nat \<Rightarrow> bytes \<Rightarrow> bytes" where
  "vfs_overwrite data pos xs =
     (if xs = [] then data
      else take pos data @ replicate (pos - length data) 0 @ xs @ drop (pos + length xs) data)"

definition vfs_write :: "bytes \<Rightarrow> vfs_handle \<Rightarrow> nat option \<times> vfs_handle" where
  "vfs_write xs h =
     (case vfs_next (length xs) h of
        (None, h) \<Rightarrow> (None, h)
      | (Some n, h) \<Rightarrow>
          (Some n, h\<lparr>vh_data := vfs_overwrite (vh_data h) (vh_pos h) (take n xs), vh_pos := vh_pos h + n\<rparr>))"

datatype seek_position = SeekStart | SeekCurrent | SeekEnd

definition vfs_seek :: "int \<Rightarrow> seek_position \<Rightarrow> vfs_handle \<Rightarrow> nat option \<times> vfs_handle" where
  "vfs_seek offset whence h =
     (case vfs_next 0 h of
        (None, h) \<Rightarrow> (None, h)
      | (Some _, h) \<Rightarrow>
          let p = offset + (case whence of SeekStart \<Rightarrow> 0 | SeekCurrent \<Rightarrow> int (vh_pos h)
                                         | SeekEnd \<Rightarrow> int (length (vh_data h)))
          in if p < 0 then (None, h\<lparr>vh_errno := 22\<rparr>)
             else (Some (if vh_reports_pos h then nat p else 0), h\<lparr>vh_pos := nat p\<rparr>))"

definition vfs_file_size :: "vfs_handle \<Rightarrow> nat option \<times> vfs_handle" where
  "vfs_file_size h = (case vfs_next 0 h of (None, h) \<Rightarrow> (None, h) | (Some _, h) \<Rightarrow> (Some (vh_size h), h))"

definition vfs_tell :: "vfs_handle \<Rightarrow> nat option \<times> vfs_handle" where
  "vfs_tell h = (case vfs_next 0 h of (None, h) \<Rightarrow> (None, h) | (Some _, h) \<Rightarrow> (Some (vh_pos h), h))"

definition vfs_open :: "bool \<Rightarrow> os_call list \<Rightarrow> bytes \<Rightarrow> vfs_handle" where
  "vfs_open reports calls data =
     \<lparr>vh_data = data, vh_pos = 0, vh_size = length data, vh_reports_pos = reports, vh_calls = calls,
      vh_errno = 0\<rparr>"

section \<open>The stream\<close>

record RFILE =
  hfile :: vfs_handle
  error_flag :: bool
  eof_flag :: bool

text \<open>\<^verbatim>\<open>filestream_open\<close>: the VFS opens the file or not, and the flags are clear.\<close>

definition filestream_open :: "vfs_handle option \<Rightarrow> RFILE option" where
  "filestream_open fp =
     (case fp of None \<Rightarrow> None
      | Some h \<Rightarrow> Some \<lparr>hfile = h, error_flag = False, eof_flag = False\<rparr>)"

definition filestream_exists :: "string \<Rightarrow> (string \<Rightarrow> vfs_handle option) \<Rightarrow> bool" where
  "filestream_exists p fs =
     (if p = [] then False else (case filestream_open (fs p) of None \<Rightarrow> False | Some _ \<Rightarrow> True))"

definition filestream_get_size :: "RFILE \<Rightarrow> nat option \<times> RFILE" where
  "filestream_get_size stream =
     (case vfs_file_size (hfile stream) of (output, h) \<Rightarrow>
        (output, stream\<lparr>hfile := h, error_flag := error_flag stream \<or> output = None\<rparr>))"

definition filestream_seek :: "int \<Rightarrow> seek_position \<Rightarrow> RFILE \<Rightarrow> nat option \<times> RFILE" where
  "filestream_seek offset whence stream =
     (case vfs_seek offset whence (hfile stream) of (output, h) \<Rightarrow>
        (output, stream\<lparr>hfile := h, error_flag := error_flag stream \<or> output = None,
                        eof_flag := False\<rparr>))"

definition filestream_tell :: "RFILE \<Rightarrow> nat option \<times> RFILE" where
  "filestream_tell stream =
     (case vfs_tell (hfile stream) of (output, h) \<Rightarrow>
        (output, stream\<lparr>hfile := h, error_flag := error_flag stream \<or> output = None\<rparr>))"

text \<open>The result of a call as an \<^verbatim>\<open>int64_t\<close>.\<close>

definition offset_value :: "nat option \<Rightarrow> int" where
  "offset_value r = (case r of None \<Rightarrow> -1 | Some n \<Rightarrow> int n)"

definition filestream_eof :: "RFILE \<Rightarrow> bool" where
  "filestream_eof stream = eof_flag stream"

definition filestream_error :: "RFILE option \<Rightarrow> nat" where
  "filestream_error stream =
     (case stream of None \<Rightarrow> 0 | Some s \<Rightarrow> if error_flag s then 1 else 0)"

definition filestream_rewind :: "RFILE \<Rightarrow> RFILE" where
  "filestream_rewind stream =
     (case filestream_seek 0 SeekStart stream of (_, stream) \<Rightarrow>
        stream\<lparr>error_flag := False, eof_flag := False\<rparr>)"

definition filestream_read :: "nat \<Rightarrow> RFILE \<Rightarrow> bytes option \<times> RFILE" where
  "filestream_read len stream =
     (case vfs_read len (hfile stream) of (output, h) \<Rightarrow>
        (output,
         stream\<lparr>hfile := h, error_flag := error_flag stream \<or> output = None,
                eof_flag := eof_flag stream \<or>
                  (case output of None \<Rightarrow> True | Some xs \<Rightarrow> length xs < len)\<rparr>))"

definition filestream_write :: "bytes \<Rightarrow> RFILE \<Rightarrow> nat option \<times> RFILE" where
  "filestream_write s stream =
     (case vfs_write s (hfile stream) of (output, h) \<Rightarrow>
        (output, stream\<lparr>hfile := h, error_flag := error_flag stream \<or> output = None\<rparr>))"

text \<open>\<^verbatim>\<open>filestream_getc\<close> and \<^verbatim>\<open>filestream_putc\<close>: \<^verbatim>\<open>EOF\<close> is \<^term>\<open>None\<close>.\<close>

definition filestream_getc :: "RFILE \<Rightarrow> u8 option \<times> RFILE" where
  "filestream_getc stream =
     (case filestream_read 1 stream of (output, stream) \<Rightarrow>
        (case output of
           Some xs \<Rightarrow> if length xs = 1 then (Some (hd xs), stream) else (None, stream)
         | None \<Rightarrow> (None, stream)))"

definition filestream_putc :: "u32 \<Rightarrow> RFILE \<Rightarrow> u8 option \<times> RFILE" where
  "filestream_putc c stream =
     (case filestream_write [ucast c] stream of (output, stream) \<Rightarrow>
        (if output = Some 1 then Some (ucast c) else None, stream))"

text \<open>\<^verbatim>\<open>filestream_gets\<close> into a buffer: the loop runs for \<^verbatim>\<open>len - 1\<close> characters, unsigned.\<close>

fun gets_loop :: "nat \<Rightarrow> bytes \<Rightarrow> nat \<Rightarrow> u8 option \<Rightarrow> RFILE \<Rightarrow>
    (bytes \<times> nat \<times> u8 option \<times> RFILE) option" where
  "gets_loop 0 s p c stream = Some (s, p, c, stream)"
| "gets_loop (Suc len) s p c stream =
     (case filestream_getc stream of
        (None, stream) \<Rightarrow> Some (s, p, None, stream)
      | (Some ch, stream) \<Rightarrow> do {
          s \<leftarrow> mem_set s p ch;
          if ch = 10 then Some (s, p + 1, Some ch, stream)
          else gets_loop len s (p + 1) (Some ch) stream
        })"

definition filestream_gets :: "RFILE \<Rightarrow> bytes \<Rightarrow> nat \<Rightarrow> (bool \<times> bytes \<times> RFILE) option" where
  "filestream_gets stream s len = do {
     (s, p, c, stream) \<leftarrow> gets_loop (usub len 1) s 0 (Some 0) stream;
     s \<leftarrow> mem_set s p 0;
     Some (\<not> (p = 0 \<and> c = None), s, stream)
   }"

section \<open>What the calls do\<close>

lemmas filestream_defs = filestream_read_def filestream_write_def filestream_seek_def
  vfs_read_def vfs_write_def vfs_seek_def vfs_next_def

text \<open>Asking leaves the bytes and the position alone.\<close>

lemma filestream_get_size_part:
  "filestream_get_size f = (out, f') \<Longrightarrow> (out = None \<or> out = Some (vh_size (hfile f))) \<and>
    vh_data (hfile f') = vh_data (hfile f) \<and> vh_pos (hfile f') = vh_pos (hfile f)"
  by (auto simp: filestream_get_size_def vfs_file_size_def vfs_next_def split: list.splits os_call.splits)

lemma filestream_asks_work:
  assumes "vh_calls (hfile f) = []"
  shows "filestream_get_size f = (Some (vh_size (hfile f)), f)" "filestream_tell f = (Some (vh_pos (hfile f)), f)"
  using assms by (simp_all add: filestream_get_size_def filestream_tell_def vfs_file_size_def vfs_tell_def vfs_next_def)

text \<open>A file whose calls all do what is asked: the bytes still to be read.\<close>

definition rf_rest :: "RFILE \<Rightarrow> bytes" where
  "rf_rest f = drop (vh_pos (hfile f)) (vh_data (hfile f))"

definition rf_works :: "RFILE \<Rightarrow> bool" where
  "rf_works f \<longleftrightarrow> vh_calls (hfile f) = []"

lemma filestream_read_works:
  assumes "rf_works f"
  shows "\<exists>f'. filestream_read n f = (Some (take n (rf_rest f)), f') \<and> rf_works f' \<and>
    rf_rest f' = drop n (rf_rest f) \<and> vh_data (hfile f') = vh_data (hfile f) \<and>
    vh_pos (hfile f') = vh_pos (hfile f) + length (take n (rf_rest f)) \<and>
    vh_size (hfile f') = vh_size (hfile f) \<and> vh_errno (hfile f') = vh_errno (hfile f) \<and>
    (eof_flag f' \<longleftrightarrow> eof_flag f \<or> length (rf_rest f) < n) \<and> error_flag f' = error_flag f \<and>
    vh_reports_pos (hfile f') = vh_reports_pos (hfile f)"
  using assms
  by (auto simp: filestream_defs rf_works_def rf_rest_def Let_def min_def add.commute
      drop_drop less_diff_conv)

lemma filestream_read_part:
  assumes "filestream_read n f = (out, f')"
  shows "out = None \<and> rf_rest f' = rf_rest f \<or>
    (\<exists>k. out = Some (take k (rf_rest f)) \<and> k \<le> n \<and> rf_rest f' = drop k (rf_rest f))"
proof (cases "vh_calls (hfile f)")
  case Nil
  then have "rf_works f" by (simp add: rf_works_def)
  then have "out = Some (take n (rf_rest f)) \<and> rf_rest f' = drop n (rf_rest f)"
    using filestream_read_works [of f n] assms by auto
  then show ?thesis by blast
next
  case (Cons c cs)
  show ?thesis
  proof (cases c)
    case (Works k)
    have "out = Some (take (min k n) (rf_rest f)) \<and> rf_rest f' = drop (min k n) (rf_rest f)"
      using assms Cons Works
      by (cases "min k n \<le> length (vh_data (hfile f)) - vh_pos (hfile f)")
        (auto simp: filestream_defs rf_rest_def Let_def add.commute)
    then show ?thesis using min.cobounded2 by blast
  next
    case (Fails e)
    then show ?thesis using assms Cons by (auto simp: filestream_defs rf_rest_def Let_def)
  qed
qed

lemma filestream_getc_works:
  assumes "rf_works f"
  shows "\<exists>f'. filestream_getc f = ((case rf_rest f of [] \<Rightarrow> None | c # _ \<Rightarrow> Some c), f') \<and>
    rf_works f' \<and> rf_rest f' = drop 1 (rf_rest f)"
proof -
  obtain f' where r: "filestream_read 1 f = (Some (take 1 (rf_rest f)), f')"
    "rf_works f'" "rf_rest f' = drop 1 (rf_rest f)"
    using filestream_read_works [OF assms, of 1] by blast
  show ?thesis
    using r by (cases "rf_rest f") (auto simp: filestream_getc_def)
qed

text \<open>A file after \<open>xs\<close> was written at its position.\<close>

definition rf_put :: "bytes \<Rightarrow> RFILE \<Rightarrow> RFILE" where
  "rf_put xs f = f\<lparr>hfile := (hfile f)\<lparr>vh_data := vfs_overwrite (vh_data (hfile f)) (vh_pos (hfile f)) xs,
     vh_pos := vh_pos (hfile f) + length xs\<rparr>\<rparr>"

lemma filestream_write_works:
  "rf_works f \<Longrightarrow> filestream_write xs f = (Some (length xs), rf_put xs f)"
  by (simp add: filestream_defs rf_works_def rf_put_def)

lemma rf_works_put [simp]: "rf_works (rf_put xs f) = rf_works f"
  by (simp add: rf_works_def rf_put_def)

lemma rf_put_nil [simp]: "rf_put [] f = f"
  by (simp add: rf_put_def vfs_overwrite_def)

lemma vfs_overwrite_append:
  "vfs_overwrite (vfs_overwrite d p xs) (p + length xs) ys = vfs_overwrite d p (xs @ ys)"
proof -
  let ?pre = "take p d @ replicate (p - length d) 0"
  have len: "length ?pre = p" by simp
  show ?thesis
  proof (cases "xs = [] \<or> ys = []")
    case True
    then show ?thesis by (auto simp: vfs_overwrite_def)
  next
    case False
    have "vfs_overwrite d p xs = (?pre @ xs) @ drop (p + length xs) d"
      using False by (simp add: vfs_overwrite_def)
    moreover have "take (p + length xs) ((?pre @ xs) @ drop (p + length xs) d) = ?pre @ xs"
      using len by simp
    moreover have "drop (p + length xs + length ys) ((?pre @ xs) @ drop (p + length xs) d) =
        drop (p + length (xs @ ys)) d"
      using len by (simp add: add.commute add.left_commute)
    ultimately show ?thesis using False len by (simp add: vfs_overwrite_def)
  qed
qed

lemma rf_put_put: "rf_put ys (rf_put xs f) = rf_put (xs @ ys) f"
  by (simp add: rf_put_def vfs_overwrite_append add.assoc)

text \<open>A character that was read brings the position nearer to the end.\<close>

definition rf_ahead :: "RFILE \<Rightarrow> nat" where
  "rf_ahead f = length (vh_data (hfile f)) - vh_pos (hfile f)"

lemma filestream_getc_ahead:
  "filestream_getc f = (Some c, f') \<Longrightarrow> rf_ahead f' < rf_ahead f"
  by (auto simp: filestream_getc_def filestream_defs rf_ahead_def Let_def
      split: prod.splits option.splits if_splits list.splits os_call.splits)

section \<open>Lines\<close>

text \<open>
  \<^verbatim>\<open>filestream_getline\<close>.  Memory from \<^verbatim>\<open>malloc\<close> and \<^verbatim>\<open>realloc\<close> is asked for by its size (\<open>alloc\<close> says
  whether the request is met) and holds the indeterminate byte \<open>junk\<close>.  The result: \<^term>\<open>None\<close> is an access
  outside the buffer, \<^term>\<open>Some None\<close> the null pointer.
\<close>

definition grow_buffer :: "u8 \<Rightarrow> nat \<Rightarrow> bytes \<Rightarrow> bytes" where
  "grow_buffer junk n buf = take n buf @ replicate (n - length buf) junk"

function getline_loop :: "(nat \<Rightarrow> bool) \<Rightarrow> u8 \<Rightarrow> bytes \<Rightarrow> nat \<Rightarrow> nat \<Rightarrow> u8 option \<Rightarrow> RFILE \<Rightarrow>
    ((bytes \<times> nat) option \<times> RFILE) option" where
  "getline_loop alloc junk newline cur_size idx None stream = Some (Some (newline, idx), stream)"
| "getline_loop alloc junk newline cur_size idx (Some c) stream =
     (if c = 10 then Some (Some (newline, idx), stream)
      else if idx = cur_size \<and> \<not> alloc (cur_size * 2 + 1) then Some (None, stream)
      else
        let newline = (if idx = cur_size then grow_buffer junk (cur_size * 2 + 1) newline else newline);
            cur_size = (if idx = cur_size then cur_size * 2 else cur_size)
        in (case mem_set newline idx c of
              None \<Rightarrow> None
            | Some newline \<Rightarrow>
                (case filestream_getc stream of
                   (None, stream) \<Rightarrow> Some (Some (newline, idx + 1), stream)
                 | (Some c, stream) \<Rightarrow>
                     getline_loop alloc junk newline cur_size (idx + 1) (Some c) stream)))"
  by pat_completeness auto
termination
  by (relation "measure (\<lambda>(_, _, _, _, _, _, f). rf_ahead f)") (auto dest!: sym [of "(a, b)" "filestream_getc f" for a b f] dest: filestream_getc_ahead)

definition filestream_getline :: "(nat \<Rightarrow> bool) \<Rightarrow> u8 \<Rightarrow> RFILE \<Rightarrow> (bytes option \<times> RFILE) option" where
  "filestream_getline alloc junk stream =
     (if \<not> alloc 9 then Some (None, stream)
      else
        let newline = grow_buffer junk 9 [];
            (c, stream) = filestream_getc stream
        in do {
          (r, stream) \<leftarrow> getline_loop alloc junk newline 8 0 c stream;
          case r of
            None \<Rightarrow> Some (None, stream)
          | Some (newline, idx) \<Rightarrow> do {
              newline \<leftarrow> mem_set newline idx 0;
              Some (Some newline, stream)
            }
        })"

text \<open>The line that is read: up to the newline, which is dropped.\<close>

definition line_of :: "bytes \<Rightarrow> bytes" where
  "line_of xs = takeWhile (\<lambda>c. c \<noteq> 10) xs"

lemma length_grow_buffer [simp]: "length (grow_buffer junk n buf) = n"
  by (simp add: grow_buffer_def)

lemma take_grow_buffer: "k \<le> length buf \<Longrightarrow> length buf \<le> n \<Longrightarrow> take k (grow_buffer junk n buf) = take k buf"
  by (simp add: grow_buffer_def)

lemma getline_loop_line:
  assumes alloc: "\<And>n. alloc n" and w: "rf_works f"
    and buf: "length buf = cur + 1" "idx \<le> cur" "0 < cur"
  shows "\<exists>buf' f'. getline_loop alloc junk buf cur idx c f =
      Some (Some (buf', idx + length (line_of (case c of None \<Rightarrow> [] | Some x \<Rightarrow> x # rf_rest f))), f') \<and>
    idx + length (line_of (case c of None \<Rightarrow> [] | Some x \<Rightarrow> x # rf_rest f)) < length buf' \<and>
    take (idx + length (line_of (case c of None \<Rightarrow> [] | Some x \<Rightarrow> x # rf_rest f))) buf' =
      take idx buf @ line_of (case c of None \<Rightarrow> [] | Some x \<Rightarrow> x # rf_rest f) \<and>
    rf_works f' \<and>
    rf_rest f' = (case c of None \<Rightarrow> rf_rest f
      | Some x \<Rightarrow> drop (length (line_of (x # rf_rest f))) (rf_rest f))"
  using w buf
proof (induction "rf_rest f" arbitrary: f buf cur idx c)
  case Nil
  note empty = Nil(1) [symmetric]
  show ?case
  proof (cases c)
    case None
    then show ?thesis using Nil by (simp add: line_of_def)
  next
    case (Some x)
    show ?thesis
    proof (cases "x = 10")
      case True
      then show ?thesis using Nil Some by (simp add: line_of_def)
    next
      case False
      let ?buf = "if idx = cur then grow_buffer junk (cur * 2 + 1) buf else buf"
      obtain f' where g: "filestream_getc f = (None, f')" "rf_works f'" "rf_rest f' = []"
        using filestream_getc_works [OF Nil(2)] empty by auto
      have len: "idx < length ?buf" using Nil by auto
      have "take idx ?buf = take idx buf" using Nil by (simp add: take_grow_buffer)
      with len have "take (idx + 1) (?buf[idx := x]) = take idx buf @ [x]"
        by (simp add: take_Suc_conv_app_nth)
      moreover have "idx + 1 < length ?buf" using Nil by auto
      ultimately show ?thesis
        using Some False g alloc empty len
        by (simp add: line_of_def mem_simps Let_def)
    qed
  qed
next
  case (Cons y ys)
  note rest = Cons(2) [symmetric]
  show ?case
  proof (cases c)
    case None
    then show ?thesis using Cons by (simp add: line_of_def)
  next
    case (Some x)
    show ?thesis
    proof (cases "x = 10")
      case True
      then show ?thesis using Cons Some by (simp add: line_of_def)
    next
      case False
      let ?buf = "if idx = cur then grow_buffer junk (cur * 2 + 1) buf else buf"
      let ?cur = "if idx = cur then cur * 2 else cur"
      obtain f' where g: "filestream_getc f = (Some y, f')" "rf_works f'" "rf_rest f' = ys"
        using filestream_getc_works [OF Cons(3)] rest by auto
      have len: "idx < length ?buf" using Cons by auto
      have "take idx ?buf = take idx buf" using Cons by (simp add: take_grow_buffer)
      with len have tk: "take (idx + 1) (?buf[idx := x]) = take idx buf @ [x]"
        by (simp add: take_Suc_conv_app_nth)
      have "\<exists>buf' f''. getline_loop alloc junk (?buf[idx := x]) ?cur (idx + 1) (Some y) f' =
          Some (Some (buf', idx + 1 + length (line_of (y # ys))), f'') \<and>
        idx + 1 + length (line_of (y # ys)) < length buf' \<and>
        take (idx + 1 + length (line_of (y # ys))) buf' =
          take (idx + 1) (?buf[idx := x]) @ line_of (y # ys) \<and>
        rf_works f'' \<and> rf_rest f'' = drop (length (line_of (y # ys))) ys"
        using Cons(1) [of f' "?buf[idx := x]" ?cur "idx + 1" "Some y"] g Cons(4,5,6) by simp
      then obtain buf' f'' where r: "getline_loop alloc junk (?buf[idx := x]) ?cur (idx + 1) (Some y) f' =
          Some (Some (buf', idx + 1 + length (line_of (y # ys))), f'')"
        "idx + 1 + length (line_of (y # ys)) < length buf'"
        "take (idx + 1 + length (line_of (y # ys))) buf' = take (idx + 1) (?buf[idx := x]) @ line_of (y # ys)"
        "rf_works f''" "rf_rest f'' = drop (length (line_of (y # ys))) ys" by blast
      have "getline_loop alloc junk buf cur idx c f =
          getline_loop alloc junk (?buf[idx := x]) ?cur (idx + 1) (Some y) f'"
        using Some False g(1) alloc len by (simp add: mem_simps Let_def)
      moreover have "line_of (x # y # ys) = x # line_of (y # ys)" using False by (simp add: line_of_def)
      ultimately show ?thesis using r Some rest tk by simp
    qed
  qed
qed

text \<open>C20. Given enough memory, \<^verbatim>\<open>filestream_getline\<close> never writes outside its growing buffer: the buffer
  starts with the next line and its terminator, and the file stands behind the newline.  At the end
  of the file the result is the empty string, not the null pointer.\<close>

theorem filestream_getline_line:
  assumes "\<And>n. alloc n" and "rf_works f"
  shows "\<exists>buf f'. filestream_getline alloc junk f = Some (Some buf, f') \<and>
    take (length (line_of (rf_rest f)) + 1) buf = line_of (rf_rest f) @ [0] \<and>
    rf_works f' \<and> rf_rest f' = drop (length (line_of (rf_rest f)) + 1) (rf_rest f)"
proof -
  obtain c f1 where g: "filestream_getc f = (c, f1)" "c = (case rf_rest f of [] \<Rightarrow> None | c # _ \<Rightarrow> Some c)"
    "rf_works f1" "rf_rest f1 = drop 1 (rf_rest f)"
    using filestream_getc_works [OF assms(2)] by blast
  have cons: "(case c of None \<Rightarrow> [] | Some x \<Rightarrow> x # rf_rest f1) = rf_rest f"
    using g by (auto split: list.splits)
  obtain buf f' where l: "getline_loop alloc junk (grow_buffer junk 9 []) 8 0 c f1 =
      Some (Some (buf, length (line_of (rf_rest f))), f')"
    "length (line_of (rf_rest f)) < length buf"
    "take (length (line_of (rf_rest f))) buf = line_of (rf_rest f)" "rf_works f'"
    "rf_rest f' = (case c of None \<Rightarrow> rf_rest f1 | Some x \<Rightarrow> drop (length (line_of (x # rf_rest f1))) (rf_rest f1))"
    using getline_loop_line [where alloc = alloc and junk = junk and c = c, OF assms(1) g(3), of "grow_buffer junk 9 []" 8 0] cons by auto
  let ?n = "length (line_of (rf_rest f))"
  have "take (?n + 1) (buf[?n := 0]) = line_of (rf_rest f) @ [0]"
    using l(2,3) by (simp add: take_Suc_conv_app_nth)
  moreover have "rf_rest f' = drop (?n + 1) (rf_rest f)"
    using l(5) g(2,4) by (cases "rf_rest f") auto
  ultimately show ?thesis
    using l assms(1) g(1) by (simp add: filestream_getline_def mem_simps Let_def)
qed

theorem filestream_getline_line_witness:
  "\<exists>buf f'. filestream_getline (\<lambda>_. True) 7 \<lparr>hfile = vfs_open True [] [1, 2, 10, 3], error_flag = False,
      eof_flag = False\<rparr> = Some (Some buf, f') \<and> take 3 buf = [1, 2, 0] \<and> rf_rest f' = [3]"
  using filestream_getline_line [of "\<lambda>_. True" "\<lparr>hfile = vfs_open True [] [1, 2, 10, 3], error_flag = False,
      eof_flag = False\<rparr>" 7]
  by (auto simp: rf_works_def rf_rest_def vfs_open_def line_of_def numeral_3_eq_3)

section \<open>Whole files\<close>

text \<open>
  \<^verbatim>\<open>filestream_read_file\<close>: the file is opened or not, the buffer has one byte more than the size.  The
  result is the buffer with \<^verbatim>\<open>*len\<close>, or \<^term>\<open>None\<close> for the return of 0; an access outside the buffer is
  the outer \<^term>\<open>None\<close>.
\<close>

definition read_file_body :: "(nat \<Rightarrow> bool) \<Rightarrow> u8 \<Rightarrow> RFILE \<Rightarrow> (bytes \<times> nat) option option" where
  "read_file_body alloc junk file =
     (case filestream_get_size file of
        (None, _) \<Rightarrow> Some None
      | (Some content_buf_size, file) \<Rightarrow>
          if \<not> alloc (content_buf_size + 1) then Some None
          else (case filestream_read content_buf_size file of
                  (None, _) \<Rightarrow> Some None
                | (Some xs, _) \<Rightarrow> do {
                    buf \<leftarrow> mem_write (replicate (content_buf_size + 1) junk) 0 xs;
                    buf \<leftarrow> mem_set buf (length xs) 0;
                    Some (Some (buf, length xs))
                  }))"

definition filestream_read_file :: "(nat \<Rightarrow> bool) \<Rightarrow> u8 \<Rightarrow> vfs_handle option \<Rightarrow> (bytes \<times> nat) option option" where
  "filestream_read_file alloc junk fp =
     (case filestream_open fp of None \<Rightarrow> Some None | Some file \<Rightarrow> read_file_body alloc junk file)"

definition filestream_write_file :: "vfs_handle option \<Rightarrow> bytes \<Rightarrow> bool \<times> vfs_handle option" where
  "filestream_write_file fp data =
     (case filestream_open fp of
        None \<Rightarrow> (False, None)
      | Some file \<Rightarrow>
          (case filestream_write data file of (ret, file) \<Rightarrow> (ret = Some (length data), Some (hfile file))))"

text \<open>C21. Whatever the operating system does, asking for the size included, \<^verbatim>\<open>filestream_read_file\<close> stays inside its
  buffer, and the data it hands out is the beginning of the file with a terminator behind it; when the calls work and
  memory is there, it is the whole file.  A file whose size cannot be read and one that cannot be read are errors.\<close>

theorem filestream_read_file_contents:
  "\<exists>r. filestream_read_file alloc junk (Some (vfs_open reports calls data)) = Some r \<and>
    (\<forall>buf n. r = Some (buf, n) \<longrightarrow> n \<le> length data \<and> length buf = length data + 1 \<and>
       take (n + 1) buf = take n data @ [0]) \<and>
    (alloc (length data + 1) \<longrightarrow> calls = [] \<longrightarrow> r = Some (data @ [0], length data)) \<and>
    (\<forall>e cs. calls = Fails e # cs \<or> (\<exists>k. calls = Works k # Fails e # cs) \<longrightarrow> r = None) \<and>
    (\<not> alloc (length data + 1) \<longrightarrow> r = None)"
proof -
  let ?h = "vfs_open reports calls data"
  let ?f = "\<lparr>hfile = ?h, error_flag = False, eof_flag = False\<rparr>"
  have body: "filestream_read_file alloc junk (Some ?h) = read_file_body alloc junk ?f"
    by (simp add: filestream_read_file_def filestream_open_def)
  obtain sz f1 where sz: "filestream_get_size ?f = (sz, f1)" by fastforce
  have size: "sz = None \<or> sz = Some (length data)" and rest: "rf_rest f1 = data"
    using filestream_get_size_part [OF sz] by (auto simp: vfs_open_def rf_rest_def)
  obtain out f' where r: "filestream_read (length data) f1 = (out, f')" by fastforce
  have out: "out = None \<or> (\<exists>n. out = Some (take n data) \<and> n \<le> length data)"
    using filestream_read_part [OF r] by (auto simp: rest)
  have full: "out = Some data \<and> sz = Some (length data)" if "calls = []"
  proof -
    have "sz = Some (length data)" "f1 = ?f" using filestream_asks_work(1) [of ?f] sz that by (auto simp: vfs_open_def)
    moreover have "rf_works ?f" using that by (simp add: rf_works_def vfs_open_def)
    then obtain f2 where "filestream_read (length data) ?f = (Some (take (length data) (rf_rest ?f)), f2)"
      using filestream_read_works by blast
    ultimately show ?thesis using r rest by simp
  qed
  have fails: "sz = None \<or> out = None" if "calls = Fails e # cs \<or> (\<exists>k. calls = Works k # Fails e # cs)" for e cs
    using that sz r
    by (auto simp: filestream_get_size_def vfs_file_size_def vfs_next_def vfs_open_def filestream_read_def vfs_read_def)
  show ?thesis
  proof (cases "sz \<noteq> None \<and> alloc (length data + 1) \<and> out \<noteq> None")
    case False
    then have "read_file_body alloc junk ?f = Some None"
      using size by (auto simp: read_file_body_def sz r split: option.split)
    moreover have "\<not> (alloc (length data + 1) \<and> calls = [])" using False full by auto
    ultimately show ?thesis by (auto simp: body)
  next
    case True
    then obtain n where n: "out = Some (take n data)" "n \<le> length data" and sz': "sz = Some (length data)" using out size by auto
    let ?buf = "take n data @ replicate (length data + 1 - n) junk"
    have w: "mem_write (replicate (length data + 1) junk) 0 (take n data) = Some ?buf"
      using n(2) by (simp add: mem_write_Some del: replicate_Suc)
    have s: "mem_set ?buf n 0 = Some (take n data @ 0 # replicate (length data - n) junk)"
      using n(2) by (simp add: mem_set_Some list_update_append Suc_diff_le)
    have "read_file_body alloc junk ?f = Some (Some (take n data @ 0 # replicate (length data - n) junk, n))"
      using True n w s by (simp add: read_file_body_def sz sz' r)
    then show ?thesis using True n full fails sz' by (auto simp: body)
  qed
qed

theorem filestream_read_file_contents_witness:
  "filestream_read_file (\<lambda>_. True) 7 (Some (vfs_open True [] [5, 6])) = Some (Some ([5, 6, 0], 2))"
  using filestream_read_file_contents [of "\<lambda>_. True" 7 True "[]" "[5, 6]"] by auto

text \<open>\<^verbatim>\<open>filestream_write_file\<close> into a freshly truncated file reports success exactly when the file holds all
  the data.\<close>

theorem filestream_write_file_exact:
  "filestream_write_file (Some (vfs_open reports calls [])) data = (ok, Some h) \<Longrightarrow>
     ok \<longleftrightarrow> vh_data h = data \<and> (\<forall>e cs. calls \<noteq> Fails e # cs)"
  by (auto simp: filestream_write_file_def filestream_open_def filestream_defs vfs_open_def
      vfs_overwrite_def Let_def split: list.splits os_call.splits if_splits)

theorem filestream_write_file_exact_witness:
  "\<not> fst (filestream_write_file (Some (vfs_open True [Works 1] [])) [3, 4])"
  using filestream_write_file_exact [of True "[Works 1]" "[3, 4]" "True"
      "\<lparr>vh_data = [3], vh_pos = 1, vh_size = 0, vh_reports_pos = True, vh_calls = [], vh_errno = 0\<rparr>"]
  by (simp add: filestream_write_file_def filestream_open_def filestream_defs vfs_open_def
      vfs_overwrite_def Let_def)

end
