(* ===== verification/File_Crc.thy ===== *)
theory File_Crc
  imports Crc32 File_Stream
begin

text \<open>
  The checksum of a file: \<^verbatim>\<open>file_crc32\<close> of \<^verbatim>\<open>libretro-common/encodings/encoding_crc32.c\<close>, which reads the file
  through a buffer of a megabyte, at most 64 times.

  Proved here: it is the checksum of the first 64 megabytes.
\<close>

definition CRC32_BUFFER_SIZE :: nat where "CRC32_BUFFER_SIZE = 1048576"
definition CRC32_MAX_MB :: nat where "CRC32_MAX_MB = 64"

text \<open>The loop over \<open>i\<close>, counting down; \<^term>\<open>None\<close> is the jump to the error label.\<close>

fun file_crc32_loop :: "nat \<Rightarrow> u32 \<Rightarrow> RFILE \<Rightarrow> u32 option" where
  "file_crc32_loop 0 crc file = Some crc"
| "file_crc32_loop (Suc i) crc file =
     (case filestream_read CRC32_BUFFER_SIZE file of
        (None, file) \<Rightarrow> None
      | (Some buf, file) \<Rightarrow>
          if filestream_eof file then Some (encoding_crc32 crc buf)
          else file_crc32_loop i (encoding_crc32 crc buf) file)"

definition file_crc32 :: "bool \<Rightarrow> u32 \<Rightarrow> vfs_handle option \<Rightarrow> u32" where
  "file_crc32 got_buf crc fp =
     (case filestream_open fp of
        None \<Rightarrow> 0
      | Some file \<Rightarrow>
          if \<not> got_buf then 0
          else (case file_crc32_loop CRC32_MAX_MB crc file of None \<Rightarrow> 0 | Some crc \<Rightarrow> crc))"

lemma file_crc32_loop_works:
  assumes "rf_works f" and "\<not> eof_flag f"
  shows "file_crc32_loop n crc f = Some (encoding_crc32 crc (take (n * CRC32_BUFFER_SIZE) (rf_rest f)))"
  using assms
proof (induction n arbitrary: crc f)
  case 0
  show ?case using encoding_crc32_pieces [of crc "[]"] by simp
next
  case (Suc n)
  let ?b = CRC32_BUFFER_SIZE
  obtain f' where r: "filestream_read ?b f = (Some (take ?b (rf_rest f)), f')" "rf_works f'"
    "rf_rest f' = drop ?b (rf_rest f)" "eof_flag f' \<longleftrightarrow> length (rf_rest f) < ?b"
    using filestream_read_works [OF Suc.prems(1), of ?b] Suc.prems(2) by auto
  show ?case
  proof (cases "eof_flag f'")
    case True
    then have "take (Suc n * ?b) (rf_rest f) = take ?b (rf_rest f)" using r(4) by simp
    then show ?thesis using True r(1) by (simp add: filestream_eof_def)
  next
    case False
    have "take (Suc n * ?b) (rf_rest f) = take ?b (rf_rest f) @ take (n * ?b) (drop ?b (rf_rest f))"
      by (simp add: take_add)
    then show ?thesis
      using False r(1-3) Suc.IH [of f'] encoding_crc32_pieces [of crc "[take ?b (rf_rest f), take (n * ?b) (drop ?b (rf_rest f))]"]
      by (simp add: filestream_eof_def)
  qed
qed

text \<open>C22. When its calls work, \<^verbatim>\<open>file_crc32\<close> is the checksum of the first 64 megabytes of the file, and of the
  whole file when it is not longer.\<close>

theorem file_crc32_first_megabytes:
  "file_crc32 True crc (Some (vfs_open reports [] data)) =
     encoding_crc32 crc (take (CRC32_MAX_MB * CRC32_BUFFER_SIZE) data)"
proof -
  let ?f = "\<lparr>hfile = vfs_open reports [] data, error_flag = False, eof_flag = False\<rparr>"
  have "rf_works ?f" "\<not> eof_flag ?f" "rf_rest ?f = data"
    by (simp_all add: rf_works_def rf_rest_def vfs_open_def)
  then show ?thesis
    by (simp add: file_crc32_def filestream_open_def file_crc32_loop_works)
qed

end
