(* ===== verification/Host_Words.thy ===== *)
theory Host_Words
  imports RA_Prelude
begin

text \<open>
  Byte order: the swaps of \<^verbatim>\<open>libretro-common/include/retro_endianness.h\<close>.  The host is little endian, so
  \<^verbatim>\<open>swap_if_little\<close> swaps and the bytes of an integer in memory are \<open>le_bytes\<close>.

  Proved here: swapping reverses the bytes in memory, so a swapped integer that is written as the
  host stores it stands in the file with its most significant byte first.
\<close>

unbundle bit_operations_syntax

definition SWAP16 :: "u16 \<Rightarrow> u16" where
  "SWAP16 x = push_bit 8 (x AND 0x00ff) OR drop_bit 8 (x AND 0xff00)"

definition SWAP32 :: "u32 \<Rightarrow> u32" where
  "SWAP32 x = push_bit 24 (x AND 0x000000ff) OR push_bit 8 (x AND 0x0000ff00)
     OR drop_bit 8 (x AND 0x00ff0000) OR drop_bit 24 (x AND 0xff000000)"

definition SWAP64 :: "u64 \<Rightarrow> u64" where
  "SWAP64 x = push_bit 56 (x AND 0x00000000000000ff) OR push_bit 40 (x AND 0x000000000000ff00)
     OR push_bit 24 (x AND 0x0000000000ff0000) OR push_bit 8 (x AND 0x00000000ff000000)
     OR drop_bit 8 (x AND 0x000000ff00000000) OR drop_bit 24 (x AND 0x0000ff0000000000)
     OR drop_bit 40 (x AND 0x00ff000000000000) OR drop_bit 56 (x AND 0xff00000000000000)"

definition swap_if_little16 :: "u16 \<Rightarrow> u16" where "swap_if_little16 val = SWAP16 val"
definition swap_if_little32 :: "u32 \<Rightarrow> u32" where "swap_if_little32 val = SWAP32 val"
definition swap_if_little64 :: "u64 \<Rightarrow> u64" where "swap_if_little64 val = SWAP64 val"

section \<open>The bytes of a word\<close>

lemma le_bytes_word:
  "le_bytes (Suc n) (unat (w :: 'a :: len word)) = ucast w # le_bytes n (unat (drop_bit 8 w))"
proof -
  have "(of_nat (unat w mod 256) :: u8) = ucast w"
    by (rule bit_word_eqI) (auto simp: bit_simps simp flip: take_bit_eq_mod [of 8, simplified])
  moreover have "unat w div 256 = unat (drop_bit 8 w)"
  proof -
    have "unat (drop_bit 8 w) = drop_bit 8 (unat w)"
      by (rule bit_eqI) (auto simp: bit_simps dest: bit_imp_le_length)
    then show ?thesis by (simp only: drop_bit_eq_div) simp
  qed
  ultimately show ?thesis by simp
qed

text \<open>The byte of a word that starts at bit \<open>k\<close>, in its place.\<close>

definition octet :: "nat \<Rightarrow> 'a :: len word \<Rightarrow> 'a word" where "octet k w = w AND push_bit k (mask 8)"

lemma bit_octet: "bit (octet k w) n \<longleftrightarrow> bit w n \<and> k \<le> n \<and> n < k + 8"
  by (auto simp: octet_def bit_simps dest: bit_imp_le_length)

lemma SWAP16_octets: "SWAP16 x = push_bit 8 (octet 0 x) OR drop_bit 8 (octet 8 x)"
  by (simp add: SWAP16_def octet_def mask_eq_exp_minus_1 push_bit_eq_mult)

lemma SWAP32_octets: "SWAP32 x = push_bit 24 (octet 0 x) OR push_bit 8 (octet 8 x)
     OR drop_bit 8 (octet 16 x) OR drop_bit 24 (octet 24 x)"
  by (simp add: SWAP32_def octet_def mask_eq_exp_minus_1 push_bit_eq_mult)

lemma SWAP64_octets: "SWAP64 x = push_bit 56 (octet 0 x) OR push_bit 40 (octet 8 x)
     OR push_bit 24 (octet 16 x) OR push_bit 8 (octet 24 x)
     OR drop_bit 8 (octet 32 x) OR drop_bit 24 (octet 40 x)
     OR drop_bit 40 (octet 48 x) OR drop_bit 56 (octet 56 x)"
  by (simp add: SWAP64_def octet_def mask_eq_exp_minus_1 push_bit_eq_mult)

lemma le_bytes_SWAP16: "le_bytes 2 (unat (SWAP16 x)) = rev (le_bytes 2 (unat x))"
  unfolding numeral_2_eq_2 le_bytes_word SWAP16_octets
  by (auto intro!: bit_word_eqI simp: bit_simps bit_octet)

lemma le_bytes_SWAP32: "le_bytes 4 (unat (SWAP32 x)) = rev (le_bytes 4 (unat x))"
proof -
  have 4: "(4 :: nat) = Suc (Suc (Suc (Suc 0)))" by simp
  show ?thesis
    unfolding 4 le_bytes_word SWAP32_octets
    by (auto intro!: bit_word_eqI simp: bit_simps bit_octet)
qed

lemma le_bytes_SWAP64: "le_bytes 8 (unat (SWAP64 x)) = rev (le_bytes 8 (unat x))"
proof -
  have 8: "(8 :: nat) = Suc (Suc (Suc (Suc (Suc (Suc (Suc (Suc 0)))))))" by simp
  show ?thesis
    unfolding 8 unfolding le_bytes_word SWAP64_octets
    by (auto intro!: bit_word_eqI simp: bit_simps bit_octet)
qed

lemmas le_bytes_swap = le_bytes_SWAP16 le_bytes_SWAP32 le_bytes_SWAP64

section \<open>Integers with the most significant byte first\<close>

definition msb_bytes :: "nat \<Rightarrow> nat \<Rightarrow> bytes" where
  "msb_bytes n v = rev (le_bytes n v)"

definition msb_value :: "bytes \<Rightarrow> nat" where
  "msb_value bs = le_value (rev bs)"

lemma length_msb_bytes [simp]: "length (msb_bytes n v) = n"
  by (simp add: msb_bytes_def)

lemma msb_value_msb_bytes: "msb_value (msb_bytes n v) = v mod 256 ^ n"
  by (simp add: msb_value_def msb_bytes_def le_value_le_bytes)

lemma le_bytes_mod: "le_bytes n (v mod 256 ^ n) = le_bytes n v"
  by (metis le_bytes_le_value le_value_le_bytes length_le_bytes)

lemma le_bytes_take: "n \<le> length bs \<Longrightarrow> le_bytes n (le_value bs) = take n bs"
proof (induction n arbitrary: bs)
  case (Suc n)
  then obtain b cs where bs: "bs = b # cs" by (cases bs) auto
  have "unat b < 256" by (rule unat_u8)
  then show ?case using Suc by (simp add: bs)
qed simp

lemma unat_u32: "unat (w :: u32) < 4294967296"
  using unsigned_less [of w] by simp

lemma unat_u64: "unat (w :: u64) < 18446744073709551616"
  using unsigned_less [of w] by simp

lemma unat_swap16: "unat (swap_if_little16 w) = msb_value (le_bytes 2 (unat w))"
  using le_value_le_bytes [of 2 "unat (SWAP16 w)"] unat_u16 [of "SWAP16 w"]
  by (simp add: swap_if_little16_def msb_value_def le_bytes_SWAP16)

lemma unat_swap32: "unat (swap_if_little32 w) = msb_value (le_bytes 4 (unat w))"
  using le_value_le_bytes [of 4 "unat (SWAP32 w)"] unat_u32 [of "SWAP32 w"]
  by (simp add: swap_if_little32_def msb_value_def le_bytes_SWAP32)

lemma unat_swap64: "unat (swap_if_little64 w) = msb_value (le_bytes 8 (unat w))"
  using le_value_le_bytes [of 8 "unat (SWAP64 w)"] unat_u64 [of "SWAP64 w"]
  by (simp add: swap_if_little64_def msb_value_def le_bytes_SWAP64)

text \<open>The leading bytes of a 64-bit object, read as a shorter integer.\<close>

lemma le_bytes_ucast:
  assumes "length bs = 8"
  shows "le_bytes 2 (unat (ucast (of_nat (le_value bs) :: u64) :: u16)) = take 2 bs"
    and "le_bytes 4 (unat (ucast (of_nat (le_value bs) :: u64) :: u32)) = take 4 bs"
    and "le_bytes 8 (unat (of_nat (le_value bs) :: u64)) = bs"
    and "(ucast (of_nat (le_value bs) :: u64) :: u8) = hd bs"
proof -
  have lt: "le_value bs < 2 ^ 64" using le_value_bound [of bs] assms by simp
  then have u: "unat (of_nat (le_value bs) :: u64) = le_value bs" by (simp add: unat_of_nat)
  show "le_bytes 8 (unat (of_nat (le_value bs) :: u64)) = bs"
    using assms by (simp add: u le_bytes_le_value)
  have "unat (ucast (of_nat (le_value bs) :: u64) :: u16) = le_value bs mod 256 ^ 2"
    using u by (simp add: unsigned_ucast_eq take_bit_eq_mod)
  then show "le_bytes 2 (unat (ucast (of_nat (le_value bs) :: u64) :: u16)) = take 2 bs"
    using assms by (simp only: le_bytes_mod) (simp add: le_bytes_take)
  have "unat (ucast (of_nat (le_value bs) :: u64) :: u32) = le_value bs mod 256 ^ 4"
    using u by (simp add: unsigned_ucast_eq take_bit_eq_mod)
  then show "le_bytes 4 (unat (ucast (of_nat (le_value bs) :: u64) :: u32)) = take 4 bs"
    using assms by (simp only: le_bytes_mod) (simp add: le_bytes_take)
  obtain b cs where bs: "bs = b # cs" using assms by (cases bs) auto
  have "le_bytes (Suc 0) (le_value bs) = [ucast (of_nat (le_value bs) :: u64)]"
    using le_bytes_word [of 0 "of_nat (le_value bs) :: u64"] unfolding u by simp
  moreover have "le_bytes (Suc 0) (le_value bs) = [b]"
    using le_bytes_take [of "Suc 0" bs] unfolding bs by simp
  ultimately show "(ucast (of_nat (le_value bs) :: u64) :: u8) = hd bs"
    by (simp add: bs del: le_bytes.simps le_value.simps)
qed

end
