(* ===== verification/Msgpack.thy ===== *)
theory Msgpack
  imports Host_Words File_Stream
begin

text \<open>
  The MessagePack reader and writer of the game database: \<^verbatim>\<open>libretro-db/rmsgpack.c\<close>.

  A writer is the list of its \<^verbatim>\<open>filestream_write\<close> calls: the first that fails ends it with \<^verbatim>\<open>-errno\<close>,
  otherwise it returns the number of bytes it claims to have written.  The reader calls back for what
  it finds; callbacks are functions on the caller's data, absent ones are null pointers, and they
  return the data with the code's \<^verbatim>\<open>int\<close>, or \<^term>\<open>None\<close> for an access outside the caller's memory.
  \<open>mp_junk\<close> are the indeterminate bytes of the local integer a number is read into, \<open>mp_alloc\<close> says which
  requests for memory are met.
\<close>

section \<open>Writing\<close>

definition MPF_FIXMAP :: u8 where "MPF_FIXMAP = 0x80"
definition MPF_MAP16 :: u8 where "MPF_MAP16 = 0xde"
definition MPF_MAP32 :: u8 where "MPF_MAP32 = 0xdf"
definition MPF_FIXARRAY :: u8 where "MPF_FIXARRAY = 0x90"
definition MPF_ARRAY16 :: u8 where "MPF_ARRAY16 = 0xdc"
definition MPF_ARRAY32 :: u8 where "MPF_ARRAY32 = 0xdd"
definition MPF_FIXSTR :: u8 where "MPF_FIXSTR = 0xa0"
definition MPF_STR8 :: u8 where "MPF_STR8 = 0xd9"
definition MPF_STR16 :: u8 where "MPF_STR16 = 0xda"
definition MPF_STR32 :: u8 where "MPF_STR32 = 0xdb"
definition MPF_BIN8 :: u8 where "MPF_BIN8 = 0xc4"
definition MPF_BIN16 :: u8 where "MPF_BIN16 = 0xc5"
definition MPF_BIN32 :: u8 where "MPF_BIN32 = 0xc6"
definition MPF_FALSE :: u8 where "MPF_FALSE = 0xc2"
definition MPF_TRUE :: u8 where "MPF_TRUE = 0xc3"
definition MPF_INT8 :: u8 where "MPF_INT8 = 0xd0"
definition MPF_INT16 :: u8 where "MPF_INT16 = 0xd1"
definition MPF_INT32 :: u8 where "MPF_INT32 = 0xd2"
definition MPF_INT64 :: u8 where "MPF_INT64 = 0xd3"
definition MPF_UINT8 :: u8 where "MPF_UINT8 = 0xcc"
definition MPF_UINT16 :: u8 where "MPF_UINT16 = 0xcd"
definition MPF_UINT32 :: u8 where "MPF_UINT32 = 0xce"
definition MPF_UINT64 :: u8 where "MPF_UINT64 = 0xcf"
definition MPF_NIL :: u8 where "MPF_NIL = 0xc0"

lemmas MPF_defs = MPF_FIXMAP_def MPF_MAP16_def MPF_MAP32_def MPF_FIXARRAY_def MPF_ARRAY16_def
  MPF_ARRAY32_def MPF_FIXSTR_def MPF_STR8_def MPF_STR16_def MPF_STR32_def MPF_BIN8_def MPF_BIN16_def
  MPF_BIN32_def MPF_FALSE_def MPF_TRUE_def MPF_INT8_def MPF_INT16_def MPF_INT32_def MPF_INT64_def
  MPF_UINT8_def MPF_UINT16_def MPF_UINT32_def MPF_UINT64_def MPF_NIL_def

text \<open>Conversion to the 32-bit \<^verbatim>\<open>int\<close>; the negated error number; a run of writes.\<close>

definition c_int :: "int \<Rightarrow> int" where
  "c_int x = signed_take_bit 31 x"

definition neg_errno :: "RFILE \<Rightarrow> int" where
  "neg_errno fd = - int (vh_errno (hfile fd))"

fun rmsgpack_emit :: "bytes list \<Rightarrow> int \<Rightarrow> RFILE \<Rightarrow> int \<times> RFILE" where
  "rmsgpack_emit [] written fd = (written, fd)"
| "rmsgpack_emit (c # cs) written fd =
     (case filestream_write c fd of
        (None, fd) \<Rightarrow> (neg_errno fd, fd)
      | (Some _, fd) \<Rightarrow> rmsgpack_emit cs written fd)"

abbreviation mem_u8 :: "u8 \<Rightarrow> bytes" where "mem_u8 w \<equiv> le_bytes 1 (unat w)"
abbreviation mem_u16 :: "u16 \<Rightarrow> bytes" where "mem_u16 w \<equiv> le_bytes 2 (unat w)"
abbreviation mem_u32 :: "u32 \<Rightarrow> bytes" where "mem_u32 w \<equiv> le_bytes 4 (unat w)"
abbreviation mem_u64 :: "u64 \<Rightarrow> bytes" where "mem_u64 w \<equiv> le_bytes 8 (unat w)"

definition rmsgpack_write_array_header :: "RFILE \<Rightarrow> u32 \<Rightarrow> int \<times> RFILE" where
  "rmsgpack_write_array_header fd sz =
     (if sz < 16 then rmsgpack_emit [take 1 (mem_u32 (sz OR ucast MPF_FIXARRAY))] 1 fd
      else if sz = ucast (ucast sz :: u16)
      then rmsgpack_emit [mem_u8 MPF_ARRAY16, mem_u16 (swap_if_little16 (ucast sz))] 3 fd
      else rmsgpack_emit [mem_u8 MPF_ARRAY32, mem_u32 (swap_if_little32 sz)] 5 fd)"

definition rmsgpack_write_map_header :: "RFILE \<Rightarrow> u32 \<Rightarrow> int \<times> RFILE" where
  "rmsgpack_write_map_header fd sz =
     (if sz < 16 then rmsgpack_emit [take 1 (mem_u32 (sz OR ucast MPF_FIXMAP))] 1 fd
      else if sz < ucast (ucast sz :: u16)
      then rmsgpack_emit [mem_u8 MPF_MAP16, mem_u16 (swap_if_little16 (ucast sz))] 3 fd
      else rmsgpack_emit [mem_u8 MPF_MAP32, mem_u32 (swap_if_little32 sz)] 5 fd)"

text \<open>The caller's \<^verbatim>\<open>len\<close> is the 32-bit length of the data.\<close>

definition rmsgpack_write_string :: "RFILE \<Rightarrow> bytes \<Rightarrow> int \<times> RFILE" where
  "rmsgpack_write_string fd s =
     (let len = (of_nat (length s) :: u32);
          dat = take (unat len) s
      in if len < 32 then rmsgpack_emit [mem_u8 (ucast (len OR ucast MPF_FIXSTR)), dat] (c_int (1 + uint len)) fd
         else if len < 2 ^ 8
         then rmsgpack_emit [mem_u8 MPF_STR8, take 1 (mem_u32 len), dat] (c_int (2 + uint len)) fd
         else if len < 2 ^ 16
         then rmsgpack_emit [mem_u8 MPF_STR16, mem_u16 (swap_if_little16 (ucast len)), dat] (c_int (3 + uint len)) fd
         else rmsgpack_emit [mem_u8 MPF_STR32, mem_u32 (swap_if_little32 len), dat] (c_int (5 + uint len)) fd)"

definition rmsgpack_write_bin :: "RFILE \<Rightarrow> bytes \<Rightarrow> int \<times> RFILE" where
  "rmsgpack_write_bin fd s =
     (let len = (of_nat (length s) :: u32);
          dat = take (unat len) s
      in if len = ucast (ucast len :: u8)
         then rmsgpack_emit [mem_u8 MPF_BIN8, take 1 (mem_u32 len), dat] 0 fd
         else if len = ucast (ucast len :: u16)
         then rmsgpack_emit [mem_u8 MPF_BIN16, mem_u16 (swap_if_little16 (ucast len)), dat] 0 fd
         else rmsgpack_emit [mem_u8 MPF_BIN32, mem_u32 (swap_if_little32 len), dat] 0 fd)"

definition rmsgpack_write_nil :: "RFILE \<Rightarrow> int \<times> RFILE" where
  "rmsgpack_write_nil fd = rmsgpack_emit [mem_u8 MPF_NIL] 1 fd"

text \<open>After the byte for true the code goes on to write the byte for false.\<close>

definition rmsgpack_write_bool :: "RFILE \<Rightarrow> int \<Rightarrow> int \<times> RFILE" where
  "rmsgpack_write_bool fd value =
     rmsgpack_emit ((if value \<noteq> 0 then [mem_u8 MPF_TRUE] else []) @ [mem_u8 MPF_FALSE]) 1 fd"

definition rmsgpack_write_int :: "RFILE \<Rightarrow> u64 \<Rightarrow> int \<times> RFILE" where
  "rmsgpack_write_int fd value =
     (if 0 \<le> sint value \<and> sint value < 128 then rmsgpack_emit [take 1 (mem_u64 value)] 1 fd
      else if sint value < 0 \<and> sint value > -32
      then rmsgpack_emit [mem_u8 (ucast (value OR 0xe0))] 1 fd
      else if value = scast (ucast value :: u8)
      then rmsgpack_emit [mem_u8 MPF_INT8, take 1 (mem_u64 value)] 2 fd
      else if value = scast (ucast value :: u16)
      then rmsgpack_emit [mem_u8 MPF_INT16, mem_u16 (swap_if_little16 (ucast value))] 3 fd
      else if value = scast (ucast value :: u32)
      then rmsgpack_emit [mem_u8 MPF_INT32, mem_u32 (swap_if_little32 (ucast value))] 5 fd
      else rmsgpack_emit [mem_u8 MPF_INT64, mem_u64 (swap_if_little64 value)] 9 fd)"

definition rmsgpack_write_uint :: "RFILE \<Rightarrow> u64 \<Rightarrow> int \<times> RFILE" where
  "rmsgpack_write_uint fd value =
     (if value = ucast (ucast value :: u8)
      then rmsgpack_emit [mem_u8 MPF_UINT8, take 1 (mem_u64 value)] 2 fd
      else if value = ucast (ucast value :: u16)
      then rmsgpack_emit [mem_u8 MPF_UINT16, mem_u16 (swap_if_little16 (ucast value))] 3 fd
      else if value = ucast (ucast value :: u32)
      then rmsgpack_emit [mem_u8 MPF_UINT32, mem_u32 (swap_if_little32 (ucast value))] 5 fd
      else rmsgpack_emit [mem_u8 MPF_UINT64, mem_u64 (swap_if_little64 value)] 9 fd)"

section \<open>Reading\<close>

record mp_env =
  mp_alloc :: "nat \<Rightarrow> bool"
  mp_junk :: bytes

type_synonym 'd callback = "'d \<Rightarrow> (int \<times> 'd) option"

record 'd rmsgpack_read_callbacks =
  cb_nil :: "'d callback option"
  cb_bool :: "(int \<Rightarrow> 'd callback) option"
  cb_int :: "(u64 \<Rightarrow> 'd callback) option"
  cb_uint :: "(u64 \<Rightarrow> 'd callback) option"
  cb_string :: "(bytes \<Rightarrow> 'd callback) option"
  cb_bin :: "(bytes \<Rightarrow> 'd callback) option"
  cb_map_start :: "(u32 \<Rightarrow> 'd callback) option"
  cb_array_start :: "(u32 \<Rightarrow> 'd callback) option"

text \<open>The 64-bit local after the bytes \<open>xs\<close> were read into its beginning.\<close>

definition mp_local :: "mp_env \<Rightarrow> bytes \<Rightarrow> u64" where
  "mp_local env xs = of_nat (le_value (xs @ drop (length xs) (mp_junk env)))"

text \<open>\<^verbatim>\<open>read_uint\<close> and \<^verbatim>\<open>read_int\<close>: the result and the new \<^verbatim>\<open>*out\<close>; a short read is not noticed.\<close>

definition read_uint :: "mp_env \<Rightarrow> RFILE \<Rightarrow> u64 \<Rightarrow> nat \<Rightarrow> int \<times> u64 \<times> RFILE" where
  "read_uint env fd out sz =
     (case filestream_read sz fd of
        (None, fd) \<Rightarrow> (neg_errno fd, out, fd)
      | (Some xs, fd) \<Rightarrow>
          (0,
           (let tmp = mp_local env xs
            in if sz = 1 then ucast (ucast tmp :: u8)
               else if sz = 2 then ucast (swap_if_little16 (ucast tmp))
               else if sz = 4 then ucast (swap_if_little32 (ucast tmp))
               else if sz = 8 then swap_if_little64 tmp
               else out),
           fd))"

definition read_int :: "mp_env \<Rightarrow> RFILE \<Rightarrow> u64 \<Rightarrow> nat \<Rightarrow> int \<times> u64 \<times> RFILE" where
  "read_int env fd out sz =
     (case filestream_read sz fd of
        (None, fd) \<Rightarrow> (neg_errno fd, out, fd)
      | (Some xs, fd) \<Rightarrow>
          (0,
           (let tmp = mp_local env xs
            in if sz = 1 then scast (ucast tmp :: u8)
               else if sz = 2 then scast (swap_if_little16 (ucast tmp))
               else if sz = 4 then scast (swap_if_little32 (ucast tmp))
               else if sz = 8 then swap_if_little64 tmp
               else out),
           fd))"

text \<open>Reading into a null pointer, which the VFS answers with -1; \<^verbatim>\<open>malloc\<close> has set \<^verbatim>\<open>errno\<close> to \<^verbatim>\<open>ENOMEM\<close>.\<close>

definition read_into_null :: "RFILE \<Rightarrow> RFILE" where
  "read_into_null fd = fd\<lparr>hfile := (hfile fd)\<lparr>vh_errno := 12\<rparr>, error_flag := True, eof_flag := True\<rparr>"

text \<open>\<^verbatim>\<open>read_buff\<close>: the result, the buffer (its length is \<^verbatim>\<open>*len\<close>).\<close>

definition read_buff :: "mp_env \<Rightarrow> RFILE \<Rightarrow> nat \<Rightarrow> int \<times> bytes \<times> RFILE" where
  "read_buff env fd sz =
     (case read_uint env fd 0 sz of
        (rv, tmp_len, fd) \<Rightarrow>
          if rv = -1 then (neg_errno fd, [], fd)
          else if \<not> mp_alloc env (unat (tmp_len + 1))
          then (let fd = read_into_null fd in (neg_errno fd, [], fd))
          else (case filestream_read (unat tmp_len) fd of
                  (None, fd) \<Rightarrow> (neg_errno fd, [], fd)
                | (Some xs, fd) \<Rightarrow> (0, xs, fd)))"

text \<open>A callback, or nothing when it is a null pointer; the body of the loops of the containers.\<close>

definition mp_call :: "'d callback option \<Rightarrow> 'd \<Rightarrow> RFILE \<Rightarrow> (int \<times> 'd \<times> RFILE) option" where
  "mp_call cb d fd =
     (case cb of None \<Rightarrow> Some (0, d, fd) | Some f \<Rightarrow> do { (rv, d) \<leftarrow> f d; Some (rv, d, fd) })"

type_synonym 'd mp_reader = "'d \<Rightarrow> RFILE \<Rightarrow> (int \<times> 'd \<times> RFILE) option"

primrec mp_repeat :: "'d mp_reader \<Rightarrow> nat \<Rightarrow> 'd mp_reader" where
  "mp_repeat rd 0 d fd = Some (0, d, fd)"
| "mp_repeat rd (Suc n) d fd = do {
     (rv, d, fd) \<leftarrow> rd d fd;
     if rv < 0 then Some (rv, d, fd) else mp_repeat rd n d fd
   }"

text \<open>\<^verbatim>\<open>read_map\<close> and \<^verbatim>\<open>read_array\<close>, over the reader of one value; a map reads twice for every pair.\<close>

definition read_map :: "'d mp_reader \<Rightarrow> u32 \<Rightarrow> 'd rmsgpack_read_callbacks \<Rightarrow> 'd mp_reader" where
  "read_map rd len callbacks d fd = do {
     (rv, d, fd) \<leftarrow> mp_call (map_option (\<lambda>f. f len) (cb_map_start callbacks)) d fd;
     if rv < 0 then Some (rv, d, fd) else mp_repeat rd (2 * unat len) d fd
   }"

definition read_array :: "'d mp_reader \<Rightarrow> u32 \<Rightarrow> 'd rmsgpack_read_callbacks \<Rightarrow> 'd mp_reader" where
  "read_array rd len callbacks d fd = do {
     (rv, d, fd) \<leftarrow> mp_call (map_option (\<lambda>f. f len) (cb_array_start callbacks)) d fd;
     if rv < 0 then Some (rv, d, fd) else mp_repeat rd (unat len) d fd
   }"

text \<open>A type byte between \<^verbatim>\<open>MPF_FIXSTR\<close> and \<^verbatim>\<open>MPF_NIL\<close>: a short string.\<close>

definition read_fixstr :: "mp_env \<Rightarrow> 'd rmsgpack_read_callbacks \<Rightarrow> u8 \<Rightarrow> 'd mp_reader" where
  "read_fixstr env callbacks ty d fd =
     (let tmp_len = unat (ty - MPF_FIXSTR)
      in if \<not> mp_alloc env (tmp_len + 1) then Some (-12, d, fd)
         else (case filestream_read tmp_len fd of
                 (None, fd) \<Rightarrow> Some (neg_errno fd, d, fd)
               | (Some xs, fd) \<Rightarrow> mp_call (map_option (\<lambda>f. f xs) (cb_string callbacks)) d fd))"

text \<open>The switch over the remaining types; a type that it does not name is skipped.\<close>

definition read_switch :: "mp_env \<Rightarrow> 'd mp_reader \<Rightarrow> 'd rmsgpack_read_callbacks \<Rightarrow> u8 \<Rightarrow> 'd mp_reader" where
  "read_switch env rd callbacks ty d fd =
     (if ty = MPF_NIL then mp_call (cb_nil callbacks) d fd
      else if ty = MPF_FALSE then mp_call (map_option (\<lambda>f. f 0) (cb_bool callbacks)) d fd
      else if ty = MPF_TRUE then mp_call (map_option (\<lambda>f. f 1) (cb_bool callbacks)) d fd
      else if ty \<in> {MPF_BIN8, MPF_BIN16, MPF_BIN32}
      then (case read_buff env fd (2 ^ unat (ty - MPF_BIN8)) of (rv, buff, fd) \<Rightarrow>
              if rv < 0 then Some (rv, d, fd)
              else mp_call (map_option (\<lambda>f. f buff) (cb_bin callbacks)) d fd)
      else if ty \<in> {MPF_UINT8, MPF_UINT16, MPF_UINT32, MPF_UINT64}
      then (case read_uint env fd 0 (2 ^ unat (ty - MPF_UINT8)) of (rv, tmp_uint, fd) \<Rightarrow>
              if rv = -1 then Some (neg_errno fd, d, fd)
              else mp_call (map_option (\<lambda>f. f tmp_uint) (cb_uint callbacks)) d fd)
      else if ty \<in> {MPF_INT8, MPF_INT16, MPF_INT32, MPF_INT64}
      then (case read_int env fd 0 (2 ^ unat (ty - MPF_INT8)) of (rv, tmp_int, fd) \<Rightarrow>
              if rv = -1 then Some (neg_errno fd, d, fd)
              else mp_call (map_option (\<lambda>f. f tmp_int) (cb_int callbacks)) d fd)
      else if ty \<in> {MPF_STR8, MPF_STR16, MPF_STR32}
      then (case read_buff env fd (2 ^ unat (ty - MPF_STR8)) of (rv, buff, fd) \<Rightarrow>
              if rv < 0 then Some (rv, d, fd)
              else mp_call (map_option (\<lambda>f. f buff) (cb_string callbacks)) d fd)
      else if ty \<in> {MPF_ARRAY16, MPF_ARRAY32}
      then (case read_uint env fd 0 (2 * 2 ^ unat (ty - MPF_ARRAY16)) of (rv, tmp_len, fd) \<Rightarrow>
              if rv = -1 then Some (neg_errno fd, d, fd)
              else read_array rd (ucast tmp_len) callbacks d fd)
      else if ty \<in> {MPF_MAP16, MPF_MAP32}
      then (case read_uint env fd 0 (2 * 2 ^ unat (ty - MPF_MAP16)) of (rv, tmp_len, fd) \<Rightarrow>
              if rv = -1 then Some (neg_errno fd, d, fd)
              else read_map rd (ucast tmp_len) callbacks d fd)
      else Some (0, d, fd))"

definition read_value :: "mp_env \<Rightarrow> 'd mp_reader \<Rightarrow> 'd rmsgpack_read_callbacks \<Rightarrow> u8 \<Rightarrow> 'd mp_reader" where
  "read_value env rd callbacks ty d fd =
     (if ty < MPF_FIXMAP then mp_call (map_option (\<lambda>f. f (ucast ty)) (cb_int callbacks)) d fd
      else if ty < MPF_FIXARRAY then read_map rd (ucast (ty - MPF_FIXMAP)) callbacks d fd
      else if ty < MPF_FIXSTR then read_array rd (ucast (ty - MPF_FIXARRAY)) callbacks d fd
      else if ty < MPF_NIL then read_fixstr env callbacks ty d fd
      else if ty > MPF_MAP32
      then mp_call (map_option (\<lambda>f. f (ucast ty - 0xff - 1)) (cb_int callbacks)) d fd
      else read_switch env rd callbacks ty d fd)"

text \<open>
  \<^verbatim>\<open>rmsgpack_read\<close>, with fuel for the depth of the recursion.  At the end of the file the type byte
  keeps its initial 0.
\<close>

primrec read_depth :: "mp_env \<Rightarrow> 'd rmsgpack_read_callbacks \<Rightarrow> nat \<Rightarrow> 'd mp_reader" where
  "read_depth env callbacks 0 d fd = None"
| "read_depth env callbacks (Suc n) d fd =
     (case filestream_read 1 fd of
        (None, fd) \<Rightarrow> Some (neg_errno fd, d, fd)
      | (Some xs, fd) \<Rightarrow>
          read_value env (read_depth env callbacks n) callbacks (if xs = [] then 0 else hd xs) d fd)"

definition rmsgpack_read :: "mp_env \<Rightarrow> 'd rmsgpack_read_callbacks \<Rightarrow> 'd mp_reader" where
  "rmsgpack_read env callbacks d fd = read_depth env callbacks (length (rf_rest fd) + 1) d fd"

section \<open>The fuel is enough\<close>

lemma filestream_read_rest:
  assumes "filestream_read n f = (out, f')"
  shows "length (rf_rest f') \<le> length (rf_rest f)"
    and "out = Some xs \<Longrightarrow> length (rf_rest f') = length (rf_rest f) - length xs"
    and "out = Some xs \<Longrightarrow> length xs \<le> length (rf_rest f)"
  using filestream_read_part [OF assms] by auto

lemma read_uint_rest:
  "read_uint env f out k = (rv, v, f') \<Longrightarrow> length (rf_rest f') \<le> length (rf_rest f)"
  by (auto simp: read_uint_def split: prod.splits option.splits dest: filestream_read_rest(1))

lemma read_int_rest:
  "read_int env f out k = (rv, v, f') \<Longrightarrow> length (rf_rest f') \<le> length (rf_rest f)"
  by (auto simp: read_int_def split: prod.splits option.splits dest: filestream_read_rest(1))

lemma read_buff_rest:
  assumes "read_buff env f k = (rv, xs, f')"
  shows "length (rf_rest f') \<le> length (rf_rest f)"
proof -
  obtain r v f1 where u: "read_uint env f 0 k = (r, v, f1)" by (metis prod_cases3)
  obtain out f2 where o: "filestream_read (unat v) f1 = (out, f2)" by fastforce
  have n: "rf_rest (read_into_null f1) = rf_rest f1" by (simp add: read_into_null_def rf_rest_def)
  show ?thesis
    using assms u o n read_uint_rest [OF u] filestream_read_rest(1) [OF o]
    by (auto simp: read_buff_def Let_def split: if_splits option.splits)
qed

text \<open>
  What a reader asks of the data of its callbacks: an invariant \<open>good\<close>, and a number of \<open>slots\<close> for values that
  are still expected.  A callback may assume that there is one, and gives back, unless it reports an error,
  all others and the \<open>k\<close> that the container it announces needs.
\<close>

definition mp_serves :: "('d \<Rightarrow> bool) \<Rightarrow> ('d \<Rightarrow> nat) \<Rightarrow> nat \<Rightarrow> 'd callback option \<Rightarrow> bool" where
  "mp_serves good slots k cb \<longleftrightarrow>
     (\<forall>d fd. good d \<longrightarrow> 0 < slots d \<longrightarrow>
        (\<exists>rv d'. mp_call cb d fd = Some (rv, d', fd) \<and> good d' \<and>
           (0 \<le> rv \<longrightarrow> slots d + k \<le> slots d' + 1)))"

definition mp_reads :: "('d \<Rightarrow> bool) \<Rightarrow> ('d \<Rightarrow> nat) \<Rightarrow> nat \<Rightarrow> 'd mp_reader \<Rightarrow> bool" where
  "mp_reads good slots bnd rd \<longleftrightarrow>
     (\<forall>d fd. good d \<longrightarrow> 0 < slots d \<longrightarrow> length (rf_rest fd) \<le> bnd \<longrightarrow>
        (\<exists>rv d' fd'. rd d fd = Some (rv, d', fd') \<and> good d' \<and> length (rf_rest fd') \<le> length (rf_rest fd) \<and>
           (0 \<le> rv \<longrightarrow> slots d \<le> slots d' + 1)))"

lemma mp_repeat_reads:
  assumes "mp_reads good slots bnd rd" "good d" "k \<le> slots d" "length (rf_rest fd) \<le> bnd"
  shows "\<exists>rv d' fd'. mp_repeat rd k d fd = Some (rv, d', fd') \<and> good d' \<and>
    length (rf_rest fd') \<le> length (rf_rest fd) \<and> (0 \<le> rv \<longrightarrow> slots d \<le> slots d' + k)"
  using assms(2-)
proof (induction k arbitrary: d fd)
  case 0
  then show ?case by simp
next
  case (Suc k)
  obtain rv d1 f1 where r: "rd d fd = Some (rv, d1, f1)" "good d1" "length (rf_rest f1) \<le> length (rf_rest fd)"
    "0 \<le> rv \<longrightarrow> slots d \<le> slots d1 + 1"
    using assms(1) Suc.prems unfolding mp_reads_def by (metis Suc_le_lessD gr_zeroI not_less_zero)
  show ?case
  proof (cases "rv < 0")
    case True
    then show ?thesis using r by simp
  next
    case False
    then obtain rv' d2 f2 where s: "mp_repeat rd k d1 f1 = Some (rv', d2, f2)" "good d2"
      "length (rf_rest f2) \<le> length (rf_rest f1)" "0 \<le> rv' \<longrightarrow> slots d1 \<le> slots d2 + k"
      using Suc.IH [of d1 f1] Suc.prems r by fastforce
    have "slots d \<le> slots d2 + Suc k" if "0 \<le> rv'" using that r(4) s(4) False by simp
    then show ?thesis using r s False by auto
  qed
qed

locale msgpack_client =
  fixes callbacks :: "'d rmsgpack_read_callbacks" and good :: "'d \<Rightarrow> bool" and slots :: "'d \<Rightarrow> nat"
  assumes serves_nil: "mp_serves good slots 0 (cb_nil callbacks)"
    and serves_bool: "mp_serves good slots 0 (map_option (\<lambda>f. f b) (cb_bool callbacks))"
    and serves_int: "mp_serves good slots 0 (map_option (\<lambda>f. f i) (cb_int callbacks))"
    and serves_uint: "mp_serves good slots 0 (map_option (\<lambda>f. f u) (cb_uint callbacks))"
    and serves_string: "mp_serves good slots 0 (map_option (\<lambda>f. f s) (cb_string callbacks))"
    and serves_bin: "mp_serves good slots 0 (map_option (\<lambda>f. f s) (cb_bin callbacks))"
    and serves_map: "mp_serves good slots (2 * unat len) (map_option (\<lambda>f. f len) (cb_map_start callbacks))"
    and serves_array: "mp_serves good slots (unat len) (map_option (\<lambda>f. f len) (cb_array_start callbacks))"
begin

text \<open>The outcome of reading one value.\<close>

definition served :: "'d \<Rightarrow> RFILE \<Rightarrow> (int \<times> 'd \<times> RFILE) option \<Rightarrow> bool" where
  "served d fd r \<longleftrightarrow>
     (\<exists>rv d' fd'. r = Some (rv, d', fd') \<and> good d' \<and> length (rf_rest fd') \<le> length (rf_rest fd) \<and>
        (0 \<le> rv \<longrightarrow> slots d \<le> slots d' + 1))"

lemma served_call:
  assumes "mp_serves good slots 0 cb" "good d" "0 < slots d" "length (rf_rest f1) \<le> length (rf_rest fd)"
  shows "served d fd (mp_call cb d f1)"
  using assms unfolding mp_serves_def served_def by (metis add_0_right)

lemma served_error:
  assumes "good d" "rv < 0 \<or> 0 < slots d" "length (rf_rest f1) \<le> length (rf_rest fd)"
  shows "served d fd (Some (rv, d, f1))"
  using assms by (auto simp: served_def)

lemma served_container:
  assumes start: "mp_serves good slots k cb" and rd: "mp_reads good slots bnd rd"
    and d: "good d" "0 < slots d" and f: "length (rf_rest f1) \<le> length (rf_rest fd)" "length (rf_rest f1) \<le> bnd"
  shows "served d fd (do { (rv, d, g) \<leftarrow> mp_call cb d f1; if rv < 0 then Some (rv, d, g) else mp_repeat rd k d g })"
proof -
  obtain rv d1 where c: "mp_call cb d f1 = Some (rv, d1, f1)" "good d1" "0 \<le> rv \<longrightarrow> slots d + k \<le> slots d1 + 1"
    using start d unfolding mp_serves_def by blast
  show ?thesis
  proof (cases "rv < 0")
    case True
    then show ?thesis using c f by (auto simp: served_def)
  next
    case False
    then have "k \<le> slots d1" using c(3) d(2) by linarith
    then obtain rv' d2 f2 where r: "mp_repeat rd k d1 f1 = Some (rv', d2, f2)" "good d2"
      "length (rf_rest f2) \<le> length (rf_rest f1)" "0 \<le> rv' \<longrightarrow> slots d1 \<le> slots d2 + k"
      using mp_repeat_reads [OF rd c(2) _ f(2)] by blast
    have "slots d \<le> slots d2 + 1" if "0 \<le> rv'" using that r(4) c(3) False by simp
    then show ?thesis using c r f False by (auto simp: served_def)
  qed
qed

lemma served_map:
  "mp_reads good slots bnd rd \<Longrightarrow> good d \<Longrightarrow> 0 < slots d \<Longrightarrow> length (rf_rest f1) \<le> length (rf_rest fd) \<Longrightarrow>
     length (rf_rest f1) \<le> bnd \<Longrightarrow> served d fd (read_map rd len callbacks d f1)"
  unfolding read_map_def by (rule served_container [OF serves_map])

lemma served_array:
  "mp_reads good slots bnd rd \<Longrightarrow> good d \<Longrightarrow> 0 < slots d \<Longrightarrow> length (rf_rest f1) \<le> length (rf_rest fd) \<Longrightarrow>
     length (rf_rest f1) \<le> bnd \<Longrightarrow> served d fd (read_array rd len callbacks d f1)"
  unfolding read_array_def by (rule served_container [OF serves_array])

lemma served_fixstr:
  assumes d: "good d" "0 < slots d"
  shows "served d fd (read_fixstr env callbacks ty d fd)"
proof (cases "mp_alloc env (unat (ty - MPF_FIXSTR) + 1)")
  case False
  then show ?thesis using d by (simp add: read_fixstr_def served_error)
next
  case True
  obtain out f1 where r: "filestream_read (unat (ty - MPF_FIXSTR)) fd = (out, f1)" by fastforce
  show ?thesis
    using True r filestream_read_rest(1) [OF r] d
    by (auto simp: read_fixstr_def Let_def intro!: served_call served_error serves_string split: option.splits)
qed

text \<open>One type byte's worth of the switch: what was read is handed to a callback or announces a container.\<close>

lemma served_switch:
  assumes rd: "mp_reads good slots bnd rd" and d: "good d" "0 < slots d" and bnd: "length (rf_rest fd) \<le> bnd"
  shows "served d fd (read_switch env rd callbacks ty d fd)"
proof -
  have bin: "served d fd (case read_buff env fd k of (rv, buff, fd) \<Rightarrow> if rv < 0 then Some (rv, d, fd)
      else mp_call (map_option (\<lambda>f. f buff) (cb_bin callbacks)) d fd)" for k
  proof -
    obtain rv xs f1 where b: "read_buff env fd k = (rv, xs, f1)" by (metis prod_cases3)
    show ?thesis using b read_buff_rest [OF b] d by (auto intro!: served_call served_error serves_bin)
  qed
  have str: "served d fd (case read_buff env fd k of (rv, buff, fd) \<Rightarrow> if rv < 0 then Some (rv, d, fd)
      else mp_call (map_option (\<lambda>f. f buff) (cb_string callbacks)) d fd)" for k
  proof -
    obtain rv xs f1 where b: "read_buff env fd k = (rv, xs, f1)" by (metis prod_cases3)
    show ?thesis using b read_buff_rest [OF b] d by (auto intro!: served_call served_error serves_string)
  qed
  have int: "served d fd (case read_int env fd 0 k of (rv, v, fd) \<Rightarrow> if rv = -1 then Some (neg_errno fd, d, fd)
      else mp_call (map_option (\<lambda>f. f v) (cb_int callbacks)) d fd)" for k
  proof -
    obtain rv v f1 where b: "read_int env fd 0 k = (rv, v, f1)" by (metis prod_cases3)
    show ?thesis using b read_int_rest [OF b] d by (auto intro!: served_call served_error serves_int)
  qed
  have uint: "served d fd (case read_uint env fd 0 k of (rv, v, fd) \<Rightarrow> if rv = -1 then Some (neg_errno fd, d, fd)
      else mp_call (map_option (\<lambda>f. f v) (cb_uint callbacks)) d fd)" for k
  proof -
    obtain rv v f1 where b: "read_uint env fd 0 k = (rv, v, f1)" by (metis prod_cases3)
    show ?thesis using b read_uint_rest [OF b] d by (auto intro!: served_call served_error serves_uint)
  qed
  have containers: "served d fd (case read_uint env fd 0 k of (rv, v, fd) \<Rightarrow> if rv = -1 then Some (neg_errno fd, d, fd)
      else read_array rd (ucast v) callbacks d fd)"
    "served d fd (case read_uint env fd 0 k of (rv, v, fd) \<Rightarrow> if rv = -1 then Some (neg_errno fd, d, fd)
      else read_map rd (ucast v) callbacks d fd)" for k
  proof -
    obtain rv v f1 where b: "read_uint env fd 0 k = (rv, v, f1)" by (metis prod_cases3)
    note le = read_uint_rest [OF b]
    have bnd': "length (rf_rest f1) \<le> bnd" using le bnd by simp
    show "served d fd (case read_uint env fd 0 k of (rv, v, fd) \<Rightarrow> if rv = -1 then Some (neg_errno fd, d, fd)
        else read_array rd (ucast v) callbacks d fd)"
      "served d fd (case read_uint env fd 0 k of (rv, v, fd) \<Rightarrow> if rv = -1 then Some (neg_errno fd, d, fd)
        else read_map rd (ucast v) callbacks d fd)"
      using b le bnd' d by (auto intro!: served_error served_array [OF rd] served_map [OF rd])
  qed
  have calls: "served d fd (mp_call (cb_nil callbacks) d fd)"
    "served d fd (mp_call (map_option (\<lambda>f. f x) (cb_bool callbacks)) d fd)"
    "served d fd (Some (0, d, fd))" for x
    using d by (auto intro!: served_call serves_nil serves_bool served_error)
  show ?thesis
    unfolding read_switch_def by (simp only: if_split bin str int uint containers calls simp_thms)
qed

lemma served_value:
  assumes rd: "mp_reads good slots bnd rd" and d: "good d" "0 < slots d" and bnd: "length (rf_rest fd) \<le> bnd"
  shows "served d fd (read_value env rd callbacks ty d fd)"
proof -
  have calls: "served d fd (mp_call (map_option (\<lambda>f. f x) (cb_int callbacks)) d fd)" for x
    using d by (auto intro!: served_call serves_int)
  show ?thesis
    unfolding read_value_def
    by (simp only: if_split calls served_fixstr [OF d] served_switch [OF rd d bnd]
        served_map [OF rd d order.refl bnd] served_array [OF rd d order.refl bnd] simp_thms)
qed

text \<open>A nested value is only read after its container's type byte, so the depth is at most the number of bytes left.\<close>

lemma served_depth:
  assumes "length (rf_rest fd) < n" "good d" "0 < slots d"
  shows "served d fd (read_depth env callbacks n d fd)"
  using assms
proof (induction n arbitrary: d fd)
  case 0
  then show ?case by simp
next
  case (Suc n)
  obtain out f1 where r: "filestream_read 1 fd = (out, f1)" by fastforce
  note le = filestream_read_rest(1) [OF r]
  have served_mono: "served d f1 x \<Longrightarrow> served d fd x" for x
    using le unfolding served_def by fastforce
  show ?case
  proof (cases out)
    case None
    then show ?thesis
      using r le Suc.prems by (auto intro!: served_error)
  next
    case (Some xs)
    show ?thesis
    proof (cases xs)
      case Nil
      have "served d f1 (mp_call (map_option (\<lambda>f. f (ucast (0 :: u8))) (cb_int callbacks)) d f1)"
        using Suc.prems by (intro served_call serves_int) auto
      then show ?thesis
        using Some Nil r served_mono by (simp add: read_value_def MPF_defs)
    next
      case (Cons x ys)
      have lt: "length (rf_rest f1) < length (rf_rest fd)"
        using filestream_read_rest(2,3) [OF r Some] Cons by simp
      have "mp_reads good slots (length (rf_rest f1)) (read_depth env callbacks n)"
        unfolding mp_reads_def
      proof (intro allI impI)
        fix e g
        assume "good e" "0 < slots e" "length (rf_rest g) \<le> length (rf_rest f1)"
        then have "served e g (read_depth env callbacks n e g)"
          using lt Suc.prems(1) by (intro Suc.IH) auto
        then show "\<exists>rv d' fd'. read_depth env callbacks n e g = Some (rv, d', fd') \<and> good d' \<and>
            length (rf_rest fd') \<le> length (rf_rest g) \<and> (0 \<le> rv \<longrightarrow> slots e \<le> slots d' + 1)"
          unfolding served_def by blast
      qed
      then have "served d f1 (read_value env (read_depth env callbacks n) callbacks x d f1)"
        using Suc.prems by (intro served_value) auto
      then show ?thesis using Some Cons r served_mono by simp
    qed
  qed
qed

lemma served_read: "good d \<Longrightarrow> 0 < slots d \<Longrightarrow> served d fd (rmsgpack_read env callbacks d fd)"
  unfolding rmsgpack_read_def by (rule served_depth) auto

end

text \<open>Two readers that agree on short files, and do not lengthen them.\<close>

definition mp_agreed :: "RFILE \<Rightarrow> (int \<times> 'd \<times> RFILE) option \<Rightarrow> (int \<times> 'd \<times> RFILE) option \<Rightarrow> bool" where
  "mp_agreed fd r1 r2 \<longleftrightarrow>
     r1 = r2 \<and> (\<forall>rv d' fd'. r1 = Some (rv, d', fd') \<longrightarrow> length (rf_rest fd') \<le> length (rf_rest fd))"

definition mp_agree :: "nat \<Rightarrow> 'd mp_reader \<Rightarrow> 'd mp_reader \<Rightarrow> bool" where
  "mp_agree bnd rd1 rd2 \<longleftrightarrow> (\<forall>d fd. length (rf_rest fd) \<le> bnd \<longrightarrow> mp_agreed fd (rd1 d fd) (rd2 d fd))"

lemma agreed_refl: "length (rf_rest f1) \<le> length (rf_rest fd) \<Longrightarrow> mp_agreed fd (Some (rv, d, f1)) (Some (rv, d, f1))"
  by (simp add: mp_agreed_def)

lemma agreed_call: "length (rf_rest f1) \<le> length (rf_rest fd) \<Longrightarrow> mp_agreed fd (mp_call cb d f1) (mp_call cb d f1)"
  by (auto simp: mp_agreed_def mp_call_def split: option.splits bind_splits)

lemma agreed_if:
  "mp_agreed fd x x' \<Longrightarrow> mp_agreed fd y y' \<Longrightarrow>
     mp_agreed fd (if b then x else y) (if b then x' else y')"
  by simp

lemma agreed_repeat:
  assumes "mp_agree bnd rd1 rd2"
  shows "length (rf_rest fd) \<le> bnd \<Longrightarrow> mp_agreed fd (mp_repeat rd1 k d fd) (mp_repeat rd2 k d fd)"
proof (induction k arbitrary: d fd)
  case 0
  then show ?case by (simp add: mp_agreed_def)
next
  case (Suc k)
  have a: "mp_agreed fd (rd1 d fd) (rd2 d fd)" using assms Suc.prems by (simp add: mp_agree_def)
  show ?case
  proof (cases "rd1 d fd")
    case None
    then show ?thesis using a by (simp add: mp_agreed_def)
  next
    case (Some r)
    obtain rv d1 f1 where r: "r = (rv, d1, f1)" by (metis prod_cases3)
    have le: "length (rf_rest f1) \<le> length (rf_rest fd)" "rd2 d fd = Some r"
      using a Some r by (auto simp: mp_agreed_def)
    then have "mp_agreed f1 (mp_repeat rd1 k d1 f1) (mp_repeat rd2 k d1 f1)"
      using Suc by auto
    then show ?thesis using Some r le by (fastforce simp: mp_agreed_def)
  qed
qed

lemma agreed_container:
  assumes rd: "mp_agree bnd rd1 rd2"
    and le: "length (rf_rest f1) \<le> length (rf_rest fd)" "length (rf_rest f1) \<le> bnd"
  shows "mp_agreed fd
    (do { (rv, d, g) \<leftarrow> mp_call cb d f1; if rv < 0 then Some (rv, d, g) else mp_repeat rd1 k d g })
    (do { (rv, d, g) \<leftarrow> mp_call cb d f1; if rv < 0 then Some (rv, d, g) else mp_repeat rd2 k d g })"
proof (cases "mp_call cb d f1")
  case None
  then show ?thesis by (simp add: mp_agreed_def)
next
  case (Some r)
  obtain rv d1 g where r: "r = (rv, d1, g)" by (metis prod_cases3)
  then have g: "g = f1" using Some by (auto simp: mp_call_def split: option.splits bind_splits)
  have "mp_agreed f1 (mp_repeat rd1 k d1 f1) (mp_repeat rd2 k d1 f1)"
    by (rule agreed_repeat [OF rd le(2)])
  then show ?thesis using Some r g le by (fastforce simp: mp_agreed_def)
qed

lemma agreed_map:
  "mp_agree bnd rd1 rd2 \<Longrightarrow> length (rf_rest f1) \<le> length (rf_rest fd) \<Longrightarrow> length (rf_rest f1) \<le> bnd \<Longrightarrow>
     mp_agreed fd (read_map rd1 len callbacks d f1) (read_map rd2 len callbacks d f1)"
  unfolding read_map_def by (rule agreed_container)

lemma agreed_array:
  "mp_agree bnd rd1 rd2 \<Longrightarrow> length (rf_rest f1) \<le> length (rf_rest fd) \<Longrightarrow> length (rf_rest f1) \<le> bnd \<Longrightarrow>
     mp_agreed fd (read_array rd1 len callbacks d f1) (read_array rd2 len callbacks d f1)"
  unfolding read_array_def by (rule agreed_container)

lemma agreed_fixstr: "mp_agreed fd (read_fixstr env callbacks ty d fd) (read_fixstr env callbacks ty d fd)"
proof -
  obtain out f1 where r: "filestream_read (unat (ty - MPF_FIXSTR)) fd = (out, f1)" by fastforce
  show ?thesis
    using r filestream_read_rest(1) [OF r]
    by (cases out) (auto simp: read_fixstr_def Let_def intro!: agreed_call agreed_refl)
qed

lemma agreed_switch:
  assumes rd: "mp_agree bnd rd1 rd2" and bnd: "length (rf_rest fd) \<le> bnd"
  shows "mp_agreed fd (read_switch env rd1 callbacks ty d fd) (read_switch env rd2 callbacks ty d fd)"
proof -
  have buff: "mp_agreed fd (case read_buff env fd k of (rv, buff, fd) \<Rightarrow> if rv < 0 then Some (rv, d, fd)
      else mp_call (cb buff) d fd) (case read_buff env fd k of (rv, buff, fd) \<Rightarrow> if rv < 0 then Some (rv, d, fd)
      else mp_call (cb buff) d fd)" for k and cb :: "bytes \<Rightarrow> 'a callback option"
  proof -
    obtain rv xs f1 where b: "read_buff env fd k = (rv, xs, f1)" by (metis prod_cases3)
    show ?thesis using b read_buff_rest [OF b] by (auto intro!: agreed_call agreed_refl)
  qed
  have int: "mp_agreed fd (case read_int env fd 0 k of (rv, v, fd) \<Rightarrow> if rv = -1 then Some (neg_errno fd, d, fd)
      else mp_call (cb v) d fd) (case read_int env fd 0 k of (rv, v, fd) \<Rightarrow> if rv = -1 then Some (neg_errno fd, d, fd)
      else mp_call (cb v) d fd)" for k and cb :: "u64 \<Rightarrow> 'a callback option"
  proof -
    obtain rv v f1 where b: "read_int env fd 0 k = (rv, v, f1)" by (metis prod_cases3)
    show ?thesis using b read_int_rest [OF b] by (auto intro!: agreed_call agreed_refl)
  qed
  have uint: "mp_agreed fd (case read_uint env fd 0 k of (rv, v, fd) \<Rightarrow> if rv = -1 then Some (neg_errno fd, d, fd)
      else g v fd) (case read_uint env fd 0 k of (rv, v, fd) \<Rightarrow> if rv = -1 then Some (neg_errno fd, d, fd)
      else h v fd)" if "\<And>v f1. length (rf_rest f1) \<le> length (rf_rest fd) \<Longrightarrow> mp_agreed fd (g v f1) (h v f1)"
    for k and g h :: "u64 \<Rightarrow> RFILE \<Rightarrow> (int \<times> 'a \<times> RFILE) option"
  proof -
    obtain rv v f1 where b: "read_uint env fd 0 k = (rv, v, f1)" by (metis prod_cases3)
    show ?thesis using b read_uint_rest [OF b] that by (auto intro!: agreed_refl)
  qed
  show ?thesis
    unfolding read_switch_def
    by (intro agreed_if agreed_refl agreed_call order.refl buff int uint agreed_map [OF rd] agreed_array [OF rd])
      (assumption | erule order.trans, rule bnd)+
qed

lemma agreed_value:
  assumes rd: "mp_agree bnd rd1 rd2" and bnd: "length (rf_rest fd) \<le> bnd"
  shows "mp_agreed fd (read_value env rd1 callbacks ty d fd) (read_value env rd2 callbacks ty d fd)"
  unfolding read_value_def
  by (intro agreed_if agreed_call order.refl agreed_fixstr agreed_map [OF rd] agreed_array [OF rd]
      agreed_switch [OF rd] bnd)

lemma agreed_depth:
  "length (rf_rest fd) < n \<Longrightarrow> length (rf_rest fd) < m \<Longrightarrow>
     mp_agreed fd (read_depth env callbacks n d fd) (read_depth env callbacks m d fd)"
proof (induction n arbitrary: m d fd)
  case 0
  then show ?case by simp
next
  case (Suc n)
  then obtain k where m: "m = Suc k" by (cases m) auto
  obtain out f1 where r: "filestream_read 1 fd = (out, f1)" by fastforce
  note le = filestream_read_rest(1) [OF r]
  have mono: "mp_agreed f1 x y \<Longrightarrow> mp_agreed fd x y" for x y :: "(int \<times> 'a \<times> RFILE) option"
    using le unfolding mp_agreed_def by fastforce
  show ?case
  proof (cases out)
    case None
    then show ?thesis using r le by (simp add: m agreed_refl)
  next
    case (Some xs)
    show ?thesis
    proof (cases xs)
      case Nil
      then show ?thesis
        using Some r le by (simp add: m read_value_def MPF_defs agreed_call)
    next
      case (Cons x ys)
      have lt: "length (rf_rest f1) < length (rf_rest fd)"
        using filestream_read_rest(2,3) [OF r Some] Cons by simp
      have "mp_agree (length (rf_rest f1)) (read_depth env callbacks n) (read_depth env callbacks k)"
        unfolding mp_agree_def using Suc.prems lt m by (intro allI impI Suc.IH) auto
      then have "mp_agreed f1 (read_value env (read_depth env callbacks n) callbacks x d f1)
          (read_value env (read_depth env callbacks k) callbacks x d f1)"
        by (rule agreed_value) simp
      then show ?thesis using Some Cons r mono by (simp add: m)
    qed
  qed
qed

text \<open>The recursion of the source, without fuel.\<close>

lemma rmsgpack_read_eq:
  "rmsgpack_read env callbacks d fd =
     (case filestream_read 1 fd of
        (None, fd) \<Rightarrow> Some (neg_errno fd, d, fd)
      | (Some xs, fd) \<Rightarrow>
          read_value env (rmsgpack_read env callbacks) callbacks (if xs = [] then 0 else hd xs) d fd)"
proof -
  obtain out f1 where r: "filestream_read 1 fd = (out, f1)" by fastforce
  note le = filestream_read_rest(1) [OF r]
  show ?thesis
  proof (cases out)
    case None
    then show ?thesis using r by (simp add: rmsgpack_read_def)
  next
    case (Some xs)
    show ?thesis
    proof (cases xs)
      case Nil
      then show ?thesis using Some r by (simp add: rmsgpack_read_def read_value_def MPF_defs)
    next
      case (Cons x ys)
      have lt: "length (rf_rest f1) < length (rf_rest fd)"
        using filestream_read_rest(2,3) [OF r Some] Cons by simp
      have "mp_agree (length (rf_rest f1)) (read_depth env callbacks (length (rf_rest fd)))
          (rmsgpack_read env callbacks)"
        unfolding mp_agree_def rmsgpack_read_def using lt by (intro allI impI agreed_depth) auto
      then have "mp_agreed f1 (read_value env (read_depth env callbacks (length (rf_rest fd))) callbacks x d f1)
          (read_value env (rmsgpack_read env callbacks) callbacks x d f1)"
        by (rule agreed_value) simp
      then show ?thesis using Some Cons r by (simp add: rmsgpack_read_def mp_agreed_def)
    qed
  qed
qed

section \<open>Files whose calls work\<close>

lemma rmsgpack_emit_works:
  "rf_works fd \<Longrightarrow> rmsgpack_emit cs written fd = (written, rf_put (concat cs) fd)"
  by (induction cs arbitrary: fd) (simp_all add: filestream_write_works rf_put_put)

lemma filestream_read_prefix:
  assumes "rf_works fd" "rf_rest fd = bs @ rest" "k = length bs"
  shows "\<exists>fd'. filestream_read k fd = (Some bs, fd') \<and> rf_works fd' \<and> rf_rest fd' = rest"
  using filestream_read_works [OF assms(1), of k] assms(2,3) by auto

lemma u64_of_unat:
  "(ucast (x :: u16) :: u64) = of_nat (unat x)" "(ucast (y :: u32) :: u64) = of_nat (unat y)"
  "(ucast (z :: u8) :: u64) = of_nat (unat z)"
  by (simp_all add: word_unat_eq_iff)

lemma msb_value_one: "msb_value [b] = unat b"
  by (simp add: msb_value_def)

lemma mp_local_bytes:
  assumes "length (mp_junk env) = 8" "length bs = k"
  shows "k = 1 \<Longrightarrow> ucast (mp_local env bs) = (of_nat (msb_value bs) :: u8)"
    and "k = 2 \<Longrightarrow> unat (swap_if_little16 (ucast (mp_local env bs))) = msb_value bs"
    and "k = 4 \<Longrightarrow> unat (swap_if_little32 (ucast (mp_local env bs))) = msb_value bs"
    and "k = 8 \<Longrightarrow> unat (swap_if_little64 (mp_local env bs)) = msb_value bs"
proof -
  let ?xs = "bs @ drop (length bs) (mp_junk env)"
  show "k = 1 \<Longrightarrow> ucast (mp_local env bs) = (of_nat (msb_value bs) :: u8)"
  proof -
    assume k: "k = 1"
    then obtain b where b: "bs = [b]" using assms(2) by (cases bs) auto
    have "length ?xs = 8" using assms k by simp
    from le_bytes_ucast(4) [OF this] show ?thesis by (simp add: mp_local_def b msb_value_one)
  qed
  show "k = 2 \<Longrightarrow> unat (swap_if_little16 (ucast (mp_local env bs))) = msb_value bs"
    using le_bytes_ucast(1) [of ?xs] assms by (simp add: unat_swap16 mp_local_def)
  show "k = 4 \<Longrightarrow> unat (swap_if_little32 (ucast (mp_local env bs))) = msb_value bs"
    using le_bytes_ucast(2) [of ?xs] assms by (simp add: unat_swap32 mp_local_def)
  show "k = 8 \<Longrightarrow> unat (swap_if_little64 (mp_local env bs)) = msb_value bs"
    using le_bytes_ucast(3) [of ?xs] assms by (simp add: unat_swap64 mp_local_def)
qed

lemma read_uint_works:
  assumes "rf_works fd" "rf_rest fd = bs @ rest" "length bs = k" "k \<in> {1, 2, 4, 8}" "length (mp_junk env) = 8"
  shows "\<exists>fd'. read_uint env fd out k = (0, of_nat (msb_value bs), fd') \<and> rf_works fd' \<and> rf_rest fd' = rest"
proof -
  obtain fd' where r: "filestream_read k fd = (Some bs, fd')" "rf_works fd'" "rf_rest fd' = rest"
    using filestream_read_prefix [OF assms(1,2)] assms(3) by auto
  note b = mp_local_bytes [OF assms(5,3)]
  have small: "msb_value bs < 256" if "k = 1"
    using le_value_bound [of "rev bs"] assms(3) that by (simp add: msb_value_def)
  have w: "(swap_if_little64 (mp_local env bs)) = of_nat (msb_value bs)" if "k = 8"
    using b(4) [OF that] by (metis of_nat_unat ucast_id)
  show ?thesis
    using assms(4) r b small w by (auto simp: read_uint_def Let_def u64_of_unat unat_of_nat)
qed

lemma read_int_works:
  assumes "rf_works fd" "rf_rest fd = bs @ rest" "length bs = k" "k \<in> {1, 2, 4, 8}" "length (mp_junk env) = 8"
  shows "\<exists>fd'. read_int env fd out k =
      (0, (if k = 1 then scast (of_nat (msb_value bs) :: u8) else if k = 2 then scast (of_nat (msb_value bs) :: u16)
           else if k = 4 then scast (of_nat (msb_value bs) :: u32) else of_nat (msb_value bs)), fd') \<and>
    rf_works fd' \<and> rf_rest fd' = rest"
proof -
  obtain fd' where r: "filestream_read k fd = (Some bs, fd')" "rf_works fd'" "rf_rest fd' = rest"
    using filestream_read_prefix [OF assms(1,2)] assms(3) by auto
  note b = mp_local_bytes [OF assms(5,3)]
  have w: "k = 2 \<Longrightarrow> swap_if_little16 (ucast (mp_local env bs)) = of_nat (msb_value bs)"
    "k = 4 \<Longrightarrow> swap_if_little32 (ucast (mp_local env bs)) = of_nat (msb_value bs)"
    "k = 8 \<Longrightarrow> swap_if_little64 (mp_local env bs) = of_nat (msb_value bs)"
    using b(2-4) by (metis of_nat_unat ucast_id)+
  show ?thesis
    using assms(4) r b(1) w by (auto simp: read_int_def Let_def)
qed

lemma read_buff_works:
  assumes "rf_works fd" "rf_rest fd = bs @ xs @ rest" "length bs = k" "k \<in> {1, 2, 4}" "msb_value bs = length xs"
    "length (mp_junk env) = 8" "\<And>n. mp_alloc env n"
  shows "\<exists>fd'. read_buff env fd k = (0, xs, fd') \<and> rf_works fd' \<and> rf_rest fd' = rest"
proof -
  obtain f1 where u: "read_uint env fd 0 k = (0, of_nat (length xs), f1)" "rf_works f1" "rf_rest f1 = xs @ rest"
    using read_uint_works [OF assms(1,2,3) _ assms(6), of 0] assms(4,5) by auto
  have "msb_value bs < 256 ^ 4"
  proof -
    have "msb_value bs < 256 ^ k" using le_value_bound [of "rev bs"] assms(3) by (simp add: msb_value_def)
    also have "\<dots> \<le> 256 ^ 4" using assms(4) by (intro power_increasing) auto
    finally show ?thesis .
  qed
  then have n: "unat (of_nat (length xs) :: u64) = length xs" using assms(5) by (simp add: unat_of_nat)
  obtain f2 where "filestream_read (length xs) f1 = (Some xs, f2)" "rf_works f2" "rf_rest f2 = rest"
    using filestream_read_prefix [OF u(2,3)] by blast
  then show ?thesis using u assms(7) n by (simp add: read_buff_def)
qed

end
