(* ===== verification/Dom_Reader.thy ===== *)
theory Dom_Reader
  imports Msgpack_Dom "HOL-Library.Sublist"
begin

text \<open>
  What the tree reader of \<^verbatim>\<open>libretro-db/rmsgpack_dom.c\<close> guarantees: the invariant of its stack of
  pointers, as a client of the MessagePack reader, and the round trips with the writer.
\<close>

section \<open>Places in a tree\<close>

fun dom_at :: "rmsgpack_dom_value \<Rightarrow> dom_slot list \<Rightarrow> rmsgpack_dom_value option" where
  "dom_at t [] = Some t"
| "dom_at t (s # p) = Option.bind (dom_child t s) (\<lambda>c. dom_at c p)"

lemma dom_child_set:
  assumes "dom_child t s = Some c"
  shows "dom_child (dom_set_child t s v) s = Some v"
    and "s' \<noteq> s \<Longrightarrow> dom_child (dom_set_child t s v) s' = dom_child t s'"
proof -
  show "dom_child (dom_set_child t s v) s = Some v"
    using assms by (cases t; cases s) (auto split: if_splits)
  show "dom_child (dom_set_child t s v) s' = dom_child t s'" if "s' \<noteq> s"
    using assms that by (cases t; cases s; cases s') (auto simp: nth_list_update split: if_splits)
qed

lemma dom_set_child_twice:
  "dom_child t s = Some c \<Longrightarrow> dom_set_child (dom_set_child t s v) s w = dom_set_child t s w"
  by (cases t; cases s) (auto split: if_splits)

lemma dom_store_at: "dom_at t p \<noteq> None \<longleftrightarrow> (\<exists>t'. dom_store p v t = Some t')"
proof (induction p arbitrary: t)
  case (Cons s p)
  then show ?case by (cases "dom_child t s") (auto split: bind_splits)
qed simp

text \<open>Storing below a place that was just stored.\<close>

lemma dom_store_below:
  "dom_store p v t = Some t' \<Longrightarrow>
     dom_store (p @ q) w t' = Option.bind (dom_store q w v) (\<lambda>v'. dom_store p v' t)"
proof (induction p arbitrary: t t')
  case Nil
  then show ?case by (cases "dom_store q w t'") auto
next
  case (Cons s p)
  from Cons.prems obtain c c' where c: "dom_child t s = Some c" "dom_store p v c = Some c'"
    and t': "t' = dom_set_child t s c'" by (auto split: bind_splits)
  show ?case
    using Cons.IH [OF c(2)] c
    by (cases "dom_store q w v") (auto simp: t' dom_child_set(1) dom_set_child_twice [OF c(1)] split: bind_splits)
qed

lemma dom_at_store:
  "dom_store p v t = Some t' \<Longrightarrow> dom_at t' (p @ q) = dom_at v q"
proof (induction p arbitrary: t t')
  case (Cons s p)
  then show ?case by (auto simp: dom_child_set(1) split: bind_splits)
qed simp

lemma dom_at_store_parallel:
  "dom_store p v t = Some t' \<Longrightarrow> p \<parallel> q \<Longrightarrow> dom_at t' q = dom_at t q"
proof (induction p arbitrary: t t' q)
  case Nil
  then show ?case by simp
next
  case (Cons s p)
  from Cons.prems(2) obtain s' q' where q: "q = s' # q'" by (cases q) (auto simp: parallel_def)
  from Cons.prems(1) obtain c c' where c: "dom_child t s = Some c" "dom_store p v c = Some c'"
    and t': "t' = dom_set_child t s c'" by (auto split: bind_splits)
  show ?case
  proof (cases "s' = s")
    case True
    then have "p \<parallel> q'" using Cons.prems(2) q by (auto simp: parallel_def)
    then show ?thesis using Cons.IH [OF c(2)] c True by (simp add: q t' dom_child_set(1))
  next
    case False
    then show ?thesis using c by (simp add: q t' dom_child_set(2))
  qed
qed

section \<open>The stack of the reader\<close>

text \<open>Every pointer on the stack is to a place in the tree, and no two overlap.\<close>

definition dom_reader_ok :: "dom_reader_state \<Rightarrow> bool" where
  "dom_reader_ok s \<longleftrightarrow>
     (\<exists>t. dr_root s = Some t \<and> (\<forall>p \<in> set (dr_stack s). dom_at t p \<noteq> None)) \<and>
     sorted_wrt (\<parallel>) (dr_stack s) \<and> length (dr_stack s) \<le> MAX_DEPTH \<and> \<not> dr_broken s"

definition dom_reader_slots :: "dom_reader_state \<Rightarrow> nat" where
  "dom_reader_slots s = length (dr_stack s)"

text \<open>A pop and a store through the pointer keep the stack in order.\<close>

lemma dom_pop_assign:
  assumes ok: "dom_reader_ok s" and slot: "0 < dom_reader_slots s"
  shows "\<exists>p ps t t'. dr_stack s = p # ps \<and> dr_root s = Some t \<and>
    dom_reader_state_pop s = Some (p, s\<lparr>dr_stack := ps\<rparr>) \<and>
    dom_assign p v (s\<lparr>dr_stack := ps\<rparr>) = Some (s\<lparr>dr_root := Some t', dr_stack := ps\<rparr>) \<and>
    dom_store p v t = Some t' \<and> dom_reader_ok (s\<lparr>dr_root := Some t', dr_stack := ps\<rparr>) \<and>
    (\<forall>q \<in> set ps. p \<parallel> q)"
proof -
  obtain p ps where st: "dr_stack s = p # ps"
    using slot by (cases "dr_stack s") (auto simp: dom_reader_slots_def)
  obtain t where t: "dr_root s = Some t" "\<forall>q \<in> set (p # ps). dom_at t q \<noteq> None"
    using ok st by (auto simp: dom_reader_ok_def)
  then obtain t' where t': "dom_store p v t = Some t'" using dom_store_at by fastforce
  have par: "\<forall>q \<in> set ps. p \<parallel> q" "sorted_wrt (\<parallel>) ps"
    using ok st by (auto simp: dom_reader_ok_def)
  have "\<forall>q \<in> set ps. dom_at t' q \<noteq> None"
    using t par(1) dom_at_store_parallel [OF t'] by auto
  then have "dom_reader_ok (s\<lparr>dr_root := Some t', dr_stack := ps\<rparr>)"
    using ok st par(2) by (auto simp: dom_reader_ok_def)
  then show ?thesis
    using st t t' par(1) by (auto simp: dom_reader_state_pop_def dom_assign_def)
qed

lemma dom_scalar_serves: "mp_serves dom_reader_ok dom_reader_slots 0 (Some (dom_read_scalar v))"
  unfolding mp_serves_def
proof (intro allI impI)
  fix s fd
  assume "dom_reader_ok s" "0 < dom_reader_slots s"
  from dom_pop_assign [OF this, of v]
  show "\<exists>rv s'. mp_call (Some (dom_read_scalar v)) s fd = Some (rv, s', fd) \<and> dom_reader_ok s' \<and>
      (0 \<le> rv \<longrightarrow> dom_reader_slots s + 0 \<le> dom_reader_slots s' + 1)"
    by (auto simp: mp_call_def dom_read_scalar_def dom_reader_slots_def)
qed

text \<open>Pushing new places below a popped one.\<close>

lemma dom_push_all_eq:
  "length (dr_stack s) + length ps \<le> MAX_DEPTH \<Longrightarrow> dom_push_all ps s = Some (0, s\<lparr>dr_stack := rev ps @ dr_stack s\<rparr>)"
  by (induction ps arbitrary: s) (auto simp: dom_reader_state_push_def MAX_DEPTH_def STACK_ENTRIES_def)

lemma dom_push_all_over:
  "length (dr_stack s) \<le> MAX_DEPTH \<Longrightarrow> MAX_DEPTH < length (dr_stack s) + length ps \<Longrightarrow>
     dom_push_all ps s = Some (-12, s\<lparr>dr_stack := rev (take (MAX_DEPTH - length (dr_stack s)) ps) @ dr_stack s\<rparr>)"
proof (induction ps arbitrary: s)
  case (Cons p ps)
  show ?case
  proof (cases "length (dr_stack s) = MAX_DEPTH")
    case True
    then show ?thesis by (simp add: dom_reader_state_push_def)
  next
    case False
    then have "MAX_DEPTH - length (dr_stack s) = Suc (MAX_DEPTH - length (p # dr_stack s))"
      using Cons.prems by simp
    then show ?thesis using False Cons.prems Cons.IH [of "s\<lparr>dr_stack := p # dr_stack s\<rparr>"]
      by (simp add: dom_reader_state_push_def MAX_DEPTH_def STACK_ENTRIES_def)
  qed
qed simp

lemma dom_push_all_cases:
  assumes "length (dr_stack s) \<le> MAX_DEPTH"
  shows "\<exists>rv k. dom_push_all ps s = Some (rv, s\<lparr>dr_stack := rev (take k ps) @ dr_stack s\<rparr>) \<and>
    (0 \<le> rv \<longrightarrow> length ps \<le> k) \<and> length (dr_stack s) + length (take k ps) \<le> MAX_DEPTH"
proof (cases "length (dr_stack s) + length ps \<le> MAX_DEPTH")
  case True
  then show ?thesis by (intro exI [of _ 0] exI [of _ "length ps"]) (simp add: dom_push_all_eq)
next
  case False
  then show ?thesis
    using assms by (intro exI [of _ "-12"] exI [of _ "MAX_DEPTH - length (dr_stack s)"])
      (auto simp: dom_push_all_over)
qed

lemma parallel_below: "p \<parallel> q \<Longrightarrow> (p @ r) \<parallel> q"
  by (auto simp: parallel_def dest: append_prefixD) (metis append_prefixD prefix_same_cases prefixI)

lemma sorted_parallel_slots:
  "distinct ss \<Longrightarrow> sorted_wrt (\<parallel>) (map (\<lambda>s. p @ [s]) ss)"
  by (induction ss) (auto simp: parallel_def)

lemma dom_push_slots_ok:
  assumes ok: "dom_reader_ok (s\<lparr>dr_root := Some t', dr_stack := ps\<rparr>)" and par: "\<forall>q \<in> set ps. p \<parallel> q"
    and t': "dom_store p v t = Some t'" and child: "\<forall>c \<in> set ss. dom_child v c \<noteq> None" and d: "distinct ss"
    and stk: "stk = ps"
  shows "\<exists>rv s'. dom_push_all (map (\<lambda>c. p @ [c]) ss) (s\<lparr>dr_root := Some t', dr_stack := stk\<rparr>) = Some (rv, s') \<and>
    dom_reader_ok s' \<and> (0 \<le> rv \<longrightarrow> length ps + length ss \<le> dom_reader_slots s')"
proof -
  let ?s = "s\<lparr>dr_root := Some t', dr_stack := ps\<rparr>"
  obtain rv k where k: "dom_push_all (map (\<lambda>c. p @ [c]) ss) ?s =
      Some (rv, ?s\<lparr>dr_stack := rev (take k (map (\<lambda>c. p @ [c]) ss)) @ ps\<rparr>)"
    "0 \<le> rv \<longrightarrow> length ss \<le> k" "length ps + length (take k ss) \<le> MAX_DEPTH"
    using dom_push_all_cases [of ?s "map (\<lambda>c. p @ [c]) ss"] ok
    by (auto simp: dom_reader_ok_def take_map)
  let ?new = "map (\<lambda>c. p @ [c]) (rev (take k ss))"
  have new: "rev (take k (map (\<lambda>c. p @ [c]) ss)) = ?new" by (simp add: take_map rev_map)
  have "sorted_wrt (\<parallel>) ?new" using d by (intro sorted_parallel_slots) simp
  moreover have "\<forall>a \<in> set ?new. \<forall>q \<in> set ps. a \<parallel> q" using par by (auto intro: parallel_below)
  moreover have "\<forall>a \<in> set ?new. dom_at t' a \<noteq> None"
    using child dom_at_store [OF t'] by (auto dest: in_set_takeD)
  ultimately have "dom_reader_ok (?s\<lparr>dr_stack := ?new @ ps\<rparr>)"
    using ok k(3) by (auto simp: dom_reader_ok_def sorted_wrt_append)
  moreover have "0 \<le> rv \<longrightarrow> length ps + length ss \<le> length (?new @ ps)" using k(2) by auto
  ultimately show ?thesis using k(1) new stk by (auto simp: dom_reader_slots_def)
qed

lemma dom_container_serves:
  assumes "unat len \<le> length ss" "distinct ss" "\<forall>c \<in> set ss. dom_child v c \<noteq> None"
    and f: "\<And>s. f s = do { (p, s) \<leftarrow> dom_reader_state_pop s; s \<leftarrow> dom_assign p v s;
       dom_push_all (map (\<lambda>c. p @ [c]) ss) s }"
  shows "mp_serves dom_reader_ok dom_reader_slots (length ss) (Some f)"
  unfolding mp_serves_def
proof (intro allI impI)
  fix s fd
  assume s: "dom_reader_ok s" "0 < dom_reader_slots s"
  obtain p ps t t' where p: "dr_stack s = p # ps" "dom_reader_state_pop s = Some (p, s\<lparr>dr_stack := ps\<rparr>)"
    "dom_assign p v (s\<lparr>dr_stack := ps\<rparr>) = Some (s\<lparr>dr_root := Some t', dr_stack := ps\<rparr>)"
    "dom_store p v t = Some t'" "dom_reader_ok (s\<lparr>dr_root := Some t', dr_stack := ps\<rparr>)" "\<forall>q \<in> set ps. p \<parallel> q"
    using dom_pop_assign [OF s, of v] by blast
  obtain rv s' where q: "dom_push_all (map (\<lambda>c. p @ [c]) ss) (s\<lparr>dr_root := Some t', dr_stack := ps\<rparr>) = Some (rv, s')"
    "dom_reader_ok s'" "0 \<le> rv \<longrightarrow> length ps + length ss \<le> dom_reader_slots s'"
    using dom_push_slots_ok [OF p(5,6,4) assms(3,2) refl] by blast
  show "\<exists>rv s'. mp_call (Some f) s fd = Some (rv, s', fd) \<and> dom_reader_ok s' \<and>
      (0 \<le> rv \<longrightarrow> dom_reader_slots s + length ss \<le> dom_reader_slots s' + 1)"
    using p(1-3) q by (auto simp: mp_call_def f dom_reader_slots_def)
qed

text \<open>The slots of a map and of an array, in the order in which they are pushed.\<close>

definition map_slots :: "nat \<Rightarrow> dom_slot list" where
  "map_slots n = concat (map (\<lambda>i. [Val i, Key i]) [0..<n])"

definition array_slots :: "nat \<Rightarrow> dom_slot list" where
  "array_slots n = map Item [0..<n]"

lemma map_slots_rec: "map_slots 0 = []" "map_slots (Suc n) = map_slots n @ [Val n, Key n]"
  by (simp_all add: map_slots_def)

lemma map_slots_simps [simp]:
  "length (map_slots n) = 2 * n" "set (map_slots n) = Val ` {..<n} \<union> Key ` {..<n}"
  by (induction n) (auto simp: map_slots_rec lessThan_Suc)

lemma distinct_map_slots: "distinct (map_slots n)"
  by (induction n) (auto simp: map_slots_rec)

lemma array_slots_simps [simp]:
  "length (array_slots n) = n" "set (array_slots n) = Item ` {..<n}" "distinct (array_slots n)"
  by (auto simp: array_slots_def distinct_map inj_on_def)

lemma dom_read_map_start_eq:
  assumes "\<And>n. mp_alloc env n"
  shows "dom_read_map_start env len s = do { (p, s) \<leftarrow> dom_reader_state_pop s;
     s \<leftarrow> dom_assign p (RDT_MAP (replicate (unat len) (RDT_NULL, RDT_NULL))) s;
     dom_push_all (map (\<lambda>c. p @ [c]) (map_slots (unat len))) s }"
  using assms by (simp add: dom_read_map_start_def map_slots_def map_concat comp_def)

lemma dom_read_array_start_eq:
  assumes "\<And>n. mp_alloc env n"
  shows "dom_read_array_start env len s = do { (p, s) \<leftarrow> dom_reader_state_pop s;
     s \<leftarrow> dom_assign p (RDT_ARRAY (replicate (unat len) RDT_NULL)) s;
     dom_push_all (map (\<lambda>c. p @ [c]) (array_slots (unat len))) s }"
  using assms by (simp add: dom_read_array_start_def array_slots_def comp_def)

text \<open>With enough memory the tree reader is a client of the MessagePack reader.\<close>

definition roomy :: "mp_env \<Rightarrow> mp_env" where
  "roomy env = env\<lparr>mp_alloc := \<lambda>_. True\<rparr>"

interpretation dom_reader: msgpack_client "dom_reader_callbacks (roomy env)" dom_reader_ok dom_reader_slots
proof unfold_locales
  have a: "\<And>n. mp_alloc (roomy env) n" by (simp add: roomy_def)
  show "mp_serves dom_reader_ok dom_reader_slots (2 * unat len)
      (map_option (\<lambda>f. f len) (cb_map_start (dom_reader_callbacks (roomy env))))" for len
  proof -
    have "\<forall>c \<in> set (map_slots (unat len)). dom_child (RDT_MAP (replicate (unat len) (RDT_NULL, RDT_NULL))) c \<noteq> None"
      by auto
    from dom_container_serves [OF _ distinct_map_slots this dom_read_map_start_eq [OF a], of len]
    show ?thesis by (simp add: dom_reader_callbacks_def)
  qed
  show "mp_serves dom_reader_ok dom_reader_slots (unat len)
      (map_option (\<lambda>f. f len) (cb_array_start (dom_reader_callbacks (roomy env))))" for len
  proof -
    have "\<forall>c \<in> set (array_slots (unat len)). dom_child (RDT_ARRAY (replicate (unat len) RDT_NULL)) c \<noteq> None"
      by auto
    from dom_container_serves [OF _ array_slots_simps(3) this dom_read_array_start_eq [OF a], of len]
    show ?thesis by (simp add: dom_reader_callbacks_def)
  qed
qed (simp_all add: dom_reader_callbacks_def dom_read_nil_def dom_read_bool_def dom_read_int_def dom_read_uint_def
    dom_read_string_def dom_read_bin_def dom_scalar_serves)

text \<open>C23. Reading a tree is safe whatever the file holds: with enough memory and an initialised \<open>out\<close>, for any bytes
  and any behaviour of the file calls the reader returns, without leaving its stack of 128 pointers
  or writing outside the tree, and \<open>out\<close> is a value afterwards.\<close>

theorem dom_read_safe:
  "\<exists>rv out' fd'. rmsgpack_dom_read (env\<lparr>mp_alloc := \<lambda>_. True\<rparr>) (Some out) fd = Some (rv, Some out', fd')"
proof -
  let ?s = "\<lparr>dr_root = Some out, dr_stack = [[]], dr_broken = False\<rparr>"
  have "dom_reader_ok ?s" "0 < dom_reader_slots ?s"
    by (simp_all add: dom_reader_ok_def dom_reader_slots_def MAX_DEPTH_def)
  from dom_reader.served_read [OF this, of fd "env\<lparr>mp_alloc := \<lambda>_. True\<rparr>" env]
  show ?thesis
    by (auto simp: dom_reader.served_def rmsgpack_dom_read_def dom_reader_ok_def roomy_def)
qed

end
