(* ===== verification/Dom_Roundtrip.thy ===== *)
theory Dom_Roundtrip
  imports Dom_Reader
begin

text \<open>
  Reading back what the tree writer of \<^verbatim>\<open>libretro-db/rmsgpack_dom.c\<close> wrote: value by value the reader gets
  the value that was encoded, and the items of every container land in its slots from the last to the
  first, because the slots wait on a stack.
\<close>

section \<open>Reading what was written\<close>

lemma read_head:
  assumes "rf_works fd" "rf_rest fd = b # bs"
  shows "\<exists>f1. rmsgpack_read env cbs d fd = read_value env (rmsgpack_read env cbs) cbs b d f1 \<and>
    rf_works f1 \<and> rf_rest f1 = bs"
proof -
  obtain f1 where "filestream_read 1 fd = (Some [b], f1)" "rf_works f1" "rf_rest f1 = bs"
    using filestream_read_prefix [OF assms(1), of "[b]" bs 1] assms(2) by auto
  then show ?thesis by (subst rmsgpack_read_eq) auto
qed

lemma read_nil:
  assumes "rf_works fd" "rf_rest fd = 0xc0 # rest"
  shows "\<exists>f'. rmsgpack_read env cbs d fd = mp_call (cb_nil cbs) d f' \<and> rf_works f' \<and> rf_rest f' = rest"
  using read_head [OF assms, of env cbs d] by (auto simp: read_value_def read_switch_def MPF_defs)

lemma read_bool:
  assumes "rf_works fd" "rf_rest fd = (if b = 0 then 0xc2 else 0xc3) # rest"
  shows "\<exists>f'. rmsgpack_read env cbs d fd =
      mp_call (map_option (\<lambda>f. f (if b = 0 then 0 else 1)) (cb_bool cbs)) d f' \<and> rf_works f' \<and> rf_rest f' = rest"
  using read_head [OF assms, of env cbs d] by (auto simp: read_value_def read_switch_def MPF_defs split: if_splits)

lemma read_uint_value:
  assumes "rf_works fd" "rf_rest fd = mp_uint u @ rest" "length (mp_junk env) = 8"
  shows "\<exists>f'. rmsgpack_read env cbs d fd = mp_call (map_option (\<lambda>f. f u) (cb_uint cbs)) d f' \<and>
    rf_works f' \<and> rf_rest f' = rest"
proof -
  have tagged: ?thesis if k: "k \<in> {1, 2, 4, 8}" and b: "b \<in> {0xcc, 0xcd, 0xce, 0xcf}" "2 ^ unat (b - 0xcc) = k"
    and u: "mp_uint u = b # msb_bytes k (unat u)" "unat u < 256 ^ k" for k b
  proof -
    obtain f1 where h: "rmsgpack_read env cbs d fd = read_value env (rmsgpack_read env cbs) cbs b d f1"
      "rf_works f1" "rf_rest f1 = msb_bytes k (unat u) @ rest"
      using read_head [OF assms(1), of b "msb_bytes k (unat u) @ rest" env cbs d] assms(2) u(1) by auto
    obtain f2 where "read_uint env f1 0 k = (0, u, f2)" "rf_works f2" "rf_rest f2 = rest"
      using read_uint_works [OF h(2,3) _ k assms(3), of 0] u(2) by (auto simp: msb_value_msb_bytes)
    then show ?thesis
      using h(1) b by (auto simp: read_value_def read_switch_def MPF_defs)
  qed
  note u = mp_uint_def Let_def
  consider "unat u < 256" | "256 \<le> unat u" "unat u < 65536" | "65536 \<le> unat u" "unat u < 4294967296" |
    "4294967296 \<le> unat u" by linarith
  then show ?thesis
  proof cases
    case 1
    show ?thesis by (rule tagged [of 1 "0xcc"]) (use 1 in \<open>simp_all add: u\<close>)
  next
    case 2
    show ?thesis by (rule tagged [of 2 "0xcd"]) (use 2 in \<open>simp_all add: u\<close>)
  next
    case 3
    show ?thesis by (rule tagged [of 4 "0xce"]) (use 3 in \<open>simp_all add: u\<close>)
  next
    case 4
    show ?thesis by (rule tagged [of 8 "0xcf"]) (use 4 unat_u64 [of u] in \<open>simp_all add: u\<close>)
  qed
qed

lemma scast_ucast_fits:
  "-128 \<le> sint (i :: u64) \<Longrightarrow> sint i < 128 \<Longrightarrow> scast (ucast i :: u8) = i"
  "-32768 \<le> sint i \<Longrightarrow> sint i < 32768 \<Longrightarrow> scast (ucast i :: u16) = i"
  "-2147483648 \<le> sint i \<Longrightarrow> sint i < 2147483648 \<Longrightarrow> scast (ucast i :: u32) = i"
  using fits_signed [of i] by auto

text \<open>The type bytes below 0x80 and above 0xdf are the value themselves.\<close>

lemma fixint_small:
  assumes "0 \<le> sint (i :: u64)" "sint i < 128"
  shows "(ucast i :: u8) < 0x80" "ucast (ucast i :: u8) = i"
proof -
  define n where "n = nat (sint i)"
  have n: "n < 128" "sint i = int n" using assms by (auto simp: n_def)
  have "word_of_int (sint i) = (word_of_int (int n) :: u64)" by (simp add: n(2))
  then have i: "i = of_nat n" by simp
  have u: "unat i = n" unfolding i using n(1) by (simp add: unat_of_nat)
  show "ucast (ucast i :: u8) = i" using fits_unsigned(3) [of i] n u by simp
  have "unat (ucast i :: u8) = n" using n u by (simp add: unsigned_ucast_eq take_bit_nat_def)
  then show "(ucast i :: u8) < 0x80" using n by (simp add: word_less_nat_alt)
qed

lemma fixint_negative_byte:
  "k < 16 \<Longrightarrow> (0xdf :: u8) < ucast (- of_nat (Suc k) :: u64) \<and>
     ucast (ucast (- of_nat (Suc k) :: u64) :: u8) - 0xff - 1 = (- of_nat (Suc k) :: u64)"
  "k < 15 \<Longrightarrow> (0xdf :: u8) < ucast (- of_nat (k + 17) :: u64) \<and>
     ucast (ucast (- of_nat (k + 17) :: u64) :: u8) - 0xff - 1 = (- of_nat (k + 17) :: u64)"
proof -
  show "k < 16 \<Longrightarrow> (0xdf :: u8) < ucast (- of_nat (Suc k) :: u64) \<and>
     ucast (ucast (- of_nat (Suc k) :: u64) :: u8) - 0xff - 1 = (- of_nat (Suc k) :: u64)"
  proof (drule less_16, elim disjE)
    have "(ucast (-1 :: u64) :: u8) = - 1" by (rule bit_word_eqI) (simp add: bit_simps)
    then have m: "(ucast (-1 :: u64) :: u8) = 255" by simp
    assume "k = 0"
    with m show ?thesis by simp
  qed simp_all
  assume "k < 15"
  then have "k < 16" "k \<noteq> 15" by auto
  then show "(0xdf :: u8) < ucast (- of_nat (k + 17) :: u64) \<and>
     ucast (ucast (- of_nat (k + 17) :: u64) :: u8) - 0xff - 1 = (- of_nat (k + 17) :: u64)"
    by (drule_tac less_16, elim disjE; simp)
qed

lemma fixint_negative:
  assumes "-32 < sint (i :: u64)" "sint i < 0"
  shows "(0xdf :: u8) < ucast i" "ucast (ucast i :: u8) - 0xff - 1 = i"
proof -
  define k where "k = nat (- sint i - 1)"
  have k: "k < 31" "sint i = - int (Suc k)" using assms by (auto simp: k_def)
  have "word_of_int (sint i) = (word_of_int (- int (Suc k)) :: u64)" by (simp only: k(2))
  then have i: "i = - of_nat (Suc k)" by simp
  have "(0xdf :: u8) < ucast i \<and> ucast (ucast i :: u8) - 0xff - 1 = i"
  proof (cases "k < 16")
    case True
    then show ?thesis unfolding i by (rule fixint_negative_byte(1))
  next
    case False
    then have "k - 16 < 15" "Suc k = k - 16 + 17" using k(1) by auto
    then show ?thesis unfolding i using fixint_negative_byte(2) by metis
  qed
  then show "(0xdf :: u8) < ucast i" "ucast (ucast i :: u8) - 0xff - 1 = i" by auto
qed

lemma read_int_value:
  assumes "rf_works fd" "rf_rest fd = mp_int i @ rest" "length (mp_junk env) = 8"
  shows "\<exists>f'. rmsgpack_read env cbs d fd = mp_call (map_option (\<lambda>f. f i) (cb_int cbs)) d f' \<and>
    rf_works f' \<and> rf_rest f' = rest"
proof -
  have tagged: ?thesis if k: "k \<in> {1, 2, 4, 8}" and b: "b \<in> {0xd0, 0xd1, 0xd2, 0xd3}" "2 ^ unat (b - 0xd0) = k"
    and i: "mp_int i = b # msb_bytes k n" "n < 256 ^ k"
      "(if k = 1 then scast (of_nat n :: u8) else if k = 2 then scast (of_nat n :: u16)
        else if k = 4 then scast (of_nat n :: u32) else of_nat n) = i" for k b n
  proof -
    obtain f1 where h: "rmsgpack_read env cbs d fd = read_value env (rmsgpack_read env cbs) cbs b d f1"
      "rf_works f1" "rf_rest f1 = msb_bytes k n @ rest"
      using read_head [OF assms(1), of b "msb_bytes k n @ rest" env cbs d] assms(2) i(1) by auto
    have v: "msb_value (msb_bytes k n) = n" using i(2) by (simp add: msb_value_msb_bytes)
    obtain f2 where "read_int env f1 0 k = (0, i, f2)" "rf_works f2" "rf_rest f2 = rest"
      using read_int_works [OF h(2,3) _ k assms(3), of 0] i(3) unfolding v by auto
    then show ?thesis
      using h(1) b by (auto simp: read_value_def read_switch_def MPF_defs)
  qed
  consider "0 \<le> sint i" "sint i < 128" | "-32 < sint i" "sint i < 0" | "-128 \<le> sint i" "sint i \<le> -32" |
    "-32768 \<le> sint i" "sint i < 32768" "\<not> (-128 \<le> sint i \<and> sint i < 128)" |
    "-2147483648 \<le> sint i" "sint i < 2147483648" "\<not> (-32768 \<le> sint i \<and> sint i < 32768)" |
    "\<not> (-2147483648 \<le> sint i \<and> sint i < 2147483648)" by linarith
  then show ?thesis
  proof cases
    case 1
    then show ?thesis
      using read_head [OF assms(1), of "ucast i" rest env cbs d] assms(2) fixint_small [of i]
      by (auto simp: mp_int_def read_value_def MPF_defs)
  next
    case 2
    have "\<not> (ucast i :: u8) < 0xc0"
      using fixint_negative(1) [OF 2] by (simp add: word_less_nat_alt)
    then have "\<not> (ucast i :: u8) < 0x80" "\<not> (ucast i :: u8) < 0x90" "\<not> (ucast i :: u8) < 0xa0"
      by (simp_all add: word_less_nat_alt)
    then show ?thesis
      using read_head [OF assms(1), of "ucast i" rest env cbs d] assms(2) fixint_negative [OF 2] 2
        \<open>\<not> (ucast i :: u8) < 0xc0\<close>
      by (auto simp: mp_int_def read_value_def MPF_defs)
  next
    case 3
    show ?thesis
      by (rule tagged [of 1 "0xd0" "unat (ucast i :: u8)"])
        (use 3 scast_ucast_fits(1) [of i] unat_u8 [of "ucast i"] in \<open>auto simp: mp_int_def\<close>)
  next
    case 4
    show ?thesis
      by (rule tagged [of 2 "0xd1" "unat (ucast i :: u16)"])
        (use 4 scast_ucast_fits(2) [of i] unat_u16 [of "ucast i"] in \<open>auto simp: mp_int_def\<close>)
  next
    case 5
    show ?thesis
      by (rule tagged [of 4 "0xd2" "unat (ucast i :: u32)"])
        (use 5 scast_ucast_fits(3) [of i] unat_u32 [of "ucast i"] in \<open>auto simp: mp_int_def\<close>)
  next
    case 6
    show ?thesis
      by (rule tagged [of 8 "0xd3" "unat i"])
        (use 6 unat_u64 [of i] in \<open>auto simp: mp_int_def\<close>)
  qed
qed

text \<open>A string or binary value behind its type byte and length.\<close>

lemma read_switch_buff:
  assumes f: "rf_works f1" "rf_rest f1 = msb_bytes k (length s) @ s @ rest" and k: "k \<in> {1, 2, 4}"
    and s: "length s < 256 ^ k" and env: "length (mp_junk env) = 8" "\<And>n. mp_alloc env n"
  shows "b \<in> {0xd9, 0xda, 0xdb} \<Longrightarrow> 2 ^ unat (b - 0xd9) = k \<Longrightarrow> \<exists>f'. read_switch env rd cbs b d f1 =
      mp_call (map_option (\<lambda>f. f s) (cb_string cbs)) d f' \<and> rf_works f' \<and> rf_rest f' = rest"
    and "b \<in> {0xc4, 0xc5, 0xc6} \<Longrightarrow> 2 ^ unat (b - 0xc4) = k \<Longrightarrow> \<exists>f'. read_switch env rd cbs b d f1 =
      mp_call (map_option (\<lambda>f. f s) (cb_bin cbs)) d f' \<and> rf_works f' \<and> rf_rest f' = rest"
proof -
  obtain f2 where "read_buff env f1 k = (0, s, f2)" "rf_works f2" "rf_rest f2 = rest"
    using read_buff_works [OF f _ k _ env] s by (auto simp: msb_value_msb_bytes)
  then show "b \<in> {0xd9, 0xda, 0xdb} \<Longrightarrow> 2 ^ unat (b - 0xd9) = k \<Longrightarrow> \<exists>f'. read_switch env rd cbs b d f1 =
      mp_call (map_option (\<lambda>f. f s) (cb_string cbs)) d f' \<and> rf_works f' \<and> rf_rest f' = rest"
    "b \<in> {0xc4, 0xc5, 0xc6} \<Longrightarrow> 2 ^ unat (b - 0xc4) = k \<Longrightarrow> \<exists>f'. read_switch env rd cbs b d f1 =
      mp_call (map_option (\<lambda>f. f s) (cb_bin cbs)) d f' \<and> rf_works f' \<and> rf_rest f' = rest"
    by (auto simp: read_switch_def MPF_defs)
qed

lemma read_string_value:
  assumes f: "rf_works fd" "rf_rest fd = mp_string_head (length s) @ s @ rest" and s: "length s < 2 ^ 32"
    and env: "length (mp_junk env) = 8" "\<And>n. mp_alloc env n"
  shows "\<exists>f'. rmsgpack_read env cbs d fd = mp_call (map_option (\<lambda>f. f s) (cb_string cbs)) d f' \<and>
    rf_works f' \<and> rf_rest f' = rest"
proof -
  have tagged: ?thesis if k: "k \<in> {1, 2, 4}" and b: "b \<in> {0xd9, 0xda, 0xdb}" "2 ^ unat (b - 0xd9) = k"
    and h: "mp_string_head (length s) = b # msb_bytes k (length s)" "length s < 256 ^ k" for k b
  proof -
    obtain f1 where r: "rmsgpack_read env cbs d fd = read_value env (rmsgpack_read env cbs) cbs b d f1"
      "rf_works f1" "rf_rest f1 = msb_bytes k (length s) @ s @ rest"
      using read_head [OF f(1), of b "msb_bytes k (length s) @ s @ rest" env cbs d] f(2) h(1) by auto
    have "read_value env (rmsgpack_read env cbs) cbs b d f1 = read_switch env (rmsgpack_read env cbs) cbs b d f1"
      using b(1) by (auto simp: read_value_def MPF_defs)
    then show ?thesis
      using read_switch_buff(1) [OF r(2,3) k h(2) env b, of "rmsgpack_read env cbs" cbs d] r(1) by simp
  qed
  consider "length s < 32" | "32 \<le> length s" "length s < 256" | "256 \<le> length s" "length s < 65536" |
    "65536 \<le> length s" by linarith
  then show ?thesis
  proof cases
    case 1
    let ?b = "of_nat (0xa0 + length s) :: u8"
    have b: "unat ?b = 160 + length s" unfolding unat_of_nat using 1 by simp
    have lt: "\<not> ?b < 0x80" "\<not> ?b < 0x90" "\<not> ?b < 0xa0" "?b < 0xc0"
      using 1 b by (simp_all add: word_less_nat_alt del: of_nat_add)
    have n: "unat (?b - 0xa0) = length s" using 1 by (simp add: unat_of_nat)
    obtain f1 where r: "rmsgpack_read env cbs d fd = read_value env (rmsgpack_read env cbs) cbs ?b d f1"
      "rf_works f1" "rf_rest f1 = s @ rest"
      using read_head [OF f(1), of ?b "s @ rest" env cbs d] f(2) 1 by (auto simp: mp_string_head_def)
    obtain f2 where "filestream_read (length s) f1 = (Some s, f2)" "rf_works f2" "rf_rest f2 = rest"
      using filestream_read_prefix [OF r(2,3)] by blast
    then show ?thesis
      using r(1) lt n env(2) by (auto simp add: read_value_def read_fixstr_def MPF_defs)
  next
    case 2
    show ?thesis by (rule tagged [of 1 "0xd9"]) (use 2 in \<open>simp_all add: mp_string_head_def\<close>)
  next
    case 3
    show ?thesis by (rule tagged [of 2 "0xda"]) (use 3 in \<open>simp_all add: mp_string_head_def\<close>)
  next
    case 4
    show ?thesis by (rule tagged [of 4 "0xdb"]) (use 4 s in \<open>simp_all add: mp_string_head_def\<close>)
  qed
qed

lemma read_binary_value:
  assumes f: "rf_works fd" "rf_rest fd = mp_binary_head (length s) @ s @ rest" and s: "length s < 2 ^ 32"
    and env: "length (mp_junk env) = 8" "\<And>n. mp_alloc env n"
  shows "\<exists>f'. rmsgpack_read env cbs d fd = mp_call (map_option (\<lambda>f. f s) (cb_bin cbs)) d f' \<and>
    rf_works f' \<and> rf_rest f' = rest"
proof -
  have tagged: ?thesis if k: "k \<in> {1, 2, 4}" and b: "b \<in> {0xc4, 0xc5, 0xc6}" "2 ^ unat (b - 0xc4) = k"
    and h: "mp_binary_head (length s) = b # msb_bytes k (length s)" "length s < 256 ^ k" for k b
  proof -
    obtain f1 where r: "rmsgpack_read env cbs d fd = read_value env (rmsgpack_read env cbs) cbs b d f1"
      "rf_works f1" "rf_rest f1 = msb_bytes k (length s) @ s @ rest"
      using read_head [OF f(1), of b "msb_bytes k (length s) @ s @ rest" env cbs d] f(2) h(1) by auto
    have "read_value env (rmsgpack_read env cbs) cbs b d f1 = read_switch env (rmsgpack_read env cbs) cbs b d f1"
      using b(1) by (auto simp: read_value_def MPF_defs)
    then show ?thesis
      using read_switch_buff(2) [OF r(2,3) k h(2) env b, of "rmsgpack_read env cbs" cbs d] r(1) by simp
  qed
  consider "length s < 256" | "256 \<le> length s" "length s < 65536" | "65536 \<le> length s" by linarith
  then show ?thesis
  proof cases
    case 1
    show ?thesis by (rule tagged [of 1 "0xc4"]) (use 1 in \<open>simp_all add: mp_binary_head_def\<close>)
  next
    case 2
    show ?thesis by (rule tagged [of 2 "0xc5"]) (use 2 in \<open>simp_all add: mp_binary_head_def\<close>)
  next
    case 3
    show ?thesis by (rule tagged [of 4 "0xc6"]) (use 3 s in \<open>simp_all add: mp_binary_head_def\<close>)
  qed
qed

lemma ucast_u32_of_nat: "n < 2 ^ 32 \<Longrightarrow> (ucast (of_nat n :: u64) :: u32) = of_nat n"
  by (simp add: word_unat_eq_iff unsigned_ucast_eq take_bit_nat_def unat_of_nat)

lemma read_array_head:
  assumes f: "rf_works fd" "rf_rest fd = mp_array_head n @ rest" and n: "n < 2 ^ 32"
    and env: "length (mp_junk env) = 8"
  shows "\<exists>f'. rmsgpack_read env cbs d fd = read_array (rmsgpack_read env cbs) (of_nat n) cbs d f' \<and>
    rf_works f' \<and> rf_rest f' = rest"
proof -
  have tagged: ?thesis if k: "k \<in> {2, 4}" and b: "b \<in> {0xdc, 0xdd}" "2 * 2 ^ unat (b - 0xdc) = k"
    and h: "mp_array_head n = b # msb_bytes k n" "n < 256 ^ k" for k b
  proof -
    obtain f1 where r: "rmsgpack_read env cbs d fd = read_value env (rmsgpack_read env cbs) cbs b d f1"
      "rf_works f1" "rf_rest f1 = msb_bytes k n @ rest"
      using read_head [OF f(1), of b "msb_bytes k n @ rest" env cbs d] f(2) h(1) by auto
    obtain f2 where "read_uint env f1 0 k = (0, of_nat n, f2)" "rf_works f2" "rf_rest f2 = rest"
      using read_uint_works [OF r(2,3) _ _ env, of k 0] k h(2) by (auto simp: msb_value_msb_bytes)
    then show ?thesis
      using r(1) b ucast_u32_of_nat [OF n] by (auto simp: read_value_def read_switch_def MPF_defs)
  qed
  consider "n < 16" | "16 \<le> n" "n < 65536" | "65536 \<le> n" by linarith
  then show ?thesis
  proof cases
    case 1
    let ?b = "of_nat (0x90 + n) :: u8"
    have b: "unat ?b = 144 + n" unfolding unat_of_nat using 1 by simp
    have lt: "\<not> ?b < 0x80" "\<not> ?b < 0x90" "?b < 0xa0"
      using 1 b by (simp_all add: word_less_nat_alt del: of_nat_add)
    have m: "(ucast (?b - 0x90) :: u32) = of_nat n" using less_16 [OF 1] by (elim disjE; simp)
    obtain f1 where r: "rmsgpack_read env cbs d fd = read_value env (rmsgpack_read env cbs) cbs ?b d f1"
      "rf_works f1" "rf_rest f1 = rest"
      using read_head [OF f(1), of ?b rest env cbs d] f(2) 1 by (auto simp: mp_array_head_def)
    then show ?thesis
      using lt m by (auto simp: read_value_def MPF_defs)
  next
    case 2
    show ?thesis by (rule tagged [of 2 "0xdc"]) (use 2 in \<open>simp_all add: mp_array_head_def\<close>)
  next
    case 3
    show ?thesis by (rule tagged [of 4 "0xdd"]) (use 3 n in \<open>simp_all add: mp_array_head_def\<close>)
  qed
qed

lemma read_map_head:
  assumes f: "rf_works fd" "rf_rest fd = mp_map_head n @ rest" and n: "n < 2 ^ 32"
    and env: "length (mp_junk env) = 8"
  shows "\<exists>f'. rmsgpack_read env cbs d fd = read_map (rmsgpack_read env cbs) (of_nat n) cbs d f' \<and>
    rf_works f' \<and> rf_rest f' = rest"
proof (cases "n < 16")
  case True
  let ?b = "of_nat (0x80 + n) :: u8"
  have b: "unat ?b = 128 + n" unfolding unat_of_nat using True by simp
  have lt: "\<not> ?b < 0x80" "?b < 0x90"
    using True b by (simp_all add: word_less_nat_alt del: of_nat_add)
  have m: "(ucast (?b - 0x80) :: u32) = of_nat n" using less_16 [OF True] by (elim disjE; simp)
  obtain f1 where r: "rmsgpack_read env cbs d fd = read_value env (rmsgpack_read env cbs) cbs ?b d f1"
    "rf_works f1" "rf_rest f1 = rest"
    using read_head [OF f(1), of ?b rest env cbs d] f(2) True by (auto simp: mp_map_head_def)
  then show ?thesis
    using lt m by (auto simp: read_value_def MPF_defs)
next
  case False
  obtain f1 where r: "rmsgpack_read env cbs d fd = read_value env (rmsgpack_read env cbs) cbs 0xdf d f1"
    "rf_works f1" "rf_rest f1 = msb_bytes 4 n @ rest"
    using read_head [OF f(1), of "0xdf" "msb_bytes 4 n @ rest" env cbs d] f(2) False by (auto simp: mp_map_head_def)
  obtain f2 where "read_uint env f1 0 4 = (0, of_nat n, f2)" "rf_works f2" "rf_rest f2 = rest"
    using read_uint_works [OF r(2,3) _ _ env, of 4 0] n by (auto simp: msb_value_msb_bytes)
  then show ?thesis
    using r(1) ucast_u32_of_nat [OF n] by (auto simp: read_value_def read_switch_def MPF_defs)
qed

section \<open>Round trips\<close>

text \<open>The order of all arrays and maps reversed.\<close>

primrec dom_mirror :: "rmsgpack_dom_value \<Rightarrow> rmsgpack_dom_value" where
  "dom_mirror RDT_NULL = RDT_NULL"
| "dom_mirror (RDT_BOOL b) = RDT_BOOL (if b = 0 then 0 else 1)"
| "dom_mirror (RDT_UINT u) = RDT_UINT u"
| "dom_mirror (RDT_INT i) = RDT_INT i"
| "dom_mirror (RDT_STRING s) = RDT_STRING s"
| "dom_mirror (RDT_BINARY s) = RDT_BINARY s"
| "dom_mirror (RDT_MAP items) = RDT_MAP (rev (map (map_prod dom_mirror dom_mirror) items))"
| "dom_mirror (RDT_ARRAY items) = RDT_ARRAY (rev (map dom_mirror items))"

text \<open>There is room on the stack, on which \<open>b\<close> values are still waiting, and the lengths fit in 32 bits.\<close>

function (sequential) dom_fits :: "nat \<Rightarrow> rmsgpack_dom_value \<Rightarrow> bool"
  and dom_fits_pairs :: "nat \<Rightarrow> (rmsgpack_dom_value \<times> rmsgpack_dom_value) list \<Rightarrow> bool"
  and dom_fits_items :: "nat \<Rightarrow> rmsgpack_dom_value list \<Rightarrow> bool" where
  "dom_fits b (RDT_STRING s) \<longleftrightarrow> length s < 2 ^ 32"
| "dom_fits b (RDT_BINARY s) \<longleftrightarrow> length s < 2 ^ 32"
| "dom_fits b (RDT_MAP items) \<longleftrightarrow> b + 2 * length items \<le> MAX_DEPTH \<and> dom_fits_pairs b items"
| "dom_fits b (RDT_ARRAY items) \<longleftrightarrow> b + length items \<le> MAX_DEPTH \<and> dom_fits_items b items"
| "dom_fits b v \<longleftrightarrow> True"
| "dom_fits_pairs b [] \<longleftrightarrow> True"
| "dom_fits_pairs b ((k, v) # r) \<longleftrightarrow>
     dom_fits (b + 2 * length r + 1) k \<and> dom_fits (b + 2 * length r) v \<and> dom_fits_pairs b r"
| "dom_fits_items b [] \<longleftrightarrow> True"
| "dom_fits_items b (x # r) \<longleftrightarrow> dom_fits (b + length r) x \<and> dom_fits_items b r"
  by pat_completeness auto
termination
  by (relation "measure (case_sum (\<lambda>(b, v). size v)
      (case_sum (\<lambda>(b, ps). size_list (size_prod size size) ps) (\<lambda>(b, xs). size_list size xs)))") auto

lemma dom_scalar_call:
  assumes "dom_at t p \<noteq> None"
  shows "mp_call (Some (dom_read_scalar v)) \<lparr>dr_root = Some t, dr_stack = p # ps, dr_broken = False\<rparr> fd =
    Some (0, \<lparr>dr_root = dom_store p v t, dr_stack = ps, dr_broken = False\<rparr>, fd)"
proof -
  obtain t' where "dom_store p v t = Some t'" using assms dom_store_at by blast
  then show ?thesis
    by (simp add: mp_call_def dom_read_scalar_def dom_reader_state_pop_def dom_assign_def)
qed

lemma dom_array_start_call:
  assumes "dom_at t p \<noteq> None" "length ps + n \<le> MAX_DEPTH" "\<And>n. mp_alloc env n"
  shows "mp_call (Some (dom_read_array_start env (of_nat n)))
      \<lparr>dr_root = Some t, dr_stack = p # ps, dr_broken = False\<rparr> fd =
    Some (0, \<lparr>dr_root = dom_store p (RDT_ARRAY (replicate n RDT_NULL)) t,
      dr_stack = rev (map (\<lambda>c. p @ [c]) (array_slots n)) @ ps, dr_broken = False\<rparr>, fd)"
proof -
  have n: "unat (of_nat n :: u32) = n" using assms(2) by (simp add: unat_of_nat MAX_DEPTH_def)
  obtain t' where "dom_store p (RDT_ARRAY (replicate n RDT_NULL)) t = Some t'" using assms(1) dom_store_at by blast
  then show ?thesis
    using assms(2) n
    by (simp add: mp_call_def dom_read_array_start_eq [OF assms(3)] dom_reader_state_pop_def dom_assign_def
        dom_push_all_eq)
qed

lemma dom_map_start_call:
  assumes "dom_at t p \<noteq> None" "length ps + 2 * n \<le> MAX_DEPTH" "\<And>n. mp_alloc env n"
  shows "mp_call (Some (dom_read_map_start env (of_nat n)))
      \<lparr>dr_root = Some t, dr_stack = p # ps, dr_broken = False\<rparr> fd =
    Some (0, \<lparr>dr_root = dom_store p (RDT_MAP (replicate n (RDT_NULL, RDT_NULL))) t,
      dr_stack = rev (map (\<lambda>c. p @ [c]) (map_slots n)) @ ps, dr_broken = False\<rparr>, fd)"
proof -
  have n: "unat (of_nat n :: u32) = n" using assms(2) by (simp add: unat_of_nat MAX_DEPTH_def)
  obtain t' where "dom_store p (RDT_MAP (replicate n (RDT_NULL, RDT_NULL))) t = Some t'"
    using assms(1) dom_store_at by blast
  then show ?thesis
    using assms(2) n
    by (simp add: mp_call_def dom_read_map_start_eq [OF assms(3)] dom_reader_state_pop_def dom_assign_def
        dom_push_all_eq)
qed

text \<open>Filling the next slot of a container that stands at \<open>p\<close>.\<close>

lemma dom_fill_item:
  assumes "dom_store p (RDT_ARRAY (replicate (Suc n) RDT_NULL @ acc)) t = Some t1"
  shows "dom_at t1 (p @ [Item n]) \<noteq> None"
    and "dom_store (p @ [Item n]) w t1 = dom_store p (RDT_ARRAY (replicate n RDT_NULL @ w # acc)) t"
proof -
  have upd: "(replicate (Suc n) RDT_NULL @ acc)[n := w] = replicate n RDT_NULL @ w # acc"
    by (simp add: replicate_append_same [symmetric] list_update_append)
  show "dom_at t1 (p @ [Item n]) \<noteq> None" using dom_at_store [OF assms, of "[Item n]"] by simp
  show "dom_store (p @ [Item n]) w t1 = dom_store p (RDT_ARRAY (replicate n RDT_NULL @ w # acc)) t"
    using dom_store_below [OF assms, of "[Item n]" w] upd by simp
qed

lemma dom_fill_pair:
  assumes "dom_store p (RDT_MAP (replicate (Suc n) (RDT_NULL, RDT_NULL) @ acc)) t = Some t1"
  shows "dom_at t1 (p @ [Key n]) \<noteq> None"
    and "dom_store (p @ [Key n]) k t1 = dom_store p (RDT_MAP (replicate n (RDT_NULL, RDT_NULL) @ (k, RDT_NULL) # acc)) t"
    and "dom_store (p @ [Key n]) k t1 = Some t2 \<Longrightarrow> dom_at t2 (p @ [Val n]) \<noteq> None \<and>
      dom_store (p @ [Val n]) v t2 = dom_store p (RDT_MAP (replicate n (RDT_NULL, RDT_NULL) @ (k, v) # acc)) t"
proof -
  have upd: "(replicate (Suc n) (RDT_NULL, RDT_NULL) @ acc)[n := w] = replicate n (RDT_NULL, RDT_NULL) @ w # acc" for w
    by (simp add: replicate_append_same [symmetric] list_update_append)
  have nth: "(replicate (Suc n) (RDT_NULL, RDT_NULL) @ acc) ! n = (RDT_NULL, RDT_NULL)"
    by (simp add: nth_append del: replicate_Suc)
  show "dom_at t1 (p @ [Key n]) \<noteq> None" using dom_at_store [OF assms, of "[Key n]"] by simp
  show key: "dom_store (p @ [Key n]) k t1 =
      dom_store p (RDT_MAP (replicate n (RDT_NULL, RDT_NULL) @ (k, RDT_NULL) # acc)) t"
    using dom_store_below [OF assms, of "[Key n]" k] upd nth by simp
  assume "dom_store (p @ [Key n]) k t1 = Some t2"
  then have t2: "dom_store p (RDT_MAP (replicate n (RDT_NULL, RDT_NULL) @ (k, RDT_NULL) # acc)) t = Some t2"
    using key by simp
  show "dom_at t2 (p @ [Val n]) \<noteq> None \<and>
      dom_store (p @ [Val n]) v t2 = dom_store p (RDT_MAP (replicate n (RDT_NULL, RDT_NULL) @ (k, v) # acc)) t"
    using dom_at_store [OF t2, of "[Val n]"] dom_store_below [OF t2, of "[Val n]" v]
    by (simp add: nth_append list_update_append)
qed

abbreviation dom_state :: "rmsgpack_dom_value option \<Rightarrow> dom_slot list list \<Rightarrow> dom_reader_state" where
  "dom_state root stk \<equiv> \<lparr>dr_root = root, dr_stack = stk, dr_broken = False\<rparr>"

lemma dom_callbacks [simp]:
  "cb_nil (dom_reader_callbacks env) = Some (dom_read_scalar RDT_NULL)"
  "map_option (\<lambda>f. f b) (cb_bool (dom_reader_callbacks env)) = Some (dom_read_scalar (RDT_BOOL b))"
  "map_option (\<lambda>f. f i) (cb_int (dom_reader_callbacks env)) = Some (dom_read_scalar (RDT_INT i))"
  "map_option (\<lambda>f. f i) (cb_uint (dom_reader_callbacks env)) = Some (dom_read_scalar (RDT_UINT i))"
  "map_option (\<lambda>f. f s) (cb_string (dom_reader_callbacks env)) = Some (dom_read_scalar (RDT_STRING s))"
  "map_option (\<lambda>f. f s) (cb_bin (dom_reader_callbacks env)) = Some (dom_read_scalar (RDT_BINARY s))"
  "map_option (\<lambda>f. f len) (cb_map_start (dom_reader_callbacks env)) = Some (dom_read_map_start env len)"
  "map_option (\<lambda>f. f len) (cb_array_start (dom_reader_callbacks env)) = Some (dom_read_array_start env len)"
  by (simp_all add: dom_reader_callbacks_def dom_read_nil_def dom_read_bool_def dom_read_int_def dom_read_uint_def
      dom_read_string_def dom_read_bin_def)

lemma dom_read_encoded:
  assumes env: "length (mp_junk env) = 8" "\<And>n. mp_alloc env n"
  shows "rf_works fd \<Longrightarrow> rf_rest fd = mp_encode v @ rest \<Longrightarrow> dom_fits (length ps) v \<Longrightarrow> dom_at t p \<noteq> None \<Longrightarrow>
     \<exists>fd'. rmsgpack_read env (dom_reader_callbacks env) (dom_state (Some t) (p # ps)) fd =
         Some (0, dom_state (dom_store p (dom_mirror v) t) ps, fd') \<and> rf_works fd' \<and> rf_rest fd' = rest"
    and "rf_works fd \<Longrightarrow> rf_rest fd = mp_encode_pairs kvs @ rest \<Longrightarrow> dom_fits_pairs (length ps) kvs \<Longrightarrow>
     dom_at t p \<noteq> None \<Longrightarrow>
     \<exists>fd'. mp_repeat (rmsgpack_read env (dom_reader_callbacks env)) (2 * length kvs)
         (dom_state (dom_store p (RDT_MAP (replicate (length kvs) (RDT_NULL, RDT_NULL) @ acc)) t)
           (rev (map (\<lambda>c. p @ [c]) (map_slots (length kvs))) @ ps)) fd =
         Some (0, dom_state (dom_store p (RDT_MAP (rev (map (map_prod dom_mirror dom_mirror) kvs) @ acc)) t) ps, fd') \<and>
       rf_works fd' \<and> rf_rest fd' = rest"
    and "rf_works fd \<Longrightarrow> rf_rest fd = mp_encode_items xs @ rest \<Longrightarrow> dom_fits_items (length ps) xs \<Longrightarrow>
     dom_at t p \<noteq> None \<Longrightarrow>
     \<exists>fd'. mp_repeat (rmsgpack_read env (dom_reader_callbacks env)) (length xs)
         (dom_state (dom_store p (RDT_ARRAY (replicate (length xs) RDT_NULL @ acc2)) t)
           (rev (map (\<lambda>c. p @ [c]) (array_slots (length xs))) @ ps)) fd =
         Some (0, dom_state (dom_store p (RDT_ARRAY (rev (map dom_mirror xs) @ acc2)) t) ps, fd') \<and>
       rf_works fd' \<and> rf_rest fd' = rest"
proof (induction v and kvs and xs arbitrary: fd rest p ps t and fd rest p ps t acc and fd rest p ps t acc2
    rule: mp_encode_mp_encode_pairs_mp_encode_items.induct)
  case 1
  then show ?case
    using read_nil [of fd rest env "dom_reader_callbacks env" "dom_state (Some t) (p # ps)"]
      dom_scalar_call [of t p RDT_NULL ps] by (auto simp del: not_None_eq)
next
  case (2 b)
  then show ?case
    using read_bool [of fd b rest env "dom_reader_callbacks env" "dom_state (Some t) (p # ps)"]
      dom_scalar_call [of t p "RDT_BOOL (if b = 0 then 0 else 1)" ps] by (auto simp del: not_None_eq)
next
  case (3 i)
  then show ?case
    using read_int_value [OF _ _ env(1), of fd i rest "dom_reader_callbacks env" "dom_state (Some t) (p # ps)"]
      dom_scalar_call [of t p "RDT_INT i" ps] by (auto simp del: not_None_eq)
next
  case (4 u)
  then show ?case
    using read_uint_value [OF _ _ env(1), of fd u rest "dom_reader_callbacks env" "dom_state (Some t) (p # ps)"]
      dom_scalar_call [of t p "RDT_UINT u" ps] by (auto simp del: not_None_eq)
next
  case (5 s)
  then show ?case
    using read_string_value [OF _ _ _ env, of fd s rest "dom_reader_callbacks env" "dom_state (Some t) (p # ps)"]
      dom_scalar_call [of t p "RDT_STRING s" ps] by (auto simp del: not_None_eq)
next
  case (6 s)
  then show ?case
    using read_binary_value [OF _ _ _ env, of fd s rest "dom_reader_callbacks env" "dom_state (Some t) (p # ps)"]
      dom_scalar_call [of t p "RDT_BINARY s" ps] by (auto simp del: not_None_eq)
next
  case (7 kvs)
  let ?n = "length kvs"
  have fits: "length ps + 2 * ?n \<le> MAX_DEPTH" "dom_fits_pairs (length ps) kvs" using 7 by auto
  then have n: "?n < 2 ^ 32" "unat (of_nat ?n :: u32) = ?n" by (simp_all add: MAX_DEPTH_def unat_of_nat)
  have hd: "rf_rest fd = mp_map_head ?n @ mp_encode_pairs kvs @ rest" using 7(3) by simp
  obtain f1 where h: "rmsgpack_read env (dom_reader_callbacks env) (dom_state (Some t) (p # ps)) fd =
      read_map (rmsgpack_read env (dom_reader_callbacks env)) (of_nat ?n) (dom_reader_callbacks env)
        (dom_state (Some t) (p # ps)) f1" "rf_works f1" "rf_rest f1 = mp_encode_pairs kvs @ rest"
    using read_map_head [OF 7(2) hd n(1) env(1), of "dom_reader_callbacks env" "dom_state (Some t) (p # ps)"] by (elim exE conjE)
  obtain f2 where "mp_repeat (rmsgpack_read env (dom_reader_callbacks env)) (2 * ?n)
      (dom_state (dom_store p (RDT_MAP (replicate ?n (RDT_NULL, RDT_NULL) @ [])) t)
        (rev (map (\<lambda>c. p @ [c]) (map_slots ?n)) @ ps)) f1 =
      Some (0, dom_state (dom_store p (RDT_MAP (rev (map (map_prod dom_mirror dom_mirror) kvs) @ [])) t) ps, f2)"
    "rf_works f2" "rf_rest f2 = rest"
    using 7(1) [OF h(2,3) fits(2) 7(5)] by blast
  then show ?case
    using h(1) dom_map_start_call [OF 7(5) fits(1) env(2)] n(2) by (simp add: read_map_def)
next
  case (8 xs)
  let ?n = "length xs"
  have fits: "length ps + ?n \<le> MAX_DEPTH" "dom_fits_items (length ps) xs" using 8 by auto
  then have n: "?n < 2 ^ 32" "unat (of_nat ?n :: u32) = ?n" by (simp_all add: MAX_DEPTH_def unat_of_nat)
  have hd: "rf_rest fd = mp_array_head ?n @ mp_encode_items xs @ rest" using 8(3) by simp
  obtain f1 where h: "rmsgpack_read env (dom_reader_callbacks env) (dom_state (Some t) (p # ps)) fd =
      read_array (rmsgpack_read env (dom_reader_callbacks env)) (of_nat ?n) (dom_reader_callbacks env)
        (dom_state (Some t) (p # ps)) f1" "rf_works f1" "rf_rest f1 = mp_encode_items xs @ rest"
    using read_array_head [OF 8(2) hd n(1) env(1), of "dom_reader_callbacks env" "dom_state (Some t) (p # ps)"] by (elim exE conjE)
  obtain f2 where "mp_repeat (rmsgpack_read env (dom_reader_callbacks env)) ?n
      (dom_state (dom_store p (RDT_ARRAY (replicate ?n RDT_NULL @ [])) t)
        (rev (map (\<lambda>c. p @ [c]) (array_slots ?n)) @ ps)) f1 =
      Some (0, dom_state (dom_store p (RDT_ARRAY (rev (map dom_mirror xs) @ [])) t) ps, f2)"
    "rf_works f2" "rf_rest f2 = rest"
    using 8(1) [OF h(2,3) fits(2) 8(5)] by blast
  then show ?case
    using h(1) dom_array_start_call [OF 8(5) fits(1) env(2)] n(2) by (simp add: read_array_def)
next
  case 9
  then show ?case by (simp add: map_slots_rec)
next
  case (10 k v r)
  let ?n = "length r" and ?rd = "rmsgpack_read env (dom_reader_callbacks env)"
  let ?stk = "rev (map (\<lambda>c. p @ [c]) (map_slots ?n)) @ ps"
  have fk: "dom_fits (length ((p @ [Val ?n]) # ?stk)) k" and fv: "dom_fits (length ?stk) v"
    using 10(6) by (simp_all add: ac_simps)
  obtain t1 where t1: "dom_store p (RDT_MAP (replicate (Suc ?n) (RDT_NULL, RDT_NULL) @ acc)) t = Some t1"
    using 10(7) dom_store_at by blast
  note fill = dom_fill_pair [OF t1]
  obtain t2 where t2: "dom_store (p @ [Key ?n]) (dom_mirror k) t1 = Some t2" using fill(1) dom_store_at by blast
  obtain f1 where k: "?rd (dom_state (Some t1) ((p @ [Key ?n]) # (p @ [Val ?n]) # ?stk)) fd =
      Some (0, dom_state (Some t2) ((p @ [Val ?n]) # ?stk), f1)" "rf_works f1"
    "rf_rest f1 = mp_encode v @ mp_encode_pairs r @ rest"
    using 10(1) [OF 10(4) _ fk fill(1), of "mp_encode v @ mp_encode_pairs r @ rest"] 10(5) t2 by auto
  note fval = fill(3) [OF t2, of "dom_mirror v"]
  obtain f2 where v: "?rd (dom_state (Some t2) ((p @ [Val ?n]) # ?stk)) f1 =
      Some (0, dom_state (dom_store p (RDT_MAP (replicate ?n (RDT_NULL, RDT_NULL) @ (dom_mirror k, dom_mirror v) # acc)) t) ?stk, f2)"
    "rf_works f2" "rf_rest f2 = mp_encode_pairs r @ rest"
    using 10(2) [OF k(2,3) fv conjunct1 [OF fval]] unfolding conjunct2 [OF fval] by blast
  obtain f3 where "mp_repeat ?rd (2 * ?n)
      (dom_state (dom_store p (RDT_MAP (replicate ?n (RDT_NULL, RDT_NULL) @ (dom_mirror k, dom_mirror v) # acc)) t) ?stk) f2 =
      Some (0, dom_state (dom_store p (RDT_MAP (rev (map (map_prod dom_mirror dom_mirror) r) @ (dom_mirror k, dom_mirror v) # acc)) t) ps, f3)"
    "rf_works f3" "rf_rest f3 = rest"
    using 10(3) [OF v(2,3), of ps t p "(dom_mirror k, dom_mirror v) # acc"] 10(6,7) by auto
  then show ?case
    using t1 k(1) v(1) by (simp add: map_slots_rec)
next
  case 11
  then show ?case by (simp add: array_slots_def)
next
  case (12 x r)
  let ?n = "length r" and ?rd = "rmsgpack_read env (dom_reader_callbacks env)"
  let ?stk = "rev (map (\<lambda>c. p @ [c]) (array_slots ?n)) @ ps"
  have fx: "dom_fits (length ?stk) x" using 12(5) by (simp add: ac_simps)
  obtain t1 where t1: "dom_store p (RDT_ARRAY (replicate (Suc ?n) RDT_NULL @ acc2)) t = Some t1"
    using 12(6) dom_store_at by blast
  note fill = dom_fill_item [OF t1]
  obtain f1 where x: "?rd (dom_state (Some t1) ((p @ [Item ?n]) # ?stk)) fd =
      Some (0, dom_state (dom_store p (RDT_ARRAY (replicate ?n RDT_NULL @ dom_mirror x # acc2)) t) ?stk, f1)" "rf_works f1"
    "rf_rest f1 = mp_encode_items r @ rest"
    using 12(1) [OF 12(3) _ fx fill(1), of "mp_encode_items r @ rest"] 12(4) unfolding fill(2) by auto
  obtain f2 where "mp_repeat ?rd ?n
      (dom_state (dom_store p (RDT_ARRAY (replicate ?n RDT_NULL @ dom_mirror x # acc2)) t) ?stk) f1 =
      Some (0, dom_state (dom_store p (RDT_ARRAY (rev (map dom_mirror r) @ dom_mirror x # acc2)) t) ps, f2)"
    "rf_works f2" "rf_rest f2 = rest"
    using 12(2) [OF x(2,3), of ps t p "dom_mirror x # acc2"] 12(5,6) by auto
  then show ?case
    using t1 x(1) by (simp add: array_slots_def)
qed

lemma dom_read_encoded_root:
  assumes "rf_works fd" "rf_rest fd = mp_encode v @ rest" "dom_fits 0 v" "length (mp_junk env) = 8"
    "\<And>n. mp_alloc env n"
  shows "\<exists>fd'. rmsgpack_dom_read env (Some out) fd = Some (0, Some (dom_mirror v), fd') \<and>
    rf_works fd' \<and> rf_rest fd' = rest"
  using dom_read_encoded(1) [OF assms(4,5,1,2), of "[]" out "[]"] assms(3)
  by (auto simp: rmsgpack_dom_read_def)

text \<open>The file after a write, read from where the write started.\<close>

lemma rf_rest_written:
  assumes "rf_works fd" "xs \<noteq> []"
  shows "rf_rest (snd (filestream_seek (int (vh_pos (hfile fd))) SeekStart (rf_put xs fd))) =
      xs @ drop (length xs) (rf_rest fd)"
    and "rf_works (snd (filestream_seek (int (vh_pos (hfile fd))) SeekStart (rf_put xs fd)))"
  using assms
  by (auto simp: filestream_seek_def vfs_seek_def vfs_next_def rf_put_def rf_rest_def rf_works_def vfs_overwrite_def
      Let_def ac_simps)

text \<open>C24. Round trip: on a file whose calls work, a value in which true does not occur is written as MessagePack, and
  reading from the same place gives the value with the items of every map and array in reverse order,
  and leaves the file behind it.\<close>

theorem dom_write_read_mirrors:
  assumes "rf_works fd" and "mp_plain v" and "length (mp_encode v) < 2 ^ 31" and "dom_fits 0 v"
    and "length (mp_junk env) = 8" and "\<And>n. mp_alloc env n"
  shows "\<exists>n fd1 fd2. rmsgpack_dom_write fd v = (int n, fd1) \<and> fd1 = rf_put (mp_encode v) fd \<and>
    rmsgpack_dom_read env (Some out) (snd (filestream_seek (int (vh_pos (hfile fd))) SeekStart fd1)) =
      Some (0, Some (dom_mirror v), fd2) \<and>
    rf_rest fd2 = drop (length (mp_encode v)) (rf_rest fd)"
proof -
  obtain n where w: "rmsgpack_dom_write fd v = (int n, rf_put (mp_encode v) fd)"
    using dom_write_works(1) [OF assms(1-3)] by blast
  have ne: "mp_encode v \<noteq> []" using mp_encode_nonempty [of v] by auto
  show ?thesis
    using w dom_read_encoded_root [OF rf_rest_written(2,1) [OF assms(1) ne] assms(4-6), of out] by auto
qed

theorem dom_write_read_mirrors_witness:
  "\<exists>n fd1 fd2. rmsgpack_dom_write \<lparr>hfile = vfs_open True [] [], error_flag = False, eof_flag = False\<rparr>
      (RDT_MAP [(RDT_STRING [97], RDT_INT 5), (RDT_STRING [98], RDT_UINT 300)]) = (int n, fd1) \<and>
    rmsgpack_dom_read \<lparr>mp_alloc = \<lambda>_. True, mp_junk = replicate 8 7\<rparr> (Some RDT_NULL)
      (snd (filestream_seek 0 SeekStart fd1)) =
      Some (0, Some (RDT_MAP [(RDT_STRING [98], RDT_UINT 300), (RDT_STRING [97], RDT_INT 5)]), fd2)"
  using dom_write_read_mirrors [of "\<lparr>hfile = vfs_open True [] [], error_flag = False, eof_flag = False\<rparr>"
      "RDT_MAP [(RDT_STRING [97], RDT_INT 5), (RDT_STRING [98], RDT_UINT 300)]"
      "\<lparr>mp_alloc = \<lambda>_. True, mp_junk = replicate 8 7\<rparr>" RDT_NULL]
  by (force simp: rf_works_def vfs_open_def mp_int_def mp_uint_def mp_string_head_def mp_map_head_def Let_def
      MAX_DEPTH_def)

section \<open>What goes wrong\<close>

text \<open>The writer of true also writes a false: of an array of true and \<open>v\<close> the reader gets true and false, in
  reverse order, and \<open>v\<close> is left in the file, to be taken for the next value.\<close>

theorem dom_write_true_shifts:
  assumes "rf_works fd" and "b \<noteq> 0" and "mp_plain v" and "length (mp_encode v) < 2 ^ 30"
    and "length (mp_junk env) = 8" and "\<And>n. mp_alloc env n"
  shows "\<exists>n fd1 fd2. rmsgpack_dom_write fd (RDT_ARRAY [RDT_BOOL b, v]) = (int n, fd1) \<and>
    rmsgpack_dom_read env (Some out) (snd (filestream_seek (int (vh_pos (hfile fd))) SeekStart fd1)) =
      Some (0, Some (RDT_ARRAY [RDT_BOOL 0, RDT_BOOL 1]), fd2) \<and>
    (\<exists>rest. rf_rest fd2 = mp_encode v @ rest)"
proof -
  let ?xs = "[0x92, 0xc3, 0xc2] @ mp_encode v"
  have h: "rmsgpack_write_array_header fd 2 = (1, rf_put [0x92] fd)"
    using write_array_header_works [OF assms(1), of 2] by (simp add: mp_array_head_def)
  have t: "rmsgpack_dom_write (rf_put [0x92] fd) (RDT_BOOL b) = (1, rf_put [0x92, 0xc3, 0xc2] fd)"
    using assms(1,2) by (simp add: rmsgpack_write_bool_def rmsgpack_emit_works MPF_defs rf_put_put
        del: rmsgpack_emit.simps)
  obtain n where n: "rmsgpack_dom_write (rf_put [0x92, 0xc3, 0xc2] fd) v =
      (int n, rf_put (mp_encode v) (rf_put [0x92, 0xc3, 0xc2] fd))" "n \<le> length (mp_encode v)"
    using dom_write_works(1) [of "rf_put [0x92, 0xc3, 0xc2] fd" v] assms by auto
  have "c_int 2 = 2" "c_int (2 + int n) = int (2 + n)"
    using n(2) assms(4) by (simp_all add: c_int_small)
  then have w: "rmsgpack_dom_write fd (RDT_ARRAY [RDT_BOOL b, v]) = (int (2 + n), rf_put ?xs fd)"
    using h t n(1) by (simp add: rf_put_put del: rmsgpack_dom_write.simps(2))
  have enc: "mp_encode (RDT_ARRAY [RDT_BOOL 1, RDT_BOOL 0]) = [0x92, 0xc3, 0xc2]"
    by (simp add: mp_array_head_def)
  have rest: "rf_rest (snd (filestream_seek (int (vh_pos (hfile fd))) SeekStart (rf_put ?xs fd))) =
      mp_encode (RDT_ARRAY [RDT_BOOL 1, RDT_BOOL 0]) @ (mp_encode v @ drop (length ?xs) (rf_rest fd))"
    unfolding enc using rf_rest_written(1) [OF assms(1), of ?xs] by simp
  have "\<exists>fd2. rmsgpack_dom_read env (Some out) (snd (filestream_seek (int (vh_pos (hfile fd))) SeekStart (rf_put ?xs fd))) =
      Some (0, Some (dom_mirror (RDT_ARRAY [RDT_BOOL 1, RDT_BOOL 0])), fd2) \<and> rf_works fd2 \<and>
      rf_rest fd2 = mp_encode v @ drop (length ?xs) (rf_rest fd)"
    using dom_read_encoded_root [OF rf_rest_written(2) rest _ assms(5,6)] assms(1) by (simp add: MAX_DEPTH_def)
  then show ?thesis using w by (intro exI [of _ "2 + n"]) auto
qed

theorem dom_write_true_shifts_witness:
  "\<exists>n fd1 fd2. rmsgpack_dom_write \<lparr>hfile = vfs_open True [] [], error_flag = False, eof_flag = False\<rparr>
      (RDT_ARRAY [RDT_BOOL 1, RDT_UINT 9]) = (int n, fd1) \<and>
    rmsgpack_dom_read \<lparr>mp_alloc = \<lambda>_. True, mp_junk = replicate 8 7\<rparr> (Some RDT_NULL)
      (snd (filestream_seek 0 SeekStart fd1)) = Some (0, Some (RDT_ARRAY [RDT_BOOL 0, RDT_BOOL 1]), fd2)"
  using dom_write_true_shifts [of "\<lparr>hfile = vfs_open True [] [], error_flag = False, eof_flag = False\<rparr>" 1
      "RDT_UINT 9" "\<lparr>mp_alloc = \<lambda>_. True, mp_junk = replicate 8 7\<rparr>" RDT_NULL]
  by (force simp: rf_works_def vfs_open_def mp_uint_def Let_def)

text \<open>Neither the end of the file nor, unless its error number is 1, a failed read inside a number is reported:
  behind the end of the file the reader finds the integer 0, and a number whose bytes cannot be read is 0.\<close>

theorem dom_read_misses_errors:
  assumes "e \<noteq> 1"
  shows "(\<exists>fd'. rmsgpack_dom_read env (Some out)
        \<lparr>hfile = vfs_open rep [] [], error_flag = False, eof_flag = False\<rparr> = Some (0, Some (RDT_INT 0), fd')) \<and>
    (\<exists>fd'. rmsgpack_dom_read env (Some out) \<lparr>hfile = vfs_open rep [Works 1, Fails e] (0xce # bs),
        error_flag = False, eof_flag = False\<rparr> = Some (0, Some (RDT_UINT 0), fd') \<and> error_flag fd')"
proof
  let ?f = "\<lparr>hfile = vfs_open rep [] [], error_flag = False, eof_flag = False\<rparr>"
  have f: "filestream_read 1 ?f = (Some [], ?f\<lparr>eof_flag := True\<rparr>)"
    by (simp add: filestream_defs vfs_open_def Let_def)
  show "\<exists>fd'. rmsgpack_dom_read env (Some out) ?f = Some (0, Some (RDT_INT 0), fd')"
    unfolding rmsgpack_dom_read_def rmsgpack_read_eq [of _ _ _ ?f] f
    using dom_scalar_call [of out "[]" "RDT_INT 0" "[]"] by (simp add: read_value_def MPF_defs)
next
  let ?f = "\<lparr>hfile = vfs_open rep [Works 1, Fails e] (0xce # bs), error_flag = False, eof_flag = False\<rparr>"
  obtain f1 where f1: "filestream_read 1 ?f = (Some [0xce], f1)" "vh_calls (hfile f1) = [Fails e]"
    by (simp add: filestream_defs vfs_open_def Let_def)
  obtain f2 where f2: "filestream_read 4 f1 = (None, f2)" "neg_errno f2 = - int e" "error_flag f2"
    using f1(2) by (simp add: filestream_defs neg_errno_def)
  show "\<exists>fd'. rmsgpack_dom_read env (Some out) ?f = Some (0, Some (RDT_UINT 0), fd') \<and> error_flag fd'"
    unfolding rmsgpack_dom_read_def rmsgpack_read_eq [of _ _ _ ?f] f1(1)
    using dom_scalar_call [of out "[]" "RDT_UINT 0" "[]"] f2 assms
    by (simp add: read_value_def read_switch_def MPF_defs read_uint_def)
qed

theorem dom_read_misses_errors_witness:
  "\<exists>fd'. rmsgpack_dom_read \<lparr>mp_alloc = \<lambda>_. True, mp_junk = replicate 8 7\<rparr> (Some RDT_NULL)
      \<lparr>hfile = vfs_open True [Works 1, Fails 5] [0xce, 1, 2, 3, 4], error_flag = False, eof_flag = False\<rparr> =
      Some (0, Some (RDT_UINT 0), fd') \<and> error_flag fd'"
  using dom_read_misses_errors [of 5 "\<lparr>mp_alloc = \<lambda>_. True, mp_junk = replicate 8 7\<rparr>" RDT_NULL True "[1, 2, 3, 4]"]
  by simp

section \<open>Comparing\<close>

text \<open>Values without items, whose strings have no terminator inside.\<close>

fun dom_scalar :: "rmsgpack_dom_value \<Rightarrow> bool" where
  "dom_scalar (RDT_MAP _) = False"
| "dom_scalar (RDT_ARRAY _) = False"
| "dom_scalar (RDT_STRING s) = (0 \<notin> set s)"
| "dom_scalar _ = True"

lemma c_strncmp_eq:
  "length s = length t \<Longrightarrow> 0 \<notin> set s \<Longrightarrow> c_strncmp s t (length s) = 0 \<longleftrightarrow> s = t"
proof (induction s t rule: list_induct2')
  case (4 a s b t)
  then show ?case by (auto simp: word_uint_eq_iff)
qed auto

lemma c_strncmp_eq': "length s = length t \<Longrightarrow> 0 \<notin> set s \<Longrightarrow> c_strncmp s t (length t) = 0 \<longleftrightarrow> s = t"
  using c_strncmp_eq [of s t] by simp

lemma c_memcmp_eq: "length s = length t \<Longrightarrow> c_memcmp s t = 0 \<longleftrightarrow> s = t"
proof (induction s t rule: list_induct2')
  case (4 a s b t)
  then show ?case by (auto simp: word_uint_eq_iff)
qed auto

lemma dom_cmp_pairs_differ: "dom_cmp_pairs as bs \<noteq> 0"
  by (induction as bs rule: list_induct2') (auto simp: Let_def split: prod.splits if_splits)

lemma dom_cmp_items_differ: "dom_cmp_items as bs \<noteq> 0"
  by (induction as bs rule: list_induct2') (auto simp: Let_def split: if_splits)

lemma dom_map_value_unfold:
  "rmsgpack_dom_value_map_value (RDT_MAP items) k =
     map_option snd (find (\<lambda>(ik, iv). dom_cmp k ik = 0) items)"
  by (simp add: rmsgpack_dom_value_map_value_def rmsgpack_dom_value_cmp_def)

lemma dom_cmp_scalar: "dom_scalar a \<Longrightarrow> dom_cmp a b = 0 \<longleftrightarrow> a = b"
  by (cases a; cases b) (auto simp: c_strncmp_eq c_strncmp_eq' c_memcmp_eq)

text \<open>C25. The comparison says equal for two different objects with the same scalar value, and for nothing else: two maps
  or two arrays are never equal, nor is a value equal to itself through the same pointer.\<close>

theorem dom_cmp_equal:
  assumes "dom_scalar a \<or> (\<exists>x. a = RDT_MAP x) \<or> (\<exists>x. a = RDT_ARRAY x)"
  shows "rmsgpack_dom_value_cmp same a b = 0 \<longleftrightarrow> \<not> same \<and> dom_scalar a \<and> a = b"
proof (cases "dom_scalar a")
  case True
  then show ?thesis by (auto simp: rmsgpack_dom_value_cmp_def dom_cmp_scalar)
next
  case False
  then have "dom_cmp a b \<noteq> 0"
    using assms by (cases b) (auto simp: dom_cmp_pairs_differ dom_cmp_items_differ split: if_splits)
  then show ?thesis using False by (simp add: rmsgpack_dom_value_cmp_def)
qed

theorem dom_cmp_equal_witness:
  "rmsgpack_dom_value_cmp False (RDT_STRING [97]) (RDT_STRING [97]) = 0 \<and>
   rmsgpack_dom_value_cmp False (RDT_ARRAY [RDT_NULL]) (RDT_ARRAY [RDT_NULL]) \<noteq> 0"
  using dom_cmp_equal [of "RDT_STRING [97]" False "RDT_STRING [97]"]
    dom_cmp_equal [of "RDT_ARRAY [RDT_NULL]" False "RDT_ARRAY [RDT_NULL]"] by simp

text \<open>The first value stored under a key.\<close>

lemma dom_map_value_first:
  "0 \<notin> set k \<Longrightarrow> rmsgpack_dom_value_map_value (RDT_MAP items) (RDT_STRING k) = map_of items (RDT_STRING k)"
  by (induction items) (auto simp: dom_map_value_unfold dom_cmp_scalar)

end
