(* ===== verification/Bintree.thy ===== *)
theory Bintree
  imports RA_Prelude
begin

text \<open>
  The binary tree of the database's index builder: \<^verbatim>\<open>libretro-db/bintree.c\<close>.

  A node is absent (a null pointer, after a failed \<^verbatim>\<open>calloc\<close>), a nil node (its value is \<^verbatim>\<open>NIL_NODE\<close>), or
  holds a value; inserting follows the pointer it is given, so an absent node is \<^term>\<open>None\<close>.  The
  parent pointers are never read.

  Proved here: for a comparison that orders the values the tree is the ordered list of what was
  inserted, without duplicates, and iterating visits it in order until the callback objects.
\<close>

datatype 'v bintree_node = NullNode | NilNode | Node "'v bintree_node" 'v "'v bintree_node"

definition bintree_new_nil_node :: "bool \<Rightarrow> 'v bintree_node" where
  "bintree_new_nil_node got = (if got then NilNode else NullNode)"

fun bintree_is_nil :: "'v bintree_node \<Rightarrow> bool" where
  "bintree_is_nil NullNode = True"
| "bintree_is_nil NilNode = True"
| "bintree_is_nil (Node _ _ _) = False"

text \<open>\<open>gl\<close> and \<open>gr\<close>: the two new nil nodes are allocated.\<close>

fun bintree_insert_internal ::
  "('v \<Rightarrow> 'v \<Rightarrow> int) \<Rightarrow> bool \<Rightarrow> bool \<Rightarrow> 'v bintree_node \<Rightarrow> 'v \<Rightarrow> (int \<times> 'v bintree_node) option" where
  "bintree_insert_internal cmp gl gr NullNode value = None"
| "bintree_insert_internal cmp gl gr NilNode value =
     Some (0, Node (bintree_new_nil_node gl) value (bintree_new_nil_node gr))"
| "bintree_insert_internal cmp gl gr (Node l x r) value =
     (let cmp_res = cmp x value
      in if cmp_res > 0
         then do { (rv, l) \<leftarrow> bintree_insert_internal cmp gl gr l value; Some (rv, Node l x r) }
         else if cmp_res < 0
         then do { (rv, r) \<leftarrow> bintree_insert_internal cmp gl gr r value; Some (rv, Node l x r) }
         else Some (-22, Node l x r))"

text \<open>The callback works on the state behind its \<^verbatim>\<open>ctx\<close>.\<close>

fun bintree_iterate_internal :: "('v \<Rightarrow> 's \<Rightarrow> int \<times> 's) \<Rightarrow> 'v bintree_node \<Rightarrow> 's \<Rightarrow> int \<times> 's" where
  "bintree_iterate_internal cb (Node l x r) ctx =
     (case bintree_iterate_internal cb l ctx of
        (rv, ctx) \<Rightarrow>
          if rv \<noteq> 0 then (rv, ctx)
          else (case cb x ctx of
                  (rv, ctx) \<Rightarrow> if rv \<noteq> 0 then (rv, ctx) else bintree_iterate_internal cb r ctx))"
| "bintree_iterate_internal cb _ ctx = (0, ctx)"

record 'v bintree =
  bt_root :: "'v bintree_node"
  bt_cmp :: "'v \<Rightarrow> 'v \<Rightarrow> int"

definition bintree_new :: "bool \<Rightarrow> bool \<Rightarrow> ('v \<Rightarrow> 'v \<Rightarrow> int) \<Rightarrow> 'v bintree option" where
  "bintree_new got_tree got_node cmp =
     (if \<not> got_tree then None else Some \<lparr>bt_root = bintree_new_nil_node got_node, bt_cmp = cmp\<rparr>)"

definition bintree_insert :: "bool \<Rightarrow> bool \<Rightarrow> 'v bintree \<Rightarrow> 'v \<Rightarrow> (int \<times> 'v bintree) option" where
  "bintree_insert gl gr t value = do {
     (rv, root) \<leftarrow> bintree_insert_internal (bt_cmp t) gl gr (bt_root t) value;
     Some (rv, t\<lparr>bt_root := root\<rparr>)
   }"

definition bintree_iterate :: "'v bintree \<Rightarrow> ('v \<Rightarrow> 's \<Rightarrow> int \<times> 's) \<Rightarrow> 's \<Rightarrow> int \<times> 's" where
  "bintree_iterate t cb ctx = bintree_iterate_internal cb (bt_root t) ctx"

section \<open>The ordered list\<close>

fun bt_inorder :: "'v bintree_node \<Rightarrow> 'v list" where
  "bt_inorder (Node l x r) = bt_inorder l @ x # bt_inorder r"
| "bt_inorder _ = []"

fun bt_whole :: "'v bintree_node \<Rightarrow> bool" where
  "bt_whole NullNode \<longleftrightarrow> False"
| "bt_whole NilNode \<longleftrightarrow> True"
| "bt_whole (Node l x r) \<longleftrightarrow> bt_whole l \<and> bt_whole r"

text \<open>Running a callback over a list until it returns something else than 0.\<close>

fun run_until :: "('v \<Rightarrow> 's \<Rightarrow> int \<times> 's) \<Rightarrow> 'v list \<Rightarrow> 's \<Rightarrow> int \<times> 's" where
  "run_until cb [] s = (0, s)"
| "run_until cb (x # xs) s = (case cb x s of (rv, s) \<Rightarrow> if rv \<noteq> 0 then (rv, s) else run_until cb xs s)"

lemma run_until_append:
  "run_until cb (xs @ ys) s = (case run_until cb xs s of (rv, s) \<Rightarrow> if rv \<noteq> 0 then (rv, s) else run_until cb ys s)"
  by (induction xs arbitrary: s) (auto split: prod.splits)

lemma iterate_inorder: "bintree_iterate_internal cb t s = run_until cb (bt_inorder t) s"
proof (induction t arbitrary: s)
  case (Node l x r)
  then show ?case by (auto simp: run_until_append split: prod.splits)
qed simp_all

text \<open>Inserting one value after the other into a tree, and into a set that refuses a value equal to one it has.\<close>

fun bintree_fill :: "'v bintree \<Rightarrow> 'v list \<Rightarrow> (int list \<times> 'v bintree) option" where
  "bintree_fill t [] = Some ([], t)"
| "bintree_fill t (v # vs) = do {
     (rv, t) \<leftarrow> bintree_insert True True t v;
     (rvs, t) \<leftarrow> bintree_fill t vs;
     Some (rv # rvs, t)
   }"

fun set_fill :: "('v \<Rightarrow> 'v \<Rightarrow> int) \<Rightarrow> 'v set \<Rightarrow> 'v list \<Rightarrow> int list \<times> 'v set" where
  "set_fill cmp S [] = ([], S)"
| "set_fill cmp S (v # vs) =
     (if \<exists>y \<in> S. cmp y v = 0
      then (-22 # fst (set_fill cmp S vs), snd (set_fill cmp S vs))
      else (0 # fst (set_fill cmp (insert v S) vs), snd (set_fill cmp (insert v S) vs)))"

text \<open>
  What the tree asks of its comparison: it orders the values of a set.  Different values may compare
  as equal.
\<close>

locale ordering_cmp =
  fixes cmp :: "'v \<Rightarrow> 'v \<Rightarrow> int" and vals :: "'v set"
  assumes cmp_flip: "x \<in> vals \<Longrightarrow> y \<in> vals \<Longrightarrow> 0 < cmp x y \<longleftrightarrow> cmp y x < 0"
    and cmp_trans: "x \<in> vals \<Longrightarrow> y \<in> vals \<Longrightarrow> z \<in> vals \<Longrightarrow> cmp x y < 0 \<Longrightarrow> cmp y z < 0 \<Longrightarrow> cmp x z < 0"
begin

definition less :: "'v \<Rightarrow> 'v \<Rightarrow> bool" where
  "less x y \<longleftrightarrow> cmp x y < 0"

definition ordered :: "'v list \<Rightarrow> bool" where
  "ordered xs \<longleftrightarrow> set xs \<subseteq> vals \<and> sorted_wrt less xs"

lemma less_trans: "x \<in> vals \<Longrightarrow> y \<in> vals \<Longrightarrow> z \<in> vals \<Longrightarrow> less x y \<Longrightarrow> less y z \<Longrightarrow> less x z"
  unfolding less_def by (rule cmp_trans)

lemma less_differs: "x \<in> vals \<Longrightarrow> y \<in> vals \<Longrightarrow> less x y \<Longrightarrow> cmp y x \<noteq> 0"
  using cmp_flip [of y x] by (simp add: less_def)

lemma cmp_refl: "x \<in> vals \<Longrightarrow> cmp x x = 0"
  using cmp_flip [of x x] by linarith

lemma insert_ordered:
  assumes "v \<in> vals" and "bt_whole t" and "ordered (bt_inorder t)"
  shows "\<exists>rv t'. bintree_insert_internal cmp True True t v = Some (rv, t') \<and> bt_whole t' \<and>
    ordered (bt_inorder t') \<and>
    (if \<exists>y \<in> set (bt_inorder t). cmp y v = 0 then rv = -22 \<and> t' = t
     else rv = 0 \<and> set (bt_inorder t') = insert v (set (bt_inorder t)))"
  using assms(2,3)
proof (induction t)
  case NullNode
  then show ?case by simp
next
  case NilNode
  then show ?case using assms(1) by (simp add: bintree_new_nil_node_def ordered_def)
next
  case (Node l x r)
  have ord: "ordered (bt_inorder l)" "ordered (bt_inorder r)" and x: "x \<in> vals"
    and lt: "\<forall>y \<in> set (bt_inorder l). less y x" "\<forall>y \<in> set (bt_inorder r). less x y"
      "\<forall>y \<in> set (bt_inorder l). \<forall>z \<in> set (bt_inorder r). less y z"
    and sub: "set (bt_inorder l) \<subseteq> vals" "set (bt_inorder r) \<subseteq> vals"
    using Node.prems(2) by (auto simp: ordered_def sorted_wrt_append)
  consider "cmp x v > 0" | "cmp x v < 0" | "cmp x v = 0" by linarith
  then show ?case
  proof cases
    case 1
    then have vx: "less v x" using cmp_flip [OF x assms(1)] by (simp add: less_def)
    obtain rv l' where l': "bintree_insert_internal cmp True True l v = Some (rv, l')" "bt_whole l'"
      "ordered (bt_inorder l')"
      "if \<exists>y \<in> set (bt_inorder l). cmp y v = 0 then rv = -22 \<and> l' = l
       else rv = 0 \<and> set (bt_inorder l') = insert v (set (bt_inorder l))"
      using Node.IH(1) Node.prems(1) ord by auto
    have vr: "\<forall>z \<in> set (bt_inorder r). less v z" using vx lt(2) less_trans [of v x] assms(1) x sub by blast
    then have "\<forall>z \<in> set (bt_inorder r). cmp z v \<noteq> 0" using less_differs assms(1) sub by blast
    moreover have "set (bt_inorder l') \<subseteq> insert v (set (bt_inorder l))" using l'(4) by (auto split: if_splits)
    then have "ordered (bt_inorder (Node l' x r))"
      using l'(3) ord lt vx vr x sub assms(1) by (auto simp: ordered_def sorted_wrt_append)
    ultimately show ?thesis using 1 l' Node.prems(1) by (auto split: if_splits)
  next
    case 2
    then have xv: "less x v" by (simp add: less_def)
    obtain rv r' where r': "bintree_insert_internal cmp True True r v = Some (rv, r')" "bt_whole r'"
      "ordered (bt_inorder r')"
      "if \<exists>y \<in> set (bt_inorder r). cmp y v = 0 then rv = -22 \<and> r' = r
       else rv = 0 \<and> set (bt_inorder r') = insert v (set (bt_inorder r))"
      using Node.IH(2) Node.prems(1) ord by auto
    have lv: "\<forall>z \<in> set (bt_inorder l). less z v" using xv lt(1) less_trans [of _ x v] assms(1) x sub by blast
    then have "\<forall>z \<in> set (bt_inorder l). cmp z v \<noteq> 0" by (auto simp: less_def)
    moreover have "set (bt_inorder r') \<subseteq> insert v (set (bt_inorder r))" using r'(4) by (auto split: if_splits)
    then have "ordered (bt_inorder (Node l x r'))"
      using r'(3) ord lt xv lv x sub assms(1) by (auto simp: ordered_def sorted_wrt_append)
    ultimately show ?thesis using 2 r' Node.prems(1) by (auto split: if_splits)
  next
    case 3
    then show ?thesis using Node.prems by auto
  qed
qed

text \<open>Inserting a list of values does to the tree what it does to a set that refuses equal ones.\<close>

lemma fill_ordered:
  assumes "set vs \<subseteq> vals" "bt_cmp t = cmp" "bt_whole (bt_root t)" "ordered (bt_inorder (bt_root t))"
  shows "\<exists>t'. bintree_fill t vs = Some (fst (set_fill cmp (set (bt_inorder (bt_root t))) vs), t') \<and>
    ordered (bt_inorder (bt_root t')) \<and>
    set (bt_inorder (bt_root t')) = snd (set_fill cmp (set (bt_inorder (bt_root t))) vs)"
  using assms
proof (induction vs arbitrary: t)
  case Nil
  then show ?case by simp
next
  case (Cons v vs)
  obtain rv r where r: "bintree_insert_internal cmp True True (bt_root t) v = Some (rv, r)" "bt_whole r"
    "ordered (bt_inorder r)"
    "if \<exists>y \<in> set (bt_inorder (bt_root t)). cmp y v = 0 then rv = -22 \<and> r = bt_root t
     else rv = 0 \<and> set (bt_inorder r) = insert v (set (bt_inorder (bt_root t)))"
    using insert_ordered [OF _ Cons.prems(3,4), of v] Cons.prems(1) by auto
  let ?t = "t\<lparr>bt_root := r\<rparr>"
  obtain t' where "bintree_fill ?t vs = Some (fst (set_fill cmp (set (bt_inorder r)) vs), t')"
    "ordered (bt_inorder (bt_root t'))"
    "set (bt_inorder (bt_root t')) = snd (set_fill cmp (set (bt_inorder r)) vs)"
    using Cons.IH [of ?t] Cons.prems(1,2) r(2,3) by auto
  then show ?case
    using r(1,4) Cons.prems(2) by (auto simp: bintree_insert_def split_beta split: if_splits)
qed

text \<open>The callback sees the values of that set, each once and in order.\<close>

lemma fill_iterates:
  assumes "set vs \<subseteq> vals" "bintree_new True True cmp = Some t"
  shows "\<exists>t' xs. bintree_fill t vs = Some (fst (set_fill cmp {} vs), t') \<and>
    set xs = snd (set_fill cmp {} vs) \<and> sorted_wrt (\<lambda>x y. cmp x y < 0) xs \<and>
    (\<forall>cb s. bintree_iterate t' cb s = run_until cb xs s)"
proof -
  have t: "bt_cmp t = cmp" "bt_whole (bt_root t)" "bt_inorder (bt_root t) = []"
    using assms(2) by (auto simp: bintree_new_def bintree_new_nil_node_def)
  have o: "ordered (bt_inorder (bt_root t))" by (simp add: t ordered_def)
  obtain t' where "bintree_fill t vs = Some (fst (set_fill cmp {} vs), t')" "ordered (bt_inorder (bt_root t'))"
    "set (bt_inorder (bt_root t')) = snd (set_fill cmp {} vs)"
    using fill_ordered [OF assms(1) t(1,2) o] unfolding t(3) list.set by (elim exE conjE)
  then show ?thesis
    by (intro exI [of _ t'] exI [of _ "bt_inorder (bt_root t')"])
       (auto simp: ordered_def less_def [abs_def] bintree_iterate_def iterate_inorder)
qed

end

end
