(* ===== verification/Libretrodb.thy ===== *)
theory Libretrodb
  imports Dom_Roundtrip Bintree
begin

text \<open>
  The game database: \<^verbatim>\<open>libretro-db/libretrodb.c\<close>.  A file holds a header of 16 bytes (seven of magic, one
  of padding, the offset of the metadata), the documents as MessagePack values, a nil that ends them,
  and the metadata, a map with the number of documents; indexes may follow.

  A path is what opening it gives, a file or not; the caller's \<^verbatim>\<open>errno\<close> is a parameter where the code returns
  it without a call that failed.  Indeterminate local variables are parameters.  Documents come from
  the list of the results of the \<^verbatim>\<open>value_provider\<close>, and a query is the function that filters documents.
\<close>

definition MAGIC_NUMBER :: bytes where
  "MAGIC_NUMBER = [0x52, 0x41, 0x52, 0x43, 0x48, 0x44, 0x42]"

text \<open>The strings \<^verbatim>\<open>count\<close>, \<^verbatim>\<open>name\<close>, \<^verbatim>\<open>key_size\<close> and \<^verbatim>\<open>next\<close>.\<close>

definition key_count :: bytes where "key_count = [0x63, 0x6f, 0x75, 0x6e, 0x74]"
definition key_name :: bytes where "key_name = [0x6e, 0x61, 0x6d, 0x65]"
definition key_key_size :: bytes where
  "key_key_size = [0x6b, 0x65, 0x79, 0x5f, 0x73, 0x69, 0x7a, 0x65]"
definition key_next :: bytes where "key_next = [0x6e, 0x65, 0x78, 0x74]"

record libretrodb =
  db_fd :: "RFILE option"
  db_root :: u64
  db_count :: u64
  db_first_index_offset :: u64
  db_path :: string

record libretrodb_index =
  idx_name :: bytes
  idx_key_size :: u64
  idx_next :: u64

type_synonym db_query = "rmsgpack_dom_value \<Rightarrow> bool option"

record libretrodb_cursor =
  cur_is_valid :: bool
  cur_fd :: "RFILE option"
  cur_eof :: bool
  cur_query :: "db_query option"
  cur_db :: "libretrodb option"

text \<open>What \<^verbatim>\<open>calloc\<close> gives.\<close>

definition zero_db :: libretrodb where
  "zero_db = \<lparr>db_fd = None, db_root = 0, db_count = 0, db_first_index_offset = 0, db_path = []\<rparr>"

definition zero_cursor :: libretrodb_cursor where
  "zero_cursor = \<lparr>cur_is_valid = False, cur_fd = None, cur_eof = False, cur_query = None, cur_db = None\<rparr>"

definition libretrodb_new :: "bool \<Rightarrow> libretrodb option" where
  "libretrodb_new got = (if got then Some zero_db else None)"

definition libretrodb_cursor_new :: "bool \<Rightarrow> libretrodb_cursor option" where
  "libretrodb_cursor_new got = (if got then Some zero_cursor else None)"

section \<open>Metadata\<close>

text \<open>The result of \<^verbatim>\<open>libretrodb_read_metadata\<close> and the new \<^verbatim>\<open>md->count\<close>.\<close>

definition libretrodb_read_metadata :: "mp_env \<Rightarrow> RFILE \<Rightarrow> u64 \<Rightarrow> (int \<times> u64 \<times> RFILE) option" where
  "libretrodb_read_metadata env fd md = do {
     (rv, args, fd) \<leftarrow> rmsgpack_dom_read_into env fd [AKey key_count, AUint64 md, ANull];
     (case args of [_, AUint64 n, _] \<Rightarrow> Some (rv, n, fd) | _ \<Rightarrow> None)
   }"

definition libretrodb_write_metadata :: "RFILE \<Rightarrow> u64 \<Rightarrow> int \<times> RFILE" where
  "libretrodb_write_metadata fd md =
     (case rmsgpack_write_map_header fd 1 of
        (_, fd) \<Rightarrow> (case rmsgpack_write_string fd key_count of
                     (_, fd) \<Rightarrow> rmsgpack_write_uint fd md))"

section \<open>Documents\<close>

text \<open>
  \<^verbatim>\<open>libretrodb_validate_document\<close>.  The test of a nested map compares its result with \<^verbatim>\<open>rv\<close>, which is 0,
  where an assignment is meant.
\<close>

function (sequential) libretrodb_validate_document :: "rmsgpack_dom_value \<Rightarrow> int"
  and validate_items :: "(rmsgpack_dom_value \<times> rmsgpack_dom_value) list \<Rightarrow> int" where
  "libretrodb_validate_document (RDT_MAP items) = validate_items items"
| "libretrodb_validate_document _ = -22"
| "validate_items [] = 0"
| "validate_items ((RDT_STRING s, v) # r) =
     (if s = [] then -22
      else if hd s = 0x24 then -22
      else (case v of
              RDT_MAP _ \<Rightarrow> if 0 = libretrodb_validate_document v then 0 else validate_items r
            | _ \<Rightarrow> validate_items r))"
| "validate_items ((_, v) # r) = -22"
  by pat_completeness auto
termination
  by (relation "measure (case_sum size (size_list (size_prod size size)))") auto

section \<open>Creating\<close>

text \<open>The loop over the documents: the last result, the number of documents written.\<close>

fun create_items :: "RFILE \<Rightarrow> (int \<times> rmsgpack_dom_value) list \<Rightarrow> nat \<Rightarrow> (int \<times> nat \<times> RFILE) option" where
  "create_items fd [] item_count = None"
| "create_items fd ((rv, item) # ps) item_count =
     (if rv \<noteq> 0 then Some (rv, item_count, fd)
      else
        let rv = libretrodb_validate_document item
        in if rv < 0 then Some (rv, item_count, fd)
           else (case rmsgpack_dom_write fd item of
                   (rv, fd) \<Rightarrow>
                     if rv < 0 then Some (rv, item_count, fd) else create_items fd ps (item_count + 1)))"

definition header_bytes :: "u64 \<Rightarrow> bytes" where
  "header_bytes metadata_offset = MAGIC_NUMBER @ [0] @ mem_u64 metadata_offset"

text \<open>What follows the documents: the sentinel, the metadata, and the header at the beginning.\<close>

definition create_tail :: "int \<Rightarrow> nat \<Rightarrow> RFILE \<Rightarrow> int \<times> RFILE" where
  "create_tail root item_count fd =
     (case rmsgpack_dom_write fd RDT_NULL of
        (rv, fd) \<Rightarrow>
          if rv < 0 then (rv, fd)
          else
            (case filestream_seek 0 SeekCurrent fd of
               (p, fd) \<Rightarrow>
                 let off = swap_if_little64 (word_of_int (offset_value p));
                     (_, fd) = libretrodb_write_metadata fd (of_nat item_count);
                     (_, fd) = filestream_seek root SeekStart fd;
                     (_, fd) = filestream_write (header_bytes off) fd
                 in (rv, fd)))"

definition libretrodb_create :: "RFILE \<Rightarrow> (int \<times> rmsgpack_dom_value) list \<Rightarrow> (int \<times> RFILE) option" where
  "libretrodb_create fd provider =
     (case filestream_tell fd of
        (root, fd) \<Rightarrow>
          (case filestream_seek 16 SeekCurrent fd of
             (_, fd) \<Rightarrow> do {
               (rv, item_count, fd) \<leftarrow> create_items fd provider 0;
               if rv < 0 then Some (rv, fd) else Some (create_tail (offset_value root) item_count fd)
             }))"

section \<open>Opening\<close>

text \<open>\<open>junk\<close> are the indeterminate bytes of the header, \<open>md\<close> is the indeterminate count of the metadata.\<close>

definition open_header :: "mp_env \<Rightarrow> bytes \<Rightarrow> u64 \<Rightarrow> RFILE \<Rightarrow> libretrodb \<Rightarrow> (int \<times> libretrodb) option" where
  "open_header env hdr md fd db =
     (if c_strncmp hdr MAGIC_NUMBER 8 \<noteq> 0 then Some (-22, db)
      else
        let off = swap_if_little64 (of_nat (le_value (take 8 (drop 8 hdr))));
            (_, fd) = filestream_seek (sint off) SeekStart fd
        in do {
          (rv, n, fd) \<leftarrow> libretrodb_read_metadata env fd md;
          if rv < 0 then Some (-22, db)
          else (case filestream_tell fd of (pos, fd) \<Rightarrow>
                  Some (0, db\<lparr>db_count := n, db_first_index_offset := word_of_int (offset_value pos), db_fd := Some fd\<rparr>))
        })"

definition libretrodb_open ::
  "mp_env \<Rightarrow> bytes \<Rightarrow> u64 \<Rightarrow> int \<Rightarrow> string \<Rightarrow> vfs_handle option \<Rightarrow> libretrodb \<Rightarrow> (int \<times> libretrodb) option" where
  "libretrodb_open env junk md errno p fp db =
     (case filestream_open fp of
        None \<Rightarrow> Some (- errno, db)
      | Some fd \<Rightarrow>
          (case filestream_tell fd of
             (root, fd) \<Rightarrow>
               let db = db\<lparr>db_path := p, db_root := word_of_int (offset_value root)\<rparr>
               in (case filestream_read 16 fd of
                     (None, fd) \<Rightarrow> Some (neg_errno fd, db)
                   | (Some xs, fd) \<Rightarrow> open_header env (xs @ drop (length xs) junk) md fd db)))"

definition libretrodb_close :: "libretrodb \<Rightarrow> libretrodb" where
  "libretrodb_close db = db\<lparr>db_path := [], db_fd := None\<rparr>"

section \<open>Cursors\<close>

definition libretrodb_cursor_reset :: "libretrodb_cursor \<Rightarrow> (int \<times> libretrodb_cursor) option" where
  "libretrodb_cursor_reset cursor = do {
     fd \<leftarrow> cur_fd cursor;
     db \<leftarrow> cur_db cursor;
     let (r, fd) = filestream_seek (sint (db_root db + 16)) SeekStart fd;
     Some (c_int (offset_value r), cursor\<lparr>cur_eof := False, cur_fd := Some fd\<rparr>)
   }"

text \<open>
  \<^verbatim>\<open>libretrodb_cursor_read_item\<close>: the loop behind \<^verbatim>\<open>retry\<close>, which goes on as long as the query rejects
  what is read.  The results: \<^verbatim>\<open>rv\<close> (\<^verbatim>\<open>EOF\<close> is -1), the new \<^verbatim>\<open>eof\<close>, and \<^verbatim>\<open>out\<close>.
\<close>

text \<open>One pass from the label to the jump back: the results, or what the next pass starts with.\<close>

definition read_item_pass ::
  "mp_env \<Rightarrow> db_query option \<Rightarrow> rmsgpack_dom_value option \<Rightarrow> RFILE \<Rightarrow>
     ((int \<times> bool \<times> rmsgpack_dom_value option \<times> RFILE) + (rmsgpack_dom_value option \<times> RFILE)) option" where
  "read_item_pass env q out fd = do {
     (rv, out, fd) \<leftarrow> rmsgpack_dom_read env out fd;
     if rv < 0 then Some (Inl (rv, False, out, fd))
     else do {
       v \<leftarrow> out;
       if v = RDT_NULL then Some (Inl (-1, True, out, fd))
       else (case q of
               None \<Rightarrow> Some (Inl (0, False, out, fd))
             | Some f \<Rightarrow> do {
                 ok \<leftarrow> f v;
                 Some (if ok then Inl (0, False, out, fd) else Inr (out, fd))
               })
     }
   }"

partial_function (option) read_item_loop ::
  "mp_env \<Rightarrow> db_query option \<Rightarrow> rmsgpack_dom_value option \<Rightarrow> RFILE \<Rightarrow>
     (int \<times> bool \<times> rmsgpack_dom_value option \<times> RFILE) option" where
  "read_item_loop env q out fd =
     Option.bind (read_item_pass env q out fd) (\<lambda>r. case r of
       Inl res \<Rightarrow> Some res
     | Inr (out, fd) \<Rightarrow> read_item_loop env q out fd)"

text \<open>Its unfolding without the pass.\<close>

lemma read_item_loop_eq:
  "read_item_loop env q out fd =
     Option.bind (rmsgpack_dom_read env out fd) (\<lambda>(rv, out, fd).
       if rv < 0 then Some (rv, False, out, fd)
       else (case out of
               None \<Rightarrow> None
             | Some v \<Rightarrow>
                 if v = RDT_NULL then Some (-1, True, out, fd)
                 else (case q of
                         None \<Rightarrow> Some (0, False, out, fd)
                       | Some f \<Rightarrow> Option.bind (f v) (\<lambda>ok.
                           if ok then Some (0, False, out, fd) else read_item_loop env q out fd))))"
  by (subst read_item_loop.simps) (auto simp: read_item_pass_def split: option.split Option.bind_split prod.split)

definition libretrodb_cursor_read_item ::
  "mp_env \<Rightarrow> libretrodb_cursor \<Rightarrow> rmsgpack_dom_value option \<Rightarrow>
     (int \<times> rmsgpack_dom_value option \<times> libretrodb_cursor) option" where
  "libretrodb_cursor_read_item env cursor out =
     (if cur_eof cursor then Some (-1, out, cursor)
      else do {
        fd \<leftarrow> cur_fd cursor;
        (rv, eof, out, fd) \<leftarrow> read_item_loop env (cur_query cursor) out fd;
        Some (rv, out, cursor\<lparr>cur_fd := Some fd, cur_eof := eof\<rparr>)
      })"

definition libretrodb_cursor_close :: "libretrodb_cursor \<Rightarrow> libretrodb_cursor" where
  "libretrodb_cursor_close cursor =
     cursor\<lparr>cur_is_valid := False, cur_eof := True, cur_fd := None, cur_db := None, cur_query := None\<rparr>"

text \<open>The loop of the list command of \<^verbatim>\<open>libretrodb_tool.c\<close>: the items that are printed.\<close>

partial_function (option) cursor_list ::
  "mp_env \<Rightarrow> libretrodb_cursor \<Rightarrow> rmsgpack_dom_value option \<Rightarrow> rmsgpack_dom_value list option" where
  "cursor_list env cur item =
     Option.bind (libretrodb_cursor_read_item env cur item) (\<lambda>(rv, item, cur).
       if rv = 0
       then Option.bind item (\<lambda>v. Option.bind (cursor_list env cur item) (\<lambda>vs. Some (v # vs)))
       else Some [])"

text \<open>\<open>fp\<close> is the file behind \<^verbatim>\<open>db->path\<close>, opened once more.\<close>

definition libretrodb_cursor_open ::
  "int \<Rightarrow> vfs_handle option \<Rightarrow> libretrodb option \<Rightarrow> libretrodb_cursor \<Rightarrow> db_query option \<Rightarrow>
     (int \<times> libretrodb_cursor) option" where
  "libretrodb_cursor_open errno fp db cursor q =
     (case db of
        None \<Rightarrow> Some (- errno, cursor)
      | Some d \<Rightarrow>
          if db_path d = [] then Some (- errno, cursor)
          else (case filestream_open fp of
                  None \<Rightarrow> Some (- errno, cursor)
                | Some fd \<Rightarrow> do {
                    (_, cursor) \<leftarrow> libretrodb_cursor_reset
                      (cursor\<lparr>cur_fd := Some fd, cur_db := Some d, cur_is_valid := True\<rparr>);
                    Some (0, cursor\<lparr>cur_query := q\<rparr>)
                  }))"

section \<open>Indexes\<close>

definition libretrodb_read_index_header :: "mp_env \<Rightarrow> RFILE \<Rightarrow> libretrodb_index \<Rightarrow> (int \<times> libretrodb_index \<times> RFILE) option" where
  "libretrodb_read_index_header env fd idx = do {
     (rv, args, fd) \<leftarrow> rmsgpack_dom_read_into env fd
       [AKey key_name, ABuff (idx_name idx), AUint64 50, AKey key_key_size, AUint64 (idx_key_size idx),
        AKey key_next, AUint64 (idx_next idx), ANull];
     (case args of
        [_, ABuff nm, _, _, AUint64 ks, _, AUint64 nx, _] \<Rightarrow>
          Some (rv, \<lparr>idx_name = nm, idx_key_size = ks, idx_next = nx\<rparr>, fd)
      | _ \<Rightarrow> None)
   }"

text \<open>The string in a buffer, or \<^term>\<open>None\<close> when nothing in it ends the string.\<close>

definition c_string :: "bytes \<Rightarrow> bytes option" where
  "c_string b = (if 0 \<in> set b then Some (takeWhile (\<lambda>c. c \<noteq> 0) b) else None)"

definition libretrodb_write_index_header :: "RFILE \<Rightarrow> libretrodb_index \<Rightarrow> RFILE option" where
  "libretrodb_write_index_header fd idx = do {
     nm \<leftarrow> c_string (idx_name idx);
     let fd = snd (rmsgpack_write_map_header fd 3);
     let fd = snd (rmsgpack_write_string fd key_name);
     let fd = snd (rmsgpack_write_string fd nm);
     let fd = snd (rmsgpack_write_string fd key_key_size);
     let fd = snd (rmsgpack_write_uint fd (idx_key_size idx));
     let fd = snd (rmsgpack_write_string fd key_next);
     let fd = snd (rmsgpack_write_uint fd (idx_next idx));
     Some fd
   }"

partial_function (option) find_index_loop ::
  "mp_env \<Rightarrow> bytes \<Rightarrow> int \<Rightarrow> int \<Rightarrow> libretrodb_index \<Rightarrow> RFILE \<Rightarrow> (int \<times> libretrodb_index \<times> RFILE) option" where
  "find_index_loop env index_name eof offset idx fd =
     (if offset < eof
      then Option.bind (libretrodb_read_index_header env fd idx) (\<lambda>(_, idx, fd).
             Option.bind (c_string (idx_name idx)) (\<lambda>nm.
               if c_strncmp index_name nm (length nm) = 0 then Some (0, idx, fd)
               else
                 let (_, fd) = filestream_seek (sint (idx_next idx)) SeekCurrent fd;
                     (pos, fd) = filestream_tell fd
                 in find_index_loop env index_name eof (offset_value pos) idx fd))
      else Some (-1, idx, fd))"

definition libretrodb_find_index ::
  "mp_env \<Rightarrow> RFILE \<Rightarrow> u64 \<Rightarrow> bytes \<Rightarrow> libretrodb_index \<Rightarrow> (int \<times> libretrodb_index \<times> RFILE) option" where
  "libretrodb_find_index env fd first_index_offset index_name idx =
     (let (eof, fd) = filestream_get_size fd;
          (offset, fd) = filestream_seek (sint first_index_offset) SeekStart fd
      in find_index_loop env index_name (offset_value eof) (offset_value offset) idx fd)"

text \<open>
  \<^verbatim>\<open>binsearch\<close>: pointers are byte offsets into \<open>buff\<close>.  They are pointers to \<^verbatim>\<open>uint64_t\<close>, so every step of the
  pointer arithmetic is 8 bytes.
\<close>

partial_function (option) binsearch :: "bytes \<Rightarrow> nat \<Rightarrow> bytes \<Rightarrow> nat \<Rightarrow> nat \<Rightarrow> (int \<times> u64 option) option" where
  "binsearch buff base item n field_size =
     (let mid = n div 2;
          item_size = field_size + 8;
          current = base + 8 * (mid * item_size)
      in Option.bind (mem_read buff current field_size) (\<lambda>a.
         Option.bind (mem_read item 0 field_size) (\<lambda>b.
           let rv = c_memcmp a b
           in if rv = 0
              then Option.bind (mem_read buff (current + 8 * field_size) 8) (\<lambda>w.
                     Some (0, Some (of_nat (le_value w))))
              else if n = 0 then Some (-1, None)
              else if rv > 0 then binsearch buff base item mid field_size
              else binsearch buff (current + 8 * item_size) item (n - mid) field_size)))"

text \<open>The loop that reads an index into its buffer.\<close>

partial_function (option) read_index_loop :: "nat \<Rightarrow> nat \<Rightarrow> bytes \<Rightarrow> RFILE \<Rightarrow> (bytes option \<times> RFILE) option" where
  "read_index_loop bufflen nread buff fd =
     (if nread < bufflen
      then (case filestream_read (bufflen - nread) fd of
              (None, fd) \<Rightarrow> Some (None, fd)
            | (Some xs, fd) \<Rightarrow>
                if xs = [] then Some (None, fd)
                else Option.bind (mem_write buff (8 * nread) xs) (\<lambda>buff.
                       read_index_loop bufflen (nread + length xs) buff fd))
      else Some (Some buff, fd))"

definition libretrodb_find_entry ::
  "mp_env \<Rightarrow> libretrodb_index \<Rightarrow> libretrodb \<Rightarrow> bytes \<Rightarrow> bytes \<Rightarrow> rmsgpack_dom_value option \<Rightarrow>
     (int \<times> rmsgpack_dom_value option \<times> RFILE) option" where
  "libretrodb_find_entry env idx db index_name key out = do {
     fd \<leftarrow> db_fd db;
     (rv, idx, fd) \<leftarrow> libretrodb_find_index env fd (db_first_index_offset db) index_name idx;
     if rv < 0 then Some (-1, out, fd)
     else let bufflen = unat (idx_next idx) in
       if \<not> mp_alloc env bufflen \<or> 2 ^ 63 \<le> bufflen then Some (-12, out, fd)
       else do {
         (buff, fd) \<leftarrow> read_index_loop bufflen 0 (replicate bufflen 0) fd;
         (case buff of
            None \<Rightarrow> Some (neg_errno fd, out, fd)
          | Some b \<Rightarrow> do {
              (rv, off) \<leftarrow> binsearch b 0 key (unat (db_count db)) (unat (ucast (idx_key_size idx) :: u8));
              rmsgpack_dom_read env out
                (case off of Some o' \<Rightarrow> snd (filestream_seek (sint o') SeekStart fd) | None \<Rightarrow> fd)
            })
       }
   }"

definition node_compare :: "nat \<Rightarrow> bytes \<Rightarrow> bytes \<Rightarrow> int" where
  "node_compare field_size a b = c_memcmp (take field_size a) (take field_size b)"

definition node_iter :: "nat \<Rightarrow> bytes \<Rightarrow> RFILE \<Rightarrow> int \<times> RFILE" where
  "node_iter key_size value fd =
     (case filestream_write (take (key_size + 8) value) fd of
        (r, fd) \<Rightarrow> (case r of None \<Rightarrow> (-1, fd) | Some n \<Rightarrow> (if n > 0 then 0 else -1, fd)))"

text \<open>The entry of a document: the field, and the place of the document at \<^verbatim>\<open>(uint64_t *)buff + field_size\<close>.\<close>

definition index_entry :: "bytes \<Rightarrow> nat \<Rightarrow> u64 \<Rightarrow> bytes option" where
  "index_entry field field_size item_loc = do {
     buff \<leftarrow> mem_write (replicate (field_size + 8) 0) 0 (take field_size field);
     mem_write buff (8 * field_size) (mem_u64 item_loc)
   }"

text \<open>
  The loop of \<^verbatim>\<open>libretrodb_create_index\<close> over the documents of its cursor: the tree and the field size at
  the end of the documents, or \<^term>\<open>Inl\<close> for a jump to \<^verbatim>\<open>clean\<close>.  The position \<open>item_loc\<close> is that of the database's own
  file, which the cursor does not move.
\<close>

partial_function (option) index_loop ::
  "mp_env \<Rightarrow> bytes \<Rightarrow> u64 \<Rightarrow> libretrodb_cursor \<Rightarrow> rmsgpack_dom_value option \<Rightarrow> nat \<Rightarrow> bytes bintree_node \<Rightarrow>
     (unit + bytes bintree_node \<times> nat) option" where
  "index_loop env field_name item_loc cur item field_size tree =
     Option.bind (libretrodb_cursor_read_item env cur item) (\<lambda>(rv, item, cur).
       if rv \<noteq> 0 then Some (Inr (tree, field_size))
       else (case item of
               Some (RDT_MAP items) \<Rightarrow>
                 (case rmsgpack_dom_value_map_value (RDT_MAP items) (RDT_STRING field_name) of
                    Some (RDT_BINARY s) \<Rightarrow>
                      if s = [] then Some (Inl ())
                      else
                        let size1 = (if field_size = 0 then unat (of_nat (length s) :: u8) else field_size)
                        in if field_size \<noteq> 0 \<and> length s \<noteq> field_size then Some (Inl ())
                           else if \<not> mp_alloc env (size1 + 8) then Some (Inl ())
                           else Option.bind (index_entry s size1 item_loc) (\<lambda>buff.
                             Option.bind (bintree_insert_internal (node_compare size1) (mp_alloc env 32) (mp_alloc env 32) tree buff)
                               (\<lambda>(r, tree). if r \<noteq> 0 then Some (Inl ())
                                 else index_loop env field_name item_loc cur item size1 tree))
                  | _ \<Rightarrow> Some (Inl ()))
             | _ \<Rightarrow> Some (Inl ())))"

text \<open>The failed allocation of the tree leaves before the cursor is opened; the place of the database's file is asked for first.\<close>

definition libretrodb_create_index ::
  "mp_env \<Rightarrow> vfs_handle option \<Rightarrow> libretrodb \<Rightarrow> bytes \<Rightarrow> bytes \<Rightarrow> (int \<times> libretrodb) option" where
  "libretrodb_create_index env fp db name field_name = do {
     fd \<leftarrow> db_fd db;
     let (pos, fd) = filestream_tell fd;
     let item_loc = word_of_int (offset_value pos);
     let db = db\<lparr>db_fd := Some fd\<rparr>;
     if \<not> mp_alloc env 24 then Some (0, db)
     else do {
     (rv, cur) \<leftarrow> libretrodb_cursor_open 0 fp (Some db) zero_cursor None;
     if rv \<noteq> 0 then Some (0, db)
     else do {
       r \<leftarrow> index_loop env field_name item_loc cur (Some RDT_NULL) 0 (bintree_new_nil_node (mp_alloc env 32));
       (case r of
          Inl _ \<Rightarrow> Some (0, db)
        | Inr (tree, field_size) \<Rightarrow>
            let (_, fd) = filestream_seek 0 SeekEnd fd;
                nm = take 49 (name @ replicate 49 0) @ [0];
                idx = \<lparr>idx_name = nm, idx_key_size = of_nat field_size,
                       idx_next = db_count db * (of_nat field_size + 8)\<rparr>
            in do {
              fd \<leftarrow> libretrodb_write_index_header fd idx;
              Some (0, db\<lparr>db_fd := Some (snd (bintree_iterate_internal (node_iter field_size) tree fd))\<rparr>)
            })
     }}
   }"

end
