(* ===== verification/Libretrodb_Facts.thy ===== *)
theory Libretrodb_Facts
  imports Libretrodb
begin

text \<open>
  Facts about the game database of \<^verbatim>\<open>libretro-db/libretrodb.c\<close>: what creating writes and what opening and a
  cursor read from it, a file that was cut off, a creator whose seek does not report positions, and the
  index over a field of the documents.
\<close>

section \<open>What is created can be opened and read\<close>

text \<open>Reading a map into a structure that is not initialised.\<close>

lemma dom_read_map_uninitialised:
  assumes env: "length (mp_junk env) = 8" "\<And>n. mp_alloc env n"
    and f: "rf_works fd" "rf_rest fd = mp_encode (RDT_MAP kvs) @ rest" "dom_fits 0 (RDT_MAP kvs)"
  shows "\<exists>fd'. rmsgpack_dom_read env None fd = Some (0, Some (dom_mirror (RDT_MAP kvs)), fd') \<and>
    rf_works fd' \<and> rf_rest fd' = rest"
proof -
  let ?n = "length kvs"
  have fits: "2 * ?n \<le> MAX_DEPTH" "dom_fits_pairs 0 kvs" using f(3) by auto
  then have n: "?n < 2 ^ 32" "unat (of_nat ?n :: u32) = ?n" by (simp_all add: MAX_DEPTH_def unat_of_nat)
  have hd: "rf_rest fd = mp_map_head ?n @ mp_encode_pairs kvs @ rest" using f(2) by simp
  obtain f1 where h: "rmsgpack_read env (dom_reader_callbacks env) (dom_state None [[]]) fd =
      read_map (rmsgpack_read env (dom_reader_callbacks env)) (of_nat ?n) (dom_reader_callbacks env)
        (dom_state None [[]]) f1" "rf_works f1" "rf_rest f1 = mp_encode_pairs kvs @ rest"
    using read_map_head [OF f(1) hd n(1) env(1), of "dom_reader_callbacks env" "dom_state None [[]]"]
    by (elim exE conjE)
  obtain f2 where r: "mp_repeat (rmsgpack_read env (dom_reader_callbacks env)) (2 * ?n)
      (dom_state (dom_store [] (RDT_MAP (replicate ?n (RDT_NULL, RDT_NULL) @ [])) RDT_NULL)
        (rev (map (\<lambda>c. [] @ [c]) (map_slots ?n)) @ [])) f1 =
      Some (0, dom_state (dom_store [] (RDT_MAP (rev (map (map_prod dom_mirror dom_mirror) kvs) @ [])) RDT_NULL) [], f2)"
    "rf_works f2" "rf_rest f2 = rest"
    using dom_read_encoded(2) [OF env h(2,3), of "[]" RDT_NULL "[]" "[]"] fits(2) by auto
  have "mp_call (Some (dom_read_map_start env (of_nat ?n))) (dom_state None [[]]) f1 =
      Some (0, dom_state (Some (RDT_MAP (replicate ?n (RDT_NULL, RDT_NULL)))) (rev (map (\<lambda>c. [] @ [c]) (map_slots ?n))), f1)"
    using fits(1) n(2)
    by (simp add: mp_call_def dom_read_map_start_eq [OF env(2)] dom_reader_state_pop_def dom_assign_def
        dom_push_all_eq)
  then have "rmsgpack_read env (dom_reader_callbacks env) (dom_state None [[]]) fd =
      Some (0, dom_state (Some (dom_mirror (RDT_MAP kvs))) [], f2)"
    using h(1) r(1) n(2) by (simp add: read_map_def)
  then show ?thesis using r(2,3) by (simp add: rmsgpack_dom_read_def)
qed

definition metadata_bytes :: "nat \<Rightarrow> bytes" where
  "metadata_bytes n = mp_encode (RDT_MAP [(RDT_STRING key_count, RDT_UINT (of_nat n))])"

lemma metadata_bytes_eq:
  "metadata_bytes n = mp_map_head 1 @ mp_string_head 5 @ key_count @ mp_uint (of_nat n)"
proof -
  have "length key_count = 5" by (simp add: key_count_def)
  then show ?thesis by (simp add: metadata_bytes_def)
qed

lemma write_metadata_works:
  "rf_works fd \<Longrightarrow> snd (libretrodb_write_metadata fd (of_nat n)) = rf_put (metadata_bytes n) fd"
proof -
  assume f: "rf_works fd"
  have m: "rmsgpack_write_map_header fd 1 = (1, rf_put (mp_map_head 1) fd)"
    using write_map_header_works [OF f, of 1] by (simp add: mp_map_head_def)
  have s: "rmsgpack_write_string (rf_put (mp_map_head 1) fd) key_count =
      (6, rf_put (mp_string_head 5 @ key_count) (rf_put (mp_map_head 1) fd))"
    using write_string_works [of "rf_put (mp_map_head 1) fd" key_count] f
    by (simp add: key_count_def mp_string_head_def)
  show ?thesis
    using m s f
    by (simp add: libretrodb_write_metadata_def write_uint_works rf_put_put metadata_bytes_eq)
qed

lemma read_metadata_works:
  assumes env: "length (mp_junk env) = 8" "\<And>n. mp_alloc env n"
    and f: "rf_works fd" "rf_rest fd = metadata_bytes n @ rest"
  shows "\<exists>fd'. libretrodb_read_metadata env fd md = Some (0, of_nat n, fd')"
proof -
  obtain fd' where "rmsgpack_dom_read env None fd =
      Some (0, Some (RDT_MAP [(RDT_STRING key_count, RDT_UINT (of_nat n))]), fd')"
    using dom_read_map_uninitialised [OF env f(1), of "[(RDT_STRING key_count, RDT_UINT (of_nat n))]" rest] f(2)
    by (auto simp: metadata_bytes_def MAX_DEPTH_def key_count_def)
  then show ?thesis
    by (simp add: libretrodb_read_metadata_def rmsgpack_dom_read_into_def dom_map_value_unfold key_count_def)
qed

text \<open>A document that the writer can write and the reader can read.\<close>

definition db_document :: "rmsgpack_dom_value \<Rightarrow> bool" where
  "db_document d \<longleftrightarrow> libretrodb_validate_document d = 0 \<and> mp_plain d \<and> length (mp_encode d) < 2 ^ 31 \<and> dom_fits 0 d"

lemma create_items_works:
  assumes "rf_works fd" "\<forall>d \<in> set docs. db_document d" "0 < rv"
  shows "create_items fd (map (\<lambda>d. (0, d)) docs @ [(rv, x)]) n =
    Some (rv, n + length docs, rf_put (concat (map mp_encode docs)) fd)"
  using assms
proof (induction docs arbitrary: fd n)
  case Nil
  then show ?case by simp
next
  case (Cons d docs)
  then have d: "libretrodb_validate_document d = 0" "mp_plain d" "length (mp_encode d) < 2 ^ 31"
    by (simp_all add: db_document_def)
  obtain k where "rmsgpack_dom_write fd d = (int k, rf_put (mp_encode d) fd)"
    using dom_write_works(1) [OF Cons.prems(1) d(2,3)] by blast
  then show ?case using Cons d(1) by (simp add: rf_put_put)
qed

lemma swap64_twice [simp]: "swap_if_little64 (swap_if_little64 w) = w"
proof -
  have "unat (swap_if_little64 (swap_if_little64 w)) = unat w"
    using unat_u64 [of w] by (simp add: unat_swap64 [of "swap_if_little64 w"] mem_swap msb_value_msb_bytes)
  then show ?thesis by (simp only: word_unat_eq_iff)
qed

text \<open>The bytes of a database, and what creating it writes.\<close>

definition db_body :: "rmsgpack_dom_value list \<Rightarrow> bytes" where
  "db_body docs = concat (map mp_encode docs) @ [0xc0]"

definition db_file :: "nat \<Rightarrow> rmsgpack_dom_value list \<Rightarrow> bytes" where
  "db_file off docs = header_bytes (swap_if_little64 (of_nat off)) @ db_body docs @ metadata_bytes (length docs)"

lemma length_header_bytes [simp]: "length (header_bytes w) = 16"
  by (simp add: header_bytes_def MAGIC_NUMBER_def)

lemma libretrodb_create_works:
  assumes "\<forall>d \<in> set docs. db_document d" "0 < rv"
  shows "\<exists>fd. libretrodb_create \<lparr>hfile = vfs_open reports [] [], error_flag = False, eof_flag = False\<rparr>
      (map (\<lambda>d. (0, d)) docs @ [(rv, x)]) = Some (1, fd) \<and>
    vh_data (hfile fd) = db_file (if reports then 16 + length (db_body docs) else 0) docs"
proof -
  define f where "f = \<lparr>hfile = vfs_open reports [] [], error_flag = False, eof_flag = False\<rparr>"
  have f0: "filestream_tell f = (Some 0, f)" using filestream_asks_work(2) [of f] by (simp add: f_def vfs_open_def)
  let ?body = "concat (map mp_encode docs)"
  define f16 where "f16 = snd (filestream_seek 16 SeekCurrent f)"
  have f16: "rf_works f16" "vh_pos (hfile f16) = 16" "vh_data (hfile f16) = []" "vh_reports_pos (hfile f16) = reports"
    by (simp_all add: f16_def f_def filestream_seek_def vfs_seek_def vfs_next_def vfs_open_def rf_works_def)
  have items: "create_items f16 (map (\<lambda>d. (0, d)) docs @ [(rv, x)]) 0 = Some (rv, length docs, rf_put ?body f16)"
    using create_items_works [OF f16(1) assms] by simp
  define f2 where "f2 = rf_put (db_body docs) f16"
  have nil: "rmsgpack_dom_write (rf_put ?body f16) RDT_NULL = (1, f2)"
    using f16(1) by (simp add: rmsgpack_write_nil_def rmsgpack_emit_works rf_put_put f2_def db_body_def MPF_defs
        del: rmsgpack_emit.simps)
  have f2: "rf_works f2" "vh_pos (hfile f2) = 16 + length (db_body docs)"
    "vh_data (hfile f2) = replicate 16 0 @ db_body docs" "vh_reports_pos (hfile f2) = reports"
    using f16 by (simp_all add: f2_def) (simp_all add: rf_put_def vfs_overwrite_def db_body_def)
  let ?p = "if reports then 16 + length (db_body docs) else 0"
  define f3 where "f3 = snd (filestream_seek 0 SeekCurrent f2)"
  have seek: "filestream_seek 0 SeekCurrent f2 = (Some ?p, f3)"
    using f2 by (simp add: f3_def filestream_seek_def vfs_seek_def vfs_next_def rf_works_def Let_def nat_add_distrib)
  have f3: "rf_works f3" "vh_pos (hfile f3) = 16 + length (db_body docs)"
    "vh_data (hfile f3) = replicate 16 0 @ db_body docs"
    using f2 by (simp_all add: f3_def filestream_seek_def vfs_seek_def vfs_next_def rf_works_def Let_def nat_add_distrib)
  define f4 where "f4 = rf_put (metadata_bytes (length docs)) f3"
  have meta: "snd (libretrodb_write_metadata f3 (of_nat (length docs))) = f4"
    using write_metadata_works [OF f3(1)] by (simp add: f4_def)
  have f4: "rf_works f4" "vh_data (hfile f4) = replicate 16 0 @ db_body docs @ metadata_bytes (length docs)"
    using f3 by (simp_all add: f4_def) (simp_all add: rf_put_def vfs_overwrite_def)
  define f5 where "f5 = snd (filestream_seek 0 SeekStart f4)"
  have f5: "rf_works f5" "vh_data (hfile f5) = vh_data (hfile f4)" "vh_pos (hfile f5) = 0"
    using f4 by (simp_all add: f5_def filestream_seek_def vfs_seek_def vfs_next_def rf_works_def)
  let ?hdr = "header_bytes (swap_if_little64 (of_nat ?p))"
  have tail: "create_tail 0 (length docs) (rf_put ?body f16) = (1, rf_put ?hdr f5)"
    unfolding create_tail_def nil
    using seek meta f5(1)
    by (simp add: f5_def filestream_write_works split_beta Let_def offset_value_def)
  have data: "vh_data (hfile (rf_put ?hdr f5)) = db_file ?p docs"
  proof -
    have ne: "?hdr \<noteq> []" by (metis length_header_bytes list.size(3) zero_neq_numeral)
    show ?thesis
      using f5 f4(2) ne by (simp add: rf_put_def vfs_overwrite_def db_file_def)
  qed
  have "libretrodb_create f (map (\<lambda>d. (0, d)) docs @ [(rv, x)]) = Some (1, rf_put ?hdr f5)"
    using items tail assms(2) f0
    by (simp add: libretrodb_create_def f16_def [symmetric] offset_value_def split_beta)
  then show ?thesis using data f_def by blast
qed

section \<open>Reading the documents\<close>

lemma dom_read_nil_document:
  assumes "rf_works fd" "rf_rest fd = 0xc0 # rest"
  shows "\<exists>fd'. rmsgpack_dom_read env out fd = Some (0, Some RDT_NULL, fd') \<and> rf_works fd' \<and> rf_rest fd' = rest"
proof -
  obtain fd' where "rmsgpack_read env (dom_reader_callbacks env) (dom_state out [[]]) fd =
      mp_call (cb_nil (dom_reader_callbacks env)) (dom_state out [[]]) fd'" "rf_works fd'" "rf_rest fd' = rest"
    using read_nil [OF assms, of env "dom_reader_callbacks env" "dom_state out [[]]"] by (elim exE conjE)
  then show ?thesis
    by (simp add: rmsgpack_dom_read_def dom_reader_callbacks_def mp_call_def dom_read_nil_def dom_read_scalar_def
        dom_reader_state_pop_def dom_assign_def split: option.split)
qed

lemma document_is_map: "db_document d \<Longrightarrow> \<exists>kvs. d = RDT_MAP kvs"
  by (cases d) (auto simp: db_document_def)

lemma dom_read_document:
  assumes env: "length (mp_junk env) = 8" "\<And>n. mp_alloc env n"
    and "rf_works fd" "rf_rest fd = mp_encode d @ rest" "db_document d"
  shows "\<exists>fd'. rmsgpack_dom_read env out fd = Some (0, Some (dom_mirror d), fd') \<and>
    rf_works fd' \<and> rf_rest fd' = rest"
proof -
  have f: "dom_fits 0 d" using assms(5) by (simp add: db_document_def)
  show ?thesis
  proof (cases out)
    case None
    then show ?thesis
      using document_is_map [OF assms(5)] dom_read_map_uninitialised [OF env assms(3)] assms(4) f by auto
  next
    case (Some v)
    then show ?thesis using dom_read_encoded_root [OF assms(3,4) f env] by simp
  qed
qed

text \<open>The documents that a cursor accepts; a query is expected to give an answer for every document.\<close>

definition cursor_accepts :: "db_query option \<Rightarrow> rmsgpack_dom_value \<Rightarrow> bool" where
  "cursor_accepts q v = (case q of None \<Rightarrow> True | Some f \<Rightarrow> f v = Some True)"

definition query_answers :: "db_query option \<Rightarrow> rmsgpack_dom_value \<Rightarrow> bool" where
  "query_answers q v = (case q of None \<Rightarrow> True | Some f \<Rightarrow> f v \<noteq> None)"

lemma read_item_loop_finds:
  assumes env: "length (mp_junk env) = 8" "\<And>n. mp_alloc env n"
    and "rf_works fd" "rf_rest fd = concat (map mp_encode docs) @ 0xc0 # rest"
    and "\<forall>d \<in> set docs. db_document d \<and> query_answers q (dom_mirror d)"
  shows "\<exists>fd'. case dropWhile (\<lambda>d. \<not> cursor_accepts q (dom_mirror d)) docs of
       [] \<Rightarrow> read_item_loop env q out fd = Some (-1, True, Some RDT_NULL, fd')
     | d # ds \<Rightarrow> read_item_loop env q out fd = Some (0, False, Some (dom_mirror d), fd') \<and> rf_works fd' \<and>
                rf_rest fd' = concat (map mp_encode ds) @ 0xc0 # rest"
  using assms(3-)
proof (induction docs arbitrary: fd out)
  case Nil
  then show ?case
    using dom_read_nil_document [of fd rest env out] by (auto simp: read_item_loop_eq)
next
  case (Cons d docs)
  obtain fd1 where fd1: "rmsgpack_dom_read env out fd = Some (0, Some (dom_mirror d), fd1)" "rf_works fd1"
    "rf_rest fd1 = concat (map mp_encode docs) @ 0xc0 # rest"
    using dom_read_document [OF env Cons.prems(1), of d _ out] Cons.prems(2,3) by auto
  have map: "dom_mirror d \<noteq> RDT_NULL" using document_is_map [of d] Cons.prems(3) by auto
  show ?case
  proof (cases "cursor_accepts q (dom_mirror d)")
    case True
    then show ?thesis
      using fd1 map by (subst read_item_loop_eq) (auto simp: cursor_accepts_def split: option.splits)
  next
    case False
    then obtain f where q: "q = Some f" "f (dom_mirror d) = Some False"
      using Cons.prems(3) by (auto simp: cursor_accepts_def query_answers_def split: option.splits)
    have retry: "read_item_loop env q out fd = read_item_loop env q (Some (dom_mirror d)) fd1"
      using fd1(1) map q by (subst read_item_loop_eq) simp
    show ?thesis
      unfolding retry using Cons.IH [OF fd1(2,3), of "Some (dom_mirror d)"] Cons.prems(3) False by simp
  qed
qed

definition accepted :: "db_query option \<Rightarrow> rmsgpack_dom_value list \<Rightarrow> rmsgpack_dom_value list" where
  "accepted q docs = filter (cursor_accepts q) (map dom_mirror docs)"

lemma dropWhile_accepted:
  "accepted q docs = (case dropWhile (\<lambda>d. \<not> cursor_accepts q (dom_mirror d)) docs of
     [] \<Rightarrow> [] | d # ds \<Rightarrow> dom_mirror d # accepted q ds)"
  by (induction docs) (auto simp: accepted_def)

lemma cursor_list_reads:
  assumes env: "length (mp_junk env) = 8" "\<And>n. mp_alloc env n"
    and "cur_fd cur = Some fd" "\<not> cur_eof cur" "cur_query cur = q" "rf_works fd"
    and "rf_rest fd = concat (map mp_encode docs) @ 0xc0 # rest"
    and "\<forall>d \<in> set docs. db_document d \<and> query_answers q (dom_mirror d)"
  shows "cursor_list env cur out = Some (accepted q docs)"
  using assms(3-)
proof (induction "length docs" arbitrary: docs cur fd out rule: less_induct)
  case less
  let ?skip = "dropWhile (\<lambda>d. \<not> cursor_accepts q (dom_mirror d)) docs"
  obtain fd' where fd': "case ?skip of
       [] \<Rightarrow> read_item_loop env q out fd = Some (-1, True, Some RDT_NULL, fd')
     | d # ds \<Rightarrow> read_item_loop env q out fd = Some (0, False, Some (dom_mirror d), fd') \<and> rf_works fd' \<and>
                rf_rest fd' = concat (map mp_encode ds) @ 0xc0 # rest"
    using read_item_loop_finds [OF env less.prems(4,5,6), of out] by (elim exE conjE)
  show ?case
  proof (cases ?skip)
    case Nil
    then have "read_item_loop env q out fd = Some (-1, True, Some RDT_NULL, fd')" "accepted q docs = []"
      using fd' dropWhile_accepted [of q docs] by (simp_all only: list.case)
    then show ?thesis
      using less.prems(1-3) by (subst cursor_list.simps) (simp add: libretrodb_cursor_read_item_def)
  next
    case (Cons d ds)
    then have loop: "read_item_loop env q out fd = Some (0, False, Some (dom_mirror d), fd')" "rf_works fd'"
      "rf_rest fd' = concat (map mp_encode ds) @ 0xc0 # rest" and acc: "accepted q docs = dom_mirror d # accepted q ds"
      using fd' dropWhile_accepted [of q docs] by (simp_all only: list.case)
    have ds: "length ds < length docs" "set ds \<subseteq> set docs"
      using Cons length_dropWhile_le [of "\<lambda>d. \<not> cursor_accepts q (dom_mirror d)" docs]
        set_dropWhileD [of _ "\<lambda>d. \<not> cursor_accepts q (dom_mirror d)" docs] by auto
    let ?cur = "cur\<lparr>cur_fd := Some fd', cur_eof := False\<rparr>"
    have read: "libretrodb_cursor_read_item env cur out = Some (0, Some (dom_mirror d), ?cur)"
      using loop(1) less.prems(1-3) by (simp add: libretrodb_cursor_read_item_def)
    have "cursor_list env ?cur (Some (dom_mirror d)) = Some (accepted q ds)"
      using less.hyps [OF ds(1), of ?cur fd'] loop less.prems(3,6) ds(2) by auto
    then show ?thesis using read acc by (subst cursor_list.simps) simp
  qed
qed

section \<open>Opening what was created\<close>

lemma magic_matches: "c_strncmp (MAGIC_NUMBER @ 0 # xs) MAGIC_NUMBER 8 = 0"
  by (simp add: MAGIC_NUMBER_def numeral_eq_Suc)

lemma header_offset: "swap_if_little64 (of_nat (le_value (take 8 (drop 8 (header_bytes (swap_if_little64 w)))))) = w"
proof -
  have "take 8 (drop 8 (header_bytes (swap_if_little64 w))) = mem_u64 (swap_if_little64 w)"
    by (simp add: header_bytes_def MAGIC_NUMBER_def)
  then show ?thesis
    using unat_u64 [of "swap_if_little64 w"] by (simp add: le_value_le_bytes)
qed

lemma sint_small: "n < 2 ^ 63 \<Longrightarrow> sint (of_nat n :: u64) = int n"
  by (simp add: signed_of_nat signed_take_bit_int_eq_self)

lemma length_db_body: "length (db_body docs) = length (concat (map mp_encode docs)) + 1"
  by (simp add: db_body_def)

text \<open>A file with a good header.\<close>

lemma open_works:
  assumes env: "length (mp_junk env) = 8" "\<And>n. mp_alloc env n"
    and small: "length (db_body docs) < 2 ^ 62"
  shows "\<exists>db. libretrodb_open env junk md errno p (Some (vfs_open reports [] (db_file (16 + length (db_body docs)) docs))) db0 =
      Some (0, db) \<and> db_count db = of_nat (length docs) \<and> db_root db = 0 \<and> db_path db = p \<and> db_fd db \<noteq> None"
proof -
  let ?w = "of_nat (16 + length (db_body docs)) :: u64"
  let ?data = "db_file (16 + length (db_body docs)) docs"
  define f0 where "f0 = \<lparr>hfile = vfs_open reports [] ?data, error_flag = False, eof_flag = False\<rparr>"
  have f0: "rf_works f0" "rf_rest f0 = ?data" "vh_data (hfile f0) = ?data" "filestream_tell f0 = (Some 0, f0)"
    using filestream_asks_work(2) [of f0] by (simp_all add: f0_def rf_works_def rf_rest_def vfs_open_def)
  have d: "?data = header_bytes (swap_if_little64 ?w) @ db_body docs @ metadata_bytes (length docs)"
    by (simp add: db_file_def)
  obtain f1 where f1: "filestream_read 16 f0 = (Some (header_bytes (swap_if_little64 ?w)), f1)" "rf_works f1"
    "vh_data (hfile f1) = ?data"
    using filestream_read_works [OF f0(1), of 16] f0(2,3) d by auto
  define f2 where "f2 = snd (filestream_seek (sint ?w) SeekStart f1)"
  have "sint ?w = int (16 + length (db_body docs))"
    using sint_small [of "16 + length (db_body docs)"] small by simp
  then have f2: "rf_works f2" "rf_rest f2 = metadata_bytes (length docs) @ []"
    using f1(2,3) d by (simp_all add: f2_def filestream_seek_def vfs_seek_def vfs_next_def rf_works_def rf_rest_def Let_def
        nat_add_distrib)
  obtain f3 where f3: "libretrodb_read_metadata env f2 md = Some (0, of_nat (length docs), f3)"
    using read_metadata_works [OF env f2, of md] by (elim exE)
  have "c_strncmp (header_bytes (swap_if_little64 ?w) @ ys) MAGIC_NUMBER 8 = 0" for ys
    using magic_matches by (simp add: header_bytes_def)
  then have opened: "open_header env (header_bytes (swap_if_little64 ?w) @ drop 16 junk) md f1 db =
      Some (0, db\<lparr>db_count := of_nat (length docs), db_first_index_offset := word_of_int (offset_value (fst (filestream_tell f3))),
      db_fd := Some (snd (filestream_tell f3))\<rparr>)" for db
    using f3 header_offset [of ?w] by (simp add: open_header_def f2_def split_beta)
  then show ?thesis
    using f1(1) f0(4) by (simp add: f0_def [symmetric] libretrodb_open_def filestream_open_def offset_value_def Let_def)
qed

lemma cursor_open_works:
  assumes "db_path db \<noteq> []" "db_root db = 0"
  shows "\<exists>cur fd. libretrodb_cursor_open errno (Some (vfs_open reports [] (db_file off docs))) (Some db) cur0 q = Some (0, cur) \<and>
    cur_fd cur = Some fd \<and> \<not> cur_eof cur \<and> cur_query cur = q \<and> rf_works fd \<and>
    rf_rest fd = concat (map mp_encode docs) @ 0xc0 # metadata_bytes (length docs)"
  using assms
  by (simp add: libretrodb_cursor_open_def filestream_open_def libretrodb_cursor_reset_def filestream_seek_def
      vfs_seek_def vfs_next_def vfs_open_def rf_works_def rf_rest_def db_file_def db_body_def Let_def)

lemma create_to_list:
  assumes env: "length (mp_junk env) = 8" "\<And>n. mp_alloc env n"
    and docs: "\<forall>d \<in> set docs. db_document d \<and> query_answers q (dom_mirror d)" and "0 < rv"
    and "length (db_body docs) < 2 ^ 62" and "p \<noteq> []"
  shows "\<exists>fd db cur. libretrodb_create \<lparr>hfile = vfs_open True [] [], error_flag = False, eof_flag = False\<rparr>
      (map (\<lambda>d. (0, d)) docs @ [(rv, x)]) = Some (1, fd) \<and>
    libretrodb_open env junk md errno p (Some (vfs_open reports [] (vh_data (hfile fd)))) db0 = Some (0, db) \<and>
    db_count db = of_nat (length docs) \<and>
    libretrodb_cursor_open errno (Some (vfs_open reports [] (vh_data (hfile fd)))) (Some db) cur0 q = Some (0, cur) \<and>
    cursor_list env cur item = Some (accepted q docs)"
proof -
  let ?data = "db_file (16 + length (db_body docs)) docs"
  have d: "\<forall>d \<in> set docs. db_document d" using docs by blast
  obtain fd where fd: "libretrodb_create \<lparr>hfile = vfs_open True [] [], error_flag = False, eof_flag = False\<rparr>
      (map (\<lambda>d. (0, d)) docs @ [(rv, x)]) = Some (1, fd)" "vh_data (hfile fd) = ?data"
    using libretrodb_create_works [OF d assms(4), of True x] by (auto simp only: if_True)
  obtain db where db: "libretrodb_open env junk md errno p (Some (vfs_open reports [] ?data)) db0 = Some (0, db)"
    "db_count db = of_nat (length docs)" "db_root db = 0" "db_path db = p"
    using open_works [OF env assms(5), of junk md errno p reports db0] by (elim exE conjE)
  obtain cur f where cur: "libretrodb_cursor_open errno (Some (vfs_open reports [] ?data)) (Some db) cur0 q = Some (0, cur)"
    "cur_fd cur = Some f" "\<not> cur_eof cur" "cur_query cur = q" "rf_works f"
    "rf_rest f = concat (map mp_encode docs) @ 0xc0 # metadata_bytes (length docs)"
    using cursor_open_works [of db errno reports "16 + length (db_body docs)" docs cur0 q] assms(6) db(3,4) by auto
  show ?thesis
    using fd db cur(1) cursor_list_reads [OF env cur(2-6) docs, of item] by auto
qed

section \<open>Files that are not whole\<close>

lemma dom_read_at_end:
  assumes "rf_works fd" "rf_rest fd = []"
  shows "\<exists>fd'. rmsgpack_dom_read env out fd = Some (0, Some (RDT_INT 0), fd') \<and> rf_works fd' \<and> rf_rest fd' = []"
proof -
  obtain fd' where fd': "filestream_read 1 fd = (Some [], fd')" "rf_works fd'" "rf_rest fd' = []"
    using filestream_read_works [OF assms(1), of 1] assms(2) by auto
  then have "rmsgpack_read env cbs d fd = read_value env (rmsgpack_read env cbs) cbs 0 d fd'" for cbs :: "dom_reader_state rmsgpack_read_callbacks" and d
    by (subst rmsgpack_read_eq) simp
  then show ?thesis
    using fd' by (simp add: rmsgpack_dom_read_def read_value_def MPF_defs dom_reader_callbacks_def mp_call_def
        dom_read_int_def dom_read_scalar_def dom_reader_state_pop_def dom_assign_def split: option.split)
qed

text \<open>So many passes, if they do not lead out of the loop.\<close>

fun read_item_passes ::
  "nat \<Rightarrow> mp_env \<Rightarrow> db_query option \<Rightarrow> rmsgpack_dom_value option \<Rightarrow> RFILE \<Rightarrow>
     ((int \<times> bool \<times> rmsgpack_dom_value option \<times> RFILE) + (rmsgpack_dom_value option \<times> RFILE)) option" where
  "read_item_passes 0 env q out fd = Some (Inr (out, fd))"
| "read_item_passes (Suc n) env q out fd =
     Option.bind (read_item_pass env q out fd) (\<lambda>r. case r of
       Inl res \<Rightarrow> Some (Inl res)
     | Inr (out, fd) \<Rightarrow> read_item_passes n env q out fd)"

lemma read_item_loop_passes: "read_item_loop env q out fd = Some r \<Longrightarrow> \<exists>n. read_item_passes n env q out fd = Some (Inl r)"
proof (induction env q out fd r rule: read_item_loop.raw_induct [rotated, consumes 1, case_names step])
  case (step loop env q out fd r)
  then obtain p where p: "read_item_pass env q out fd = Some p" by (cases "read_item_pass env q out fd") auto
  show ?case
  proof (cases p)
    case (Inl res)
    then show ?thesis using step(2) p by (intro exI [of _ 1]) simp
  next
    case (Inr c)
    obtain out' fd' where c: "c = (out', fd')" by fastforce
    then have "loop env q out' fd' = Some r" using step(2) p Inr by simp
    then obtain n where "read_item_passes n env q out' fd' = Some (Inl r)" using step(1) by (cases r) blast
    then show ?thesis using p Inr c by (intro exI [of _ "Suc n"]) simp
  qed
qed

lemma read_item_passes_at_end:
  assumes "rf_works fd" "rf_rest fd = []" "f (RDT_INT 0) = Some False"
  shows "\<exists>out' fd'. read_item_passes n env (Some f) out fd = Some (Inr (out', fd'))"
  using assms(1,2)
proof (induction n arbitrary: out fd)
  case (Suc n)
  obtain fd' where fd': "rmsgpack_dom_read env out fd = Some (0, Some (RDT_INT 0), fd')" "rf_works fd'" "rf_rest fd' = []"
    using dom_read_at_end [OF Suc.prems, of env out] by (elim exE conjE)
  then have "read_item_pass env (Some f) out fd = Some (Inr (Some (RDT_INT 0), fd'))"
    using assms(3) by (simp add: read_item_pass_def)
  then show ?case using Suc.IH [OF fd'(2,3)] by simp
qed simp

text \<open>The file of a creator whose seek does not report the position: the offset of the metadata is 0.\<close>

lemma read_metadata_at_header:
  assumes "rf_works fd" "rf_rest fd = 0x52 # rest"
  shows "\<exists>fd'. libretrodb_read_metadata env fd md = Some (0, md, fd') "
proof -
  obtain f1 where "rmsgpack_read env (dom_reader_callbacks env) (dom_state None [[]]) fd =
      read_value env (rmsgpack_read env (dom_reader_callbacks env)) (dom_reader_callbacks env) 0x52 (dom_state None [[]]) f1"
    using read_head [OF assms, of env "dom_reader_callbacks env" "dom_state None [[]]"] by (elim exE conjE)
  then have "rmsgpack_dom_read env None fd = Some (0, Some (RDT_INT 0x52), f1)"
    by (simp add: rmsgpack_dom_read_def read_value_def MPF_defs dom_reader_callbacks_def mp_call_def
        dom_read_int_def dom_read_scalar_def dom_reader_state_pop_def dom_assign_def split: option.split)
  then show ?thesis by (simp add: libretrodb_read_metadata_def rmsgpack_dom_read_into_def)
qed

lemma open_without_offset:
  "\<exists>db. libretrodb_open env junk md errno p (Some (vfs_open reports [] (db_file 0 docs))) db0 = Some (0, db) \<and>
    db_count db = md"
proof -
  define f0 where "f0 = \<lparr>hfile = vfs_open reports [] (db_file 0 docs), error_flag = False, eof_flag = False\<rparr>"
  let ?hdr = "header_bytes (swap_if_little64 0)"
  have d: "db_file 0 docs = ?hdr @ db_body docs @ metadata_bytes (length docs)" by (simp add: db_file_def)
  have f0: "rf_works f0" "rf_rest f0 = db_file 0 docs" "vh_data (hfile f0) = db_file 0 docs" "filestream_tell f0 = (Some 0, f0)"
    using filestream_asks_work(2) [of f0] by (simp_all add: f0_def rf_works_def rf_rest_def vfs_open_def)
  obtain f1 where f1: "filestream_read 16 f0 = (Some ?hdr, f1)" "rf_works f1" "vh_data (hfile f1) = db_file 0 docs"
    using filestream_read_works [OF f0(1), of 16] f0(2,3) d by auto
  define f2 where "f2 = snd (filestream_seek 0 SeekStart f1)"
  have "rf_works f2" "rf_rest f2 = 0x52 # drop 1 (db_file 0 docs)"
    using f1(2,3) d by (simp_all add: f2_def filestream_seek_def vfs_seek_def vfs_next_def rf_works_def rf_rest_def Let_def
        header_bytes_def MAGIC_NUMBER_def)
  then obtain f3 where f3: "libretrodb_read_metadata env f2 md = Some (0, md, f3)"
    using read_metadata_at_header [of f2 _ env md] by blast
  have "c_strncmp (?hdr @ ys) MAGIC_NUMBER 8 = 0" for ys
    using magic_matches by (simp add: header_bytes_def)
  then have "open_header env (?hdr @ drop 16 junk) md f1 db =
      Some (0, db\<lparr>db_count := md, db_first_index_offset := word_of_int (offset_value (fst (filestream_tell f3))),
      db_fd := Some (snd (filestream_tell f3))\<rparr>)" for db
    using f3 header_offset [of 0] by (simp add: open_header_def f2_def split_beta)
  then show ?thesis
    using f1(1) f0(4) by (simp add: f0_def [symmetric] libretrodb_open_def filestream_open_def offset_value_def Let_def)
qed

section \<open>The index\<close>

lemma index_entry_outside: "0 < k \<Longrightarrow> index_entry s k loc = None"
  by (auto simp: index_entry_def mem_write_def bind_eq_None_conv)

text \<open>An index over documents that have the field with a binary value.\<close>

lemma create_index_outside:
  assumes env: "length (mp_junk env) = 8" "\<And>n. mp_alloc env n"
    and db: "db_fd db = Some fd" "db_path db \<noteq> []" "db_root db = 0"
    and d: "db_document d"
    and field: "rmsgpack_dom_value_map_value (dom_mirror d) (RDT_STRING field_name) = Some (RDT_BINARY s)"
      "length s mod 256 \<noteq> 0"
  shows "libretrodb_create_index env (Some (vfs_open reports [] (db_file off (d # docs)))) db name field_name = None"
proof -
  let ?db = "db\<lparr>db_fd := Some (snd (filestream_tell fd))\<rparr>"
  obtain cur f where cur: "libretrodb_cursor_open 0 (Some (vfs_open reports [] (db_file off (d # docs)))) (Some ?db) zero_cursor None =
      Some (0, cur)" "cur_fd cur = Some f" "\<not> cur_eof cur" "cur_query cur = None" "rf_works f"
    "rf_rest f = mp_encode d @ concat (map mp_encode docs) @ 0xc0 # metadata_bytes (length (d # docs))"
    using cursor_open_works [of ?db 0 reports off "d # docs" zero_cursor None] db(2,3) by auto
  obtain f1 where f1: "rmsgpack_dom_read env (Some RDT_NULL) f = Some (0, Some (dom_mirror d), f1)"
    using dom_read_document [OF env cur(5,6) d, of "Some RDT_NULL"] by (elim exE conjE)
  obtain kvs where kvs: "dom_mirror d = RDT_MAP kvs" using document_is_map [OF d] by auto
  then have item: "libretrodb_cursor_read_item env cur (Some RDT_NULL) =
      Some (0, Some (RDT_MAP kvs), cur\<lparr>cur_fd := Some f1, cur_eof := False\<rparr>)"
    using f1 cur(2-4) by (simp add: libretrodb_cursor_read_item_def read_item_loop_eq)
  have "unat (of_nat (length s) :: u8) \<noteq> 0" "s \<noteq> []" using field(2) by (auto simp: unat_of_nat)
  then have "index_loop env field_name loc cur (Some RDT_NULL) 0 tree = None" for loc tree
    using field(1) kvs env(2) item by (subst index_loop.simps) (simp add: index_entry_outside)
  then show ?thesis using db(1) cur env(2) by (simp add: libretrodb_create_index_def split_beta)
qed

text \<open>The comparison of the tree orders entries that hold the whole field.\<close>

lemma memcmp_flip: "0 < c_memcmp a b \<longleftrightarrow> c_memcmp b a < 0"
  by (induction a b rule: c_memcmp.induct) (auto simp: uint_lt_0)

lemma memcmp_trans:
  "length a = length b \<Longrightarrow> length b = length c \<Longrightarrow> c_memcmp a b < 0 \<Longrightarrow> c_memcmp b c < 0 \<Longrightarrow> c_memcmp a c < 0"
proof (induction a b arbitrary: c rule: c_memcmp.induct)
  case (1 x a y b)
  then obtain z c' where c: "c = z # c'" "length b = length c'" by (cases c) auto
  then show ?case using 1 by (auto split: if_splits)
qed auto

lemma node_compare_trans:
  "fs \<le> length x \<Longrightarrow> fs \<le> length y \<Longrightarrow> fs \<le> length z \<Longrightarrow> node_compare fs x y < 0 \<Longrightarrow> node_compare fs y z < 0 \<Longrightarrow>
    node_compare fs x z < 0"
  using memcmp_trans [of "take fs x" "take fs y" "take fs z"] by (simp add: node_compare_def)

interpretation nc: ordering_cmp "node_compare fs" "{v. fs \<le> length v}" for fs
  by unfold_locales (auto simp: node_compare_def memcmp_flip intro: node_compare_trans [unfolded node_compare_def])

section \<open>The properties\<close>

text \<open>For the examples: allocations work.\<close>

abbreviation good_env :: mp_env where
  "good_env \<equiv> \<lparr>mp_alloc = \<lambda>_. True, mp_junk = replicate 8 7\<rparr>"

text \<open>Creating a database of valid documents works when seeking reports positions.  Opening the file then
  finds the number of documents, and a cursor over it, with or without a query, lists exactly the documents
  that the query accepts, in the order in which they were written, and then ends.\<close>

theorem libretrodb_create_list_roundtrip:
  assumes "length (mp_junk env) = 8" "\<And>n. mp_alloc env n"
    and "\<forall>d \<in> set docs. db_document d \<and> query_answers q (dom_mirror d)" and "0 < rv"
    and "length (db_body docs) < 2 ^ 62" and "p \<noteq> []"
  shows "\<exists>fd db cur. libretrodb_create \<lparr>hfile = vfs_open True [] [], error_flag = False, eof_flag = False\<rparr>
      (map (\<lambda>d. (0, d)) docs @ [(rv, x)]) = Some (1, fd) \<and>
    libretrodb_open env junk md errno p (Some (vfs_open reports [] (vh_data (hfile fd)))) db0 = Some (0, db) \<and>
    db_count db = of_nat (length docs) \<and>
    libretrodb_cursor_open errno (Some (vfs_open reports [] (vh_data (hfile fd)))) (Some db) cur0 q = Some (0, cur) \<and>
    cursor_list env cur item = Some (filter (cursor_accepts q) (map dom_mirror docs))"
  using create_to_list [OF assms(1-6)] unfolding accepted_def .

text \<open>Two documents, and a query that accepts the second.\<close>

theorem libretrodb_create_list_roundtrip_witness:
  "\<exists>fd db cur. libretrodb_create \<lparr>hfile = vfs_open True [] [], error_flag = False, eof_flag = False\<rparr>
      (map (\<lambda>d. (0, d)) [RDT_MAP [(RDT_STRING [97], RDT_INT 5)], RDT_MAP [(RDT_STRING [97], RDT_INT 6)]] @ [(1, RDT_NULL)]) =
        Some (1, fd) \<and>
    libretrodb_open good_env [] 0 0 ''db'' (Some (vfs_open False [] (vh_data (hfile fd)))) zero_db = Some (0, db) \<and>
    db_count db = 2 \<and>
    libretrodb_cursor_open 0 (Some (vfs_open False [] (vh_data (hfile fd)))) (Some db) zero_cursor
      (Some (\<lambda>v. Some (v = RDT_MAP [(RDT_STRING [97], RDT_INT 6)]))) = Some (0, cur) \<and>
    cursor_list good_env cur None = Some [RDT_MAP [(RDT_STRING [97], RDT_INT 6)]]"
  using libretrodb_create_list_roundtrip [of good_env
      "[RDT_MAP [(RDT_STRING [97], RDT_INT 5)], RDT_MAP [(RDT_STRING [97], RDT_INT 6)]]"
      "Some (\<lambda>v. Some (v = RDT_MAP [(RDT_STRING [97], RDT_INT 6)]))" 1 "''db''" RDT_NULL "[]" 0 0 False zero_db zero_cursor None]
  by (simp add: db_document_def query_answers_def cursor_accepts_def db_body_def mp_int_def mp_string_head_def
      mp_map_head_def MAX_DEPTH_def Let_def)

text \<open>When the creator's seek returns 0 for success, as the built-in file system does, the header of the new
  database has the offset 0 for its metadata.  Opening such a database succeeds: the metadata is read from the
  first byte of the header, an integer, and the number of documents stays what the local variable held.\<close>

theorem libretrodb_create_loses_offset:
  assumes "\<forall>d \<in> set docs. db_document d" "0 < rv"
  shows "\<exists>fd db. libretrodb_create \<lparr>hfile = vfs_open False [] [], error_flag = False, eof_flag = False\<rparr>
      (map (\<lambda>d. (0, d)) docs @ [(rv, x)]) = Some (1, fd) \<and>
    libretrodb_open env junk md errno p (Some (vfs_open False [] (vh_data (hfile fd)))) db0 = Some (0, db) \<and>
    db_count db = md"
proof -
  obtain fd where fd: "libretrodb_create \<lparr>hfile = vfs_open False [] [], error_flag = False, eof_flag = False\<rparr>
      (map (\<lambda>d. (0, d)) docs @ [(rv, x)]) = Some (1, fd)" "vh_data (hfile fd) = db_file 0 docs"
    using libretrodb_create_works [OF assms, of False x] by (auto simp only: if_False)
  then show ?thesis using open_without_offset [of env junk md errno p False docs db0] by auto
qed

theorem libretrodb_create_loses_offset_witness:
  "\<exists>fd db. libretrodb_create \<lparr>hfile = vfs_open False [] [], error_flag = False, eof_flag = False\<rparr>
      (map (\<lambda>d. (0, d)) [RDT_MAP [(RDT_STRING [97], RDT_INT 5)]] @ [(1, RDT_NULL)]) = Some (1, fd) \<and>
    libretrodb_open good_env [] 77 0 ''db'' (Some (vfs_open False [] (vh_data (hfile fd)))) zero_db = Some (0, db) \<and>
    db_count db = 77"
  using libretrodb_create_loses_offset [of "[RDT_MAP [(RDT_STRING [97], RDT_INT 5)]]" 1 RDT_NULL good_env "[]" 77 0
      "''db''" zero_db]
  by (simp add: db_document_def mp_int_def mp_string_head_def mp_map_head_def MAX_DEPTH_def Let_def)

text \<open>C30. A cursor with a query runs for ever once it is at the end of a file without the nil that ends the documents, when
  the query rejects the integer 0, which is what reading past the end gives: however many passes the loop has made,
  all of them were defined and the next one follows.  So the call has no result.\<close>

theorem libretrodb_cursor_stuck_at_end:
  assumes "\<not> cur_eof cursor" "cur_fd cursor = Some fd" "cur_query cursor = Some f"
    and "rf_works fd" "rf_rest fd = []" "f (RDT_INT 0) = Some False"
  shows "(\<forall>n. \<exists>out' fd'. read_item_passes n env (cur_query cursor) out fd = Some (Inr (out', fd'))) \<and>
    libretrodb_cursor_read_item env cursor out = None"
proof
  show passes: "\<forall>n. \<exists>out' fd'. read_item_passes n env (cur_query cursor) out fd = Some (Inr (out', fd'))"
    using read_item_passes_at_end [where f = f, OF assms(4-6)] assms(3) by simp
  then have "read_item_loop env (cur_query cursor) out fd = None"
    using read_item_loop_passes [of env "cur_query cursor" out fd] by (metis Inl_Inr_False not_None_eq option.inject)
  then show "libretrodb_cursor_read_item env cursor out = None"
    using assms(1,2) by (simp add: libretrodb_cursor_read_item_def)
qed

theorem libretrodb_cursor_stuck_at_end_witness:
  "\<forall>n. \<exists>out' fd'. read_item_passes n good_env (Some (\<lambda>v. Some (v = RDT_NULL))) None
     \<lparr>hfile = vfs_open True [] [], error_flag = False, eof_flag = False\<rparr> = Some (Inr (out', fd'))"
proof -
  let ?fd = "\<lparr>hfile = vfs_open True [] [], error_flag = False, eof_flag = False\<rparr>"
  let ?cursor = "\<lparr>cur_is_valid = True, cur_fd = Some ?fd, cur_eof = False, cur_query = Some (\<lambda>v. Some (v = RDT_NULL)), cur_db = None\<rparr>"
  show ?thesis
    using libretrodb_cursor_stuck_at_end [of ?cursor ?fd "\<lambda>v. Some (v = RDT_NULL)" good_env None]
    by (simp add: rf_works_def rf_rest_def vfs_open_def)
qed

text \<open>C31. Creating an index writes outside its buffer as soon as the first document has the field with a binary
  value whose length is not a multiple of 256: the place behind the field is computed in units of 8 bytes.\<close>

theorem libretrodb_create_index_overruns:
  assumes "length (mp_junk env) = 8" "\<And>n. mp_alloc env n"
    and "db_fd db = Some fd" "db_path db \<noteq> []" "db_root db = 0"
    and "db_document d"
    and "rmsgpack_dom_value_map_value (dom_mirror d) (RDT_STRING field_name) = Some (RDT_BINARY s)"
      "length s mod 256 \<noteq> 0"
  shows "libretrodb_create_index env (Some (vfs_open reports [] (db_file off (d # docs)))) db name field_name = None"
  by (rule create_index_outside [OF assms])

theorem libretrodb_create_index_overruns_witness:
  "libretrodb_create_index good_env (Some (vfs_open True [] (db_file 24 [RDT_MAP [(RDT_STRING [97], RDT_BINARY [1, 2, 3, 4])]])))
     \<lparr>db_fd = Some \<lparr>hfile = vfs_open True [] [], error_flag = False, eof_flag = False\<rparr>, db_root = 0, db_count = 1,
       db_first_index_offset = 0, db_path = ''db''\<rparr> [98] [97] = None"
  by (rule libretrodb_create_index_overruns [where d = "RDT_MAP [(RDT_STRING [97], RDT_BINARY [1, 2, 3, 4])]"
        and docs = "[]" and s = "[1, 2, 3, 4]"])
     (simp_all add: db_document_def mp_binary_head_def mp_string_head_def mp_map_head_def MAX_DEPTH_def
        rmsgpack_dom_value_map_value_def rmsgpack_dom_value_cmp_def Let_def)

text \<open>C32. The tree of the index builder: inserting entries of at least the field's size into a new tree gives the
  results of inserting them into a set that refuses entries with the same field, and iterating visits the
  entries of that set in the order of their fields until the callback returns something else than 0.\<close>

theorem bintree_sorts_entries:
  assumes "\<forall>v \<in> set vs. fs \<le> length v" and "bintree_new True True (node_compare fs) = Some t"
  shows "\<exists>t' xs. bintree_fill t vs = Some (fst (set_fill (node_compare fs) {} vs), t') \<and>
    set xs = snd (set_fill (node_compare fs) {} vs) \<and> sorted_wrt (\<lambda>x y. node_compare fs x y < 0) xs \<and>
    (\<forall>cb s. bintree_iterate t' cb s = run_until cb xs s)"
  by (rule nc.fill_iterates) (use assms in auto)

theorem bintree_sorts_entries_witness:
  "\<exists>t' xs. bintree_fill \<lparr>bt_root = NilNode, bt_cmp = node_compare 1\<rparr> [[3, 0], [1, 1], [3, 2]] = Some ([0, 0, -22], t') \<and>
    set xs = {[3, 0], [1, 1]} \<and> sorted_wrt (\<lambda>x y. node_compare 1 x y < 0) xs \<and>
    (\<forall>cb s. bintree_iterate t' cb s = run_until cb xs (s :: nat))"
  using bintree_sorts_entries [of "[[3, 0], [1, 1], [3, 2]]" 1 "\<lparr>bt_root = NilNode, bt_cmp = node_compare 1\<rparr>"]
  by (simp add: bintree_new_def bintree_new_nil_node_def node_compare_def insert_commute)

text \<open>Validating a document stops at a nested map that is valid, and passes over one that is not.\<close>

lemma validate_nested:
  assumes "k \<noteq> []" "hd k \<noteq> 0x24"
  shows "libretrodb_validate_document (RDT_MAP ((RDT_STRING k, RDT_MAP m) # r)) =
    (if libretrodb_validate_document (RDT_MAP m) = 0 then 0 else libretrodb_validate_document (RDT_MAP r))"
  using assms by simp

end
