(* ===== verification/Fnmatch.thy ===== *)
theory Fnmatch
  imports RA_Prelude
begin

text \<open>
  Matching with wildcards: \<^verbatim>\<open>libretro-common/compat/compat_fnmatch.c\<close>.  The pattern and the string are C
  strings, here their bytes before the terminator, so the end of a list is the byte 0 of the code.

  Proved here: \<open>rl_fnmatch\<close> returns 0 for exactly the strings that the pattern, read as a list of items,
  matches.
\<close>

definition FNM_NOMATCH :: int where "FNM_NOMATCH = 1"

text \<open>The loop over a list in brackets: is the character in it, and the pattern behind it.\<close>

fun fnmatch_list :: "bytes \<Rightarrow> u8 \<Rightarrow> bool \<Rightarrow> (bool \<times> bytes) option" where
  "fnmatch_list [] s charmatch = None"
| "fnmatch_list (c # p) s charmatch =
     (if c = 0x5d then Some (charmatch, p)
      else if charmatch then fnmatch_list p s charmatch
      else fnmatch_list p s (c = s))"

lemma fnmatch_list_shorter: "fnmatch_list p s m = Some (m', p') \<Longrightarrow> length p' < length p"
  by (induction p s m rule: fnmatch_list.induct) (auto split: if_splits)

text \<open>\<open>fnmatch_star\<close> is the loop that tries the rest of the pattern on shorter and shorter strings.\<close>

function (sequential) rl_fnmatch :: "bytes \<Rightarrow> bytes \<Rightarrow> int" and fnmatch_star :: "bytes \<Rightarrow> bytes \<Rightarrow> int" where
  "rl_fnmatch [] string = (if string = [] then 0 else FNM_NOMATCH)"
| "rl_fnmatch (c # p) string =
     (if c \<noteq> 0x2a \<and> string = [] then FNM_NOMATCH
      else if c = 0x2a
      then (let p = dropWhile (\<lambda>c. c = 0x2a) p in if p = [] then 0 else fnmatch_star p string)
      else if c = 0x5b
      then (case fnmatch_list p (hd string) False of
              None \<Rightarrow> FNM_NOMATCH
            | Some (charmatch, p) \<Rightarrow> if \<not> charmatch then FNM_NOMATCH else rl_fnmatch p (tl string))
      else if c = 0x3f then rl_fnmatch p (tl string)
      else if c = 0x5c
      then (case p of [] \<Rightarrow> FNM_NOMATCH
            | c # p \<Rightarrow> if c \<noteq> hd string then FNM_NOMATCH else rl_fnmatch p (tl string))
      else if c \<noteq> hd string then FNM_NOMATCH else rl_fnmatch p (tl string))"
| "fnmatch_star p [] = FNM_NOMATCH"
| "fnmatch_star p (s # string) =
     (let rv = rl_fnmatch p (s # string) in if rv \<noteq> 0 then fnmatch_star p string else 0)"
  by pat_completeness auto
termination
proof (relation "inv_image (less_than <*lex*> less_than <*lex*> less_than)
    (case_sum (\<lambda>(p, s). (length p, length s, 0)) (\<lambda>(p, s). (length p, length s, Suc 0)))", goal_cases)
  case 1
  show ?case by auto
next
  case (2 c p string x)
  then show ?case by (auto simp: length_dropWhile_le le_imp_less_Suc)
next
  case (3 c p string a charmatch p')
  then show ?case by (auto dest: fnmatch_list_shorter)
qed auto

section \<open>The items of a pattern\<close>

datatype glob_item = GStar | GAny | GList bytes | GChar u8

text \<open>\<^term>\<open>None\<close> for a list that is not closed and a backslash at the end.\<close>

fun glob_list :: "bytes \<Rightarrow> (bytes \<times> bytes) option" where
  "glob_list [] = None"
| "glob_list (c # p) =
     (if c = 0x5d then Some ([], p) else map_option (\<lambda>(cs, p). (c # cs, p)) (glob_list p))"

lemma glob_list_shorter: "glob_list p = Some (cs, p') \<Longrightarrow> length p' < length p"
  by (induction p arbitrary: cs) (auto split: if_splits)

function (sequential) glob_items :: "bytes \<Rightarrow> glob_item list option" where
  "glob_items [] = Some []"
| "glob_items (c # p) =
     (if c = 0x2a then map_option (\<lambda>g. GStar # g) (glob_items p)
      else if c = 0x5b
      then (case glob_list p of None \<Rightarrow> None | Some (cs, p) \<Rightarrow> map_option (\<lambda>g. GList cs # g) (glob_items p))
      else if c = 0x3f then map_option (\<lambda>g. GAny # g) (glob_items p)
      else if c = 0x5c
      then (case p of [] \<Rightarrow> None | c # p \<Rightarrow> map_option (\<lambda>g. GChar c # g) (glob_items p))
      else map_option (\<lambda>g. GChar c # g) (glob_items p))"
  by pat_completeness auto
termination by (relation "measure length") (auto dest: glob_list_shorter)

fun item_matches :: "glob_item \<Rightarrow> u8 \<Rightarrow> bool" where
  "item_matches GStar s \<longleftrightarrow> False"
| "item_matches GAny s \<longleftrightarrow> True"
| "item_matches (GList cs) s \<longleftrightarrow> s \<in> set cs"
| "item_matches (GChar c) s \<longleftrightarrow> s = c"

fun glob_matches :: "glob_item list \<Rightarrow> bytes \<Rightarrow> bool" where
  "glob_matches [] s \<longleftrightarrow> s = []"
| "glob_matches (GStar # g) s \<longleftrightarrow> (\<exists>k \<le> length s. glob_matches g (drop k s))"
| "glob_matches (i # g) s \<longleftrightarrow> s \<noteq> [] \<and> item_matches i (hd s) \<and> glob_matches g (tl s)"

lemma fnmatch_list_eq:
  "fnmatch_list p s m = map_option (\<lambda>(cs, p). (m \<or> s \<in> set cs, p)) (glob_list p)"
  by (induction p s m rule: fnmatch_list.induct) (auto simp: option.map_comp comp_def split_beta eq_commute)

lemma glob_star_star: "glob_matches (GStar # GStar # g) s = glob_matches (GStar # g) s"
proof -
  have "(\<exists>k \<le> length s. \<exists>j \<le> length s - k. glob_matches g (drop (j + k) s)) =
      (\<exists>k \<le> length s. glob_matches g (drop k s))"
    by (metis add.commute add.right_neutral le_add_diff_inverse le_diff_conv2 zero_le diff_zero)
  then show ?thesis by (simp add: add.commute)
qed

declare glob_matches.simps(2) [simp del]

lemma glob_star_rec: "glob_matches (GStar # g) s \<longleftrightarrow> glob_matches g s \<or> (s \<noteq> [] \<and> glob_matches (GStar # g) (tl s))"
proof (cases s)
  case Nil
  then show ?thesis by (simp add: glob_matches.simps(2))
next
  case (Cons x xs)
  have "(\<exists>k \<le> Suc (length xs). glob_matches g (drop k (x # xs))) \<longleftrightarrow>
      glob_matches g (x # xs) \<or> (\<exists>k \<le> length xs. glob_matches g (drop k xs))"
    by (metis Suc_le_mono drop0 drop_Suc_Cons old.nat.exhaust zero_le)
  then show ?thesis using Cons by (simp add: glob_matches.simps(2))
qed

lemma glob_items_star: "glob_items (0x2a # p) = map_option (\<lambda>g. GStar # g) (glob_items p)"
  by simp

lemma glob_items_stars:
  "(\<exists>g. glob_items (0x2a # p) = Some g \<and> glob_matches g s) \<longleftrightarrow>
   (\<exists>g. glob_items (dropWhile (\<lambda>c. c = 0x2a) p) = Some g \<and> glob_matches (GStar # g) s)"
proof (induction p)
  case Nil
  then show ?case by simp
next
  case (Cons c p)
  show ?case
  proof (cases "c = 0x2a")
    case True
    have "(\<exists>g. glob_items (0x2a # 0x2a # p) = Some g \<and> glob_matches g s) \<longleftrightarrow>
        (\<exists>g. glob_items (0x2a # p) = Some g \<and> glob_matches g s)"
      using glob_star_star [of _ s] by (cases "glob_items p") simp_all
    then show ?thesis using Cons True by simp
  next
    case False
    then show ?thesis
      unfolding glob_items_star by (cases "glob_items (c # p)") (simp_all del: glob_items.simps)
  qed
qed

lemma glob_star_all: "glob_matches [GStar] s"
  by (auto simp: glob_matches.simps(2) intro: exI [of _ "length s"])

text \<open>A pattern that does not begin with a star, and only such a one, needs a character.\<close>

lemma glob_items_nonempty:
  assumes "glob_items p = Some g" "p \<noteq> []" "hd p \<noteq> 0x2a"
  shows "\<not> glob_matches g []"
  using assms by (cases p) (auto split: if_splits option.splits list.splits)

lemma fnmatch_correct:
  "rl_fnmatch p s = 0 \<longleftrightarrow> (\<exists>g. glob_items p = Some g \<and> glob_matches g s)"
  "p \<noteq> [] \<Longrightarrow> hd p \<noteq> 0x2a \<Longrightarrow>
    fnmatch_star p s = 0 \<longleftrightarrow> (\<exists>g. glob_items p = Some g \<and> glob_matches (GStar # g) s)"
proof (induction p s and p s rule: rl_fnmatch_fnmatch_star.induct)
  case (1 s)
  then show ?case by (simp add: FNM_NOMATCH_def)
next
  case (2 c p s)
  note step = 2
  consider "c = 0x2a" | "c \<noteq> 0x2a" "s = []" | "c \<noteq> 0x2a" "s \<noteq> []" by blast
  then show ?case
  proof cases
    case 1
    let ?p = "dropWhile (\<lambda>c. c = 0x2a) p"
    show ?thesis
    proof (cases "?p = []")
      case True
      then show ?thesis
        using 1 glob_items_stars [of p s, unfolded True] glob_star_all [of s] by simp
    next
      case False
      then have "fnmatch_star ?p s = 0 \<longleftrightarrow> (\<exists>g. glob_items ?p = Some g \<and> glob_matches (GStar # g) s)"
        using step(1) 1 hd_dropWhile [of "\<lambda>c. c = 0x2a" p] by simp
      then show ?thesis using 1 False unfolding glob_items_stars [of p s, folded 1] by auto
    qed
  next
    case 2
    then show ?thesis
      using glob_items_nonempty [of "c # p"] by (auto simp: FNM_NOMATCH_def)
  next
    case 3
    let ?matches = "\<lambda>p. \<exists>g. glob_items p = Some g \<and> glob_matches g (tl s)"
    consider "c = 0x5b" | "c = 0x3f" | "c = 0x5c" | "c \<notin> {0x5b, 0x3f, 0x5c}" by blast
    then show ?thesis
    proof cases
      case 1
      have ih: "rl_fnmatch p' (tl s) = 0 \<longleftrightarrow> ?matches p'" if "fnmatch_list p (hd s) False = Some (True, p')" for p'
        using step(2) [OF _ _ _ that] 1 3 by auto
      show ?thesis
      proof (cases "glob_list p")
        case None
        then show ?thesis using 1 3 by (simp add: fnmatch_list_eq FNM_NOMATCH_def)
      next
        case (Some r)
        obtain cs p' where r: "r = (cs, p')" by fastforce
        then have "fnmatch_list p (hd s) False = Some (hd s \<in> set cs, p')" using Some by (simp add: fnmatch_list_eq)
        then show ?thesis
          using 1 3 Some r ih [of p'] by (cases "hd s \<in> set cs") (auto simp: FNM_NOMATCH_def)
      qed
    next
      case 2
      then show ?thesis using step(3) 3 by auto
    next
      case 3
      show ?thesis
      proof (cases p)
        case Nil
        then show ?thesis using 3 \<open>s \<noteq> []\<close> by (simp add: FNM_NOMATCH_def)
      next
        case (Cons d q)
        then show ?thesis using step(4) 3 \<open>s \<noteq> []\<close> by (auto simp: FNM_NOMATCH_def)
      qed
    next
      case 4
      then show ?thesis using step(5) 3 by (auto simp: FNM_NOMATCH_def)
    qed
  qed
next
  case (3 p)
  then show ?case
    using glob_items_nonempty [of p] by (auto simp: FNM_NOMATCH_def glob_matches.simps(2))
next
  case (4 p x s)
  then show ?case
    using glob_star_rec [of _ "x # s"] by (auto simp: Let_def)
qed

text \<open>C29. \<open>rl_fnmatch\<close> returns 0 if and only if the pattern is well formed and its items match the string:
  every star some characters, every other item one.\<close>

theorem fnmatch_matches_items:
  "rl_fnmatch p s = 0 \<longleftrightarrow> (case glob_items p of None \<Rightarrow> False | Some g \<Rightarrow> glob_matches g s)"
  using fnmatch_correct(1) [of p s] by (simp split: option.split)

end
