(* ===== verification/Query.thy ===== *)
theory Query
  imports Msgpack_Dom Fnmatch
begin

text \<open>
  The queries of the game database: \<^verbatim>\<open>libretro-db/query.c\<close>, the functions that test a document and the
  parser of their text.

  A query is a function with arguments, which are values or functions.  What the parser leaves
  uninitialised is \<^verbatim>\<open>_UNSET\<close>; using it is \<^term>\<open>None\<close>.  The text is a piece of memory (\<open>bf_data\<close>, the
  terminator included), and an access outside it is \<^term>\<open>None\<close> too.  An error is a constructor and not the
  text that is put into \<^verbatim>\<open>tmp_error_buff\<close>.
\<close>

datatype query_func = query_is_true | query_or | query_and | query_between | query_glob | query_all_map

datatype argument =
    AT_FUNCTION query_func "argument list"
  | AT_VALUE rmsgpack_dom_value
  | AT_FUNCTION_UNSET
  | AT_VALUE_UNSET

section \<open>The functions\<close>

abbreviation rdt_bool :: "bool \<Rightarrow> rmsgpack_dom_value" where
  "rdt_bool b \<equiv> RDT_BOOL (if b then 1 else 0)"

text \<open>\<^verbatim>\<open>res.val.bool_\<close> of a result.\<close>

definition is_true :: "rmsgpack_dom_value \<Rightarrow> bool" where
  "is_true v = (case v of RDT_BOOL b \<Rightarrow> b \<noteq> 0 | _ \<Rightarrow> False)"

definition query_func_is_true :: "rmsgpack_dom_value \<Rightarrow> nat \<Rightarrow> rmsgpack_dom_value" where
  "query_func_is_true input argc =
     (if argc > 0 then RDT_BOOL 0 else (case input of RDT_BOOL b \<Rightarrow> RDT_BOOL b | _ \<Rightarrow> RDT_BOOL 0))"

definition func_equals :: "rmsgpack_dom_value \<Rightarrow> argument list \<Rightarrow> rmsgpack_dom_value option" where
  "func_equals input argv =
     (case argv of
        [AT_VALUE_UNSET] \<Rightarrow> None
      | [AT_VALUE v] \<Rightarrow>
          let v = (case (input, v) of (RDT_UINT _, RDT_INT i) \<Rightarrow> RDT_UINT i | _ \<Rightarrow> v)
          in Some (rdt_bool (rmsgpack_dom_value_cmp False input v = 0))
      | _ \<Rightarrow> Some (RDT_BOOL 0))"

definition query_func_between :: "rmsgpack_dom_value \<Rightarrow> argument list \<Rightarrow> rmsgpack_dom_value option" where
  "query_func_between input argv =
     (case argv of
        [a, b] \<Rightarrow>
          (case (a, b) of
             (AT_FUNCTION _ _, _) \<Rightarrow> Some (RDT_BOOL 0)
           | (AT_FUNCTION_UNSET, _) \<Rightarrow> Some (RDT_BOOL 0)
           | (_, AT_FUNCTION _ _) \<Rightarrow> Some (RDT_BOOL 0)
           | (_, AT_FUNCTION_UNSET) \<Rightarrow> Some (RDT_BOOL 0)
           | (AT_VALUE (RDT_INT x), AT_VALUE (RDT_INT y)) \<Rightarrow>
               Some (case input of
                       RDT_INT i \<Rightarrow> rdt_bool (sint i \<ge> sint x \<and> sint i \<le> sint y)
                     | RDT_UINT i \<Rightarrow> rdt_bool (uint (ucast i :: u32) \<ge> uint x \<and> sint i \<le> sint y)
                     | _ \<Rightarrow> RDT_BOOL 0)
           | (AT_VALUE (RDT_INT x), AT_VALUE_UNSET) \<Rightarrow> None
           | (AT_VALUE _, _) \<Rightarrow> Some (RDT_BOOL 0)
           | _ \<Rightarrow> None)
      | _ \<Rightarrow> Some (RDT_BOOL 0))"

text \<open>The bytes of a string up to its first terminator.\<close>

definition c_chars :: "bytes \<Rightarrow> bytes" where
  "c_chars s = takeWhile (\<lambda>c. c \<noteq> 0) s"

definition query_func_glob :: "rmsgpack_dom_value \<Rightarrow> argument list \<Rightarrow> rmsgpack_dom_value option" where
  "query_func_glob input argv =
     (case argv of
        [AT_VALUE (RDT_STRING p)] \<Rightarrow>
          Some (case input of
                  RDT_STRING s \<Rightarrow> rdt_bool (rl_fnmatch (c_chars p) (c_chars s) = 0)
                | _ \<Rightarrow> RDT_BOOL 0)
      | [AT_VALUE_UNSET] \<Rightarrow> None
      | _ \<Rightarrow> Some (RDT_BOOL 0))"

text \<open>
  \<open>query_call\<close> is the call through the function pointer of an invocation.  \<open>or_args\<close>, \<open>and_args\<close> and \<open>map_args\<close>
  are the loops of the functions that call their arguments, \<open>res\<close> the result so far.
\<close>

function (sequential) query_call :: "query_func \<Rightarrow> argument list \<Rightarrow> rmsgpack_dom_value \<Rightarrow> rmsgpack_dom_value option"
  and query_arg :: "argument \<Rightarrow> rmsgpack_dom_value \<Rightarrow> rmsgpack_dom_value option"
  and or_args :: "argument list \<Rightarrow> rmsgpack_dom_value \<Rightarrow> rmsgpack_dom_value \<Rightarrow> rmsgpack_dom_value option"
  and and_args :: "argument list \<Rightarrow> rmsgpack_dom_value \<Rightarrow> rmsgpack_dom_value \<Rightarrow> rmsgpack_dom_value option"
  and map_args :: "argument list \<Rightarrow> rmsgpack_dom_value \<Rightarrow> rmsgpack_dom_value \<Rightarrow> rmsgpack_dom_value option" where
  "query_call query_is_true argv input = Some (query_func_is_true input (length argv))"
| "query_call query_or argv input = or_args argv input (RDT_BOOL 0)"
| "query_call query_and argv input = and_args argv input (RDT_BOOL 0)"
| "query_call query_between argv input = query_func_between input argv"
| "query_call query_glob argv input = query_func_glob input argv"
| "query_call query_all_map argv input =
     (if length argv mod 2 \<noteq> 0 then Some (RDT_BOOL 0)
      else (case input of RDT_MAP _ \<Rightarrow> map_args argv input (RDT_BOOL 1) | _ \<Rightarrow> Some (RDT_BOOL 1)))"
| "query_arg (AT_FUNCTION f argv) input =
     Option.bind (query_call f argv input) (\<lambda>r. Some (query_func_is_true r 0))"
| "query_arg AT_FUNCTION_UNSET input = None"
| "query_arg a input = func_equals input [a]"
| "or_args [] input res = Some res"
| "or_args (a # argv) input res =
     Option.bind (query_arg a input) (\<lambda>res. if is_true res then Some res else or_args argv input res)"
| "and_args [] input res = Some res"
| "and_args (a # argv) input res =
     Option.bind (query_arg a input) (\<lambda>res. if \<not> is_true res then Some res else and_args argv input res)"
| "map_args (k # a # argv) input res =
     (case k of
        AT_VALUE key \<Rightarrow>
          let value = (case rmsgpack_dom_value_map_value input key of None \<Rightarrow> RDT_NULL | Some v \<Rightarrow> v)
          in Option.bind (query_arg a value) (\<lambda>res. if \<not> is_true res then Some res else map_args argv input res)
      | AT_VALUE_UNSET \<Rightarrow> None
      | _ \<Rightarrow> Some (RDT_BOOL 0))"
| "map_args _ input res = Some res"
  by pat_completeness auto
termination
  by (relation "measure (case_sum
      (case_sum (\<lambda>(f, argv, i). 2 * size_list size argv + 1) (\<lambda>(a, i). 2 * size a))
      (case_sum (\<lambda>(argv, i, r). 2 * size_list size argv)
        (case_sum (\<lambda>(argv, i, r). 2 * size_list size argv) (\<lambda>(argv, i, r). 2 * size_list size argv))))") auto

definition registered_functions :: "(bytes \<times> query_func) list" where
  "registered_functions =
     [([0x69, 0x73, 0x5f, 0x74, 0x72, 0x75, 0x65], query_is_true),
      ([0x6f, 0x72], query_or),
      ([0x61, 0x6e, 0x64], query_and),
      ([0x62, 0x65, 0x74, 0x77, 0x65, 0x65, 0x6e], query_between),
      ([0x67, 0x6c, 0x6f, 0x62], query_glob)]"

section \<open>The text\<close>

record qbuffer =
  bf_data :: bytes
  bf_len :: nat
  bf_offset :: nat

datatype query_error =
    TooManyArguments
  | ExpectedNumber nat
  | ExpectedString nat
  | UnexpectedEof nat
  | OutOfMemory
  | UnknownFunction nat bytes
  | ExpectedEof nat u8
  | UnexpectedChar nat u8 u8

definition MAX_ERROR_LEN :: nat where "MAX_ERROR_LEN = 256"
definition QUERY_MAX_ARGS :: nat where "QUERY_MAX_ARGS = 50"

definition c_isspace :: "u8 \<Rightarrow> bool" where
  "c_isspace c \<longleftrightarrow> c = 0x20 \<or> (9 \<le> c \<and> c \<le> 13)"
definition c_isdigit :: "u8 \<Rightarrow> bool" where
  "c_isdigit c \<longleftrightarrow> 0x30 \<le> c \<and> c \<le> 0x39"
definition c_isalpha :: "u8 \<Rightarrow> bool" where
  "c_isalpha c \<longleftrightarrow> (0x41 \<le> c \<and> c \<le> 0x5a) \<or> (0x61 \<le> c \<and> c \<le> 0x7a)"

text \<open>The number of characters that \<^verbatim>\<open>snprintf\<close> writes for a number.\<close>

fun decimal_length :: "nat \<Rightarrow> nat" where
  "decimal_length n = (if n < 10 then 1 else Suc (decimal_length (n div 10)))"

declare decimal_length.simps [simp del]

text \<open>
  \<^verbatim>\<open>query_raise_unknown_function\<close> puts a quote and a terminator behind the name, and the name itself where it
  fits: \<^verbatim>\<open>n\<close> characters of the message stand before it.
\<close>

definition query_raise_unknown_function :: "nat \<Rightarrow> bytes \<Rightarrow> query_error option" where
  "query_raise_unknown_function pos name =
     (let n = decimal_length pos + 20
      in if n + length name + 2 \<le> MAX_ERROR_LEN then Some (UnknownFunction pos name) else None)"

text \<open>\<^verbatim>\<open>(unsigned)buff.offset < buff.len\<close>\<close>

definition before_end :: "qbuffer \<Rightarrow> bool" where
  "before_end buff \<longleftrightarrow> bf_offset buff mod 2 ^ 32 < bf_len buff"

definition query_is_eot :: "qbuffer \<Rightarrow> bool" where
  "query_is_eot buff \<longleftrightarrow> \<not> before_end buff"

definition char_at :: "qbuffer \<Rightarrow> u8 option" where
  "char_at buff = mem_get (bf_data buff) (bf_offset buff)"

definition advance :: "nat \<Rightarrow> qbuffer \<Rightarrow> qbuffer" where
  "advance n buff = buff\<lparr>bf_offset := bf_offset buff + n\<rparr>"

partial_function (option) query_chomp :: "qbuffer \<Rightarrow> qbuffer option" where
  "query_chomp buff =
     (if before_end buff
      then Option.bind (char_at buff) (\<lambda>c. if c_isspace c then query_chomp (advance 1 buff) else Some buff)
      else Some buff)"

definition query_expect_eof :: "qbuffer \<Rightarrow> query_error option \<Rightarrow> (qbuffer \<times> query_error option) option" where
  "query_expect_eof buff err = do {
     buff \<leftarrow> query_chomp buff;
     if before_end buff
     then do { c \<leftarrow> char_at buff; Some (buff, Some (ExpectedEof (bf_offset buff) c)) }
     else Some (buff, err)
   }"

definition query_peek :: "qbuffer \<Rightarrow> bytes \<Rightarrow> bool" where
  "query_peek buff data =
     (if usub (bf_len buff) (bf_offset buff) < length data then False
      else c_strncmp (drop (bf_offset buff) (bf_data buff)) data (length data) = 0)"

definition query_get_char :: "qbuffer \<Rightarrow> u8 \<Rightarrow> query_error option \<Rightarrow> (qbuffer \<times> u8 \<times> query_error option) option" where
  "query_get_char buff c err =
     (if query_is_eot buff then Some (buff, c, Some (UnexpectedEof (bf_offset buff)))
      else do { c \<leftarrow> char_at buff; Some (advance 1 buff, c, err) })"

definition query_peek_char :: "qbuffer \<Rightarrow> u8 \<Rightarrow> query_error option \<Rightarrow> (u8 \<times> query_error option) option" where
  "query_peek_char buff c err =
     (if query_is_eot buff then Some (c, Some (UnexpectedEof (bf_offset buff)))
      else do { c \<leftarrow> char_at buff; Some (c, err) })"

definition query_expect_char :: "qbuffer \<Rightarrow> u8 \<Rightarrow> (qbuffer \<times> query_error option) option" where
  "query_expect_char buff c =
     (if \<not> before_end buff then Some (buff, Some (UnexpectedEof (bf_offset buff)))
      else do {
        d \<leftarrow> char_at buff;
        Some (if d \<noteq> c then (buff, Some (UnexpectedChar (bf_offset buff) c d)) else (advance 1 buff, None))
      })"

section \<open>Values\<close>

text \<open>\<^verbatim>\<open>sscanf\<close> with \<^verbatim>\<open>%lld\<close>: the result and the number, which is undefined when it does not fit.\<close>

definition digits_value :: "bytes \<Rightarrow> nat" where
  "digits_value ds = foldl (\<lambda>v d. 10 * v + (unat d - 48)) 0 ds"

definition c_scan_int64 :: "bytes \<Rightarrow> (int \<times> u64 option) option" where
  "c_scan_int64 mem =
     (let s = dropWhile c_isspace (takeWhile (\<lambda>c. c \<noteq> 0) mem);
          ds = takeWhile c_isdigit (if s \<noteq> [] \<and> hd s \<in> {0x2b, 0x2d} then tl s else s);
          v = (if s \<noteq> [] \<and> hd s = 0x2d then - int (digits_value ds) else int (digits_value ds))
      in if 0 \<notin> set mem then None
         else if s = [] then Some (-1, None)
         else if ds = [] then Some (0, None)
         else if - (2 ^ 63) \<le> v \<and> v < 2 ^ 63 then Some (1, Some (word_of_int v))
         else None)"

partial_function (option) skip_digits :: "qbuffer \<Rightarrow> qbuffer option" where
  "skip_digits buff = Option.bind (char_at buff) (\<lambda>c. if c_isdigit c then skip_digits (advance 1 buff) else Some buff)"

type_synonym value_parse = "qbuffer \<times> rmsgpack_dom_value option \<times> query_error option"

definition query_parse_integer :: "qbuffer \<Rightarrow> value_parse option" where
  "query_parse_integer buff = do {
     (r, v) \<leftarrow> c_scan_int64 (drop (bf_offset buff) (bf_data buff));
     if r = 0 then Some (buff, None, Some (ExpectedNumber (bf_offset buff)))
     else do { buff \<leftarrow> skip_digits buff; Some (buff, map_option RDT_INT v, None) }
   }"

partial_function (option) string_loop :: "qbuffer \<Rightarrow> u8 \<Rightarrow> u8 \<Rightarrow> (qbuffer \<times> query_error option) option" where
  "string_loop buff terminator c =
     (if c = terminator then Some (buff, None)
      else Option.bind (query_get_char buff c None) (\<lambda>(buff, c, err).
        if err \<noteq> None then Some (buff, err) else string_loop buff terminator c))"

definition hex_digit :: "u8 \<Rightarrow> u8" where
  "hex_digit c = (if sint c \<le> 57 then c - 0x30 else (c - 0x41) + 10)"

text \<open>The loop over the pairs of a binary string; behind its last character stands its terminator.\<close>

fun binstr_bytes :: "bytes \<Rightarrow> u8 \<Rightarrow> bytes" where
  "binstr_bytes [] t = []"
| "binstr_bytes [h] t = [hex_digit h * 16 + hex_digit t]"
| "binstr_bytes (h # l # r) t = (hex_digit h * 16 + hex_digit l) # binstr_bytes r t"

text \<open>The rest of \<^verbatim>\<open>query_parse_string\<close>, from the first character on.\<close>

definition parse_string_body ::
  "(nat \<Rightarrow> bool) \<Rightarrow> qbuffer \<Rightarrow> bool \<Rightarrow> u8 \<Rightarrow> query_error option \<Rightarrow> value_parse option" where
  "parse_string_body alloc buff is_binstr terminator err = do {
     let str_start = bf_offset buff;
     (buff, c, err) \<leftarrow> query_get_char buff 0 err;
     (buff, err) \<leftarrow> (if err = None then string_loop buff terminator c else Some (buff, err));
     if err \<noteq> None then Some (buff, None, err)
     else do {
       let len = (bf_offset buff - str_start - 1) mod 2 ^ 32;
       let count = (if is_binstr then (len + 1) mod 2 ^ 32 div 2 else (len + 1) mod 2 ^ 32);
       if \<not> alloc count then Some (buff, None, Some OutOfMemory)
       else do {
         tok \<leftarrow> mem_read (bf_data buff) str_start len;
         Some (buff, Some (if is_binstr then RDT_BINARY (binstr_bytes tok terminator) else RDT_STRING tok), None)
       }
     }
   }"

definition query_parse_string :: "(nat \<Rightarrow> bool) \<Rightarrow> qbuffer \<Rightarrow> value_parse option" where
  "query_parse_string alloc buff = do {
     (buff, terminator, err) \<leftarrow> query_get_char buff 0 None;
     if err \<noteq> None then Some (buff, None, err)
     else do {
       let is_binstr = (terminator = 0x62);
       (buff, terminator, err) \<leftarrow> (if is_binstr then query_get_char buff terminator None else Some (buff, terminator, None));
       if terminator \<noteq> 0x22 \<and> terminator \<noteq> 0x27
       then let buff = buff\<lparr>bf_offset := bf_offset buff - 1\<rparr>
            in parse_string_body alloc buff is_binstr terminator (Some (ExpectedString (bf_offset buff)))
       else parse_string_body alloc buff is_binstr terminator err
     }
   }"

definition text_nil :: bytes where "text_nil = [0x6e, 0x69, 0x6c]"
definition text_true :: bytes where "text_true = [0x74, 0x72, 0x75, 0x65]"
definition text_false :: bytes where "text_false = [0x66, 0x61, 0x6c, 0x73, 0x65]"

text \<open>When nothing fits there is neither a value nor an error.\<close>

definition query_parse_value :: "(nat \<Rightarrow> bool) \<Rightarrow> qbuffer \<Rightarrow> value_parse option" where
  "query_parse_value alloc buff = do {
     buff \<leftarrow> query_chomp buff;
     if query_peek buff text_nil then Some (advance 3 buff, Some RDT_NULL, None)
     else if query_peek buff text_true then Some (advance 4 buff, Some (RDT_BOOL 1), None)
     else if query_peek buff text_false then Some (advance 5 buff, Some (RDT_BOOL 0), None)
     else if query_peek buff [0x62] \<or> query_peek buff [0x22] \<or> query_peek buff [0x27]
     then query_parse_string alloc buff
     else do {
       c \<leftarrow> char_at buff;
       if c_isdigit c then query_parse_integer buff else Some (buff, None, None)
     }
   }"

section \<open>Identifiers\<close>

partial_function (option) ident_loop :: "qbuffer \<Rightarrow> u8 \<Rightarrow> (qbuffer \<times> query_error option) option" where
  "ident_loop buff c =
     (if \<not> (c_isalpha c \<or> c_isdigit c \<or> c = 0x5f) then Some (buff, None)
      else let buff = advance 1 buff
           in Option.bind (query_peek_char buff c None) (\<lambda>(c, err).
                if err \<noteq> None then Some (buff, err) else ident_loop buff c))"

text \<open>The identifier is what lies between the offsets.\<close>

definition query_get_ident :: "qbuffer \<Rightarrow> (qbuffer \<times> bytes \<times> query_error option) option" where
  "query_get_ident buff =
     (if query_is_eot buff then Some (buff, [], Some (UnexpectedEof (bf_offset buff)))
      else do {
        let ident = bf_offset buff;
        (c, err) \<leftarrow> query_peek_char buff 0 None;
        if err \<noteq> None then Some (buff, [], err)
        else if \<not> c_isalpha c then Some (buff, [], None)
        else do {
          let buff = advance 1 buff;
          (c, err) \<leftarrow> query_peek_char buff c None;
          (buff, err) \<leftarrow> (if err \<noteq> None then Some (buff, err) else ident_loop buff c);
          name \<leftarrow> mem_read (bf_data buff) ident (bf_offset buff - ident);
          Some (buff, name, err)
        }
      })"

section \<open>Calls and tables\<close>

text \<open>Freeing an argument reads it.\<close>

fun query_argument_free :: "argument \<Rightarrow> bool" where
  "query_argument_free (AT_FUNCTION f argv) \<longleftrightarrow> (\<forall>a \<in> set argv. query_argument_free a)"
| "query_argument_free (AT_VALUE v) \<longleftrightarrow> True"
| "query_argument_free AT_FUNCTION_UNSET \<longleftrightarrow> False"
| "query_argument_free AT_VALUE_UNSET \<longleftrightarrow> False"

definition free_arguments :: "argument list \<Rightarrow> unit option" where
  "free_arguments args = (if \<forall>a \<in> set args. query_argument_free a then Some () else None)"

type_synonym argument_parse = "qbuffer \<times> argument \<times> query_error option"

text \<open>
  The parser of arguments calls the two functions below, which call it; it is a parameter of them.  Their
  loops give the arguments and \<open>Some error\<close> for a jump to \<^verbatim>\<open>clean\<close>.
\<close>

partial_function (option) method_args ::
  "(qbuffer \<Rightarrow> argument_parse option) \<Rightarrow> qbuffer \<Rightarrow> argument list \<Rightarrow>
     (qbuffer \<times> argument list \<times> query_error option option) option" where
  "method_args parse_arg buff args =
     (if query_peek buff [0x29] then Some (buff, args, None)
      else if QUERY_MAX_ARGS \<le> length args then Some (buff, args, Some (Some TooManyArguments))
      else Option.bind (parse_arg buff) (\<lambda>(buff, a, err).
        if err \<noteq> None then Some (buff, args, Some err)
        else Option.bind (query_chomp buff) (\<lambda>buff.
          Option.bind (query_expect_char buff 0x2c) (\<lambda>(buff, err).
            if err \<noteq> None then Some (buff, args @ [a], None)
            else Option.bind (query_chomp buff) (\<lambda>buff. method_args parse_arg buff (args @ [a]))))))"

text \<open>
  \<^verbatim>\<open>query_parse_method_call\<close>.  When the memory for the arguments is missing \<^verbatim>\<open>invocation->argc\<close> is already set,
  so the invocation is returned beside the error.
\<close>

definition query_parse_method_call ::
  "(nat \<Rightarrow> bool) \<Rightarrow> (qbuffer \<Rightarrow> argument_parse option) \<Rightarrow> qbuffer \<Rightarrow> argument_parse option" where
  "query_parse_method_call alloc parse_arg buff = do {
     (buff, func_name, err) \<leftarrow> query_get_ident buff;
     if err \<noteq> None then Some (buff, AT_FUNCTION_UNSET, err)
     else do {
       buff \<leftarrow> query_chomp buff;
       (buff, err) \<leftarrow> query_expect_char buff 0x28;
       if err \<noteq> None then Some (buff, AT_FUNCTION_UNSET, err)
       else (case find (\<lambda>(name, _). c_strncmp name func_name (length func_name) = 0) registered_functions of
               None \<Rightarrow> do {
                 e \<leftarrow> query_raise_unknown_function (bf_offset buff) func_name;
                 Some (buff, AT_FUNCTION_UNSET, Some e)
               }
             | Some (_, f) \<Rightarrow> do {
                 buff \<leftarrow> query_chomp buff;
                 (buff, args, stop) \<leftarrow> method_args parse_arg buff [];
                 (case stop of
                    Some err \<Rightarrow> do { _ \<leftarrow> free_arguments args; Some (buff, AT_FUNCTION_UNSET, err) }
                  | None \<Rightarrow> do {
                      (buff, err) \<leftarrow> query_expect_char buff 0x29;
                      if err \<noteq> None then do { _ \<leftarrow> free_arguments args; Some (buff, AT_FUNCTION_UNSET, err) }
                      else if args = [] \<or> \<not> alloc (32 * length args)
                      then do { _ \<leftarrow> free_arguments args; Some (buff, AT_FUNCTION f args, Some OutOfMemory) }
                      else Some (buff, AT_FUNCTION f args, None)
                    })
               })
     }
   }"

text \<open>The key of an entry; no value and no error when there is no memory for it.\<close>

definition table_key :: "(nat \<Rightarrow> bool) \<Rightarrow> qbuffer \<Rightarrow> value_parse option" where
  "table_key alloc buff = do {
     c \<leftarrow> char_at buff;
     if c_isalpha c
     then do {
       (buff, ident, err) \<leftarrow> query_get_ident buff;
       if err \<noteq> None then Some (buff, None, err)
       else if \<not> alloc (length ident + 1) then Some (buff, None, None)
       else Some (buff, Some (RDT_STRING ident), None)
     }
     else query_parse_string alloc buff
   }"

partial_function (option) table_args ::
  "(nat \<Rightarrow> bool) \<Rightarrow> (qbuffer \<Rightarrow> argument_parse option) \<Rightarrow> qbuffer \<Rightarrow> argument list \<Rightarrow>
     (qbuffer \<times> argument list \<times> query_error option option) option" where
  "table_args alloc parse_arg buff args =
     (if query_peek buff [0x7d] then Some (buff, args, None)
      else if QUERY_MAX_ARGS \<le> length args then Some (buff, args, Some (Some TooManyArguments))
      else Option.bind (table_key alloc buff) (\<lambda>(buff, key, err).
        if err \<noteq> None \<or> key = None then Some (buff, args, Some err)
        else Option.bind (query_chomp buff) (\<lambda>buff.
          let args = args @ [AT_VALUE (the key)] in
          Option.bind (query_expect_char buff 0x3a) (\<lambda>(buff, err).
            if err \<noteq> None then Some (buff, args, Some err)
            else Option.bind (query_chomp buff) (\<lambda>buff.
              if QUERY_MAX_ARGS \<le> length args then Some (buff, args, Some (Some TooManyArguments))
              else Option.bind (parse_arg buff) (\<lambda>(buff, a, err).
                if err \<noteq> None then Some (buff, args, Some err)
                else Option.bind (query_chomp buff) (\<lambda>buff.
                  Option.bind (query_expect_char buff 0x2c) (\<lambda>(buff, err).
                    if err \<noteq> None then Some (buff, args @ [a], None)
                    else Option.bind (query_chomp buff) (\<lambda>buff.
                      table_args alloc parse_arg buff (args @ [a]))))))))))"

definition query_parse_table ::
  "(nat \<Rightarrow> bool) \<Rightarrow> (qbuffer \<Rightarrow> argument_parse option) \<Rightarrow> qbuffer \<Rightarrow> argument_parse option" where
  "query_parse_table alloc parse_arg buff = do {
     buff \<leftarrow> query_chomp buff;
     (buff, err) \<leftarrow> query_expect_char buff 0x7b;
     if err \<noteq> None then Some (buff, AT_FUNCTION_UNSET, err)
     else do {
       buff \<leftarrow> query_chomp buff;
       (buff, args, stop) \<leftarrow> table_args alloc parse_arg buff [];
       (case stop of
          Some err \<Rightarrow> do { _ \<leftarrow> free_arguments args; Some (buff, AT_FUNCTION_UNSET, err) }
        | None \<Rightarrow> do {
            (buff, err) \<leftarrow> query_expect_char buff 0x7d;
            if err \<noteq> None then do { _ \<leftarrow> free_arguments args; Some (buff, AT_FUNCTION_UNSET, err) }
            else if \<not> alloc (32 * length args)
            then do { _ \<leftarrow> free_arguments args; Some (buff, AT_FUNCTION query_all_map args, Some OutOfMemory) }
            else Some (buff, AT_FUNCTION query_all_map args, None)
          })
     }
   }"

definition query_parse_argument ::
  "(nat \<Rightarrow> bool) \<Rightarrow> (qbuffer \<Rightarrow> argument_parse option) \<Rightarrow> (qbuffer \<Rightarrow> argument_parse option) \<Rightarrow>
     qbuffer \<Rightarrow> argument_parse option" where
  "query_parse_argument alloc method_call table buff = do {
     buff \<leftarrow> query_chomp buff;
     c \<leftarrow> char_at buff;
     if c_isalpha c \<and> \<not> (query_peek buff text_nil \<or> query_peek buff text_true \<or> query_peek buff text_false \<or>
          query_peek buff [0x62, 0x22] \<or> query_peek buff [0x62, 0x27])
     then method_call buff
     else if query_peek buff [0x7b] then table buff
     else do {
       (buff, v, err) \<leftarrow> query_parse_value alloc buff;
       Some (buff, (case v of None \<Rightarrow> AT_VALUE_UNSET | Some v \<Rightarrow> AT_VALUE v), err)
     }
   }"

text \<open>The recursion, \<open>n\<close> levels deep; every level begins behind a character of the text.\<close>

fun parse_argument_depth :: "(nat \<Rightarrow> bool) \<Rightarrow> nat \<Rightarrow> qbuffer \<Rightarrow> argument_parse option" where
  "parse_argument_depth alloc 0 buff = None"
| "parse_argument_depth alloc (Suc n) buff =
     query_parse_argument alloc (query_parse_method_call alloc (parse_argument_depth alloc n))
       (query_parse_table alloc (parse_argument_depth alloc n)) buff"

section \<open>Queries\<close>

record query =
  q_ref_count :: nat
  q_root :: "(query_func \<times> argument list) option"

text \<open>The query, if it is still referenced.\<close>

definition libretrodb_query_free :: "query \<Rightarrow> query option option" where
  "libretrodb_query_free q =
     (let q = q\<lparr>q_ref_count := q_ref_count q - 1\<rparr>
      in if q_ref_count q > 0 then Some (Some q)
         else (case q_root q of
                 None \<Rightarrow> Some None
               | Some (_, argv) \<Rightarrow> do { _ \<leftarrow> free_arguments argv; Some None }))"

definition libretrodb_query_inc_ref :: "query option \<Rightarrow> query option" where
  "libretrodb_query_inc_ref q = map_option (\<lambda>q. q\<lparr>q_ref_count := q_ref_count q + 1\<rparr>) q"

text \<open>
  \<^verbatim>\<open>libretrodb_query_compile\<close>: the query and the error.  On an error the query is freed with the root that was
  parsed, whose arguments are no longer there when the error came from its parser.
\<close>

definition libretrodb_query_compile ::
  "(nat \<Rightarrow> bool) \<Rightarrow> bytes \<Rightarrow> nat \<Rightarrow> (query option \<times> query_error option) option" where
  "libretrodb_query_compile alloc mem buff_len =
     (if \<not> alloc 32 then Some (None, None)
      else do {
        buff \<leftarrow> query_chomp \<lparr>bf_data = mem, bf_len = buff_len, bf_offset = 0\<rparr>;
        let parse_arg = parse_argument_depth alloc (buff_len + 1);
        let table = query_peek buff [0x7b];
        (buff, root, err) \<leftarrow>
          (if table then query_parse_table alloc parse_arg buff
           else do {
             c \<leftarrow> char_at buff;
             if c_isalpha c then query_parse_method_call alloc parse_arg buff
             else Some (buff, AT_FUNCTION_UNSET, None)
           });
        if err \<noteq> None
        then do {
          (_, err) \<leftarrow> (if table then Some (buff, err) else query_expect_eof buff err);
          (case root of AT_FUNCTION _ (_ # _) \<Rightarrow> None | _ \<Rightarrow> Some (None, err))
        }
        else do {
          (buff, err) \<leftarrow> query_expect_eof buff None;
          (case root of
             AT_FUNCTION f argv \<Rightarrow>
               if err \<noteq> None then do { _ \<leftarrow> free_arguments argv; Some (None, err) }
               else Some (Some \<lparr>q_ref_count = 1, q_root = Some (f, argv)\<rparr>, None)
           | _ \<Rightarrow> Some (None, Some (case err of None \<Rightarrow> UnexpectedEof (bf_offset buff) | Some e \<Rightarrow> e)))
        }
      })"

definition libretrodb_query_filter :: "query \<Rightarrow> rmsgpack_dom_value \<Rightarrow> bool option" where
  "libretrodb_query_filter q v = do {
     (f, argv) \<leftarrow> q_root q;
     res \<leftarrow> query_call f argv v;
     Some (is_true res)
   }"

end
