(* ===== verification/Query_Text.thy ===== *)
theory Query_Text
  imports Query "HOL-Library.Sublist"
begin

text \<open>
  The parser of queries (\<^verbatim>\<open>libretro-db/query.c\<close>) read against a printer: the canonical text of every query that
  can be printed compiles to that query.  Whatever is behind the end of an argument is left in the buffer,
  so the lemmas follow the functions of the parser one by one.  At the end, calls that the parser does not
  accept although they are well formed, and a text on which it frees what it did not write.
\<close>

section \<open>Reading a text\<close>

text \<open>A text in memory, and an offset behind which \<open>xs\<close> is left.\<close>

definition qt :: "bytes \<Rightarrow> nat \<Rightarrow> qbuffer" where
  "qt t n = \<lparr>bf_data = t @ [0], bf_len = length t, bf_offset = n\<rparr>"

definition text_at :: "bytes \<Rightarrow> nat \<Rightarrow> bytes \<Rightarrow> bool" where
  "text_at t n xs \<longleftrightarrow> n \<le> length t \<and> drop n t = xs \<and> length t < 2 ^ 32"

lemma qt_simps [simp]: "bf_data (qt t n) = t @ [0]" "bf_len (qt t n) = length t" "bf_offset (qt t n) = n"
  "advance k (qt t n) = qt t (n + k)" "qt t n\<lparr>bf_offset := m\<rparr> = qt t m"
  by (simp_all add: qt_def advance_def)

lemma text_at_length: "text_at t n xs \<Longrightarrow> length t = n + length xs"
  by (auto simp: text_at_def)

lemma text_at_append: "text_at t n (ys @ xs) \<Longrightarrow> text_at t (n + length ys) xs"
proof -
  assume at: "text_at t n (ys @ xs)"
  have "drop n t = ys @ xs" using at by (simp only: text_at_def)
  then have "drop (n + length ys) t = xs" by (rule drop_appendD)
  moreover have "n + length ys \<le> length t" using text_at_length [OF at] by simp
  ultimately show ?thesis using at by (simp only: text_at_def)
qed

lemma text_at_Cons: "text_at t n (x # xs) \<Longrightarrow> text_at t (n + 1) xs"
  using text_at_append [of t n "[x]" xs] by simp

lemma char_at_text: "text_at t n xs \<Longrightarrow> char_at (qt t n) = Some (case xs of [] \<Rightarrow> 0 | c # _ \<Rightarrow> c)"
  by (cases xs) (auto simp: text_at_def char_at_def mem_get_def nth_append dest: drop_ConsD)

lemma before_end_text: "text_at t n xs \<Longrightarrow> before_end (qt t n) \<longleftrightarrow> xs \<noteq> []"
  by (auto simp: text_at_def before_end_def)

lemma strncmp_prefix:
  "length s \<le> length xs \<Longrightarrow> 0 \<notin> set s \<Longrightarrow> c_strncmp (xs @ ys) s (length s) = 0 \<longleftrightarrow> prefix s xs"
proof (induction s arbitrary: xs)
  case Nil
  then show ?case by simp
next
  case (Cons c s)
  then obtain x xs' where xs: "xs = x # xs'" by (cases xs) auto
  show ?case
  proof (cases "x = c")
    case True
    then show ?thesis using Cons xs by auto
  next
    case False
    then have "uint x \<noteq> uint c" by (simp add: word_uint_eq_iff)
    then show ?thesis using False xs by simp
  qed
qed

lemma peek_text:
  assumes "text_at t n xs" "0 \<notin> set s"
  shows "query_peek (qt t n) s \<longleftrightarrow> prefix s xs"
proof (cases "length s \<le> length xs")
  case True
  then show ?thesis
    using assms strncmp_prefix [OF True assms(2), of "[0]"] by (auto simp: query_peek_def text_at_def)
next
  case False
  then show ?thesis using assms by (auto simp: query_peek_def text_at_def dest: prefix_length_le)
qed

lemma chomp_text:
  assumes "text_at t n xs" "xs = [] \<or> \<not> c_isspace (hd xs)"
  shows "query_chomp (qt t n) = Some (qt t n)"
  using assms by (subst query_chomp.simps) (auto simp: before_end_text char_at_text split: list.split)

lemma get_char_text:
  "text_at t n (x # xs) \<Longrightarrow> query_get_char (qt t n) c err = Some (qt t (n + 1), x, err)"
  by (simp add: query_get_char_def query_is_eot_def before_end_text char_at_text)

lemma expect_char_text:
  "text_at t n (x # xs) \<Longrightarrow> query_expect_char (qt t n) c =
    Some (if x = c then (qt t (n + 1), None) else (qt t n, Some (UnexpectedChar n c x)))"
  by (simp add: query_expect_char_def before_end_text char_at_text)

section \<open>Strings\<close>

lemma string_loop_text:
  assumes "text_at t n (s @ q # xs)" "q \<notin> set s"
  shows "Option.bind (query_get_char (qt t n) c None) (\<lambda>(buff, c, err).
      if err \<noteq> None then Some (buff, err) else string_loop buff q c) = Some (qt t (n + length s + 1), None)"
  using assms
proof (induction s arbitrary: n c)
  case Nil
  then show ?case by (simp add: get_char_text string_loop.simps)
next
  case (Cons x s)
  have "string_loop (qt t (n + 1)) q x = Some (qt t (n + 1 + length s + 1), None)"
    using Cons.IH [of "n + 1" x] Cons.prems text_at_Cons [of t n x "s @ q # xs"]
    by (subst string_loop.simps) auto
  then show ?case using Cons.prems by (simp add: get_char_text)
qed

lemma string_body_text:
  assumes "text_at t n (s @ q # xs)" "q \<notin> set s" "\<And>k. alloc k"
  shows "parse_string_body alloc (qt t n) bin q None =
    Some (qt t (n + length s + 1), Some (if bin then RDT_BINARY (binstr_bytes s q) else RDT_STRING s), None)"
proof -
  obtain x r where x: "s @ q # xs = x # r" by (cases s) auto
  have g: "query_get_char (qt t n) 0 None = Some (qt t (n + 1), x, None)"
    using assms(1) x by (simp add: get_char_text)
  then have l: "string_loop (qt t (n + 1)) q x = Some (qt t (n + length s + 1), None)"
    using string_loop_text [OF assms(1,2), of 0] by simp
  have "length t = n + (length s + length xs + 1)" "length t < 2 ^ 32"
    using text_at_length [OF assms(1)] assms(1) by (simp_all add: text_at_def)
  then have d: "n + length s \<le> length t" "length s mod 4294967296 = length s" by simp_all
  have "take (length s) (drop n t) = s" using assms(1) by (simp add: text_at_def)
  then have "mem_read (t @ [0]) n (length s) = Some s"
    using d(1) by (simp add: mem_read_def)
  then show ?thesis
    using g l d assms(3) by (simp add: parse_string_body_def Let_def)
qed

section \<open>Printing\<close>

text \<open>The canonical text of a query.  Binary strings are printed with upper-case digits.\<close>

function show_decimal :: "nat \<Rightarrow> bytes" where
  "show_decimal n = (if n < 10 then [of_nat (48 + n)] else show_decimal (n div 10) @ [of_nat (48 + n mod 10)])"
  by pat_completeness auto
termination by (relation "measure id") auto

declare show_decimal.simps [simp del]

definition show_nibble :: "nat \<Rightarrow> u8" where
  "show_nibble n = of_nat (if n < 10 then 48 + n else 55 + n)"

definition show_hex :: "bytes \<Rightarrow> bytes" where
  "show_hex s = concat (map (\<lambda>b. [show_nibble (unat b div 16), show_nibble (unat b mod 16)]) s)"

definition show_string :: "bytes \<Rightarrow> bytes" where
  "show_string s = 0x22 # s @ [0x22]"

fun show_value :: "rmsgpack_dom_value \<Rightarrow> bytes" where
  "show_value RDT_NULL = text_nil"
| "show_value (RDT_BOOL b) = (if b = 0 then text_false else text_true)"
| "show_value (RDT_INT i) = show_decimal (unat i)"
| "show_value (RDT_STRING s) = show_string s"
| "show_value (RDT_BINARY s) = 0x62 # show_string (show_hex s)"
| "show_value _ = []"

definition function_name :: "query_func \<Rightarrow> bytes" where
  "function_name f = (case find (\<lambda>(_, g). g = f) registered_functions of None \<Rightarrow> [] | Some (name, _) \<Rightarrow> name)"

function (sequential) show_argument :: "argument \<Rightarrow> bytes" and show_arguments :: "argument list \<Rightarrow> bytes"
  and show_entries :: "argument list \<Rightarrow> bytes" where
  "show_argument (AT_VALUE v) = show_value v"
| "show_argument (AT_FUNCTION query_all_map argv) = 0x7b # show_entries argv @ [0x7d]"
| "show_argument (AT_FUNCTION f argv) = function_name f @ 0x28 # show_arguments argv @ [0x29]"
| "show_argument _ = []"
| "show_arguments [] = []"
| "show_arguments [a] = show_argument a"
| "show_arguments (a # argv) = show_argument a @ 0x2c # show_arguments argv"
| "show_entries [k, a] = show_argument k @ 0x3a # show_argument a"
| "show_entries (k # a # argv) = show_argument k @ 0x3a # show_argument a @ 0x2c # show_entries argv"
| "show_entries _ = []"
  by pat_completeness auto
termination
  by (relation "measure (case_sum (\<lambda>a. 2 * size a)
      (case_sum (\<lambda>argv. 2 * size_list size argv + 1) (\<lambda>argv. 2 * size_list size argv + 1)))") auto

text \<open>What can be printed: integers that are not negative, strings without a double quote.\<close>

fun printable_value :: "rmsgpack_dom_value \<Rightarrow> bool" where
  "printable_value RDT_NULL \<longleftrightarrow> True"
| "printable_value (RDT_BOOL b) \<longleftrightarrow> b = 0 \<or> b = 1"
| "printable_value (RDT_INT i) \<longleftrightarrow> unat i < 2 ^ 63"
| "printable_value (RDT_STRING s) \<longleftrightarrow> 0x22 \<notin> set s"
| "printable_value (RDT_BINARY s) \<longleftrightarrow> True"
| "printable_value _ \<longleftrightarrow> False"

fun printable_keys :: "argument list \<Rightarrow> bool" where
  "printable_keys [] \<longleftrightarrow> True"
| "printable_keys (AT_VALUE (RDT_STRING s) # a # argv) \<longleftrightarrow> printable_keys argv"
| "printable_keys _ \<longleftrightarrow> False"

fun printable :: "argument \<Rightarrow> bool" where
  "printable (AT_VALUE v) \<longleftrightarrow> printable_value v"
| "printable (AT_FUNCTION f argv) \<longleftrightarrow>
     length argv \<le> 50 \<and> (if f = query_all_map then printable_keys argv else argv \<noteq> []) \<and>
     (\<forall>a \<in> set argv. printable a)"
| "printable _ \<longleftrightarrow> False"

fun depth :: "argument \<Rightarrow> nat" where
  "depth (AT_FUNCTION f argv) = Suc (Max (insert 0 (set (map depth argv))))"
| "depth _ = 1"

section \<open>Numbers\<close>

lemma less_10: "n < (10 :: nat) \<Longrightarrow> n = 0 \<or> n = 1 \<or> n = 2 \<or> n = 3 \<or> n = 4 \<or> n = 5 \<or> n = 6 \<or> n = 7 \<or> n = 8 \<or> n = 9"
  by auto

lemma digit_char: "d < 10 \<Longrightarrow> c_isdigit (of_nat (48 + d)) \<and> unat (of_nat (48 + d) :: u8) = 48 + d \<and>
    (of_nat (48 + d) :: u8) \<noteq> 0 \<and> \<not> c_isspace (of_nat (48 + d)) \<and> \<not> c_isalpha (of_nat (48 + d))"
  by (drule less_10, elim disjE; simp add: c_isdigit_def c_isspace_def c_isalpha_def)

lemma digits_value_snoc: "digits_value (ds @ [d]) = 10 * digits_value ds + (unat d - 48)"
  by (simp add: digits_value_def)

lemma show_decimal_digits:
  "(\<forall>c \<in> set (show_decimal n). c_isdigit c \<and> c \<noteq> 0 \<and> \<not> c_isspace c \<and> \<not> c_isalpha c) \<and> show_decimal n \<noteq> [] \<and>
    digits_value (show_decimal n) = n"
proof (induction n rule: show_decimal.induct)
  case (1 n)
  show ?case
  proof (cases "n < 10")
    case True
    then show ?thesis using digit_char [of n] by (simp add: show_decimal.simps [of n] digits_value_def)
  next
    case False
    then show ?thesis
      using 1 digit_char [of "n mod 10"] by (auto simp: show_decimal.simps [of n] digits_value_snoc)
  qed
qed


lemma scan_decimal:
  assumes "n < 2 ^ 63" "xs = [] \<or> \<not> c_isdigit (hd xs)"
  shows "c_scan_int64 (show_decimal n @ xs @ [0]) = Some (1, Some (of_nat n))"
proof -
  let ?ds = "show_decimal n"
  have ds: "\<forall>c \<in> set ?ds. c_isdigit c \<and> c \<noteq> 0 \<and> \<not> c_isspace c \<and> \<not> c_isalpha c" "?ds \<noteq> []" "digits_value ?ds = n"
    using show_decimal_digits [of n] by blast+
  have s: "takeWhile (\<lambda>c. c \<noteq> 0) (?ds @ xs @ [0]) = ?ds @ takeWhile (\<lambda>c. c \<noteq> 0) xs"
    using ds(1) by (simp add: takeWhile_append2 takeWhile_tail)
  have h: "hd ?ds \<in> set ?ds" using ds(2) by simp
  then have sp: "dropWhile c_isspace (?ds @ ys) = ?ds @ ys" for ys
    using ds(1,2) by (cases ?ds) auto
  have "c_isdigit (hd ?ds)" using h ds(1) by blast
  then have sign: "hd ?ds \<noteq> 0x2b" "hd ?ds \<noteq> 0x2d" by (auto simp: c_isdigit_def)
  have "takeWhile c_isdigit (takeWhile (\<lambda>c. c \<noteq> 0) xs) = []"
    using assms(2) by (cases xs) auto
  then have d: "takeWhile c_isdigit (?ds @ takeWhile (\<lambda>c. c \<noteq> 0) xs) = ?ds"
    using ds(1) by (simp add: takeWhile_append2)
  show ?thesis
    using ds(2,3) sign assms(1) by (simp add: c_scan_int64_def s sp d Let_def)
qed

lemma skip_digits_text:
  assumes "text_at t n (ds @ xs)" "\<forall>c \<in> set ds. c_isdigit c" "xs = [] \<or> \<not> c_isdigit (hd xs)"
  shows "skip_digits (qt t n) = Some (qt t (n + length ds))"
  using assms(1,2)
proof (induction ds arbitrary: n)
  case Nil
  then show ?case
    using assms(3) by (subst skip_digits.simps) (auto simp: char_at_text c_isdigit_def split: list.split)
next
  case (Cons d ds)
  then show ?case
    using text_at_Cons [of t n d "ds @ xs"] by (subst skip_digits.simps) (simp add: char_at_text)
qed

lemma parse_integer_text:
  assumes "text_at t n (show_decimal k @ xs)" "k < 2 ^ 63" "xs = [] \<or> \<not> c_isdigit (hd xs)"
  shows "query_parse_integer (qt t n) = Some (qt t (n + length (show_decimal k)), Some (RDT_INT (of_nat k)), None)"
proof -
  have "drop n (t @ [0]) = show_decimal k @ xs @ [0]" using assms(1) by (simp add: text_at_def)
  then show ?thesis
    using scan_decimal [OF assms(2,3)] skip_digits_text [OF assms(1) _ assms(3)] show_decimal_digits [of k]
    by (simp add: query_parse_integer_def)
qed

section \<open>Binary strings\<close>

lemma nibble_char: "d < 16 \<Longrightarrow> hex_digit (show_nibble d) = of_nat d \<and> show_nibble d \<noteq> 0x22"
  by (drule less_16, elim disjE; simp add: hex_digit_def show_nibble_def)

lemma binstr_show_hex: "binstr_bytes (show_hex s) q = s"
proof (induction s)
  case Nil
  then show ?case by (simp add: show_hex_def)
next
  case (Cons b s)
  have "unat b div 16 < 16" "unat b mod 16 < 16" using unat_u8 [of b] by simp_all
  then have "hex_digit (show_nibble (unat b div 16)) * 16 + hex_digit (show_nibble (unat b mod 16)) =
      of_nat (unat b div 16 * 16 + unat b mod 16)"
    using nibble_char by (simp only: of_nat_add of_nat_mult) simp
  then show ?case using Cons by (simp add: show_hex_def)
qed

lemma show_hex_quote: "0x22 \<notin> set (show_hex s)"
proof -
  have "unat b div 16 < 16" for b :: u8 using unat_u8 [of b] by simp
  then show ?thesis using nibble_char by (fastforce simp: show_hex_def)
qed

section \<open>Values\<close>

text \<open>What stands behind an argument.\<close>

definition arg_end :: "bytes \<Rightarrow> bool" where
  "arg_end xs \<longleftrightarrow> xs = [] \<or> hd xs = 0x2c \<or> hd xs = 0x29 \<or> hd xs = 0x7d"

lemma parse_string_text:
  assumes "text_at t n (show_string s @ xs)" "0x22 \<notin> set s" "\<And>k. alloc k"
  shows "query_parse_string alloc (qt t n) = Some (qt t (n + length (show_string s)), Some (RDT_STRING s), None)"
proof -
  have "text_at t (n + 1) (s @ 0x22 # xs)" using assms(1) text_at_Cons [of t n "0x22"] by (simp add: show_string_def)
  then have "parse_string_body alloc (qt t (n + 1)) False 0x22 None =
      Some (qt t (n + 1 + length s + 1), Some (RDT_STRING s), None)"
    using string_body_text [of t "n + 1" s "0x22" xs alloc False] assms(2,3) by simp
  then show ?thesis
    using assms(1) by (simp add: query_parse_string_def show_string_def get_char_text)
qed

lemma parse_binary_text:
  assumes "text_at t n (0x62 # show_string (show_hex s) @ xs)" "\<And>k. alloc k"
  shows "query_parse_string alloc (qt t n) =
    Some (qt t (n + length (show_string (show_hex s)) + 1), Some (RDT_BINARY s), None)"
proof -
  have 1: "text_at t (n + 1) (0x22 # show_hex s @ 0x22 # xs)"
    using assms(1) text_at_Cons [of t n "0x62"] by (simp add: show_string_def)
  have "text_at t (n + 2) (show_hex s @ 0x22 # xs)" using text_at_Cons [OF 1] by simp
  then have "parse_string_body alloc (qt t (n + 2)) True 0x22 None =
      Some (qt t (n + 2 + length (show_hex s) + 1), Some (RDT_BINARY s), None)"
    using string_body_text [of t "n + 2" "show_hex s" "0x22" xs alloc True] assms(2) show_hex_quote [of s] by (simp add: binstr_show_hex)
  then show ?thesis
    using assms(1) 1 by (simp add: query_parse_string_def show_string_def get_char_text)
qed

lemma text_words: "0 \<notin> set text_nil" "0 \<notin> set text_true" "0 \<notin> set text_false"
  by (simp_all add: text_nil_def text_true_def text_false_def)

lemmas text_word_defs = text_nil_def text_true_def text_false_def

lemma digit_differs: "c_isdigit d \<Longrightarrow> d \<noteq> 0x6e \<and> d \<noteq> 0x74 \<and> d \<noteq> 0x66 \<and> d \<noteq> 0x62 \<and> d \<noteq> 0x22 \<and> d \<noteq> 0x27 \<and>
    d \<noteq> 0x7b \<and> d \<noteq> 0x29 \<and> d \<noteq> 0x7d"
  by (auto simp: c_isdigit_def)

lemma arg_end_digit: "arg_end xs \<Longrightarrow> xs = [] \<or> \<not> c_isdigit (hd xs)"
  by (auto simp: arg_end_def c_isdigit_def)

lemma parse_value_text:
  assumes "printable_value v" "text_at t n (show_value v @ xs)" "arg_end xs" "\<And>k. alloc k"
  shows "query_parse_value alloc (qt t n) = Some (qt t (n + length (show_value v)), Some v, None)"
proof (cases v)
  case RDT_NULL
  then have at: "text_at t n (0x6e # 0x69 # 0x6c # xs)" using assms(2) by (simp add: text_nil_def)
  show ?thesis
    using RDT_NULL by (simp add: query_parse_value_def chomp_text [OF at] peek_text [OF at] text_word_defs c_isspace_def)
next
  case (RDT_BOOL b)
  show ?thesis
  proof (cases "b = 0")
    case True
    then have at: "text_at t n (0x66 # 0x61 # 0x6c # 0x73 # 0x65 # xs)"
      using assms(2) RDT_BOOL by (simp add: text_false_def)
    show ?thesis
      using RDT_BOOL True by (simp add: query_parse_value_def chomp_text [OF at] peek_text [OF at] text_word_defs c_isspace_def)
  next
    case False
    then have at: "text_at t n (0x74 # 0x72 # 0x75 # 0x65 # xs)" and b: "b = 1"
      using assms(1,2) RDT_BOOL by (auto simp: text_true_def)
    show ?thesis
      using RDT_BOOL b by (simp add: query_parse_value_def chomp_text [OF at] peek_text [OF at] text_word_defs c_isspace_def)
  qed
next
  case (RDT_INT i)
  obtain d ds where d: "show_decimal (unat i) = d # ds" "c_isdigit d" "\<not> c_isspace d"
    using show_decimal_digits [of "unat i"] by (cases "show_decimal (unat i)") auto
  have "query_chomp (qt t n) = Some (qt t n)"
    using assms(2) RDT_INT d by (intro chomp_text) auto
  moreover have "query_parse_integer (qt t n) = Some (qt t (n + length (show_decimal (unat i))), Some (RDT_INT i), None)"
    using parse_integer_text [of t n "unat i" xs] assms(1,2) RDT_INT arg_end_digit [OF assms(3)] by simp
  moreover have "\<not> prefix text_nil (d # ds @ xs)" "\<not> prefix text_true (d # ds @ xs)" "\<not> prefix text_false (d # ds @ xs)"
    using digit_differs [OF d(2)] by (auto simp: text_nil_def text_true_def text_false_def)
  moreover have "d \<noteq> 0x62" "d \<noteq> 0x22" "d \<noteq> 0x27" using digit_differs [OF d(2)] by blast+
  moreover have at: "text_at t n (d # ds @ xs)" using assms(2) RDT_INT d(1) by simp
  ultimately show ?thesis
    using d RDT_INT by (simp add: query_parse_value_def peek_text [OF at] text_words char_at_text [OF at])
next
  case (RDT_STRING s)
  then have at: "text_at t n (0x22 # s @ 0x22 # xs)" using assms(2) by (simp add: show_string_def)
  have "query_parse_string alloc (qt t n) = Some (qt t (n + length (show_string s)), Some v, None)"
    using parse_string_text [of t n s xs alloc] assms RDT_STRING by simp
  then show ?thesis
    using RDT_STRING by (simp add: query_parse_value_def chomp_text [OF at] peek_text [OF at] text_word_defs c_isspace_def)
next
  case (RDT_BINARY s)
  then have at: "text_at t n (0x62 # 0x22 # show_hex s @ 0x22 # xs)" using assms(2) by (simp add: show_string_def)
  have "query_parse_string alloc (qt t n) = Some (qt t (n + length (show_string (show_hex s)) + 1), Some v, None)"
    using parse_binary_text [of t n s xs alloc] assms RDT_BINARY by simp
  then show ?thesis
    using RDT_BINARY by (simp add: query_parse_value_def chomp_text [OF at] peek_text [OF at] text_word_defs c_isspace_def)
qed (use assms in \<open>simp_all\<close>)

section \<open>Calls and tables\<close>

abbreviation ident_char :: "u8 \<Rightarrow> bool" where
  "ident_char c \<equiv> c_isalpha c \<or> c_isdigit c \<or> c = 0x5f"

lemma ident_loop_text:
  assumes "text_at t n (s @ x # xs)" "\<forall>c \<in> set s. ident_char c" "\<not> ident_char x"
  shows "ident_loop (qt t n) (hd (s @ [x])) = Some (qt t (n + length s), None)"
  using assms(1,2)
proof (induction s arbitrary: n)
  case Nil
  then show ?case using assms(3) by (subst ident_loop.simps) simp
next
  case (Cons c s)
  have at: "text_at t (n + 1) (s @ x # xs)" using Cons.prems(1) text_at_Cons [of t n c] by simp
  obtain d r where d: "s @ x # xs = d # r" "hd (s @ [x]) = d" by (cases s) auto
  then have "query_peek_char (qt t (n + 1)) c None = Some (d, None)"
    using at by (simp add: query_peek_char_def query_is_eot_def before_end_text char_at_text)
  then show ?case
    using Cons.IH [OF at] Cons.prems(2) d(2) by (subst ident_loop.simps) simp
qed

lemma get_ident_text:
  assumes "text_at t n (s @ x # xs)" "s \<noteq> []" "c_isalpha (hd s)" "\<forall>c \<in> set s. ident_char c" "\<not> ident_char x"
  shows "query_get_ident (qt t n) = Some (qt t (n + length s), s, None)"
proof -
  obtain c s' where s: "s = c # s'" using assms(2) by (cases s) auto
  have at: "text_at t (n + 1) (s' @ x # xs)" using assms(1) s text_at_Cons [of t n c] by simp
  obtain d r where d: "s' @ x # xs = d # r" "hd (s' @ [x]) = d" by (cases s') auto
  have "query_peek_char (qt t (n + 1)) c None = Some (d, None)"
    using at d(1) by (simp add: query_peek_char_def query_is_eot_def before_end_text char_at_text)
  moreover have "query_peek_char (qt t n) 0 None = Some (c, None)"
    using assms(1) s by (simp add: query_peek_char_def query_is_eot_def before_end_text char_at_text)
  moreover have "ident_loop (qt t (n + 1)) d = Some (qt t (n + 1 + length s'), None)"
    using ident_loop_text [OF at _ assms(5)] assms(4) s d(2) by simp
  moreover have "mem_read (t @ [0]) n (length s) = Some s"
    using assms(1) text_at_length [OF assms(1)] by (simp add: mem_read_def text_at_def)
  ultimately show ?thesis
    using assms(1,3) s by (simp add: query_get_ident_def query_is_eot_def before_end_text)
qed

lemma function_name_ident:
  assumes "f \<noteq> query_all_map"
  shows "function_name f \<noteq> [] \<and> c_isalpha (hd (function_name f)) \<and> (\<forall>c \<in> set (function_name f). ident_char c) \<and>
    find (\<lambda>(name, _). c_strncmp name (function_name f) (length (function_name f)) = 0) registered_functions =
      Some (function_name f, f)"
  using assms by (cases f) (simp_all add: function_name_def registered_functions_def c_isalpha_def c_isdigit_def)

lemma printable_start:
  assumes "printable a"
  shows "\<exists>c r. show_argument a = c # r \<and> \<not> c_isspace c \<and> c \<noteq> 0x29 \<and> c \<noteq> 0x7d"
proof (cases a)
  case (AT_VALUE v)
  show ?thesis
  proof (cases v)
    case (RDT_INT i)
    then show ?thesis
      using AT_VALUE show_decimal_digits [of "unat i"] digit_differs [of "hd (show_decimal (unat i))"]
      by (cases "show_decimal (unat i)") auto
  qed (use assms AT_VALUE in \<open>auto simp: text_word_defs c_isspace_def show_string_def\<close>)
next
  case (AT_FUNCTION f argv)
  show ?thesis
  proof (cases "f = query_all_map")
    case True
    then show ?thesis using AT_FUNCTION by (simp add: c_isspace_def)
  next
    case False
    then show ?thesis
      using AT_FUNCTION by (cases f) (simp_all add: function_name_def registered_functions_def c_isspace_def)
  qed
qed (use assms in simp_all)

text \<open>The parser of arguments parses \<open>a\<close> wherever it stands in the text.\<close>

definition parses :: "(qbuffer \<Rightarrow> argument_parse option) \<Rightarrow> bytes \<Rightarrow> argument \<Rightarrow> bool" where
  "parses pa t a \<longleftrightarrow> (\<forall>n xs. text_at t n (show_argument a @ xs) \<longrightarrow> arg_end xs \<longrightarrow>
     pa (qt t n) = Some (qt t (n + length (show_argument a)), a, None))"

lemma peek_start:
  assumes "printable a" "text_at t n (show_argument a @ xs)"
  shows "\<not> query_peek (qt t n) [0x29]" "\<not> query_peek (qt t n) [0x7d]" "query_chomp (qt t n) = Some (qt t n)"
  using printable_start [OF assms(1)] assms(2) peek_text [OF assms(2)] chomp_text [OF assms(2)] by auto

lemma method_args_text:
  assumes "argv \<noteq> []" "\<forall>a \<in> set argv. printable a \<and> parses pa t a" "length before + length argv \<le> 50"
    and "text_at t n (show_arguments argv @ 0x29 # xs)"
  shows "method_args pa (qt t n) before = Some (qt t (n + length (show_arguments argv)), before @ argv, None)"
  using assms
proof (induction argv arbitrary: n before rule: list_nonempty_induct)
  case (single a)
  then have at: "text_at t n (show_argument a @ 0x29 # xs)" by simp
  have at2: "text_at t (n + length (show_argument a)) (0x29 # xs)" using text_at_append [OF at] .
  have "pa (qt t n) = Some (qt t (n + length (show_argument a)), a, None)"
    using single(1) at by (simp add: parses_def arg_end_def)
  then show ?case
    using single peek_start [OF _ at] chomp_text [OF at2] expect_char_text [OF at2, of "0x2c"]
    by (subst method_args.simps) (simp add: QUERY_MAX_ARGS_def c_isspace_def)
next
  case (cons a argv)
  then have at: "text_at t n (show_argument a @ 0x2c # show_arguments argv @ 0x29 # xs)"
    by (cases argv) simp_all
  have at2: "text_at t (n + length (show_argument a)) (0x2c # show_arguments argv @ 0x29 # xs)"
    using text_at_append [OF at] .
  have at3: "text_at t (n + length (show_argument a) + 1) (show_arguments argv @ 0x29 # xs)"
    using text_at_Cons [OF at2] .
  obtain b r where b: "argv = b # r" using cons(1) by (cases argv) auto
  then obtain ys where "show_arguments argv @ 0x29 # xs = show_argument b @ ys" by (cases r) auto
  then have chomp: "query_chomp (qt t (n + length (show_argument a) + 1)) = Some (qt t (n + length (show_argument a) + 1))"
    using at3 b cons(3) peek_start(3) [of b] by simp
  have "pa (qt t n) = Some (qt t (n + length (show_argument a)), a, None)"
    using cons(3) at by (simp add: parses_def arg_end_def)
  moreover have "method_args pa (qt t (n + length (show_argument a) + 1)) (before @ [a]) =
      Some (qt t (n + length (show_argument a) + 1 + length (show_arguments argv)), before @ [a] @ argv, None)"
    using cons(2) [OF _ _ at3, of "before @ [a]"] cons(3,4) by simp
  ultimately show ?case
    using cons(3,4) b peek_start [OF _ at] chomp_text [OF at2] expect_char_text [OF at2, of "0x2c"] chomp
    by (subst method_args.simps) (simp add: QUERY_MAX_ARGS_def c_isspace_def)
qed

lemma method_call_text:
  assumes "f \<noteq> query_all_map" "argv \<noteq> []" "\<forall>a \<in> set argv. printable a \<and> parses pa t a" "length argv \<le> 50"
    and "text_at t n (show_argument (AT_FUNCTION f argv) @ xs)" "\<And>k. alloc k"
  shows "query_parse_method_call alloc pa (qt t n) =
    Some (qt t (n + length (show_argument (AT_FUNCTION f argv))), AT_FUNCTION f argv, None)"
proof -
  let ?name = "function_name f" let ?args = "show_arguments argv"
  let ?n1 = "n + length ?name" let ?n2 = "?n1 + 1 + length ?args"
  have sh: "show_argument (AT_FUNCTION f argv) = ?name @ 0x28 # ?args @ [0x29]" using assms(1) by (cases f) auto
  then have at: "text_at t n (?name @ 0x28 # ?args @ 0x29 # xs)" using assms(5) by simp
  note name = function_name_ident [OF assms(1)]
  have ident: "query_get_ident (qt t n) = Some (qt t ?n1, ?name, None)"
    using get_ident_text [OF at] name by (simp add: c_isalpha_def c_isdigit_def)
  have at1: "text_at t ?n1 (0x28 # ?args @ 0x29 # xs)" using text_at_append [OF at] .
  have at2: "text_at t (?n1 + 1) (?args @ 0x29 # xs)" using text_at_Cons [OF at1] .
  obtain a r where "argv = a # r" using assms(2) by (cases argv) auto
  then obtain ys where "?args @ 0x29 # xs = show_argument a @ ys" "printable a"
    using assms(3) by (cases r) auto
  then have chomp: "query_chomp (qt t (?n1 + 1)) = Some (qt t (?n1 + 1))" using at2 peek_start(3) [of a] by simp
  have args: "method_args pa (qt t (?n1 + 1)) [] = Some (qt t ?n2, argv, None)"
    using method_args_text [OF assms(2,3) _ at2, of "[]"] assms(4) by simp
  have at3: "text_at t ?n2 (0x29 # xs)" using text_at_append [OF at2] by simp
  show ?thesis
    using ident name chomp args chomp_text [OF at1] expect_char_text [OF at1, of "0x28"]
      expect_char_text [OF at3, of "0x29"] assms(2,6)
    by (simp add: query_parse_method_call_def c_isspace_def sh)
qed

lemma table_key_text:
  assumes "text_at t n (show_string s @ xs)" "0x22 \<notin> set s" "\<And>k. alloc k"
  shows "table_key alloc (qt t n) = Some (qt t (n + length (show_string s)), Some (RDT_STRING s), None)"
proof -
  have "char_at (qt t n) = Some 0x22" using char_at_text [OF assms(1)] by (simp add: show_string_def)
  then show ?thesis using parse_string_text [OF assms] by (simp add: table_key_def c_isalpha_def)
qed

lemma table_entry_start:
  assumes "text_at t n (show_entries (AT_VALUE (RDT_STRING s) # a # argv) @ xs)"
  shows "\<not> query_peek (qt t n) [0x7d]" "query_chomp (qt t n) = Some (qt t n)"
proof -
  obtain ys where at: "text_at t n (0x22 # ys)" using assms by (cases argv) (auto simp: show_string_def)
  show "\<not> query_peek (qt t n) [0x7d]" "query_chomp (qt t n) = Some (qt t n)"
    using peek_text [OF at, of "[0x7d]"] chomp_text [OF at] by (auto simp: c_isspace_def)
qed

text \<open>One entry of a table, up to what stands behind its value.\<close>

lemma table_args_entry:
  assumes "printable a" "parses pa t a" "0x22 \<notin> set s" "length before + 2 \<le> 50" "\<And>k. alloc k"
    and at: "text_at t n (show_entries (AT_VALUE (RDT_STRING s) # a # argv) @ 0x7d # xs)"
    and m: "m = n + length (show_string s) + 1 + length (show_argument a)"
  shows "table_args alloc pa (qt t n) before =
    (if argv = [] then Some (qt t m, before @ [AT_VALUE (RDT_STRING s), a], None)
     else Option.bind (query_chomp (qt t (m + 1))) (\<lambda>buff.
       table_args alloc pa buff (before @ [AT_VALUE (RDT_STRING s), a]))) \<and>
    text_at t m (if argv = [] then 0x7d # xs else 0x2c # show_entries argv @ 0x7d # xs)"
proof -
  let ?rest = "if argv = [] then 0x7d # xs else 0x2c # show_entries argv @ 0x7d # xs"
  let ?n1 = "n + length (show_string s)"
  have at0: "text_at t n (show_string s @ 0x3a # show_argument a @ ?rest)" using at by (cases argv) auto
  have at1: "text_at t ?n1 (0x3a # show_argument a @ ?rest)" using text_at_append [OF at0] .
  have at2: "text_at t (?n1 + 1) (show_argument a @ ?rest)" using text_at_Cons [OF at1] .
  have at3: "text_at t m ?rest" using text_at_append [OF at2] m by simp
  have "arg_end ?rest" by (simp add: arg_end_def)
  then have arg: "pa (qt t (?n1 + 1)) = Some (qt t m, a, None)" using assms(2) at2 m by (simp add: parses_def)
  have key: "table_key alloc (qt t n) = Some (qt t ?n1, Some (RDT_STRING s), None)"
    using table_key_text [OF at0 assms(3,5)] .
  have "query_chomp (qt t m) = Some (qt t m)"
    using chomp_text [OF at3] by (auto simp: c_isspace_def split: if_splits)
  moreover have "query_expect_char (qt t m) 0x2c =
      Some (if argv = [] then (qt t m, Some (UnexpectedChar m 0x2c 0x7d)) else (qt t (m + 1), None))"
    using expect_char_text [of t m] at3 by (cases "argv = []") auto
  ultimately show ?thesis
    using key arg at3 table_entry_start [OF at] chomp_text [OF at1] expect_char_text [OF at1, of "0x3a"]
      peek_start(3) [OF assms(1) at2] assms(4)
    by (subst table_args.simps) (simp add: QUERY_MAX_ARGS_def c_isspace_def)
qed

lemma table_args_text:
  assumes "printable_keys argv" "\<forall>a \<in> set argv. printable a \<and> parses pa t a" "length before + length argv \<le> 50"
    and "\<And>k. alloc k" "text_at t n (show_entries argv @ 0x7d # xs)"
  shows "table_args alloc pa (qt t n) before = Some (qt t (n + length (show_entries argv)), before @ argv, None)"
  using assms(1,2,3,5)
proof (induction argv arbitrary: n before rule: printable_keys.induct)
  case 1
  then show ?case
    using peek_text [of t n "0x7d # xs" "[0x7d]"] by (subst table_args.simps) simp
next
  case (2 s a argv)
  let ?m = "n + length (show_string s) + 1 + length (show_argument a)"
  have s: "0x22 \<notin> set s" using "2.prems"(2) by simp
  have entry: "table_args alloc pa (qt t n) before =
    (if argv = [] then Some (qt t ?m, before @ [AT_VALUE (RDT_STRING s), a], None)
     else Option.bind (query_chomp (qt t (?m + 1))) (\<lambda>buff.
       table_args alloc pa buff (before @ [AT_VALUE (RDT_STRING s), a])))"
    and at: "text_at t ?m (if argv = [] then 0x7d # xs else 0x2c # show_entries argv @ 0x7d # xs)"
    using table_args_entry [OF _ _ s _ assms(4) "2.prems"(4) refl, of pa before] "2.prems"(2,3) by auto
  show ?case
  proof (cases argv)
    case Nil
    then show ?thesis using entry by simp
  next
    case (Cons k r)
    then obtain s' b r' where r: "argv = AT_VALUE (RDT_STRING s') # b # r'"
      using "2.prems"(1) by (cases argv rule: printable_keys.cases) auto
    have at1: "text_at t (?m + 1) (show_entries argv @ 0x7d # xs)"
      using at Cons text_at_Cons [of t ?m "0x2c"] by simp
    have "query_chomp (qt t (?m + 1)) = Some (qt t (?m + 1))"
      using table_entry_start(2) at1 r by blast
    moreover have "table_args alloc pa (qt t (?m + 1)) (before @ [AT_VALUE (RDT_STRING s), a]) =
        Some (qt t (?m + 1 + length (show_entries argv)), (before @ [AT_VALUE (RDT_STRING s), a]) @ argv, None)"
      using "2.IH" [OF _ _ _ at1, of "before @ [AT_VALUE (RDT_STRING s), a]"] "2.prems"(1-3) by simp
    ultimately show ?thesis using entry Cons by simp
  qed
qed simp_all

lemma table_text:
  assumes "printable_keys argv" "\<forall>a \<in> set argv. printable a \<and> parses pa t a" "length argv \<le> 50"
    and "text_at t n (show_argument (AT_FUNCTION query_all_map argv) @ xs)" "\<And>k. alloc k"
  shows "query_parse_table alloc pa (qt t n) =
    Some (qt t (n + length (show_argument (AT_FUNCTION query_all_map argv))), AT_FUNCTION query_all_map argv, None)"
proof -
  have at: "text_at t n (0x7b # show_entries argv @ 0x7d # xs)" using assms(4) by simp
  have at1: "text_at t (n + 1) (show_entries argv @ 0x7d # xs)" using text_at_Cons [OF at] .
  have at2: "text_at t (n + 1 + length (show_entries argv)) (0x7d # xs)" using text_at_append [OF at1] .
  have "query_chomp (qt t (n + 1)) = Some (qt t (n + 1))"
  proof (cases argv rule: printable_keys.cases)
    case 1
    then show ?thesis using chomp_text [OF at1] by (simp add: c_isspace_def)
  next
    case (2 s a r)
    then show ?thesis using table_entry_start(2) at1 by blast
  qed (use assms(1) in simp_all)
  then show ?thesis
    using table_args_text [where alloc = alloc, OF assms(1,2) _ assms(5) at1, of "[]"] assms(3,5) chomp_text [OF at]
      expect_char_text [OF at, of "0x7b"] expect_char_text [OF at2, of "0x7d"]
    by (simp add: query_parse_table_def c_isspace_def)
qed

section \<open>Whole queries\<close>

lemma dispatch_call:
  assumes "f \<noteq> query_all_map" "text_at t n (function_name f @ 0x28 # ys)"
  shows "query_parse_argument alloc call table (qt t n) = call (qt t n)"
  using assms
  by (cases f)
    (simp_all add: query_parse_argument_def function_name_def registered_functions_def chomp_text peek_text
      text_word_defs char_at_text c_isspace_def c_isalpha_def)

lemma dispatch_table:
  assumes "text_at t n (0x7b # ys)"
  shows "query_parse_argument alloc call table (qt t n) = table (qt t n)"
  using assms
  by (simp add: query_parse_argument_def chomp_text peek_text text_word_defs char_at_text c_isspace_def c_isalpha_def)

lemma dispatch_value:
  assumes "printable_value v" "text_at t n (show_value v @ ys)" "arg_end ys" "\<And>k. alloc k"
  shows "query_parse_argument alloc call table (qt t n) = Some (qt t (n + length (show_value v)), AT_VALUE v, None)"
proof -
  note parsed = parse_value_text [where alloc = alloc, OF assms]
  have chomp: "query_chomp (qt t n) = Some (qt t n)"
    using peek_start(3) [of "AT_VALUE v"] assms(1,2) by simp
  have at: "text_at t n (show_value v @ ys)" by fact
  have other: "\<exists>c. char_at (qt t n) = Some c \<and>
    \<not> (c_isalpha c \<and> \<not> (query_peek (qt t n) text_nil \<or> query_peek (qt t n) text_true \<or> query_peek (qt t n) text_false \<or>
        query_peek (qt t n) [0x62, 0x22] \<or> query_peek (qt t n) [0x62, 0x27])) \<and> \<not> query_peek (qt t n) [0x7b]"
  proof (cases v)
    case (RDT_INT i)
    obtain d ds where d: "show_decimal (unat i) = d # ds" "c_isdigit d" "\<not> c_isalpha d"
      using show_decimal_digits [of "unat i"] by (cases "show_decimal (unat i)") auto
    then show ?thesis
      using at RDT_INT digit_differs [OF d(2)] char_at_text [of t n "d # ds @ ys"] peek_text [of t n "d # ds @ ys" "[0x7b]"]
      by simp
  qed (use assms(1) at in \<open>auto simp: char_at_text [OF at] peek_text [OF at] text_word_defs show_string_def c_isalpha_def\<close>)
  then show ?thesis
    using chomp parsed by (auto simp: query_parse_argument_def)
qed

lemma depth_argument: "a \<in> set argv \<Longrightarrow> depth (AT_FUNCTION f argv) \<le> Suc n \<Longrightarrow> depth a \<le> n"
  by (simp add: Max_le_iff)

lemma parse_argument_text:
  assumes alloc: "\<And>k. alloc k"
  shows "printable a \<Longrightarrow> depth a \<le> n \<Longrightarrow> parses (parse_argument_depth alloc n) t a"
proof (induction n arbitrary: a)
  case 0
  then show ?case by (cases a) auto
next
  case (Suc n)
  show ?case
  proof (cases a)
    case (AT_VALUE v)
    then show ?thesis using Suc.prems(1) dispatch_value [OF _ _ _ alloc] by (simp add: parses_def)
  next
    case (AT_FUNCTION f argv)
    have argv: "\<forall>b \<in> set argv. printable b \<and> parses (parse_argument_depth alloc n) t b" "length argv \<le> 50"
      using Suc.IH Suc.prems depth_argument [of _ argv f n] AT_FUNCTION by auto
    show ?thesis
    proof (cases "f = query_all_map")
      case True
      then show ?thesis
        using table_text [where alloc = alloc, OF _ argv _ alloc] dispatch_table Suc.prems(1) AT_FUNCTION
        by (auto simp: parses_def)
    next
      case False
      then have "show_argument a = function_name f @ 0x28 # show_arguments argv @ [0x29]"
        using AT_FUNCTION by (cases f) auto
      then show ?thesis
        using method_call_text [where alloc = alloc, OF False _ argv _ alloc] dispatch_call [OF False] Suc.prems(1)
          AT_FUNCTION False
        by (auto simp: parses_def)
    qed
  qed (use Suc.prems in simp_all)
qed

lemma show_nonempty: "printable a \<Longrightarrow> 0 < length (show_argument a)"
  using printable_start [of a] by auto

lemma length_show_arguments: "\<forall>a \<in> set argv. length (show_argument a) \<le> length (show_arguments argv)"
proof (induction argv)
  case (Cons a argv)
  then show ?case by (cases argv) auto
qed simp

lemma length_show_entries:
  "printable_keys argv \<Longrightarrow> \<forall>a \<in> set argv. length (show_argument a) \<le> length (show_entries argv)"
proof (induction argv rule: printable_keys.induct)
  case (2 s a argv)
  then show ?case by (cases argv) auto
qed auto

lemma depth_length: "printable a \<Longrightarrow> depth a \<le> length (show_argument a)"
proof (induction a)
  case (AT_FUNCTION f argv)
  have "depth b < length (show_argument (AT_FUNCTION f argv))" if b: "b \<in> set argv" for b
  proof (cases "f = query_all_map")
    case True
    then show ?thesis
      using AT_FUNCTION b length_show_entries [of argv] by (fastforce simp: less_Suc_eq_le intro: le_SucI)
  next
    case False
    then show ?thesis
      using AT_FUNCTION b length_show_arguments [of argv] by (cases f) (fastforce simp: less_Suc_eq_le intro: le_SucI trans_le_add2)+
  qed
  then show ?case using show_nonempty [OF AT_FUNCTION.prems] by (auto simp: Suc_le_eq)
next
  case (AT_VALUE v)
  then show ?case using show_nonempty [of "AT_VALUE v"] by (simp add: Suc_le_eq)
qed simp_all

lemma expect_eof_text: "length t < 2 ^ 32 \<Longrightarrow> query_expect_eof (qt t (length t)) err = Some (qt t (length t), err)"
  using chomp_text [of t "length t" "[]"] before_end_text [of t "length t" "[]"]
  by (simp add: query_expect_eof_def text_at_def)

lemma compile_printed:
  assumes p: "printable (AT_FUNCTION f argv)" and len: "length (show_argument (AT_FUNCTION f argv)) < 2 ^ 32"
    and alloc: "\<And>k. alloc k"
  shows "libretrodb_query_compile alloc (show_argument (AT_FUNCTION f argv) @ [0]) (length (show_argument (AT_FUNCTION f argv))) =
    Some (Some \<lparr>q_ref_count = 1, q_root = Some (f, argv)\<rparr>, None)"
proof -
  let ?t = "show_argument (AT_FUNCTION f argv)"
  let ?pa = "parse_argument_depth alloc (length ?t + 1)"
  have at: "text_at ?t 0 (?t @ [])" using len by (simp add: text_at_def)
  have buff: "\<lparr>bf_data = ?t @ [0], bf_len = length ?t, bf_offset = 0\<rparr> = qt ?t 0" by (simp add: qt_def)
  have "depth (AT_FUNCTION f argv) \<le> Suc (length ?t + 1)" using depth_length [OF p] by linarith
  then have "\<forall>a \<in> set argv. depth a \<le> length ?t + 1" using depth_argument by blast
  then have argv: "\<forall>a \<in> set argv. printable a \<and> parses ?pa ?t a" "length argv \<le> 50"
    using p parse_argument_text [where alloc = alloc, OF alloc] by auto
  have chomp: "query_chomp (qt ?t 0) = Some (qt ?t 0)" using peek_start(3) [OF p at] .
  note compile = libretrodb_query_compile_def buff Let_def chomp expect_eof_text [OF len]
  show ?thesis
  proof (cases "f = query_all_map")
    case True
    have "query_parse_table alloc ?pa (qt ?t 0) = Some (qt ?t (length ?t), AT_FUNCTION f argv, None)"
      using table_text [where alloc = alloc, OF _ argv _ alloc, of 0 "[]"] p at True by simp
    moreover have "query_peek (qt ?t 0) [0x7b]" using peek_text [OF at, of "[0x7b]"] True by simp
    ultimately show ?thesis using alloc by (simp add: compile del: show_argument.simps)
  next
    case False
    note name = function_name_ident [OF False]
    have t: "?t = function_name f @ 0x28 # show_arguments argv @ [0x29]" using False by (cases f) auto
    then obtain c r where c: "?t = c # r" "c_isalpha c" using name by (cases "function_name f") auto
    then have "\<not> query_peek (qt ?t 0) [0x7b]" "char_at (qt ?t 0) = Some c"
      using peek_text [OF at, of "[0x7b]"] char_at_text [OF at] by (auto simp: c_isalpha_def)
    moreover have "query_parse_method_call alloc ?pa (qt ?t 0) = Some (qt ?t (length ?t), AT_FUNCTION f argv, None)"
      using method_call_text [where alloc = alloc, OF False _ argv at alloc] p False by simp
    ultimately show ?thesis using alloc c(2) by (simp add: compile del: show_argument.simps)
  qed
qed

section \<open>Calls that are not accepted\<close>

text \<open>The text of a call up to what follows the opening parenthesis.\<close>

lemma method_call_start:
  assumes "f \<noteq> query_all_map" "text_at t 0 (function_name f @ 0x28 # x # xs)" "\<not> c_isspace x"
  defines "n \<equiv> length (function_name f) + 1"
  shows "query_parse_method_call alloc pa (qt t 0) =
      Option.bind (method_args pa (qt t n) []) (\<lambda>(buff, args, stop).
        case stop of
          Some err \<Rightarrow> Option.bind (free_arguments args) (\<lambda>_. Some (buff, AT_FUNCTION_UNSET, err))
        | None \<Rightarrow> Option.bind (query_expect_char buff 0x29) (\<lambda>(buff, err).
            if err \<noteq> None then Option.bind (free_arguments args) (\<lambda>_. Some (buff, AT_FUNCTION_UNSET, err))
            else if args = [] \<or> \<not> alloc (32 * length args)
            then Option.bind (free_arguments args) (\<lambda>_. Some (buff, AT_FUNCTION f args, Some OutOfMemory))
            else Some (buff, AT_FUNCTION f args, None))) \<and>
    text_at t n (x # xs) \<and> query_chomp (qt t 0) = Some (qt t 0) \<and> \<not> query_peek (qt t 0) [0x7b] \<and>
    (\<exists>c. char_at (qt t 0) = Some c \<and> c_isalpha c)"
proof -
  note name = function_name_ident [OF assms(1)]
  have at1: "text_at t (length (function_name f)) (0x28 # x # xs)" using text_at_append [OF assms(2)] by simp
  have at2: "text_at t n (x # xs)" using text_at_Cons [OF at1] by (simp add: n_def)
  have "query_get_ident (qt t 0) = Some (qt t (length (function_name f)), function_name f, None)"
    using get_ident_text [OF assms(2)] name by (simp add: c_isalpha_def c_isdigit_def)
  moreover obtain c r where c: "function_name f = c # r" "c_isalpha c" using name by (cases "function_name f") auto
  then have "\<not> c_isspace c \<and> c \<noteq> 0x7b" by (auto simp: c_isalpha_def c_isspace_def word_le_nat_alt)
  ultimately show ?thesis
    using name at2 c assms(2,3) chomp_text [OF at1] expect_char_text [OF at1, of "0x28"] chomp_text [OF at2]
      chomp_text [OF assms(2)] peek_text [OF assms(2), of "[0x7b]"] char_at_text [OF assms(2)]
    by (simp add: query_parse_method_call_def c_isspace_def n_def del: not_None_eq)
qed

lemma compile_call:
  assumes "f \<noteq> query_all_map" "\<And>k. alloc k" "t = function_name f @ 0x28 # x # xs" "\<not> c_isspace x" "length t < 2 ^ 32"
    and "query_parse_method_call alloc (parse_argument_depth alloc (length t + 1)) (qt t 0) =
      Some (qt t (length t), AT_FUNCTION f [], Some e)"
  shows "libretrodb_query_compile alloc (t @ [0]) (length t) = Some (None, Some e)"
proof -
  have at: "text_at t 0 (function_name f @ 0x28 # x # xs)" using assms(3,5) by (simp add: text_at_def)
  have buff: "\<lparr>bf_data = t @ [0], bf_len = length t, bf_offset = 0\<rparr> = qt t 0" by (simp add: qt_def)
  note start = method_call_start [OF assms(1) at assms(4), of alloc "parse_argument_depth alloc (length t + 1)"]
  then obtain c where "char_at (qt t 0) = Some c" "c_isalpha c" "query_chomp (qt t 0) = Some (qt t 0)"
    "\<not> query_peek (qt t 0) [0x7b]" by blast
  then show ?thesis
    using assms(2,6) expect_eof_text [OF assms(5)] by (simp add: libretrodb_query_compile_def buff Let_def)
qed

lemma compile_no_arguments:
  assumes "f \<noteq> query_all_map" "\<And>k. alloc k" "t = function_name f @ [0x28, 0x29]"
  shows "libretrodb_query_compile alloc (t @ [0]) (length t) = Some (None, Some OutOfMemory)"
proof (rule compile_call [OF assms])
  let ?n = "length (function_name f) + 1"
  show len: "length t < 2 ^ 32"
    using assms(1,3) by (cases f) (simp_all add: function_name_def registered_functions_def)
  have at: "text_at t 0 (function_name f @ 0x28 # 0x29 # [])" using len assms(3) by (simp add: text_at_def)
  note start = method_call_start [OF assms(1) at, of alloc "parse_argument_depth alloc (length t + 1)"]
  have at1: "text_at t ?n [0x29]" using start by (simp add: c_isspace_def)
  have "method_args pa (qt t ?n) [] = Some (qt t ?n, [], None)" for pa
    using peek_text [OF at1, of "[0x29]"] by (subst method_args.simps) simp
  then show "query_parse_method_call alloc (parse_argument_depth alloc (length t + 1)) (qt t 0) =
      Some (qt t (length t), AT_FUNCTION f [], Some OutOfMemory)"
    using start expect_char_text [OF at1, of "0x29"] assms(3) by (simp add: c_isspace_def free_arguments_def)
qed (simp add: c_isspace_def)

text \<open>A character that begins no value: the argument stays uninitialised and is freed.\<close>

lemma compile_no_value:
  assumes "f \<noteq> query_all_map" "\<And>k. alloc k" "t = function_name f @ [0x28, 0x2d, 0x29]"
  shows "libretrodb_query_compile alloc (t @ [0]) (length t) = None"
proof -
  let ?n = "length (function_name f) + 1"
  have len: "length t < 2 ^ 32"
    using assms(1,3) by (cases f) (simp_all add: function_name_def registered_functions_def)
  have at: "text_at t 0 (function_name f @ 0x28 # 0x2d # [0x29])" using len assms(3) by (simp add: text_at_def)
  have buff: "\<lparr>bf_data = t @ [0], bf_len = length t, bf_offset = 0\<rparr> = qt t 0" by (simp add: qt_def)
  note start = method_call_start [OF assms(1) at, of alloc "parse_argument_depth alloc (length t + 1)"]
  have at1: "text_at t ?n (0x2d # [0x29])" using start by (simp add: c_isspace_def)
  have "parse_argument_depth alloc (length t + 1) (qt t ?n) = Some (qt t ?n, AT_VALUE_UNSET, None)"
    using chomp_text [OF at1] char_at_text [OF at1] peek_text [OF at1]
    by (simp add: query_parse_argument_def query_parse_value_def c_isspace_def c_isalpha_def c_isdigit_def text_word_defs)
  then have "method_args (parse_argument_depth alloc (length t + 1)) (qt t ?n) [] =
      Some (qt t ?n, [AT_VALUE_UNSET], None)"
    using peek_text [OF at1, of "[0x29]"] chomp_text [OF at1] expect_char_text [OF at1, of "0x2c"]
    by (subst method_args.simps) (simp add: c_isspace_def QUERY_MAX_ARGS_def)
  then have "query_parse_method_call alloc (parse_argument_depth alloc (length t + 1)) (qt t 0) = None"
    using start expect_char_text [OF at1, of "0x29"] by (simp add: c_isspace_def free_arguments_def)
  then show ?thesis
    using start assms(2) by (auto simp: libretrodb_query_compile_def buff Let_def c_isspace_def)
qed

section \<open>The properties\<close>

text \<open>C27. The canonical text of a query, with its terminator behind it, compiles to the query when it is printable: calls
  with one to 50 arguments and tables with at most 25 entries, nested in any way, whose values are nil, booleans,
  integers that are not negative (the language has no others), strings without a double quote, and binary strings.
  The text is shorter than 4 gigabytes, and memory is there.  (A call without arguments never compiles, see below.)\<close>

theorem query_compile_roundtrip:
  assumes "printable (AT_FUNCTION f argv)" "length (show_argument (AT_FUNCTION f argv)) < 2 ^ 32" "\<And>k. alloc k"
  shows "libretrodb_query_compile alloc (show_argument (AT_FUNCTION f argv) @ [0]) (length (show_argument (AT_FUNCTION f argv))) =
    Some (Some \<lparr>q_ref_count = 1, q_root = Some (f, argv)\<rparr>, None)"
  using assms by (rule compile_printed)

text \<open>The text \<^verbatim>\<open>{"a":or(7,nil)}\<close>.\<close>

theorem query_compile_roundtrip_witness:
  "libretrodb_query_compile (\<lambda>_. True)
     [0x7b, 0x22, 0x61, 0x22, 0x3a, 0x6f, 0x72, 0x28, 0x37, 0x2c, 0x6e, 0x69, 0x6c, 0x29, 0x7d, 0] 15 =
   Some (Some \<lparr>q_ref_count = 1, q_root = Some (query_all_map,
     [AT_VALUE (RDT_STRING [0x61]), AT_FUNCTION query_or [AT_VALUE (RDT_INT 7), AT_VALUE RDT_NULL]])\<rparr>, None)"
  using query_compile_roundtrip [of query_all_map "[AT_VALUE (RDT_STRING [0x61]),
      AT_FUNCTION query_or [AT_VALUE (RDT_INT 7), AT_VALUE RDT_NULL]]" "\<lambda>_. True"]
  by (simp add: show_decimal.simps show_string_def function_name_def registered_functions_def text_nil_def)
    (simp add: numeral_eq_Suc)

text \<open>A call without arguments never compiles, although \<^verbatim>\<open>is_true\<close> accepts nothing else: the null pointer for no
  arguments is taken for a failed allocation.  An argument that begins like no value is no error by itself:
  it stays uninitialised, and freeing it has no defined result.\<close>

theorem query_calls_not_compiled:
  assumes "f \<noteq> query_all_map" "\<And>k. alloc k"
  shows "libretrodb_query_compile alloc ((function_name f @ [0x28, 0x29]) @ [0]) (length (function_name f @ [0x28, 0x29])) =
      Some (None, Some OutOfMemory) \<and>
    libretrodb_query_compile alloc ((function_name f @ [0x28, 0x2d, 0x29]) @ [0])
      (length (function_name f @ [0x28, 0x2d, 0x29])) = None"
  using compile_no_arguments [where alloc = alloc, OF assms refl] compile_no_value [where alloc = alloc, OF assms refl]
  by blast

theorem query_calls_not_compiled_witness:
  "libretrodb_query_compile (\<lambda>_. True) [0x69, 0x73, 0x5f, 0x74, 0x72, 0x75, 0x65, 0x28, 0x29, 0] 9 =
     Some (None, Some OutOfMemory) \<and>
   libretrodb_query_compile (\<lambda>_. True) [0x69, 0x73, 0x5f, 0x74, 0x72, 0x75, 0x65, 0x28, 0x2d, 0x29, 0] 10 = None"
  using query_calls_not_compiled [of query_is_true "\<lambda>_. True"]
  by (simp add: function_name_def registered_functions_def) (simp add: numeral_eq_Suc)

end
