(* ===== verification/Query_Depth.thy ===== *)
theory Query_Depth
  imports Query_Text
begin

text \<open>
  The recursion of the query parser: every reading function stays in the text and never goes back, every call of
  the parser of arguments is behind a character of its caller, and so the depth that
  \<^verbatim>\<open>libretrodb_query_compile\<close> is given in the model is never reached.
\<close>

section \<open>The depth is enough\<close>

text \<open>A buffer after some reading: in the same text, not before where it was, and not outside it.\<close>

definition moves :: "qbuffer \<Rightarrow> qbuffer \<Rightarrow> bool" where
  "moves b b' \<longleftrightarrow> bf_data b' = bf_data b \<and> bf_len b' = bf_len b \<and> bf_offset b \<le> bf_offset b' \<and>
     (bf_offset b \<le> length (bf_data b) \<longrightarrow> bf_offset b' \<le> length (bf_data b))"

lemma moves_refl [simp]: "moves b b"
  by (simp add: moves_def)

lemma moves_trans [trans]: "moves a b \<Longrightarrow> moves b c \<Longrightarrow> moves a c"
  by (auto simp: moves_def)

lemma moves_char: "char_at b = Some c \<Longrightarrow> moves b (advance (Suc 0) b)"
  by (auto simp: char_at_def moves_def advance_def dest: mem_get_SomeD)

lemma moves_chomp: "query_chomp b = Some b' \<Longrightarrow> moves b b'"
proof (induction b b' rule: query_chomp.raw_induct [rotated, consumes 1, case_names step])
  case (step loop b b')
  show ?case
  proof (cases "before_end b")
    case True
    then obtain c where c: "char_at b = Some c" "(if c_isspace c then loop (advance (Suc 0) b) else Some b) = Some b'"
      using step(2) [unfolded One_nat_def] True by (auto simp: bind_eq_Some_conv)
    then show ?thesis
      using step(1) [of "advance (Suc 0) b" b'] moves_trans [OF moves_char [OF c(1)]] by (auto split: if_splits)
  next
    case False
    then show ?thesis using step(2) by simp
  qed
qed

lemma strncmp_length: "c_strncmp xs s (length s) = 0 \<Longrightarrow> 0 \<notin> set s \<Longrightarrow> length s \<le> length xs"
proof (induction s arbitrary: xs)
  case (Cons c s)
  show ?case
  proof (cases xs)
    case Nil
    then show ?thesis using Cons.prems uint_0_iff [of c] by simp
  next
    case (Cons x r)
    have "uint x \<noteq> uint c" if "x \<noteq> c" using that by (simp add: word_uint_eq_iff)
    then show ?thesis using Cons.IH [of r] Cons.prems Cons by (auto split: if_splits)
  qed
qed simp

lemma moves_peek: "query_peek b s \<Longrightarrow> 0 \<notin> set s \<Longrightarrow> moves b (advance (length s) b)"
  using strncmp_length [of "drop (bf_offset b) (bf_data b)" s]
  by (auto simp: query_peek_def moves_def advance_def split: if_splits)

lemma moves_get_char: "query_get_char b c err = Some (b', c', err') \<Longrightarrow> moves b b'"
  by (auto simp: query_get_char_def bind_eq_Some_conv intro: moves_char split: if_splits)

lemma moves_expect_char: "query_expect_char b c = Some (b', err) \<Longrightarrow> moves b b' \<and> (err = None \<longrightarrow> bf_offset b < bf_offset b')"
  using moves_char [of b c] by (auto simp: query_expect_char_def bind_eq_Some_conv advance_def split: if_splits)

lemma moves_skip_digits: "skip_digits b = Some b' \<Longrightarrow> moves b b'"
proof (induction b b' rule: skip_digits.raw_induct [rotated, consumes 1, case_names step])
  case (step loop b b')
  obtain c where c: "char_at b = Some c" "(if c_isdigit c then loop (advance (Suc 0) b) else Some b) = Some b'"
    using step(2) [unfolded One_nat_def] by (auto simp: bind_eq_Some_conv)
  then show ?case
    using step(1) [of "advance (Suc 0) b" b'] moves_trans [OF moves_char [OF c(1)]] by (auto split: if_splits)
qed

lemma moves_parse_integer: "query_parse_integer b = Some (b', v, err) \<Longrightarrow> moves b b'"
  by (auto simp: query_parse_integer_def bind_eq_Some_conv intro: moves_skip_digits split: if_splits prod.splits)

lemma moves_string_loop: "string_loop b q c = Some (b', err) \<Longrightarrow> moves b b'"
proof (induction b q c "(b', err)" arbitrary: b' err rule: string_loop.raw_induct [rotated, consumes 1, case_names step])
  case (step loop b q c)
  show ?case
  proof (cases "c = q")
    case True
    then show ?thesis using step(2) by simp
  next
    case False
    then obtain b1 c1 e1 where g: "query_get_char b c None = Some (b1, c1, e1)"
      "(if e1 \<noteq> None then Some (b1, e1) else loop b1 q c1) = Some (b', err)"
      using step(2) by (auto simp: bind_eq_Some_conv)
    then show ?thesis
      using step(1) [of b1 q c1 b' err] moves_trans [OF moves_get_char [OF g(1)]] moves_get_char [OF g(1)]
      by (auto split: if_splits)
  qed
qed

lemma moves_back: "moves b b' \<Longrightarrow> bf_offset b < bf_offset b' \<Longrightarrow> moves b (b'\<lparr>bf_offset := bf_offset b' - 1\<rparr>)"
  by (auto simp: moves_def)

lemma get_char_forward: "query_get_char b c None = Some (b', c', None) \<Longrightarrow> bf_offset b < bf_offset b'"
  by (auto simp: query_get_char_def bind_eq_Some_conv advance_def split: if_splits)

lemma moves_string_body: "parse_string_body alloc b bin q err = Some (b', v, err') \<Longrightarrow> moves b b'"
  by (auto simp: parse_string_body_def bind_eq_Some_conv Let_def split: if_splits
      intro: moves_get_char moves_trans [OF moves_get_char moves_string_loop])

lemma moves_string_rest:
  assumes "moves b b2" "bf_offset b < bf_offset b2"
    and "(if q \<noteq> 0x22 \<and> q \<noteq> 0x27
        then let b = b2\<lparr>bf_offset := bf_offset b2 - 1\<rparr>
             in parse_string_body alloc b bin q (Some (ExpectedString (bf_offset b)))
        else parse_string_body alloc b2 bin q e) = Some (b', v, err)"
  shows "moves b b'"
proof (cases "q \<noteq> 0x22 \<and> q \<noteq> 0x27")
  case True
  then have "moves (b2\<lparr>bf_offset := bf_offset b2 - 1\<rparr>) b'"
    using assms(3) moves_string_body by (simp add: Let_def)
  then show ?thesis using moves_trans moves_back [OF assms(1,2)] by blast
next
  case False
  then have "parse_string_body alloc b2 bin q e = Some (b', v, err)" using assms(3) by (simp only: if_False)
  then have "moves b2 b'" by (rule moves_string_body)
  then show ?thesis using moves_trans [OF assms(1)] by blast
qed

lemma moves_parse_string:
  assumes "query_parse_string alloc b = Some (b', v, err)"
  shows "moves b b'"
proof -
  obtain b1 q e1 where g: "query_get_char b 0 None = Some (b1, q, e1)"
    using assms by (cases "query_get_char b 0 None") (auto simp: query_parse_string_def)
  note m1 = moves_get_char [OF g]
  consider "e1 \<noteq> None" | "e1 = None" "q \<noteq> 0x62" | "e1 = None" "q = 0x62" by blast
  then show ?thesis
  proof cases
    case 1
    then show ?thesis using assms g m1 by (auto simp: query_parse_string_def)
  next
    case 2
    have lt: "bf_offset b < bf_offset b1" using get_char_forward g 2 by blast
    show ?thesis
      by (rule moves_string_rest [OF m1 lt, of q alloc False None])
        (use assms g 2 in \<open>simp add: query_parse_string_def\<close>)
  next
    case 3
    have lt: "bf_offset b < bf_offset b1" using get_char_forward g 3 by blast
    obtain b2 q2 e2 where g2: "query_get_char b1 q None = Some (b2, q2, e2)"
      using assms g 3 by (cases "query_get_char b1 q None") (auto simp: query_parse_string_def)
    have m2: "moves b b2" "bf_offset b < bf_offset b2"
      using moves_trans [OF m1 moves_get_char [OF g2]] lt moves_get_char [OF g2] by (auto simp: moves_def)
    show ?thesis
      by (rule moves_string_rest [OF m2, of q2 alloc True e2])
        (use assms g g2 3 in \<open>simp add: query_parse_string_def\<close>)
  qed
qed

lemma moves_parse_value:
  assumes "query_parse_value alloc b = Some (b', v, err)"
  shows "moves b b'"
proof -
  obtain b1 where c: "query_chomp b = Some b1" using assms by (auto simp: query_parse_value_def bind_eq_Some_conv)
  have "moves b1 b'"
    using assms c moves_peek [of b1 text_nil] moves_peek [of b1 text_true] moves_peek [of b1 text_false] text_words
    by (auto simp: query_parse_value_def bind_eq_Some_conv split: if_splits
        intro: moves_parse_string moves_parse_integer)
      (simp_all add: text_word_defs numeral_eq_Suc)
  then show ?thesis using moves_trans [OF moves_chomp [OF c]] by blast
qed

lemma moves_ident_loop: "ident_loop b c = Some (b', err) \<Longrightarrow> before_end b \<Longrightarrow> bf_offset b < length (bf_data b) \<Longrightarrow> moves b b'"
proof (induction b c "(b', err)" arbitrary: b' err rule: ident_loop.raw_induct [rotated, consumes 1, case_names step])
  case (step loop b c)
  have adv: "moves b (advance (Suc 0) b)" using step(4) by (auto simp: moves_def advance_def)
  show ?case
  proof (cases "ident_char c")
    case True
    then obtain c1 e1 where g: "query_peek_char (advance (Suc 0) b) c None = Some (c1, e1)"
      "(if e1 \<noteq> None then Some (advance (Suc 0) b, e1) else loop (advance (Suc 0) b) c1) = Some (b', err)"
      using step(2) by (auto simp: bind_eq_Some_conv Let_def)
    show ?thesis
    proof (cases e1)
      case None
      then have "before_end (advance (Suc 0) b)" "bf_offset (advance (Suc 0) b) < length (bf_data (advance (Suc 0) b))"
        using g(1) by (auto simp: query_peek_char_def query_is_eot_def bind_eq_Some_conv char_at_def dest: mem_get_SomeD split: if_splits)
      then show ?thesis using step(1) [of "advance (Suc 0) b" c1 b' err] g(2) None moves_trans [OF adv] by simp
    next
      case (Some e)
      then show ?thesis using g(2) adv by auto
    qed
  next
    case False
    then show ?thesis using step(2) by simp
  qed
qed

lemma moves_get_ident:
  assumes "query_get_ident b = Some (b', name, err)"
  shows "moves b b'" "err = None \<Longrightarrow> before_end b"
proof -
  show "err = None \<Longrightarrow> before_end b" using assms by (auto simp: query_get_ident_def query_is_eot_def split: if_splits)
  show "moves b b'"
  proof (cases "before_end b")
    case True
    then obtain c where c: "char_at b = Some c" using assms by (auto simp: query_get_ident_def query_is_eot_def query_peek_char_def bind_eq_Some_conv Let_def)
    show ?thesis
    proof (cases "c_isalpha c")
      case alpha: True
      obtain c1 e1 where g: "query_peek_char (advance (Suc 0) b) c None = Some (c1, e1)"
        "\<exists>e. (if e1 \<noteq> None then Some (advance (Suc 0) b, e1) else ident_loop (advance (Suc 0) b) c1) = Some (b', e)"
        using assms True c alpha
        by (auto simp: query_get_ident_def query_is_eot_def query_peek_char_def [of b] bind_eq_Some_conv Let_def)
      have "moves (advance (Suc 0) b) b'"
      proof (cases e1)
        case None
        then have "before_end (advance (Suc 0) b)" "bf_offset (advance (Suc 0) b) < length (bf_data (advance (Suc 0) b))"
          using g(1) by (auto simp: query_peek_char_def query_is_eot_def bind_eq_Some_conv char_at_def dest: mem_get_SomeD split: if_splits)
        then show ?thesis using g(2) None moves_ident_loop by auto
      qed (use g(2) in auto)
      then show ?thesis using moves_trans [OF moves_char [OF c]] by blast
    next
      case False
      then show ?thesis using assms True c
        by (auto simp: query_get_ident_def query_is_eot_def query_peek_char_def bind_eq_Some_conv)
    qed
  next
    case False
    then show ?thesis using assms by (simp add: query_get_ident_def query_is_eot_def)
  qed
qed

lemma moves_table_key: "table_key alloc b = Some (b', v, err) \<Longrightarrow> moves b b'"
  by (auto simp: table_key_def bind_eq_Some_conv split: if_splits dest: moves_get_ident(1) moves_parse_string)

text \<open>Two parsers of arguments that agree on all buffers ahead of \<open>b\<close>, where they move forward.\<close>

definition ahead :: "qbuffer \<Rightarrow> qbuffer \<Rightarrow> bool" where
  "ahead b b' \<longleftrightarrow> moves b b' \<and> bf_offset b < bf_offset b'"

definition agree :: "qbuffer \<Rightarrow> (qbuffer \<Rightarrow> argument_parse option) \<Rightarrow> (qbuffer \<Rightarrow> argument_parse option) \<Rightarrow> bool" where
  "agree b pa1 pa2 \<longleftrightarrow>
     (\<forall>b'. ahead b b' \<longrightarrow> pa1 b' = pa2 b' \<and> (\<forall>r. pa1 b' = Some r \<longrightarrow> moves b' (fst r)))"

lemma agree_sym: "agree b pa1 pa2 \<Longrightarrow> agree b pa2 pa1"
  by (simp add: agree_def)

lemma ahead_moves: "ahead b b1 \<Longrightarrow> moves b1 b2 \<Longrightarrow> ahead b b2"
  by (auto simp: ahead_def moves_def)

text \<open>What follows an argument: the comma and the spaces around it.\<close>

lemma moves_comma:
  assumes "query_chomp b2 = Some b3" "query_expect_char b3 c = Some (b4, e)"
  shows "moves b2 b4" "query_chomp b4 = Some b5 \<Longrightarrow> moves b2 b5"
proof -
  show m: "moves b2 b4" using moves_trans [OF moves_chomp [OF assms(1)]] moves_expect_char [OF assms(2)] by blast
  show "query_chomp b4 = Some b5 \<Longrightarrow> moves b2 b5" using moves_trans [OF m moves_chomp] by blast
qed

lemma method_args_transfer:
  assumes "method_args pa1 b1 args = Some r" "agree b pa1 pa2" "ahead b b1"
  shows "method_args pa2 b1 args = Some r \<and> moves b1 (fst r)"
  using assms
proof (induction pa1 b1 args r rule: method_args.raw_induct [rotated, consumes 1, case_names step])
  case (step loop pa1 b1 args r)
  consider "query_peek b1 [0x29]" | "\<not> query_peek b1 [0x29]" "QUERY_MAX_ARGS \<le> length args"
    | "\<not> query_peek b1 [0x29]" "\<not> QUERY_MAX_ARGS \<le> length args" by blast
  then show ?case
  proof cases
    case 3
    then obtain b2 a e where pa: "pa1 b1 = Some (b2, a, e)" using step(2) by (auto simp: bind_eq_Some_conv)
    then have pa2: "pa2 b1 = Some (b2, a, e)" "moves b1 b2" using step(3,4) by (auto simp: agree_def)
    show ?thesis
    proof (cases e)
      case (Some e')
      then show ?thesis using step(2) 3 pa pa2 by (subst method_args.simps) auto
    next
      case None
      then obtain b3 b4 e4 where sep: "query_chomp b2 = Some b3" "query_expect_char b3 0x2c = Some (b4, e4)"
        using step(2) 3 pa by (auto simp: bind_eq_Some_conv)
      note m = moves_trans [OF pa2(2) moves_comma(1) [OF sep]]
      show ?thesis
      proof (cases e4)
        case (Some e')
        then show ?thesis using step(2) 3 pa pa2 None sep m by (subst method_args.simps) auto
      next
        case none: None
        then obtain b5 where b5: "query_chomp b4 = Some b5" "loop pa1 b5 (args @ [a]) = Some r"
          using step(2) 3 pa None sep by (auto simp: bind_eq_Some_conv)
        have m5: "moves b1 b5" using moves_trans [OF pa2(2) moves_comma(2) [OF sep b5(1)]] .
        have "method_args pa2 b5 (args @ [a]) = Some r \<and> moves b5 (fst r)"
          by (rule step(1) [OF b5(2) step(3) ahead_moves [OF step(4) m5]])
        then show ?thesis using 3 pa2(1) None none sep b5(1) moves_trans [OF m5] by (subst method_args.simps) auto
      qed
    qed
  next
    case 1
    then show ?thesis using step(2) by (subst method_args.simps) auto
  next
    case 2
    then show ?thesis using step(2) by (subst method_args.simps) auto
  qed
qed

lemma table_args_transfer:
  assumes "table_args alloc pa1 b1 args = Some r" "agree b pa1 pa2" "ahead b b1"
  shows "table_args alloc pa2 b1 args = Some r \<and> moves b1 (fst r)"
  using assms
proof (induction alloc pa1 b1 args r rule: table_args.raw_induct [rotated, consumes 1, case_names step])
  case (step loop alloc pa1 b1 args r)
  consider "query_peek b1 [0x7d]" | "\<not> query_peek b1 [0x7d]" "QUERY_MAX_ARGS \<le> length args"
    | "\<not> query_peek b1 [0x7d]" "\<not> QUERY_MAX_ARGS \<le> length args" by blast
  then show ?case
  proof cases
    case 3
    then obtain b2 key e where key: "table_key alloc b1 = Some (b2, key, e)" using step(2) by (auto simp: bind_eq_Some_conv)
    note m2 = moves_table_key [OF key]
    show ?thesis
    proof (cases "e \<noteq> None \<or> key = None")
      case True
      then show ?thesis using step(2) 3 key m2 by (subst table_args.simps) auto
    next
      case False
      then obtain k b3 b4 e4 where k: "key = Some k" "e = None"
        and colon: "query_chomp b2 = Some b3" "query_expect_char b3 0x3a = Some (b4, e4)"
        using step(2) 3 key by (auto simp: bind_eq_Some_conv Let_def)
      let ?args = "args @ [AT_VALUE k]"
      note m4 = moves_trans [OF m2 moves_comma(1) [OF colon]]
      show ?thesis
      proof (cases e4)
        case (Some e')
        then show ?thesis using step(2) 3 key k colon m4 by (subst table_args.simps) auto
      next
        case none4: None
        then obtain b5 where b5: "query_chomp b4 = Some b5" using step(2) 3 key k colon by (auto simp: bind_eq_Some_conv Let_def)
        have m5: "moves b1 b5" using moves_trans [OF m2 moves_comma(2) [OF colon b5]] .
        show ?thesis
        proof (cases "QUERY_MAX_ARGS \<le> length ?args")
          case True
          then show ?thesis using step(2) 3 key k colon none4 b5 m5 by (subst table_args.simps) auto
        next
          case room: False
          then obtain b6 a e6 where pa: "pa1 b5 = Some (b6, a, e6)"
            using step(2) 3 key k colon none4 b5 by (auto simp: bind_eq_Some_conv Let_def)
          then have pa2: "pa2 b5 = Some (b6, a, e6)" "moves b5 b6"
            using step(3) ahead_moves [OF step(4) m5] by (auto simp: agree_def)
          note m6 = moves_trans [OF m5 pa2(2)]
          note known = 3 key k colon none4 b5 room pa2(1)
          show ?thesis
          proof (cases e6)
            case (Some e')
            then show ?thesis using step(2) known pa m6 by (subst table_args.simps) auto
          next
            case none6: None
            then obtain b7 b8 e8 where sep: "query_chomp b6 = Some b7" "query_expect_char b7 0x2c = Some (b8, e8)"
              using step(2) known pa by (auto simp: bind_eq_Some_conv Let_def)
            note m8 = moves_trans [OF m6 moves_comma(1) [OF sep]]
            show ?thesis
            proof (cases e8)
              case (Some e')
              then show ?thesis using step(2) known pa none6 sep m8 by (subst table_args.simps) auto
            next
              case none8: None
              then obtain b9 where b9: "query_chomp b8 = Some b9" "loop alloc pa1 b9 (?args @ [a]) = Some r"
                using step(2) known pa none6 sep by (auto simp: bind_eq_Some_conv Let_def)
              have m9: "moves b1 b9" using moves_trans [OF m6 moves_comma(2) [OF sep b9(1)]] .
              have "table_args alloc pa2 b9 (?args @ [a]) = Some r \<and> moves b9 (fst r)"
                by (rule step(1) [OF b9(2) step(3) ahead_moves [OF step(4) m9]])
              then show ?thesis
                using known none6 sep none8 b9(1) moves_trans [OF m9] by (subst table_args.simps) auto
            qed
          qed
        qed
      qed
    qed
  next
    case 1
    then show ?thesis using step(2) by (subst table_args.simps) auto
  next
    case 2
    then show ?thesis using step(2) by (subst table_args.simps) auto
  qed
qed

lemma args_agree:
  assumes "agree b pa1 pa2" "ahead b b1"
  shows "method_args pa1 b1 args = method_args pa2 b1 args"
    and "table_args alloc pa1 b1 args = table_args alloc pa2 b1 args"
  using method_args_transfer [OF _ assms] method_args_transfer [OF _ agree_sym [OF assms(1)] assms(2)]
    table_args_transfer [OF _ assms] table_args_transfer [OF _ agree_sym [OF assms(1)] assms(2)]
  by (metis not_None_eq)+

lemma method_call_moves:
  assumes "agree b pa pa" "query_parse_method_call alloc pa b = Some r"
  shows "moves b (fst r)"
proof -
  obtain b1 name e1 where i: "query_get_ident b = Some (b1, name, e1)"
    using assms(2) by (auto simp: query_parse_method_call_def bind_eq_Some_conv)
  note m1 = moves_get_ident(1) [OF i]
  show ?thesis
  proof (cases e1)
    case (Some e)
    then show ?thesis using assms(2) i m1 by (auto simp: query_parse_method_call_def)
  next
    case None
    then obtain b2 b3 e3 where c: "query_chomp b1 = Some b2" "query_expect_char b2 0x28 = Some (b3, e3)"
      using assms(2) i by (auto simp: query_parse_method_call_def bind_eq_Some_conv)
    note m3 = moves_trans [OF m1 moves_comma(1) [OF c]]
    have lt: "e3 = None \<Longrightarrow> bf_offset b < bf_offset b3"
      using moves_expect_char [OF c(2)] moves_trans [OF m1 moves_chomp [OF c(1)]] by (auto simp: moves_def)
    show ?thesis
    proof (cases "e3 = None \<and> (\<exists>x. find (\<lambda>(n, _). c_strncmp n name (length name) = 0) registered_functions = Some x)")
      case False
      then show ?thesis
        using assms(2) i None c m3
        by (auto simp: query_parse_method_call_def bind_eq_Some_conv split: if_splits option.splits)
    next
      case True
      then obtain n f where f: "find (\<lambda>(n, _). c_strncmp n name (length name) = 0) registered_functions = Some (n, f)"
        by auto
      obtain b4 b5 args stop where a: "query_chomp b3 = Some b4" "method_args pa b4 [] = Some (b5, args, stop)"
        using assms(2) i None c True f by (auto simp: query_parse_method_call_def bind_eq_Some_conv)
      have "ahead b b4" using lt True moves_trans [OF m3 moves_chomp [OF a(1)]] moves_chomp [OF a(1)]
        by (auto simp: ahead_def moves_def)
      then have m5: "moves b b5"
        using method_args_transfer [OF a(2) assms(1)] moves_trans [of b b4 b5] by (simp add: ahead_def)
      then show ?thesis
        using assms(2) i None c True f a
        by (auto simp: query_parse_method_call_def bind_eq_Some_conv split: option.splits if_splits
            dest!: moves_expect_char intro: moves_trans)
    qed
  qed
qed

lemma table_moves:
  assumes "agree b pa pa" "query_parse_table alloc pa b = Some r"
  shows "moves b (fst r)"
proof -
  obtain b1 b2 e2 where c: "query_chomp b = Some b1" "query_expect_char b1 0x7b = Some (b2, e2)"
    using assms(2) by (auto simp: query_parse_table_def bind_eq_Some_conv)
  note m2 = moves_comma(1) [OF c]
  show ?thesis
  proof (cases e2)
    case (Some e)
    then show ?thesis using assms(2) c m2 by (auto simp: query_parse_table_def)
  next
    case None
    then obtain b3 b4 args stop where a: "query_chomp b2 = Some b3" "table_args alloc pa b3 [] = Some (b4, args, stop)"
      using assms(2) c by (auto simp: query_parse_table_def bind_eq_Some_conv)
    have "ahead b b3"
      using moves_expect_char [OF c(2)] None moves_chomp [OF c(1)] moves_chomp [OF a(1)]
      by (auto simp: ahead_def moves_def)
    then have m4: "moves b b4"
      using table_args_transfer [OF a(2) assms(1)] moves_trans [of b b3 b4] by (simp add: ahead_def)
    then show ?thesis
      using assms(2) c None a
      by (auto simp: query_parse_table_def bind_eq_Some_conv split: option.splits if_splits
          dest!: moves_expect_char intro: moves_trans)
  qed
qed

lemma calls_agree:
  assumes "agree b pa1 pa2"
  shows "query_parse_method_call alloc pa1 b = query_parse_method_call alloc pa2 b"
    and "query_parse_table alloc pa1 b = query_parse_table alloc pa2 b"
proof -
  have same: "method_args pa1 b4 [] = method_args pa2 b4 []" "table_args alloc pa1 b4 [] = table_args alloc pa2 b4 []"
    if "moves b b2" "query_expect_char b2 c = Some (b3, None)" "query_chomp b3 = Some b4" for b2 b3 b4 c
  proof -
    have "ahead b b4" using that(1) moves_expect_char [OF that(2)] moves_chomp [OF that(3)] by (auto simp: ahead_def moves_def)
    then show "method_args pa1 b4 [] = method_args pa2 b4 []" "table_args alloc pa1 b4 [] = table_args alloc pa2 b4 []"
      using args_agree [OF assms] by blast+
  qed
  show "query_parse_method_call alloc pa1 b = query_parse_method_call alloc pa2 b"
    unfolding query_parse_method_call_def
    by (intro Option.bind_cong refl) (auto split: option.split intro!: Option.bind_cong,
      rule same(1) [OF moves_trans [OF moves_get_ident(1) moves_chomp]]; assumption)
  show "query_parse_table alloc pa1 b = query_parse_table alloc pa2 b"
    unfolding query_parse_table_def
    by (intro Option.bind_cong refl) (auto intro!: Option.bind_cong dest: same(2) [OF moves_chomp])
qed

lemma calls_at_end:
  assumes "\<not> before_end b"
  shows "query_parse_method_call alloc pa1 b = query_parse_method_call alloc pa2 b"
    and "query_parse_table alloc pa1 b = query_parse_table alloc pa2 b"
proof -
  have "query_get_ident b = Some (b, [], Some (UnexpectedEof (bf_offset b)))"
    using assms by (simp add: query_get_ident_def query_is_eot_def)
  then show "query_parse_method_call alloc pa1 b = query_parse_method_call alloc pa2 b"
    by (simp add: query_parse_method_call_def)
  have "query_chomp b = Some b" "query_expect_char b 0x7b = Some (b, Some (UnexpectedEof (bf_offset b)))"
    using assms by (simp_all add: query_chomp.simps [of b] query_expect_char_def)
  then show "query_parse_table alloc pa1 b = query_parse_table alloc pa2 b"
    by (simp add: query_parse_table_def)
qed

definition remaining :: "qbuffer \<Rightarrow> nat" where
  "remaining b = bf_len b - bf_offset b"

definition in_text :: "qbuffer \<Rightarrow> bool" where
  "in_text b \<longleftrightarrow> bf_offset b \<le> length (bf_data b) \<and> length (bf_data b) < 2 ^ 32"

lemma in_text_moves: "in_text b \<Longrightarrow> moves b b' \<Longrightarrow> in_text b' \<and> remaining b' \<le> remaining b"
  by (auto simp: in_text_def moves_def remaining_def)

lemma remaining_ahead: "in_text b \<Longrightarrow> before_end b \<Longrightarrow> ahead b b' \<Longrightarrow> remaining b' < remaining b"
  by (auto simp: in_text_def before_end_def ahead_def moves_def remaining_def)

lemma argument_moves:
  assumes "query_parse_argument alloc call table b = Some r"
    and "\<And>b' r. moves b b' \<Longrightarrow> call b' = Some r \<Longrightarrow> moves b' (fst r)" "\<And>b' r. moves b b' \<Longrightarrow> table b' = Some r \<Longrightarrow> moves b' (fst r)"
  shows "moves b (fst r)"
proof -
  obtain b1 where c: "query_chomp b = Some b1" using assms(1) by (auto simp: query_parse_argument_def bind_eq_Some_conv)
  note m = moves_chomp [OF c]
  have "call b1 = Some r \<or> table b1 = Some r \<or> (\<exists>v e. query_parse_value alloc b1 = Some (fst r, v, e))"
    using assms(1) c by (auto simp: query_parse_argument_def bind_eq_Some_conv split: if_splits)
  then have "moves b1 (fst r)"
    using assms(2,3) [OF m] moves_parse_value by blast
  then show ?thesis using moves_trans [OF m] by blast
qed

lemma argument_cong:
  assumes "\<And>b'. query_chomp b = Some b' \<Longrightarrow> call1 b' = call2 b' \<and> table1 b' = table2 b'"
  shows "query_parse_argument alloc call1 table1 b = query_parse_argument alloc call2 table2 b"
  using assms by (cases "query_chomp b") (auto simp: query_parse_argument_def intro!: Option.bind_cong)

lemma depth_moves: "in_text b \<Longrightarrow> parse_argument_depth alloc n b = Some r \<Longrightarrow> moves b (fst r)"
proof (induction n arbitrary: b r)
  case (Suc n)
  have "agree b' (parse_argument_depth alloc n) (parse_argument_depth alloc n)" if "moves b b'" for b'
    unfolding agree_def ahead_def
    using Suc.IH in_text_moves [OF Suc.prems(1)] moves_trans [OF that] by blast
  then show ?case
    using argument_moves [OF Suc.prems(2) [unfolded parse_argument_depth.simps]] method_call_moves table_moves by blast
qed simp

lemma calls_reach:
  assumes "in_text b" "\<And>b'. in_text b' \<Longrightarrow> remaining b' < remaining b \<Longrightarrow> pa1 b' = pa2 b'"
    and "\<And>b' r. in_text b' \<Longrightarrow> pa1 b' = Some r \<Longrightarrow> moves b' (fst r)"
  shows "query_parse_argument alloc (query_parse_method_call alloc pa1) (query_parse_table alloc pa1) b =
    query_parse_argument alloc (query_parse_method_call alloc pa2) (query_parse_table alloc pa2) b"
proof (rule argument_cong)
  fix b1 assume "query_chomp b = Some b1"
  then have b1: "in_text b1" "remaining b1 \<le> remaining b" using in_text_moves [OF assms(1) moves_chomp] by blast+
  show "query_parse_method_call alloc pa1 b1 = query_parse_method_call alloc pa2 b1 \<and>
      query_parse_table alloc pa1 b1 = query_parse_table alloc pa2 b1"
  proof (cases "before_end b1")
    case True
    have "agree b1 pa1 pa2"
      unfolding agree_def
      using assms(2,3) in_text_moves [OF b1(1)] remaining_ahead [OF b1(1) True] b1(2)
      by (meson ahead_def less_le_trans)
    then show ?thesis using calls_agree by blast
  next
    case False
    then show ?thesis using calls_at_end by blast
  qed
qed

lemma depth_enough:
  "in_text b \<Longrightarrow> remaining b < n \<Longrightarrow> remaining b < m \<Longrightarrow> parse_argument_depth alloc n b = parse_argument_depth alloc m b"
proof (induction n arbitrary: m b)
  case (Suc n)
  then obtain m' where m: "m = Suc m'" by (cases m) auto
  have "parse_argument_depth alloc n b' = parse_argument_depth alloc m' b'" if "in_text b'" "remaining b' < remaining b" for b'
    using Suc.IH [OF that(1), of m'] that(2) Suc.prems(2,3) m by simp
  then show ?case
    unfolding m parse_argument_depth.simps by (rule calls_reach [OF Suc.prems(1)]) (auto intro: depth_moves)
qed simp

text \<open>With a depth above the length of the text the parser of arguments satisfies the recursive equation of the
  code, with itself as the parser of nested arguments, at every offset of the text: the bound on the depth
  cannot be observed.\<close>

theorem query_parser_recursion:
  assumes "in_text b" and "bf_len b < n"
  shows "parse_argument_depth alloc n b =
    query_parse_argument alloc (query_parse_method_call alloc (parse_argument_depth alloc n))
      (query_parse_table alloc (parse_argument_depth alloc n)) b"
proof -
  have "remaining b < n" "remaining b < Suc n" using assms(2) by (simp_all add: remaining_def)
  then have "parse_argument_depth alloc n b = parse_argument_depth alloc (Suc n) b"
    by (rule depth_enough [OF assms(1)])
  then show ?thesis by simp
qed

theorem query_parser_recursion_witness:
  "parse_argument_depth (\<lambda>_. True) 3 (qt [0x7b, 0x7d] 0) =
    query_parse_argument (\<lambda>_. True) (query_parse_method_call (\<lambda>_. True) (parse_argument_depth (\<lambda>_. True) 3))
      (query_parse_table (\<lambda>_. True) (parse_argument_depth (\<lambda>_. True) 3)) (qt [0x7b, 0x7d] 0)"
  by (rule query_parser_recursion) (simp_all add: in_text_def qt_def)

end
