(* ===== verification/Query_Meaning.thy ===== *)
theory Query_Meaning
  imports Query
begin

text \<open>
  What a query of \<^verbatim>\<open>libretro-db/query.c\<close> accepts, as a predicate on documents, and that filtering with the
  query computes it whenever no argument is uninitialised.
\<close>

section \<open>What a query means\<close>

text \<open>Equality with a value; a signed argument is compared with an unsigned field bit by bit.\<close>

definition value_matches :: "rmsgpack_dom_value \<Rightarrow> rmsgpack_dom_value \<Rightarrow> bool" where
  "value_matches w v \<longleftrightarrow>
     dom_cmp v (case (v, w) of (RDT_UINT _, RDT_INT i) \<Rightarrow> RDT_UINT i | _ \<Rightarrow> w) = 0"

definition between_matches :: "argument list \<Rightarrow> rmsgpack_dom_value \<Rightarrow> bool" where
  "between_matches argv v \<longleftrightarrow>
     (case argv of
        [AT_VALUE (RDT_INT x), AT_VALUE (RDT_INT y)] \<Rightarrow>
          (case v of
             RDT_INT i \<Rightarrow> sint x \<le> sint i \<and> sint i \<le> sint y
           | RDT_UINT i \<Rightarrow> uint x \<le> uint i mod 2 ^ 32 \<and> sint i \<le> sint y
           | _ \<Rightarrow> False)
      | _ \<Rightarrow> False)"

definition pattern_matches :: "argument list \<Rightarrow> rmsgpack_dom_value \<Rightarrow> bool" where
  "pattern_matches argv v \<longleftrightarrow>
     (case (argv, v) of
        ([AT_VALUE (RDT_STRING p)], RDT_STRING s) \<Rightarrow>
          (case glob_items (c_chars p) of None \<Rightarrow> False | Some g \<Rightarrow> glob_matches g (c_chars s))
      | _ \<Rightarrow> False)"

function (sequential) call_matches :: "query_func \<Rightarrow> argument list \<Rightarrow> rmsgpack_dom_value \<Rightarrow> bool"
  and arg_matches :: "argument \<Rightarrow> rmsgpack_dom_value \<Rightarrow> bool"
  and entries_match :: "argument list \<Rightarrow> rmsgpack_dom_value \<Rightarrow> bool" where
  "call_matches query_is_true argv v \<longleftrightarrow> argv = [] \<and> is_true v"
| "call_matches query_or argv v \<longleftrightarrow> (\<exists>a \<in> set argv. arg_matches a v)"
| "call_matches query_and argv v \<longleftrightarrow> argv \<noteq> [] \<and> (\<forall>a \<in> set argv. arg_matches a v)"
| "call_matches query_between argv v \<longleftrightarrow> between_matches argv v"
| "call_matches query_glob argv v \<longleftrightarrow> pattern_matches argv v"
| "call_matches query_all_map argv v \<longleftrightarrow>
     even (length argv) \<and> (case v of RDT_MAP _ \<Rightarrow> entries_match argv v | _ \<Rightarrow> True)"
| "arg_matches (AT_VALUE w) v \<longleftrightarrow> value_matches w v"
| "arg_matches (AT_FUNCTION f argv) v \<longleftrightarrow> call_matches f argv v"
| "arg_matches _ v \<longleftrightarrow> False"
| "entries_match (AT_VALUE k # a # argv) v \<longleftrightarrow>
     arg_matches a (case rmsgpack_dom_value_map_value v k of None \<Rightarrow> RDT_NULL | Some w \<Rightarrow> w) \<and> entries_match argv v"
| "entries_match [] v \<longleftrightarrow> True"
| "entries_match _ v \<longleftrightarrow> False"
  by pat_completeness auto
termination
  by (relation "measure (case_sum (\<lambda>(f, argv, v). 2 * size_list size argv + 1)
      (case_sum (\<lambda>(a, v). 2 * size a) (\<lambda>(argv, v). 2 * size_list size argv)))")
    (auto simp: less_Suc_eq_le dest: size_list_estimation')

lemma is_true_simps [simp]: "is_true (RDT_BOOL b) \<longleftrightarrow> b \<noteq> 0" "is_true (query_func_is_true r 0) \<longleftrightarrow> is_true r"
  by (auto simp: is_true_def query_func_is_true_def split: rmsgpack_dom_value.split)

lemma between_eq:
  assumes "\<forall>a \<in> set argv. query_argument_free a"
  shows "\<exists>r. query_func_between v argv = Some r \<and> (is_true r \<longleftrightarrow> between_matches argv v)"
  using assms
  by (auto simp: query_func_between_def between_matches_def unsigned_ucast_eq take_bit_eq_mod
      split: list.split argument.split rmsgpack_dom_value.split)

lemma glob_eq:
  assumes "\<forall>a \<in> set argv. query_argument_free a"
  shows "\<exists>r. query_func_glob v argv = Some r \<and> (is_true r \<longleftrightarrow> pattern_matches argv v)"
  using assms fnmatch_correct(1)
  by (auto simp: query_func_glob_def pattern_matches_def
      split: list.split argument.split rmsgpack_dom_value.split option.split)

lemma equals_eq: "\<exists>r. func_equals v [AT_VALUE w] = Some r \<and> (is_true r \<longleftrightarrow> value_matches w v)"
  by (auto simp: func_equals_def value_matches_def rmsgpack_dom_value_cmp_def Let_def)

lemma query_call_matches:
  "\<forall>a \<in> set argv. query_argument_free a \<Longrightarrow> \<exists>r. query_call f argv v = Some r \<and> (is_true r \<longleftrightarrow> call_matches f argv v)"
  "query_argument_free a \<Longrightarrow> \<exists>r. query_arg a v = Some r \<and> (is_true r \<longleftrightarrow> arg_matches a v)"
  "\<forall>a \<in> set argv. query_argument_free a \<Longrightarrow>
    \<exists>r. or_args argv v res = Some r \<and> (is_true r \<longleftrightarrow> (if argv = [] then is_true res else \<exists>a \<in> set argv. arg_matches a v))"
  "\<forall>a \<in> set argv. query_argument_free a \<Longrightarrow>
    \<exists>r. and_args argv v res = Some r \<and> (is_true r \<longleftrightarrow> (if argv = [] then is_true res else \<forall>a \<in> set argv. arg_matches a v))"
  "\<forall>a \<in> set argv. query_argument_free a \<Longrightarrow> even (length argv) \<Longrightarrow>
    \<exists>r. map_args argv v res = Some r \<and> (is_true r \<longleftrightarrow> (if argv = [] then is_true res else entries_match argv v))"
proof (induction f argv v and a v and argv v res and argv v res and argv v res
    rule: query_call_query_arg_or_args_and_args_map_args.induct)
  case (1 argv input)
  then show ?case by (auto simp: query_func_is_true_def is_true_def split: rmsgpack_dom_value.split)
next
  case (6 argv input)
  show ?case
  proof (cases "even (length argv)")
    case False
    then show ?thesis by (simp add: odd_iff_mod_2_eq_one)
  next
    case True
    then have m: "\<not> length argv mod 2 \<noteq> 0" by (simp add: even_iff_mod_2_eq_zero)
    show ?thesis
    proof (cases input)
      case (RDT_MAP kvs)
      then show ?thesis using 6(1) [OF m RDT_MAP 6(2) True] True by (cases "argv = []") simp_all
    qed (use True m in simp_all)
  qed
next
  case (4 argv input)
  then show ?case using between_eq by simp
next
  case (5 argv input)
  then show ?case using glob_eq by simp
next
  case (11 a argv input res)
  then obtain r where r: "query_arg a input = Some r" "is_true r \<longleftrightarrow> arg_matches a input" by auto
  show ?case
  proof (cases "is_true r")
    case True
    then show ?thesis using r by simp
  next
    case False
    then show ?thesis using 11(2) [OF _ False] 11(3) r by (auto split: if_splits)
  qed
next
  case (13 a argv input res)
  then obtain r where r: "query_arg a input = Some r" "is_true r \<longleftrightarrow> arg_matches a input" by auto
  show ?case
  proof (cases "is_true r")
    case True
    then show ?thesis using 13(2) [of r] 13(3) r by (auto split: if_splits)
  next
    case False
    then show ?thesis using r by simp
  qed
next
  case (14 k a argv input res)
  show ?case
  proof (cases k)
    case (AT_VALUE key)
    let ?w = "case rmsgpack_dom_value_map_value input key of None \<Rightarrow> RDT_NULL | Some w \<Rightarrow> w"
    obtain r where r: "query_arg a ?w = Some r" "is_true r \<longleftrightarrow> arg_matches a ?w"
      using 14(1) [OF AT_VALUE refl] 14(3) by auto
    show ?thesis
    proof (cases "is_true r")
      case True
      then show ?thesis using 14(2) [OF AT_VALUE refl, of r] 14(3,4) r AT_VALUE by (auto simp: Let_def split: if_splits)
    next
      case False
      then show ?thesis using r AT_VALUE by (simp add: Let_def)
    qed
  qed (use 14 in auto)
qed (use equals_eq in \<open>auto split: if_splits\<close>)

lemma filter_matches:
  "\<forall>a \<in> set argv. query_argument_free a \<Longrightarrow>
    libretrodb_query_filter \<lparr>q_ref_count = n, q_root = Some (f, argv)\<rparr> v = Some (call_matches f argv v)"
  using query_call_matches(1) [of argv f v] by (auto simp: libretrodb_query_filter_def)

text \<open>C28. Filtering with a query whose arguments are all written answers, and it answers what the query means: any of
  the alternatives of \<^verbatim>\<open>or\<close>, all of the conditions of \<^verbatim>\<open>and\<close> (and at least one), a range, a pattern that matches, and for
  a table every entry on the field of its key, a missing field being nil.  A table accepts everything that is
  not a map.\<close>

theorem query_filter_matches:
  assumes "\<forall>a \<in> set argv. query_argument_free a"
  shows "libretrodb_query_filter \<lparr>q_ref_count = n, q_root = Some (f, argv)\<rparr> v = Some (call_matches f argv v)"
  using assms by (rule filter_matches)

theorem query_filter_matches_witness:
  "libretrodb_query_filter \<lparr>q_ref_count = 1, q_root = Some (query_all_map, [AT_VALUE (RDT_STRING [97]),
     AT_FUNCTION query_glob [AT_VALUE (RDT_STRING [0x2a, 98])]])\<rparr>
     (RDT_MAP [(RDT_STRING [97], RDT_STRING [99, 99, 98])]) =
   Some (call_matches query_all_map [AT_VALUE (RDT_STRING [97]),
     AT_FUNCTION query_glob [AT_VALUE (RDT_STRING [0x2a, 98])]] (RDT_MAP [(RDT_STRING [97], RDT_STRING [99, 99, 98])]))"
  by (rule query_filter_matches) simp

end
