(* ===== verification/Message_Queue.thy ===== *)
theory Message_Queue
  imports RA_Prelude "HOL-Library.Multiset"
begin

text \<open>
  The queue of on-screen messages: \<^verbatim>\<open>libretro-common/queues/message_queue.c\<close>.  It is an array of pointers, from
  index 1, that is meant to be a heap on the priorities.  A pointer is the record it points to, which holds its
  own address, because pulling compares pointers; the slots behind \<^verbatim>\<open>ptr\<close> may hold pointers that are no
  longer used.  A null pointer is \<^term>\<open>None\<close> in the array, and following it is \<^term>\<open>None\<close> as a result.

  Proved here: under any run of pushes and pulls the queue is a bag, from which no message is lost and to
  which none is added; pushing keeps the order of a heap; pulling destroys it.
\<close>

record queue_elem =
  qe_addr :: nat
  qe_duration :: u32
  qe_prio :: u32
  qe_msg :: "string option"

record msg_queue =
  mq_elems :: "queue_elem option list"
  mq_ptr :: nat
  mq_size :: nat
  mq_tmp_msg :: "string option"

text \<open>\<^verbatim>\<open>msg_queue_new\<close>, when the two allocations succeed or not.\<close>

definition msg_queue_new :: "bool \<Rightarrow> bool \<Rightarrow> nat \<Rightarrow> msg_queue option" where
  "msg_queue_new queue_ok elems_ok sz =
     (if \<not> queue_ok \<or> \<not> elems_ok then None
      else Some \<lparr>mq_elems = replicate (sz + 1) None, mq_ptr = 1, mq_size = sz + 1, mq_tmp_msg = None\<rparr>)"

text \<open>The pointer in a slot, and what it points to.\<close>

definition elem_at :: "queue_elem option list \<Rightarrow> nat \<Rightarrow> queue_elem option" where
  "elem_at elems i = Option.bind (mem_get elems i) (\<lambda>e. e)"

definition addr_at :: "queue_elem option list \<Rightarrow> nat \<Rightarrow> nat option" where
  "addr_at elems i = map_option (\<lambda>e. case e of None \<Rightarrow> 0 | Some e \<Rightarrow> qe_addr e) (mem_get elems i)"

text \<open>The loop of \<^verbatim>\<open>msg_queue_push\<close>.\<close>

function sift_up :: "queue_elem option list \<Rightarrow> nat \<Rightarrow> queue_elem option list option" where
  "sift_up elems tmp_ptr =
     (if tmp_ptr > 1
      then Option.bind (elem_at elems (tmp_ptr div 2)) (\<lambda>parent.
        Option.bind (elem_at elems tmp_ptr) (\<lambda>child.
          if qe_prio child \<le> qe_prio parent then Some elems
          else Option.bind (mem_set elems (tmp_ptr div 2) (Some child)) (\<lambda>elems.
            Option.bind (mem_set elems tmp_ptr (Some parent)) (\<lambda>elems.
              sift_up elems (tmp_ptr div 2)))))
      else Some elems)"
  by auto
termination by (relation "measure snd") auto

declare sift_up.simps [simp del]

text \<open>\<open>new_elem\<close> is the address of the new element, or no memory; the title, the icon and the category are not
  stored by the code.  \<open>msg\<close> is the copy of the message.\<close>

definition msg_queue_push :: "msg_queue option \<Rightarrow> nat option \<Rightarrow> string option \<Rightarrow> u32 \<Rightarrow> u32 \<Rightarrow> msg_queue option option" where
  "msg_queue_push queue new_elem msg prio duration =
     (case queue of
        None \<Rightarrow> Some None
      | Some q \<Rightarrow>
          if mq_ptr q \<ge> mq_size q then Some (Some q)
          else (case new_elem of
                  None \<Rightarrow> Some (Some q)
                | Some a \<Rightarrow> do {
                    elems \<leftarrow> mem_set (mq_elems q) (mq_ptr q)
                      (Some \<lparr>qe_addr = a, qe_duration = duration, qe_prio = prio, qe_msg = msg\<rparr>);
                    elems \<leftarrow> sift_up elems (mq_ptr q);
                    Some (Some (q\<lparr>mq_elems := elems, mq_ptr := mq_ptr q + 1\<rparr>))
                  }))"

fun clear_elems :: "nat list \<Rightarrow> queue_elem option list \<Rightarrow> queue_elem option list option" where
  "clear_elems [] elems = Some elems"
| "clear_elems (i # is) elems = Option.bind (mem_set elems i None) (clear_elems is)"

definition msg_queue_clear :: "msg_queue option \<Rightarrow> msg_queue option option" where
  "msg_queue_clear queue =
     (case queue of
        None \<Rightarrow> Some None
      | Some q \<Rightarrow> do {
          elems \<leftarrow> clear_elems [1..<mq_ptr q] (mq_elems q);
          Some (Some (q\<lparr>mq_elems := elems, mq_ptr := 1, mq_tmp_msg := None\<rparr>))
        })"

text \<open>The loop of \<^verbatim>\<open>msg_queue_pull\<close>, which compares the pointers and not what they point to.\<close>

definition switch_index :: "queue_elem option list \<Rightarrow> nat \<Rightarrow> nat \<Rightarrow> nat option option" where
  "switch_index elems ptr tmp_ptr = do {
     here \<leftarrow> addr_at elems tmp_ptr;
     left \<leftarrow> (if tmp_ptr * 2 \<le> ptr
              then map_option (\<lambda>a. here < a) (addr_at elems (tmp_ptr * 2)) else Some False);
     right \<leftarrow> (if tmp_ptr * 2 + 1 \<le> ptr
               then map_option (\<lambda>a. here < a) (addr_at elems (tmp_ptr * 2 + 1)) else Some False);
     if \<not> left \<and> \<not> right then Some None
     else if left \<and> \<not> right then Some (Some (tmp_ptr * 2))
     else if right \<and> \<not> left then Some (Some (tmp_ptr * 2 + 1))
     else do {
       l \<leftarrow> addr_at elems (tmp_ptr * 2);
       r \<leftarrow> addr_at elems (tmp_ptr * 2 + 1);
       Some (Some (if l \<ge> r then tmp_ptr * 2 else tmp_ptr * 2 + 1))
     }
   }"

lemma switch_index_down:
  "switch_index elems ptr i = Some (Some j) \<Longrightarrow> (j = i * 2 \<or> j = i * 2 + 1) \<and> j \<le> ptr"
  by (auto simp: switch_index_def bind_eq_Some_conv split: if_splits)

function sift_down :: "nat \<Rightarrow> queue_elem option list \<Rightarrow> nat \<Rightarrow> queue_elem option list option" where
  "sift_down ptr elems tmp_ptr =
     (if tmp_ptr = 0 then None
      else Option.bind (switch_index elems ptr tmp_ptr) (\<lambda>j. case j of
        None \<Rightarrow> Some elems
      | Some j \<Rightarrow>
          Option.bind (mem_get elems tmp_ptr) (\<lambda>parent.
            Option.bind (mem_get elems j) (\<lambda>child.
              Option.bind (mem_set elems tmp_ptr child) (\<lambda>elems.
                Option.bind (mem_set elems j parent) (\<lambda>elems. sift_down ptr elems j))))))"
  by auto
termination
  by (relation "measure (\<lambda>(ptr, elems, i). ptr + 1 - i)") (auto dest!: switch_index_down)

declare sift_down.simps [simp del]

text \<open>The message, and the queue.\<close>

definition msg_queue_pull :: "msg_queue option \<Rightarrow> (string option \<times> msg_queue option) option" where
  "msg_queue_pull queue =
     (case queue of
        None \<Rightarrow> Some (None, None)
      | Some q \<Rightarrow>
          if mq_ptr q = 1 then Some (None, queue)
          else do {
            front \<leftarrow> elem_at (mq_elems q) 1;
            let front = front\<lparr>qe_duration := qe_duration front - 1\<rparr>;
            elems \<leftarrow> mem_set (mq_elems q) 1 (Some front);
            if qe_duration front > 0 then Some (qe_msg front, Some (q\<lparr>mq_elems := elems\<rparr>))
            else do {
              let ptr = mq_ptr q - 1;
              last \<leftarrow> mem_get elems ptr;
              elems \<leftarrow> mem_set elems 1 last;
              elems \<leftarrow> sift_down ptr elems 1;
              Some (qe_msg front, Some (q\<lparr>mq_elems := elems, mq_ptr := ptr, mq_tmp_msg := qe_msg front\<rparr>))
            }
          })"

section \<open>The queue is a bag\<close>

definition mq_ok :: "msg_queue \<Rightarrow> bool" where
  "mq_ok q \<longleftrightarrow> length (mq_elems q) = mq_size q \<and> 1 \<le> mq_ptr q \<and> mq_ptr q \<le> mq_size q \<and>
     (\<forall>i. 1 \<le> i \<and> i < mq_ptr q \<longrightarrow> mq_elems q ! i \<noteq> None)"

text \<open>The elements in the slots from 1 up to \<open>n\<close>.\<close>

definition slots :: "queue_elem option list \<Rightarrow> nat \<Rightarrow> queue_elem list" where
  "slots elems n = map (\<lambda>i. the (elems ! i)) [1..<n]"

definition bag :: "msg_queue \<Rightarrow> queue_elem multiset" where
  "bag q = mset (slots (mq_elems q) (mq_ptr q))"

lemma slots_swap:
  assumes "1 \<le> i" "i < n" "1 \<le> j" "j < n" "n \<le> length elems"
  shows "mset (slots (elems[i := elems ! j, j := elems ! i]) n) = mset (slots elems n)"
proof -
  let ?xs = "slots elems n"
  have "slots (elems[i := elems ! j, j := elems ! i]) n = ?xs[i - 1 := ?xs ! (j - 1), j - 1 := ?xs ! (i - 1)]"
    using assms by (intro nth_equalityI) (auto simp: slots_def nth_list_update split: if_splits)
  moreover have "i - 1 < length ?xs" "j - 1 < length ?xs"
    using assms by (auto simp: slots_def)
  ultimately show ?thesis by (simp add: mset_swap)
qed

lemma slots_update_outside: "n \<le> i \<Longrightarrow> slots (elems[i := e]) n = slots elems n"
  by (auto simp: slots_def)

text \<open>All slots below \<open>n\<close> hold an element.\<close>

definition filled :: "queue_elem option list \<Rightarrow> nat \<Rightarrow> bool" where
  "filled elems n \<longleftrightarrow> n \<le> length elems \<and> (\<forall>i. 1 \<le> i \<and> i < n \<longrightarrow> elems ! i \<noteq> None)"

lemma filled_at: "filled elems n \<Longrightarrow> 1 \<le> i \<Longrightarrow> i < n \<Longrightarrow> elem_at elems i = Some (the (elems ! i)) \<and> mem_get elems i = Some (elems ! i)"
  by (auto simp: filled_def elem_at_def mem_get_def)

lemma filled_swap:
  "filled elems n \<Longrightarrow> 1 \<le> i \<Longrightarrow> i < n \<Longrightarrow> 1 \<le> j \<Longrightarrow> j < n \<Longrightarrow> filled (elems[i := elems ! j, j := elems ! i]) n"
  by (auto simp: filled_def nth_list_update)

definition prio_at :: "queue_elem option list \<Rightarrow> nat \<Rightarrow> u32" where
  "prio_at elems i = qe_prio (the (elems ! i))"

text \<open>The order of a heap, and the same except for the element in slot \<open>i\<close>, which may have to rise.\<close>

definition heap :: "queue_elem option list \<Rightarrow> nat \<Rightarrow> bool" where
  "heap elems n \<longleftrightarrow> (\<forall>i. 2 \<le> i \<and> i < n \<longrightarrow> prio_at elems i \<le> prio_at elems (i div 2))"

definition heap_except :: "queue_elem option list \<Rightarrow> nat \<Rightarrow> nat \<Rightarrow> bool" where
  "heap_except elems n k \<longleftrightarrow>
     (\<forall>i. 2 \<le> i \<and> i < n \<and> i \<noteq> k \<longrightarrow> prio_at elems i \<le> prio_at elems (i div 2)) \<and>
     (\<forall>i. 2 \<le> i \<and> i < n \<and> i div 2 = k \<and> 2 \<le> k \<longrightarrow> prio_at elems i \<le> prio_at elems (k div 2))"

lemma heap_root: "heap elems n \<Longrightarrow> 1 \<le> i \<Longrightarrow> i < n \<Longrightarrow> prio_at elems i \<le> prio_at elems 1"
proof (induction i rule: less_induct)
  case (less i)
  show ?case
  proof (cases "i = 1")
    case False
    then have "prio_at elems i \<le> prio_at elems (i div 2)" using less.prems by (simp add: heap_def)
    also have "\<dots> \<le> prio_at elems 1" using less.IH [of "i div 2"] less.prems False by simp
    finally show ?thesis .
  qed simp
qed

lemma prio_at_swap:
  "i < length elems \<Longrightarrow> j < length elems \<Longrightarrow> prio_at (elems[i := elems ! j, j := elems ! i]) k =
    (if k = j then prio_at elems i else if k = i then prio_at elems j else prio_at elems k)"
  by (auto simp: prio_at_def nth_list_update)

lemma heap_except_rise:
  assumes "heap_except elems n i" "2 \<le> i" "i < n" "n \<le> length elems" "prio_at elems (i div 2) < prio_at elems i"
  shows "heap_except (elems[i div 2 := elems ! i, i := elems ! (i div 2)]) n (i div 2)"
proof -
  let ?p = "i div 2" and ?e = "elems[i div 2 := elems ! i, i := elems ! (i div 2)]"
  have p: "1 \<le> ?p" "?p < i" using assms(2) by auto
  have at: "prio_at ?e k = (if k = i then prio_at elems ?p else if k = ?p then prio_at elems i else prio_at elems k)" for k
    using prio_at_swap [of "?p" elems i k] assms(3,4) p by simp
  have ordered: "prio_at elems j \<le> prio_at elems (j div 2)" if "2 \<le> j" "j < n" "j \<noteq> i" for j
    using assms(1) that by (simp add: heap_except_def)
  have below: "prio_at elems j \<le> prio_at elems ?p" if "2 \<le> j" "j < n" "j div 2 = i" for j
    using assms(1,2) that by (simp add: heap_except_def)
  show ?thesis
    unfolding heap_except_def
  proof (intro conjI allI impI)
    fix j assume j: "2 \<le> j \<and> j < n \<and> j \<noteq> ?p"
    show "prio_at ?e j \<le> prio_at ?e (j div 2)"
    proof (cases "j = i")
      case True
      then show ?thesis using at assms(5) p by (simp add: less_imp_le)
    next
      case False
      consider "j div 2 = i" | "j div 2 = ?p" "j div 2 \<noteq> i" | "j div 2 \<noteq> i" "j div 2 \<noteq> ?p" by blast
      then show ?thesis
      proof cases
        case 1
        then show ?thesis using at j False below by simp
      next
        case 2
        then show ?thesis using at j False ordered [of j] assms(5) by simp
      next
        case 3
        then show ?thesis using at j False ordered [of j] by simp
      qed
    qed
  next
    fix j assume j: "2 \<le> j \<and> j < n \<and> j div 2 = ?p \<and> 2 \<le> ?p"
    have q: "?p div 2 \<noteq> i" "?p div 2 \<noteq> ?p" "j \<noteq> ?p" using p j by auto
    have "prio_at elems ?p \<le> prio_at elems (?p div 2)" using ordered [of ?p] j p assms(3) by simp
    then show "prio_at ?e j \<le> prio_at ?e (?p div 2)"
      using at q ordered [of j] j by (cases "j = i") (auto intro: order_trans)
  qed
qed

lemma sift_up_heap:
  assumes "filled elems n" "1 \<le> i" "i < n"
  shows "\<exists>elems'. sift_up elems i = Some elems' \<and> filled elems' n \<and> length elems' = length elems \<and>
    mset (slots elems' n) = mset (slots elems n) \<and> (heap_except elems n i \<longrightarrow> heap elems' n)"
  using assms
proof (induction elems i rule: sift_up.induct)
  case (1 elems i)
  show ?case
  proof (cases "1 < i")
    case False
    then have "heap_except elems n i \<longrightarrow> heap elems n" using 1(3) by (simp add: heap_except_def heap_def)
    then show ?thesis using False 1(2) by (simp add: sift_up.simps)
  next
    case True
    let ?e = "elems[i div 2 := elems ! i, i := elems ! (i div 2)]"
    have p: "1 \<le> i div 2" "i div 2 < i" using True by auto
    have at: "elem_at elems (i div 2) = Some (the (elems ! (i div 2)))" "elem_at elems i = Some (the (elems ! i))"
      using filled_at [OF 1(2), of i] filled_at [OF 1(2), of "i div 2"] 1(3,4) p by auto
    have nonempty: "Some (the (elems ! i)) = elems ! i" "Some (the (elems ! (i div 2))) = elems ! (i div 2)"
      using 1(2-4) p unfolding filled_def by auto
    have len: "i < length elems" "i div 2 < length elems" using 1(2,4) p by (auto simp: filled_def)
    show ?thesis
    proof (cases "qe_prio (the (elems ! i)) \<le> qe_prio (the (elems ! (i div 2)))")
      case stop: True
      then have "heap_except elems n i \<longrightarrow> heap elems n"
        unfolding heap_except_def heap_def prio_at_def by (metis)
      then show ?thesis using True stop at 1(2) by (simp add: sift_up.simps [of elems i])
    next
      case rise: False
      have set1: "mem_set elems (i div 2) (Some (the (elems ! i))) = Some (elems[i div 2 := elems ! i])"
        using len nonempty by (simp add: mem_set_Some)
      have set2: "mem_set (elems[i div 2 := elems ! i]) i (Some (the (elems ! (i div 2)))) = Some ?e"
        using len nonempty by (simp add: mem_set_Some)
      have step: "sift_up elems i = sift_up ?e (i div 2)"
        using True rise at set1 set2 by (simp add: sift_up.simps [of elems i])
      have "filled ?e n" by (rule filled_swap [OF 1(2)]) (use p 1(3,4) in auto)
      then obtain elems' where e: "sift_up ?e (i div 2) = Some elems'" "filled elems' n" "length elems' = length ?e"
          "mset (slots elems' n) = mset (slots ?e n)" "heap_except ?e n (i div 2) \<longrightarrow> heap elems' n"
        using 1(1) [OF True at rise set1 set2] p 1(4) by fastforce
      have "mset (slots ?e n) = mset (slots elems n)"
        by (rule slots_swap) (use p 1(2-4) in \<open>auto simp: filled_def\<close>)
      moreover have "heap_except elems n i \<longrightarrow> heap_except ?e n (i div 2)"
        using heap_except_rise [of elems n i] True 1(2,4) rise by (auto simp: filled_def prio_at_def)
      ultimately show ?thesis using e step by simp
    qed
  qed
qed

section \<open>Operations on the bag\<close>

lemma ok_filled: "mq_ok q \<Longrightarrow> filled (mq_elems q) (mq_ptr q)"
  by (simp add: mq_ok_def filled_def)

lemma slots_Suc: "1 \<le> n \<Longrightarrow> slots elems (Suc n) = slots elems n @ [the (elems ! n)]"
  by (simp add: slots_def)

lemma size_bag: "mq_ok q \<Longrightarrow> size (bag q) = mq_ptr q - 1"
  by (simp add: bag_def slots_def)

lemma push_stores:
  assumes "mq_ok q" "mq_ptr q < mq_size q"
  shows "\<exists>q'. msg_queue_push (Some q) (Some a) msg prio duration = Some (Some q') \<and> mq_ok q' \<and> mq_size q' = mq_size q \<and>
    bag q' = add_mset \<lparr>qe_addr = a, qe_duration = duration, qe_prio = prio, qe_msg = msg\<rparr> (bag q) \<and>
    (heap (mq_elems q) (mq_ptr q) \<longrightarrow> heap (mq_elems q') (mq_ptr q'))"
proof -
  let ?e = "\<lparr>qe_addr = a, qe_duration = duration, qe_prio = prio, qe_msg = msg\<rparr>" and ?n = "mq_ptr q"
  let ?elems = "(mq_elems q)[?n := Some ?e]"
  have ok: "1 \<le> ?n" "?n < length (mq_elems q)" using assms by (auto simp: mq_ok_def)
  have "filled ?elems (Suc ?n)"
    using assms by (auto simp: filled_def mq_ok_def nth_list_update less_Suc_eq)
  then obtain elems' where e: "sift_up ?elems ?n = Some elems'" "filled elems' (Suc ?n)" "length elems' = length ?elems"
      "mset (slots elems' (Suc ?n)) = mset (slots ?elems (Suc ?n))" "heap_except ?elems (Suc ?n) ?n \<longrightarrow> heap elems' (Suc ?n)"
    using sift_up_heap [of ?elems "Suc ?n" ?n] ok by auto
  have slots: "slots ?elems (Suc ?n) = slots (mq_elems q) ?n @ [?e]"
    using ok by (simp add: slots_Suc slots_update_outside)
  have at: "prio_at ?elems i = prio_at (mq_elems q) i" if "i < ?n" for i
    using that by (simp add: prio_at_def)
  have "heap_except ?elems (Suc ?n) ?n" if "heap (mq_elems q) ?n"
    using that ok at unfolding heap_except_def heap_def by (auto simp: less_Suc_eq)
  moreover have "msg_queue_push (Some q) (Some a) msg prio duration =
      Some (Some (q\<lparr>mq_elems := elems', mq_ptr := Suc ?n\<rparr>))"
    using e(1) ok assms(2) by (simp add: msg_queue_push_def mem_set_Some)
  moreover have "mq_ok (q\<lparr>mq_elems := elems', mq_ptr := Suc ?n\<rparr>)"
    using e(2,3) assms by (auto simp: mq_ok_def filled_def)
  ultimately show ?thesis using e(4,5) slots by (auto simp: bag_def)
qed

text \<open>The last slot holds the same pointer as the one that sinks, so it is never exchanged.\<close>

lemma switch_index_inside:
  assumes "switch_index elems ptr i = Some (Some j)" "elems ! i = elems ! ptr" "i < length elems"
  shows "j < ptr" "i < j \<or> i = 0"
proof -
  have j: "j = i * 2 \<or> j = i * 2 + 1" "j \<le> ptr" using switch_index_down [OF assms(1)] by auto
  then show "i < j \<or> i = 0" by auto
  have "j \<noteq> ptr"
  proof
    assume "j = ptr"
    then have "ptr = i * 2 \<or> ptr = i * 2 + 1" using j(1) by simp
    then show False
      using assms \<open>j = ptr\<close>
      by (elim disjE) (auto simp: switch_index_def bind_eq_Some_conv addr_at_def mem_get_def split: if_splits)
  qed
  then show "j < ptr" using j by simp
qed

lemma switch_index_Some: "ptr < length elems \<Longrightarrow> i \<le> ptr \<Longrightarrow> \<exists>r. switch_index elems ptr i = Some r"
  by (auto simp: switch_index_def addr_at_def mem_get_def)

lemma sift_down_bag:
  assumes "filled elems ptr" "ptr < length elems" "1 \<le> i" "i \<le> ptr" "elems ! i = elems ! ptr"
  shows "\<exists>elems'. sift_down ptr elems i = Some elems' \<and> filled elems' ptr \<and> length elems' = length elems \<and>
    mset (slots elems' ptr) = mset (slots elems ptr)"
  using assms
proof (induction ptr elems i rule: sift_down.induct)
  case (1 ptr elems i)
  note prems = 1(2-6)
  obtain r where r: "switch_index elems ptr i = Some r" using switch_index_Some prems by blast
  show ?case
  proof (cases r)
    case None
    then show ?thesis using r prems by (simp add: sift_down.simps)
  next
    case (Some j)
    let ?e = "elems[i := elems ! j, j := elems ! i]"
    have j: "j < ptr" "i < j" using switch_index_inside [of elems ptr i j] r Some prems by auto
    have get: "mem_get elems i = Some (elems ! i)" "mem_get elems j = Some (elems ! j)"
        "mem_set elems i (elems ! j) = Some (elems[i := elems ! j])"
        "mem_set (elems[i := elems ! j]) j (elems ! i) = Some ?e"
      using prems j by (simp_all add: mem_get_Some mem_set_Some)
    have "filled ?e ptr" by (rule filled_swap [OF prems(1)]) (use prems j in auto)
    moreover have "?e ! j = ?e ! ptr" using j prems by simp
    ultimately obtain elems' where "sift_down ptr ?e j = Some elems'" "filled elems' ptr" "length elems' = length ?e"
        "mset (slots elems' ptr) = mset (slots ?e ptr)"
      using 1(1) [OF _ r Some get] prems j by fastforce
    moreover have "sift_down ptr elems i = sift_down ptr ?e j"
      using r Some get prems by (simp add: sift_down.simps [of ptr elems i])
    moreover have "mset (slots ?e ptr) = mset (slots elems ptr)"
      by (rule slots_swap) (use prems j in auto)
    ultimately show ?thesis by auto
  qed
qed

lemma slots_move:
  assumes "2 \<le> n" "n \<le> length elems"
  shows "mset (slots (elems[1 := elems ! (n - 1)]) (n - 1)) = mset (slots elems n) - {#the (elems ! 1)#}"
proof (cases "n = 2")
  case True
  then show ?thesis by (simp add: slots_def upt_rec)
next
  case False
  then obtain m where "n = 3 + m" using assms(1) le_Suc_ex [of 3 n] by auto
  then have m: "n = Suc (Suc (Suc m))" by simp
  have n: "[Suc 0..<n] = Suc 0 # [Suc (Suc 0)..<n - 1] @ [n - 1]" "[Suc 0..<n - 1] = Suc 0 # [Suc (Suc 0)..<n - 1]"
    unfolding m by (simp_all add: upt_conv_Cons)
  show ?thesis
    using assms unfolding slots_def One_nat_def n [unfolded One_nat_def] by (auto intro!: image_mset_cong)
qed


lemma pull_takes:
  assumes "mq_ok q" "mq_ptr q \<noteq> 1"
  defines "e \<equiv> the (mq_elems q ! 1)"
  shows "e \<in># bag q" and "\<exists>q'. msg_queue_pull (Some q) = Some (qe_msg e, Some q') \<and> mq_ok q' \<and> mq_size q' = mq_size q \<and>
    bag q' = bag q - {#e#} + (if qe_duration e - 1 > 0 then {#e\<lparr>qe_duration := qe_duration e - 1\<rparr>#} else {#})"
proof -
  let ?n = "mq_ptr q" and ?f = "e\<lparr>qe_duration := qe_duration e - 1\<rparr>"
  have n: "2 \<le> ?n" "?n \<le> length (mq_elems q)" using assms(1,2) by (auto simp: mq_ok_def)
  have filled: "filled (mq_elems q) ?n" by (rule ok_filled [OF assms(1)])
  show e: "e \<in># bag q" using n by (auto simp: bag_def slots_def e_def intro!: image_eqI [of _ _ "Suc 0"])
  have front: "elem_at (mq_elems q) 1 = Some e" using filled_at [OF filled, of 1] n by (simp add: e_def)
  have set: "mem_set (mq_elems q) 1 (Some ?f) = Some ((mq_elems q)[1 := Some ?f])" using n by (simp add: mem_set_Some)
  show "\<exists>q'. msg_queue_pull (Some q) = Some (qe_msg e, Some q') \<and> mq_ok q' \<and> mq_size q' = mq_size q \<and>
    bag q' = bag q - {#e#} + (if qe_duration e - 1 > 0 then {#?f#} else {#})"
  proof (cases "qe_duration e - 1 > 0")
    case True
    let ?q = "q\<lparr>mq_elems := (mq_elems q)[1 := Some ?f]\<rparr>"
    have "[Suc 0..<?n] = Suc 0 # [Suc (Suc 0)..<?n]" using n by (simp add: upt_conv_Cons)
    then have "bag ?q = bag q - {#e#} + {#?f#}"
      using n unfolding bag_def slots_def e_def One_nat_def by (auto intro!: image_mset_cong)
    moreover have "mq_ok ?q" using assms(1) by (auto simp: mq_ok_def nth_list_update)
    moreover have "msg_queue_pull (Some q) = Some (qe_msg e, Some ?q)"
      using True front set assms(2) by (simp add: msg_queue_pull_def)
    ultimately show ?thesis using True by auto
  next
    case False
    let ?e1 = "(mq_elems q)[1 := Some ?f, 1 := (mq_elems q)[1 := Some ?f] ! (?n - 1)]"
    have last: "mem_get ((mq_elems q)[1 := Some ?f]) (?n - 1) = Some ((mq_elems q)[1 := Some ?f] ! (?n - 1))"
      using n by (simp add: mem_get_Some)
    have set1: "mem_set ((mq_elems q)[1 := Some ?f]) 1 ((mq_elems q)[1 := Some ?f] ! (?n - 1)) = Some ?e1"
      using n by (simp add: mem_set_Some)
    have filled1: "filled ?e1 (?n - 1)" and same: "?e1 ! 1 = ?e1 ! (?n - 1)"
      using filled n by (auto simp: filled_def nth_list_update)
    have len: "?n - 1 < length ?e1" "1 \<le> ?n - 1" using n by simp_all
    obtain elems' where e': "sift_down (?n - 1) ?e1 1 = Some elems'" "filled elems' (?n - 1)"
        "length elems' = length ?e1" "mset (slots elems' (?n - 1)) = mset (slots ?e1 (?n - 1))"
      using sift_down_bag [OF filled1 len(1) order_refl len(2) same] by blast
    let ?q = "q\<lparr>mq_elems := elems', mq_ptr := ?n - 1, mq_tmp_msg := qe_msg e\<rparr>"
    have "slots ?e1 (?n - 1) = slots ((mq_elems q)[1 := mq_elems q ! (?n - 1)]) (?n - 1)"
      using n by (auto simp: slots_def nth_list_update)
    then have "bag ?q = bag q - {#e#}"
      using e'(4) slots_move [of ?n "mq_elems q"] n by (simp add: bag_def e_def)
    moreover have "mq_ok ?q" using e'(2,3) assms(1) n by (auto simp: mq_ok_def filled_def)
    moreover have "msg_queue_pull (Some q) = Some (qe_msg e, Some ?q)"
      using False front set last set1 e'(1) assms(2) by (simp add: msg_queue_pull_def)
    ultimately show ?thesis using False by auto
  qed
qed

section \<open>Runs\<close>

datatype queue_op = Push nat "string option" u32 u32 | Pull

text \<open>The results of the pulls, and the queue after a run.\<close>

fun run_queue :: "msg_queue \<Rightarrow> queue_op list \<Rightarrow> (string option list \<times> msg_queue) option" where
  "run_queue q [] = Some ([], q)"
| "run_queue q (Push a msg prio duration # ops) =
     Option.bind (msg_queue_push (Some q) (Some a) msg prio duration) (\<lambda>q. run_queue (the q) ops)"
| "run_queue q (Pull # ops) =
     Option.bind (msg_queue_pull (Some q)) (\<lambda>(msg, q).
       Option.bind (run_queue (the q) ops) (\<lambda>(msgs, q). Some (msg # msgs, q)))"

text \<open>The same for a bag of at most \<open>n\<close> messages: a pull shows any one of them, which goes when it has been
  shown as often as its duration says.\<close>

inductive bag_run :: "nat \<Rightarrow> queue_elem multiset \<Rightarrow> queue_op list \<Rightarrow> string option list \<Rightarrow> queue_elem multiset \<Rightarrow> bool" for n where
  stop: "bag_run n b [] [] b"
| full: "size b = n \<Longrightarrow> bag_run n b ops out b' \<Longrightarrow> bag_run n b (Push a msg prio d # ops) out b'"
| push: "size b < n \<Longrightarrow>
    bag_run n (add_mset \<lparr>qe_addr = a, qe_duration = d, qe_prio = prio, qe_msg = msg\<rparr> b) ops out b' \<Longrightarrow>
    bag_run n b (Push a msg prio d # ops) out b'"
| empty: "bag_run n {#} ops out b' \<Longrightarrow> bag_run n {#} (Pull # ops) (None # out) b'"
| shown: "e \<in># b \<Longrightarrow> qe_duration e \<noteq> 1 \<Longrightarrow>
    bag_run n (add_mset (e\<lparr>qe_duration := qe_duration e - 1\<rparr>) (b - {#e#})) ops out b' \<Longrightarrow>
    bag_run n b (Pull # ops) (qe_msg e # out) b'"
| gone: "e \<in># b \<Longrightarrow> qe_duration e = 1 \<Longrightarrow> bag_run n (b - {#e#}) ops out b' \<Longrightarrow>
    bag_run n b (Pull # ops) (qe_msg e # out) b'"

lemma run_queue_bag: "mq_ok q \<Longrightarrow> \<exists>out q'. run_queue q ops = Some (out, q') \<and> bag_run (mq_size q - 1) (bag q) ops out (bag q')"
proof (induction ops arbitrary: q)
  case Nil
  then show ?case by (auto intro: bag_run.stop)
next
  case (Cons op ops)
  show ?case
  proof (cases op)
    case (Push a msg prio d)
    show ?thesis
    proof (cases "mq_ptr q < mq_size q")
      case True
      obtain q' where q': "msg_queue_push (Some q) (Some a) msg prio d = Some (Some q')" "mq_ok q'" "mq_size q' = mq_size q"
          "bag q' = add_mset \<lparr>qe_addr = a, qe_duration = d, qe_prio = prio, qe_msg = msg\<rparr> (bag q)"
        using push_stores [OF Cons.prems True] by blast
      moreover obtain out q'' where "run_queue q' ops = Some (out, q'')" "bag_run (mq_size q' - 1) (bag q') ops out (bag q'')"
        using Cons.IH [OF q'(2)] by blast
      moreover have "size (bag q) < mq_size q - 1" using size_bag [OF Cons.prems] Cons.prems True by (auto simp: mq_ok_def intro: diff_less_mono)
      ultimately show ?thesis using Push by (auto intro: bag_run.push)
    next
      case False
      then have "size (bag q) = mq_size q - 1" using size_bag [OF Cons.prems] Cons.prems by (auto simp: mq_ok_def)
      moreover have "msg_queue_push (Some q) (Some a) msg prio d = Some (Some q)" using False by (simp add: msg_queue_push_def)
      moreover obtain out q'' where "run_queue q ops = Some (out, q'')" "bag_run (mq_size q - 1) (bag q) ops out (bag q'')"
        using Cons.IH [OF Cons.prems] by blast
      ultimately show ?thesis using Push by (auto intro: bag_run.full)
    qed
  next
    case Pull
    show ?thesis
    proof (cases "mq_ptr q = 1")
      case True
      then have "bag q = {#}" "msg_queue_pull (Some q) = Some (None, Some q)"
        by (simp_all add: bag_def slots_def msg_queue_pull_def)
      then show ?thesis using Cons.IH [OF Cons.prems] Pull by (auto intro: bag_run.empty)
    next
      case False
      let ?e = "the (mq_elems q ! 1)"
      obtain q' where q': "msg_queue_pull (Some q) = Some (qe_msg ?e, Some q')" "mq_ok q'" "mq_size q' = mq_size q"
          "bag q' = bag q - {#?e#} + (if qe_duration ?e - 1 > 0 then {#?e\<lparr>qe_duration := qe_duration ?e - 1\<rparr>#} else {#})"
        using pull_takes(2) [OF Cons.prems False] by blast
      obtain out q'' where "run_queue q' ops = Some (out, q'')" "bag_run (mq_size q' - 1) (bag q') ops out (bag q'')"
        using Cons.IH [OF q'(2)] by blast
      moreover have "qe_duration ?e - 1 > 0 \<longleftrightarrow> qe_duration ?e \<noteq> 1" by (simp add: word_greater_zero_iff)
      ultimately show ?thesis
        using Pull q' pull_takes(1) [OF Cons.prems False] by (auto intro: bag_run.shown bag_run.gone split: if_splits)
    qed
  qed
qed

lemma new_queue: "msg_queue_new True True n = Some q \<Longrightarrow> mq_ok q \<and> bag q = {#} \<and> mq_size q = n + 1 \<and> heap (mq_elems q) (mq_ptr q)"
  by (auto simp: msg_queue_new_def mq_ok_def bag_def slots_def heap_def)

text \<open>C33. Any run of pushes and pulls on a new queue stays inside its array, and is a run of a bag with room for as
  many messages: every pull of a queue that is not empty shows one of the messages in it, the message goes when
  its duration has run out, and no other message is lost.\<close>

theorem msg_queue_refines_bag:
  assumes "msg_queue_new True True n = Some q"
  shows "\<exists>out q'. run_queue q ops = Some (out, q') \<and> bag_run n {#} ops out (bag q')"
  using run_queue_bag [of q ops] new_queue [OF assms] by auto

theorem msg_queue_refines_bag_witness:
  "\<exists>out q'. run_queue \<lparr>mq_elems = replicate 3 None, mq_ptr = 1, mq_size = 3, mq_tmp_msg = None\<rparr>
      [Push 16 (Some ''a'') 1 1, Push 32 (Some ''b'') 2 2, Pull, Pull, Pull] = Some (out, q') \<and>
    bag_run 2 {#} [Push 16 (Some ''a'') 1 1, Push 32 (Some ''b'') 2 2, Pull, Pull, Pull] out (bag q')"
  by (rule msg_queue_refines_bag) (simp add: msg_queue_new_def numeral_eq_Suc)

lemma heap_front:
  assumes "heap elems n" "qe_prio e = prio_at elems 1" "1 < length elems"
  shows "heap (elems[1 := Some e]) n"
proof -
  have "prio_at (elems[1 := Some e]) i = prio_at elems i" for i
    using assms(2,3) by (cases "i = 1") (simp_all add: prio_at_def)
  then show ?thesis using assms(1) by (simp add: heap_def)
qed

text \<open>A front that stays only loses one from its duration.\<close>

lemma pull_front_stays:
  assumes "mq_ok q" "mq_ptr q \<noteq> 1" "qe_duration (the (mq_elems q ! 1)) \<noteq> 1"
    and "msg_queue_pull (Some q) = Some (m, Some q')"
  shows "the (mq_elems q' ! 1) = (the (mq_elems q ! 1))\<lparr>qe_duration := qe_duration (the (mq_elems q ! 1)) - 1\<rparr>"
    and "heap (mq_elems q) (mq_ptr q) \<Longrightarrow> heap (mq_elems q') (mq_ptr q')"
proof -
  let ?e = "the (mq_elems q ! 1)"
  have n: "1 < mq_ptr q" "mq_ptr q \<le> length (mq_elems q)" using assms(1,2) by (auto simp: mq_ok_def)
  then have "filled (mq_elems q) (mq_ptr q)" using assms(1) by (auto simp: mq_ok_def filled_def)
  then have "elem_at (mq_elems q) 1 = Some ?e" using filled_at [of "mq_elems q" "mq_ptr q" 1] n by simp
  moreover have "0 < qe_duration ?e - 1" using assms(3) by (simp add: word_greater_zero_iff)
  ultimately have q': "q' = q\<lparr>mq_elems := (mq_elems q)[1 := Some (?e\<lparr>qe_duration := qe_duration ?e - 1\<rparr>)]\<rparr>"
    using assms(2,4) n by (simp add: msg_queue_pull_def mem_set_Some)
  show "the (mq_elems q' ! 1) = ?e\<lparr>qe_duration := qe_duration ?e - 1\<rparr>" using q' n by simp
  show "heap (mq_elems q') (mq_ptr q')" if "heap (mq_elems q) (mq_ptr q)"
    using heap_front [OF that, of "?e\<lparr>qe_duration := qe_duration ?e - 1\<rparr>"] q' n by (simp add: prio_at_def)
qed

text \<open>C34. A push keeps the order of a heap on the priorities, and adds the message if there is room.  A pull from a heap
  shows a message of the highest priority and takes one from its duration: the message leaves the queue when that was
  the last time, and otherwise stays in it, and the queue stays a heap, so that the message is in front again.
  Nothing else in the queue changes.\<close>

theorem msg_queue_pull_highest:
  assumes "mq_ok q" "heap (mq_elems q) (mq_ptr q)"
  shows "(\<exists>q'. msg_queue_push (Some q) (Some a) msg prio d = Some (Some q') \<and> mq_ok q' \<and> heap (mq_elems q') (mq_ptr q') \<and>
      bag q' = (if size (bag q) < mq_size q - 1
        then add_mset \<lparr>qe_addr = a, qe_duration = d, qe_prio = prio, qe_msg = msg\<rparr> (bag q) else bag q)) \<and>
    (bag q \<noteq> {#} \<longrightarrow> (\<exists>e q'. msg_queue_pull (Some q) = Some (qe_msg e, Some q') \<and> mq_ok q' \<and>
      e \<in># bag q \<and> (\<forall>e' \<in># bag q. qe_prio e' \<le> qe_prio e) \<and>
      bag q' = bag q - {#e#} + (if qe_duration e = 1 then {#} else {#e\<lparr>qe_duration := qe_duration e - 1\<rparr>#}) \<and>
      (qe_duration e \<noteq> 1 \<longrightarrow> heap (mq_elems q') (mq_ptr q') \<and> the (mq_elems q' ! 1) = e\<lparr>qe_duration := qe_duration e - 1\<rparr>)))"
proof (intro conjI impI)
  show "\<exists>q'. msg_queue_push (Some q) (Some a) msg prio d = Some (Some q') \<and> mq_ok q' \<and> heap (mq_elems q') (mq_ptr q') \<and>
      bag q' = (if size (bag q) < mq_size q - 1
        then add_mset \<lparr>qe_addr = a, qe_duration = d, qe_prio = prio, qe_msg = msg\<rparr> (bag q) else bag q)"
  proof (cases "mq_ptr q < mq_size q")
    case True
    moreover have "size (bag q) < mq_size q - 1"
      using size_bag [OF assms(1)] assms(1) True by (auto simp: mq_ok_def intro: diff_less_mono)
    ultimately show ?thesis using push_stores [OF assms(1) True, of a msg prio d] assms(2) by auto
  next
    case False
    then have "msg_queue_push (Some q) (Some a) msg prio d = Some (Some q)" by (simp add: msg_queue_push_def)
    moreover have "\<not> size (bag q) < mq_size q - 1" using size_bag [OF assms(1)] assms(1) False by (auto simp: mq_ok_def)
    ultimately show ?thesis using assms by simp
  qed
next
  assume "bag q \<noteq> {#}"
  then have ptr: "mq_ptr q \<noteq> 1" by (auto simp: bag_def slots_def)
  let ?e = "the (mq_elems q ! 1)"
  obtain q' where q': "msg_queue_pull (Some q) = Some (qe_msg ?e, Some q')" "mq_ok q'"
      "bag q' = bag q - {#?e#} + (if qe_duration ?e - 1 > 0 then {#?e\<lparr>qe_duration := qe_duration ?e - 1\<rparr>#} else {#})"
    using pull_takes(2) [OF assms(1) ptr] by blast
  have "\<forall>e' \<in># bag q. qe_prio e' \<le> qe_prio ?e"
    using heap_root [OF assms(2)] by (auto simp: bag_def slots_def prio_at_def)
  moreover have "qe_duration ?e - 1 > 0 \<longleftrightarrow> qe_duration ?e \<noteq> 1" by (simp add: word_greater_zero_iff)
  moreover have "the (mq_elems q' ! 1) = ?e\<lparr>qe_duration := qe_duration ?e - 1\<rparr>" if "qe_duration ?e \<noteq> 1"
    using pull_front_stays(1) [OF assms(1) ptr that q'(1)] .
  ultimately show "\<exists>e q'. msg_queue_pull (Some q) = Some (qe_msg e, Some q') \<and> mq_ok q' \<and>
      e \<in># bag q \<and> (\<forall>e' \<in># bag q. qe_prio e' \<le> qe_prio e) \<and>
      bag q' = bag q - {#e#} + (if qe_duration e = 1 then {#} else {#e\<lparr>qe_duration := qe_duration e - 1\<rparr>#}) \<and>
      (qe_duration e \<noteq> 1 \<longrightarrow> heap (mq_elems q') (mq_ptr q') \<and> the (mq_elems q' ! 1) = e\<lparr>qe_duration := qe_duration e - 1\<rparr>)"
    using q' pull_takes(1) [OF assms(1) ptr] pull_front_stays(2) [OF assms(1) ptr _ q'(1) assms(2)]
    by (intro exI [of _ ?e] exI [of _ q']) auto
qed

theorem msg_queue_pull_highest_witness:
  "\<exists>q'. msg_queue_pull (Some \<lparr>mq_elems = [None, Some \<lparr>qe_addr = 16, qe_duration = 9, qe_prio = 3, qe_msg = Some ''a''\<rparr>,
        Some \<lparr>qe_addr = 32, qe_duration = 1, qe_prio = 2, qe_msg = Some ''b''\<rparr>], mq_ptr = 3, mq_size = 3, mq_tmp_msg = None\<rparr>) =
      Some (Some ''a'', Some q') \<and>
    bag q' = {#\<lparr>qe_addr = 16, qe_duration = 8, qe_prio = 3, qe_msg = Some ''a''\<rparr>,
      \<lparr>qe_addr = 32, qe_duration = 1, qe_prio = 2, qe_msg = Some ''b''\<rparr>#} \<and> heap (mq_elems q') (mq_ptr q')"
proof -
  let ?a = "\<lparr>qe_addr = 16, qe_duration = 9, qe_prio = 3, qe_msg = Some ''a''\<rparr>"
  let ?b = "\<lparr>qe_addr = 32, qe_duration = 1, qe_prio = 2, qe_msg = Some ''b''\<rparr>"
  let ?q = "\<lparr>mq_elems = [None, Some ?a, Some ?b], mq_ptr = 3, mq_size = 3, mq_tmp_msg = None\<rparr>"
  have bag: "bag ?q = {#?a, ?b#}" and ne: "bag ?q \<noteq> {#}" by (simp_all add: bag_def slots_def upt_rec)
  have ok: "mq_ok ?q" by (auto simp: mq_ok_def nth_Cons split: nat.splits)
  have heap: "heap (mq_elems ?q) (mq_ptr ?q)"
  proof -
    have "i = 2" if "2 \<le> i" "i < (3 :: nat)" for i using that by simp
    then show ?thesis unfolding heap_def by (auto simp: prio_at_def word_le_nat_alt)
  qed
  obtain e q' where q': "msg_queue_pull (Some ?q) = Some (qe_msg e, Some q')" "e \<in># bag ?q" "\<forall>e' \<in># bag ?q. qe_prio e' \<le> qe_prio e"
      "bag q' = bag ?q - {#e#} + (if qe_duration e = 1 then {#} else {#e\<lparr>qe_duration := qe_duration e - 1\<rparr>#})"
      "qe_duration e \<noteq> 1 \<longrightarrow> heap (mq_elems q') (mq_ptr q')"
    using msg_queue_pull_highest [OF ok heap, THEN conjunct2, THEN mp, OF ne] by blast
  have "e = ?a" using q'(2,3) by (auto simp: bag word_le_nat_alt)
  then show ?thesis using q'(1,4,5) by (auto simp: bag)
qed

text \<open>C35. Taking a message out of the queue is different: what comes after it does not depend on the priorities.  Of three
  messages pushed in the order of their priorities the first is shown once and leaves, and then the one of the other two
  that lies at the higher address is in front, because the loop that restores the order compares the pointers.\<close>

theorem msg_queue_pull_loses_order:
  assumes "msg_queue_new True True n = Some q" "3 \<le> n" "p2 \<le> p1" "p3 \<le> p1"
  shows "\<exists>q'. run_queue q [Push a1 m1 p1 1, Push a2 m2 p2 d2, Push a3 m3 p3 d3, Pull, Pull] =
    Some ([m1, if a3 < a2 then m2 else m3], q')"
proof -
  obtain k where "n = k + 3" using assms(2) by (metis add.commute le_Suc_ex)
  then have q: "q = \<lparr>mq_elems = None # None # None # None # replicate k None, mq_ptr = 1, mq_size = k + 4, mq_tmp_msg = None\<rparr>"
    using assms(1) by (auto simp: msg_queue_new_def numeral_eq_Suc)
  show ?thesis
    using assms(3,4) unfolding q
    by (simp add: msg_queue_push_def msg_queue_pull_def mem_set_def mem_get_def elem_at_def addr_at_def switch_index_def
        sift_up.simps sift_down.simps Let_def)
qed

theorem msg_queue_pull_loses_order_witness:
  "\<exists>q'. run_queue \<lparr>mq_elems = [None, None, None, None], mq_ptr = 1, mq_size = 4, mq_tmp_msg = None\<rparr>
      [Push 48 (Some ''three'') 3 1, Push 32 (Some ''two'') 2 1, Push 64 (Some ''one'') 1 1, Pull, Pull] =
    Some ([Some ''three'', Some ''one''], q')"
proof -
  let ?q = "\<lparr>mq_elems = [None, None, None, None], mq_ptr = 1, mq_size = 4, mq_tmp_msg = None\<rparr> :: msg_queue"
  have "msg_queue_new True True 3 = Some ?q" by (simp add: msg_queue_new_def numeral_eq_Suc)
  from msg_queue_pull_loses_order [OF this order_refl, of 2 3 1 48 "Some ''three''" 32 "Some ''two''" 1 64 "Some ''one''" 1]
  show ?thesis by (simp add: word_le_nat_alt)
qed

end
