(* ===== verification/Netplay_Delta.thy ===== *)
theory Netplay_Delta
  imports Crc32 Netplay_Buf
begin

text \<open>
  The state of netplay (\<^verbatim>\<open>network/netplay/netplay_private.h\<close>) and its frames (\<^verbatim>\<open>netplay_delta.c\<close>).

  A frame of the ring \<^verbatim>\<open>buffer\<close> holds the state of the core before the frame and, for every device, three lists
  of inputs: what was read, what was guessed, and what the core is given.  A linked list of inputs is a list;
  a pointer into it is an index.  Arrays of a constant size, which the code only indexes with loop variables
  and client numbers below the size, are functions; \<^verbatim>\<open>buffer\<close> and the words of an input are lists with
  checked access.  A bit of a client number that does not fit into 32 bits is undefined in C and \<^term>\<open>None\<close>.
  The data of a socket buffer that is \<^verbatim>\<open>NULL\<close> is \<^term>\<open>None\<close>.
  What netplay tells other parts of the program is collected in \<open>np_out\<close>, and \<open>np_clock\<close> is the clock.
\<close>

unbundle bit_operations_syntax

section \<open>Constants\<close>

definition MAX_INPUT_DEVICES :: nat where "MAX_INPUT_DEVICES = 16"
definition MAX_CLIENTS :: nat where "MAX_CLIENTS = 32"
definition NETPLAY_FRAME_RUN_TIME_WINDOW :: nat where "NETPLAY_FRAME_RUN_TIME_WINDOW = 120"

definition RETRO_DEVICE_MASK :: u32 where "RETRO_DEVICE_MASK = push_bit 8 1 - 1"
definition RETRO_DEVICE_NONE :: u32 where "RETRO_DEVICE_NONE = 0"
definition RETRO_DEVICE_JOYPAD :: u32 where "RETRO_DEVICE_JOYPAD = 1"
definition RETRO_DEVICE_MOUSE :: u32 where "RETRO_DEVICE_MOUSE = 2"
definition RETRO_DEVICE_KEYBOARD :: u32 where "RETRO_DEVICE_KEYBOARD = 3"
definition RETRO_DEVICE_LIGHTGUN :: u32 where "RETRO_DEVICE_LIGHTGUN = 4"
definition RETRO_DEVICE_ANALOG :: u32 where "RETRO_DEVICE_ANALOG = 5"

lemmas device_defs = RETRO_DEVICE_NONE_def RETRO_DEVICE_JOYPAD_def RETRO_DEVICE_MOUSE_def
  RETRO_DEVICE_KEYBOARD_def RETRO_DEVICE_LIGHTGUN_def RETRO_DEVICE_ANALOG_def

definition NETPLAY_SHARE_DIGITAL_BITS :: u8 where "NETPLAY_SHARE_DIGITAL_BITS = 0x1c"
definition NETPLAY_SHARE_DIGITAL_XOR :: u8 where "NETPLAY_SHARE_DIGITAL_XOR = 0x8"
definition NETPLAY_SHARE_DIGITAL_VOTE :: u8 where "NETPLAY_SHARE_DIGITAL_VOTE = 0xc"
definition NETPLAY_SHARE_ANALOG_BITS :: u8 where "NETPLAY_SHARE_ANALOG_BITS = 0xe0"
definition NETPLAY_SHARE_ANALOG_AVERAGE :: u8 where "NETPLAY_SHARE_ANALOG_AVERAGE = 0x40"

definition NETPLAY_QUIRK_NO_SAVESTATES :: u64 where "NETPLAY_QUIRK_NO_SAVESTATES = push_bit 0 1"
definition NETPLAY_QUIRK_NO_TRANSMISSION :: u64 where "NETPLAY_QUIRK_NO_TRANSMISSION = push_bit 1 1"
definition NETPLAY_QUIRK_INITIALIZATION :: u64 where "NETPLAY_QUIRK_INITIALIZATION = push_bit 2 1"

section \<open>Modes\<close>

datatype netplay_connection_mode =
    NETPLAY_CONNECTION_NONE | NETPLAY_CONNECTION_DELAYED_DISCONNECT | NETPLAY_CONNECTION_INIT
  | NETPLAY_CONNECTION_PRE_NICK | NETPLAY_CONNECTION_PRE_PASSWORD | NETPLAY_CONNECTION_PRE_INFO
  | NETPLAY_CONNECTION_PRE_SYNC | NETPLAY_CONNECTION_CONNECTED | NETPLAY_CONNECTION_SPECTATING
  | NETPLAY_CONNECTION_SLAVE | NETPLAY_CONNECTION_PLAYING

text \<open>The code compares modes as the numbers that C gives them.\<close>

fun mode_value :: "netplay_connection_mode \<Rightarrow> nat" where
  "mode_value NETPLAY_CONNECTION_NONE = 0"
| "mode_value NETPLAY_CONNECTION_DELAYED_DISCONNECT = 1"
| "mode_value NETPLAY_CONNECTION_INIT = 2"
| "mode_value NETPLAY_CONNECTION_PRE_NICK = 3"
| "mode_value NETPLAY_CONNECTION_PRE_PASSWORD = 4"
| "mode_value NETPLAY_CONNECTION_PRE_INFO = 5"
| "mode_value NETPLAY_CONNECTION_PRE_SYNC = 6"
| "mode_value NETPLAY_CONNECTION_CONNECTED = 7"
| "mode_value NETPLAY_CONNECTION_SPECTATING = 8"
| "mode_value NETPLAY_CONNECTION_SLAVE = 9"
| "mode_value NETPLAY_CONNECTION_PLAYING = 10"

lemma mode_value_inject: "mode_value a = mode_value b \<Longrightarrow> a = b"
  by (cases a; cases b) simp_all

instantiation netplay_connection_mode :: linorder
begin

definition less_eq_netplay_connection_mode where "a \<le> b \<longleftrightarrow> mode_value a \<le> mode_value b"
definition less_netplay_connection_mode where "a < b \<longleftrightarrow> mode_value a < mode_value b"

instance
  by standard (auto simp: less_eq_netplay_connection_mode_def less_netplay_connection_mode_def mode_value_inject)

end

lemmas mode_order = less_eq_netplay_connection_mode_def less_netplay_connection_mode_def

datatype netplay_stall_reason =
    NETPLAY_STALL_NONE | NETPLAY_STALL_RUNNING_FAST | NETPLAY_STALL_SPECTATOR_WAIT
  | NETPLAY_STALL_INPUT_LATENCY | NETPLAY_STALL_SERVER_REQUESTED | NETPLAY_STALL_NO_CONNECTION

section \<open>State\<close>

record netplay_input_state =
  is_used :: bool
  is_client_num :: u32
  is_size :: u32
  is_data :: "u32 list"

record delta_frame =
  df_used :: bool
  df_frame :: u32
  df_state :: bytes
  df_crc :: u32
  df_resolved_input :: "nat \<Rightarrow> netplay_input_state list"
  df_real_input :: "nat \<Rightarrow> netplay_input_state list"
  df_simlated_input :: "nat \<Rightarrow> netplay_input_state list"
  df_have_local :: bool
  df_have_real :: "nat \<Rightarrow> bool"

record netplay_connection =
  nc_active :: bool
  nc_mode :: netplay_connection_mode
  nc_send_packet_buffer :: "socket_buffer option"
  nc_recv_packet_buffer :: "socket_buffer option"
  nc_stall_frame :: u32

datatype netplay_effect =
    CmdCrc u32 u32
  | CmdRequestSavestate
  | CmdStall nat u32
  | SendSavestate u32 bytes
  | ReportCrcMismatch
  | ReportLoadFailed
  | UnsetNonblockState
  | SetNonblockState

record netplay =
  np_is_server :: bool
  np_self_client_num :: u32
  np_self_mode :: netplay_connection_mode
  np_connections :: "netplay_connection list"
  np_connected_players :: u32
  np_connected_slaves :: u32
  np_device_clients :: "nat \<Rightarrow> u32"
  np_device_share_modes :: "nat \<Rightarrow> u8"
  np_desync :: u32
  np_config_devices :: "nat \<Rightarrow> u32"
  np_have_updown_device :: bool
  np_buffer :: "delta_frame list"
  np_buffer_size :: nat
  np_zbuffer_size :: nat
  np_packet_buffer_size :: nat
  np_self_ptr :: nat
  np_self_frame_count :: u32
  np_run_ptr :: nat
  np_run_frame_count :: u32
  np_other_ptr :: nat
  np_other_frame_count :: u32
  np_unread_ptr :: nat
  np_unread_frame_count :: u32
  np_read_ptr :: "nat \<Rightarrow> nat"
  np_read_frame_count :: "nat \<Rightarrow> u32"
  np_server_ptr :: nat
  np_server_frame_count :: u32
  np_replay_ptr :: nat
  np_replay_frame_count :: u32
  np_state_size :: nat
  np_is_replay :: bool
  np_force_rewind :: bool
  np_force_reset :: bool
  np_force_send_savestate :: bool
  np_remote_paused :: bool
  np_stateless_mode :: bool
  np_quirks :: u64
  np_frame_run_time :: "nat \<Rightarrow> int"
  np_frame_run_time_ptr :: nat
  np_frame_run_time_sum :: int
  np_frame_run_time_avg :: int
  np_input_latency_frames :: int
  np_stall :: netplay_stall_reason
  np_catch_up :: bool
  np_catch_up_time :: int
  np_catch_up_behind :: u32
  np_check_frames :: int
  np_crc_validity_checked :: bool
  np_crcs_valid :: bool
  np_out :: "netplay_effect list"
  np_clock :: "nat \<Rightarrow> int"
  np_ticks :: nat

definition PREV_PTR :: "netplay \<Rightarrow> nat \<Rightarrow> nat" where
  "PREV_PTR np x = (if x = 0 then np_buffer_size np - 1 else x - 1)"

definition NEXT_PTR :: "netplay \<Rightarrow> nat \<Rightarrow> nat" where
  "NEXT_PTR np x = (x + 1) mod np_buffer_size np"

text \<open>\<^verbatim>\<open>1 << n\<close>\<close>

definition shift1 :: "u32 \<Rightarrow> u32 option" where
  "shift1 n = (if unat n < 32 then Some (push_bit (unat n) 1) else None)"

text \<open>A loop over \<open>xs\<close> whose body may be undefined.\<close>

fun for_each :: "'a list \<Rightarrow> ('a \<Rightarrow> 's \<Rightarrow> 's option) \<Rightarrow> 's \<Rightarrow> 's option" where
  "for_each [] f s = Some s"
| "for_each (x # xs) f s = Option.bind (f x s) (for_each xs f)"

section \<open>Frames\<close>

definition clear_input :: "netplay_input_state list \<Rightarrow> netplay_input_state list" where
  "clear_input l = map (\<lambda>s. s\<lparr>is_used := False\<rparr>) l"

definition netplay_delta_frame_ready :: "netplay \<Rightarrow> delta_frame \<Rightarrow> u32 \<Rightarrow> bool \<times> delta_frame" where
  "netplay_delta_frame_ready np delta frame =
     (if df_used delta \<and> df_frame delta = frame then (True, delta)
      else if df_used delta \<and> np_other_frame_count np \<le> df_frame delta then (False, delta)
      else (True, delta\<lparr>df_used := True, df_frame := frame, df_crc := 0,
              df_resolved_input := (\<lambda>d. if d < MAX_INPUT_DEVICES then clear_input (df_resolved_input delta d) else df_resolved_input delta d),
              df_real_input := (\<lambda>d. if d < MAX_INPUT_DEVICES then clear_input (df_real_input delta d) else df_real_input delta d),
              df_simlated_input := (\<lambda>d. if d < MAX_INPUT_DEVICES then clear_input (df_simlated_input delta d) else df_simlated_input delta d),
              df_have_local := False,
              df_have_real := (\<lambda>c. if c < MAX_CLIENTS then False else df_have_real delta c)\<rparr>))"

definition netplay_delta_frame_crc :: "netplay \<Rightarrow> delta_frame \<Rightarrow> u32 option" where
  "netplay_delta_frame_crc np delta =
     (if np_state_size np = 0 then Some 0
      else do { s \<leftarrow> mem_read (df_state delta) 0 (np_state_size np); Some (encoding_crc32 0 s) })"

text \<open>The list after the call, and the index of the input found or made in it.\<close>

fun netplay_input_state_for ::
  "(nat \<Rightarrow> bool) \<Rightarrow> netplay_input_state list \<Rightarrow> u32 \<Rightarrow> u32 \<Rightarrow> bool \<Rightarrow> bool \<Rightarrow> netplay_input_state list \<times> nat option" where
  "netplay_input_state_for alloc [] client_num sz must_create must_not_create =
     (if must_not_create \<or> \<not> alloc (unat sz) then ([], None)
      else ([\<lparr>is_used = True, is_client_num = client_num, is_size = sz, is_data = replicate (unat sz) 0\<rparr>], Some 0))"
| "netplay_input_state_for alloc (r # l) client_num sz must_create must_not_create =
     (if \<not> is_used r \<and> \<not> must_not_create \<and> is_size r = sz
      then (r\<lparr>is_client_num := client_num, is_used := True, is_data := replicate (unat sz) 0\<rparr> # l, Some 0)
      else if is_used r \<and> is_client_num r = client_num
      then (r # l, if \<not> must_create \<and> is_size r = sz then Some 0 else None)
      else (case netplay_input_state_for alloc l client_num sz must_create must_not_create of
              (l, i) \<Rightarrow> (r # l, map_option Suc i)))"

text \<open>With \<^verbatim>\<open>must_not_create\<close> nothing changes: this is a lookup.\<close>

definition input_lookup :: "netplay_input_state list \<Rightarrow> u32 \<Rightarrow> u32 \<Rightarrow> netplay_input_state option" where
  "input_lookup l client_num sz =
     (case netplay_input_state_for (\<lambda>_. False) l client_num sz False True of
        (l, None) \<Rightarrow> None | (l, Some i) \<Rightarrow> Some (l ! i))"

definition netplay_expected_input_size :: "netplay \<Rightarrow> u32 \<Rightarrow> u32" where
  "netplay_expected_input_size np devices =
     sum_list (map (\<lambda>device.
       if \<not> bit devices device then 0
       else (let t = np_config_devices np device AND RETRO_DEVICE_MASK in
             if t = RETRO_DEVICE_JOYPAD then 1
             else if t = RETRO_DEVICE_MOUSE then 2
             else if t = RETRO_DEVICE_KEYBOARD then 5
             else if t = RETRO_DEVICE_LIGHTGUN then 2
             else if t = RETRO_DEVICE_ANALOG then 3
             else 0)) [0..<MAX_INPUT_DEVICES])"

end
