(* ===== verification/Netplay_Sync.thy ===== *)
theory Netplay_Sync
  imports Netplay_Delta Netplay_Keyboard "HOL-Library.Signed_Division"
begin

text \<open>
  Keeping the peers of netplay in step: \<^verbatim>\<open>network/netplay/netplay_sync.c\<close>, and how the core reads its input
  (\<^verbatim>\<open>netplay_input_state\<close> of \<^verbatim>\<open>netplay_frontend.c\<close>).

  The core is a record of functions: running a frame, given the callback by which it reads its input,
  serializing itself into so many bytes, loading a state, and resetting.  During a replay the core's calls of
  \<^verbatim>\<open>input_poll_net\<close>, and of the video and audio callbacks, do nothing, and outside of it netplay has been
  polled before, so running the core only changes the core.
\<close>

unbundle bit_operations_syntax

section \<open>Pointers\<close>

text \<open>The loop of \<^verbatim>\<open>netplay_update_unread_ptr\<close> over the clients: the pointer and the frame count so far.\<close>

definition earlier_read :: "netplay \<Rightarrow> nat \<Rightarrow> nat \<times> u32 \<Rightarrow> nat \<times> u32" where
  "earlier_read np client r =
     (if \<not> bit (np_connected_players np) client \<or> bit (np_connected_slaves np) client then r
      else if np_read_frame_count np client < snd r then (np_read_ptr np client, np_read_frame_count np client)
      else r)"

definition netplay_update_unread_ptr :: "netplay \<Rightarrow> netplay" where
  "netplay_update_unread_ptr np =
     (if np_is_server np \<and> np_connected_players np \<le> 1
      then np\<lparr>np_unread_ptr := np_self_ptr np, np_unread_frame_count := np_self_frame_count np\<rparr>
      else
        let (p, c) = fold (earlier_read np) [0..<MAX_CLIENTS] (0, - 1);
            (p, c) = (if \<not> np_is_server np \<and> np_server_frame_count np < c
                      then (np_server_ptr np, np_server_frame_count np) else (p, c))
        in if c \<noteq> - 1 then np\<lparr>np_unread_ptr := p, np_unread_frame_count := c\<rparr>
           else np\<lparr>np_unread_ptr := np_self_ptr np, np_unread_frame_count := np_self_frame_count np\<rparr>)"

section \<open>Merging the input of several clients\<close>

definition netplay_device_client_state :: "netplay \<Rightarrow> delta_frame \<Rightarrow> nat \<Rightarrow> nat \<Rightarrow> netplay_input_state option" where
  "netplay_device_client_state np simframe device client =
     (let dsize = netplay_expected_input_size np (push_bit device 1)
      in case input_lookup (df_real_input simframe device) (of_nat client) dsize of
           Some s \<Rightarrow> Some s
         | None \<Rightarrow>
             if np_read_frame_count np client > df_frame simframe then None
             else input_lookup (df_simlated_input simframe device) (of_nat client) dsize)"

text \<open>``Make sure all real clients are accounted for''.\<close>

fun real_clients :: "netplay_input_state list \<Rightarrow> u32 \<Rightarrow> u32 \<Rightarrow> u32 option" where
  "real_clients [] sz clients = Some clients"
| "real_clients (s # l) sz clients =
     (if \<not> is_used s \<or> is_size s \<noteq> sz then real_clients l sz clients
      else Option.bind (shift1 (is_client_num s)) (\<lambda>b. real_clients l sz (clients OR b)))"

text \<open>One client's votes; bit \<open>b\<close> of word \<open>w\<close> has its count in \<open>votes\<close> at \<open>32 * w + b\<close>.\<close>

definition count_bit :: "u32 \<Rightarrow> u32 list \<Rightarrow> nat \<Rightarrow> nat \<Rightarrow> u16 list \<Rightarrow> u16 list option" where
  "count_bit d data word b votes =
     (if \<not> bit d b then Some votes
      else do {
        x \<leftarrow> mem_get data word;
        if bit x b then do { v \<leftarrow> mem_get votes (32 * word + b); mem_set votes (32 * word + b) (v + 1) }
        else Some votes
      })"

definition count_word :: "u32 list \<Rightarrow> u32 list \<Rightarrow> nat \<Rightarrow> u16 list \<Rightarrow> u16 list option" where
  "count_word digital data word votes = do {
     d \<leftarrow> mem_get digital word;
     if d = 0 then Some votes else for_each [0..<32] (count_bit d data word) votes
   }"

definition vote_client ::
  "netplay \<Rightarrow> delta_frame \<Rightarrow> nat \<Rightarrow> u32 \<Rightarrow> u32 list \<Rightarrow> u32 \<Rightarrow> nat \<Rightarrow> u16 list \<times> u32 \<Rightarrow> (u16 list \<times> u32) option" where
  "vote_client np simframe device sz digital clients client r =
     (if \<not> bit clients client then Some r
      else (case netplay_device_client_state np simframe device client of
              None \<Rightarrow> Some r
            | Some s \<Rightarrow> do {
                votes \<leftarrow> for_each [0..<unat sz] (count_word digital (is_data s)) (fst r);
                Some (votes, snd r + 1)
              }))"

definition elect_word :: "u16 list \<Rightarrow> u32 \<Rightarrow> nat \<Rightarrow> u32 list \<Rightarrow> u32 list option" where
  "elect_word votes client_count word data =
     for_each [0..<32] (\<lambda>b data. do {
       v \<leftarrow> mem_get votes (32 * word + b);
       if ucast v > client_count then do { d \<leftarrow> mem_get data word; mem_set data word (d OR push_bit b 1) }
       else Some data
     }) data"

text \<open>One word of one client in the other modes.\<close>

definition combine_word :: "u8 \<Rightarrow> u32 list \<Rightarrow> u32 list \<Rightarrow> nat \<Rightarrow> u32 list \<Rightarrow> u32 list option" where
  "combine_word share_mode digital part word data = do {
     d \<leftarrow> mem_get digital word;
     if d = 0 then Some data
     else do {
       p \<leftarrow> mem_get part word;
       if d = - 1
       then do {
         r \<leftarrow> mem_get data word;
         mem_set data word (if share_mode = NETPLAY_SHARE_DIGITAL_XOR then r XOR p else r OR p)
       }
       else for_each [0..<32] (\<lambda>b data.
         if \<not> bit d b then Some data
         else do {
           r \<leftarrow> mem_get data word;
           mem_set data word (if share_mode = NETPLAY_SHARE_DIGITAL_XOR then r XOR (p AND push_bit b 1) else r OR (p AND push_bit b 1))
         }) data
     }
   }"

definition combine_client ::
  "netplay \<Rightarrow> delta_frame \<Rightarrow> nat \<Rightarrow> u32 \<Rightarrow> u8 \<Rightarrow> u32 list \<Rightarrow> u32 \<Rightarrow> nat \<Rightarrow> u32 list \<Rightarrow> u32 list option" where
  "combine_client np simframe device sz share_mode digital clients client data =
     (if \<not> bit clients client then Some data
      else (case netplay_device_client_state np simframe device client of
              None \<Rightarrow> Some data
            | Some s \<Rightarrow> for_each [0..<unat sz] (combine_word share_mode digital (is_data s)) data))"

text \<open>The words of \<open>resstate\<close> before and after; \<open>sz\<close> is its size.\<close>

definition netplay_merge_digital ::
  "netplay \<Rightarrow> u32 \<Rightarrow> u32 list \<Rightarrow> delta_frame \<Rightarrow> nat \<Rightarrow> u32 \<Rightarrow> u32 list \<Rightarrow> u32 list option" where
  "netplay_merge_digital np sz data simframe device clients digital = do {
     let share_mode = np_device_share_modes np device AND NETPLAY_SHARE_DIGITAL_BITS;
     clients \<leftarrow> real_clients (df_real_input simframe device) sz clients;
     if share_mode = NETPLAY_SHARE_DIGITAL_VOTE
     then do {
       (votes, client_count) \<leftarrow>
         for_each [0..<MAX_CLIENTS] (vote_client np simframe device sz digital clients) (replicate 96 0, 0);
       for_each [0..<unat sz] (elect_word votes (client_count div 2)) data
     }
     else for_each [0..<MAX_CLIENTS] (combine_client np simframe device sz share_mode digital clients) data
   }"

text \<open>The value so far, and the number of clients.\<close>

definition analog_client :: "netplay \<Rightarrow> delta_frame \<Rightarrow> nat \<Rightarrow> u8 \<Rightarrow> u32 \<Rightarrow> nat \<Rightarrow> nat \<Rightarrow> nat \<Rightarrow> int \<times> u32 \<Rightarrow> (int \<times> u32) option" where
  "analog_client np simframe device share_mode clients word b client r =
     (if \<not> bit clients client then Some r
      else (case netplay_device_client_state np simframe device client of
              None \<Rightarrow> Some r
            | Some s \<Rightarrow> do {
                d \<leftarrow> mem_get (is_data s) word;
                let new_value = sint (ucast (drop_bit b d AND 0xffff) :: u16);
                Some (if share_mode = NETPLAY_SHARE_ANALOG_AVERAGE then fst r + new_value
                      else if \<bar>new_value\<bar> > \<bar>fst r\<bar> \<or> (\<bar>new_value\<bar> = \<bar>fst r\<bar> \<and> new_value > fst r) then new_value
                      else fst r, snd r + 1)
              }))"

text \<open>The division is one of \<^verbatim>\<open>int32_t\<close> by \<^verbatim>\<open>uint32_t\<close>, so it is unsigned.\<close>

definition merge_analog_part ::
  "netplay \<Rightarrow> u32 \<Rightarrow> delta_frame \<Rightarrow> nat \<Rightarrow> u32 \<Rightarrow> nat \<Rightarrow> nat \<Rightarrow> u32 list \<Rightarrow> u32 list option" where
  "merge_analog_part np sz simframe device clients word b data = do {
     let share_mode = np_device_share_modes np device AND NETPLAY_SHARE_ANALOG_BITS;
     clients \<leftarrow> real_clients (df_real_input simframe device) sz clients;
     (val, client_count) \<leftarrow> for_each [0..<MAX_CLIENTS] (analog_client np simframe device share_mode clients word b) (0, 0);
     let val = (if share_mode = NETPLAY_SHARE_ANALOG_AVERAGE \<and> client_count > 0
                then (word_of_int val :: u32) div client_count else word_of_int val);
     d \<leftarrow> mem_get data word;
     mem_set data word (d OR push_bit b (ucast (ucast val :: u16)))
   }"

definition netplay_merge_analog ::
  "netplay \<Rightarrow> u32 \<Rightarrow> u32 list \<Rightarrow> delta_frame \<Rightarrow> nat \<Rightarrow> u32 \<Rightarrow> u32 \<Rightarrow> u32 list option" where
  "netplay_merge_analog np sz data simframe device clients dtype =
     (if dtype = RETRO_DEVICE_JOYPAD \<or> dtype = RETRO_DEVICE_KEYBOARD then Some data
      else do {
        data \<leftarrow> merge_analog_part np sz simframe device clients 1 0 data;
        data \<leftarrow> merge_analog_part np sz simframe device clients 1 16 data;
        if dtype = RETRO_DEVICE_ANALOG
        then do {
          data \<leftarrow> merge_analog_part np sz simframe device clients 2 0 data;
          merge_analog_part np sz simframe device clients 2 16 data
        }
        else Some data
      })"

section \<open>Resolving the input of a frame\<close>

definition set_frame :: "nat \<Rightarrow> delta_frame \<Rightarrow> netplay \<Rightarrow> netplay" where
  "set_frame ptr f np = np\<lparr>np_buffer := (np_buffer np)[ptr := f]\<rparr>"

definition set_simlated :: "nat \<Rightarrow> netplay_input_state list \<Rightarrow> delta_frame \<Rightarrow> delta_frame" where
  "set_simlated device l f = f\<lparr>df_simlated_input := (df_simlated_input f)(device := l)\<rparr>"

definition set_resolved :: "nat \<Rightarrow> netplay_input_state list \<Rightarrow> delta_frame \<Rightarrow> delta_frame" where
  "set_resolved device l f = f\<lparr>df_resolved_input := (df_resolved_input f)(device := l)\<rparr>"

text \<open>The buttons that are not copied in a resimulation: up, down, left and right.\<close>

definition keep_buttons :: u32 where
  "keep_buttons = push_bit 4 1 OR push_bit 5 1 OR push_bit 6 1 OR push_bit 7 1"

text \<open>The guess for a client that was not read: the words of \<^verbatim>\<open>simstate\<close> after copying from \<^verbatim>\<open>pstate\<close>.\<close>

definition copy_input :: "bool \<Rightarrow> u32 \<Rightarrow> u32 \<Rightarrow> u32 list \<Rightarrow> u32 list \<Rightarrow> u32 list option" where
  "copy_input resim dtype dsize data pdata =
     (if resim \<and> (dtype = RETRO_DEVICE_JOYPAD \<or> dtype = RETRO_DEVICE_ANALOG)
      then do {
        d \<leftarrow> mem_get data 0;
        p \<leftarrow> mem_get pdata 0;
        mem_set data 0 ((d AND keep_buttons) OR (p AND NOT keep_buttons))
      }
      else do { p \<leftarrow> mem_read pdata 0 (unat dsize); mem_write data 0 p })"

text \<open>One client of one device.  The state is netplay, the words of \<^verbatim>\<open>client_state\<close> and \<^verbatim>\<open>client_count\<close>.\<close>

definition resolve_client ::
  "(nat \<Rightarrow> bool) \<Rightarrow> nat \<Rightarrow> bool \<Rightarrow> nat \<Rightarrow> u32 \<Rightarrow> u32 \<Rightarrow> u32 \<Rightarrow> nat \<Rightarrow>
     netplay \<times> u32 list \<times> u32 \<Rightarrow> (netplay \<times> u32 list \<times> u32) option" where
  "resolve_client alloc sim_ptr resim device dtype dsize clients client = (\<lambda>(np, client_state, client_count).
     if \<not> bit clients client then Some (np, client_state, client_count)
     else do {
       simframe \<leftarrow> mem_get (np_buffer np) sim_ptr;
       (case input_lookup (df_real_input simframe device) (of_nat client) dsize of
          Some s \<Rightarrow> Some (np, is_data s, client_count + 1)
        | None \<Rightarrow>
            if np_read_frame_count np client > df_frame simframe then Some (np, client_state, client_count)
            else (case netplay_input_state_for alloc (df_simlated_input simframe device) (of_nat client) dsize False False of
                (l, None) \<Rightarrow> Some (set_frame sim_ptr (set_simlated device l simframe) np, client_state, client_count)
              | (l, Some i) \<Rightarrow> do {
                  let np = set_frame sim_ptr (set_simlated device l simframe) np;
                  pframe \<leftarrow> mem_get (np_buffer np) (PREV_PTR np (np_read_ptr np client));
                  (case input_lookup (df_real_input pframe device) (of_nat client) dsize of
                     None \<Rightarrow> Some (np, client_state, client_count)
                   | Some p \<Rightarrow> do {
                       data \<leftarrow> copy_input resim dtype dsize (is_data (l ! i)) (is_data p);
                       Some (set_frame sim_ptr (set_simlated device (l[i := (l ! i)\<lparr>is_data := data\<rparr>]) simframe) np,
                             data, client_count + 1)
                     })
                }))
     })"

definition digital_common :: "u32 list" where "digital_common = [- 1, 0, 0]"
definition digital_keyboard :: "u32 list" where "digital_keyboard = [- 1, - 1, - 1, - 1, - 1]"

text \<open>The part of the loop body that writes the resolved input: netplay and whether it changed.\<close>

definition resolve_store ::
  "(nat \<Rightarrow> bool) \<Rightarrow> nat \<Rightarrow> nat \<Rightarrow> u32 \<Rightarrow> u32 \<Rightarrow> u32 \<Rightarrow> u32 list \<Rightarrow> u32 \<Rightarrow> netplay \<times> bool \<Rightarrow> (netplay \<times> bool) option" where
  "resolve_store alloc sim_ptr device dtype dsize clients client_state client_count = (\<lambda>(np, ret). do {
     simframe \<leftarrow> mem_get (np_buffer np) sim_ptr;
     let l = dropWhile (\<lambda>r. is_size r \<noteq> dsize \<or> is_client_num r \<noteq> 0) (df_resolved_input simframe device);
     (case netplay_input_state_for alloc l 0 dsize False False of
        (l, None) \<Rightarrow> Some (set_frame sim_ptr (set_resolved device l simframe) np, ret)
      | (l, Some i) \<Rightarrow>
          let old = is_data (l ! i);
              store = (\<lambda>l data. set_frame sim_ptr (set_resolved device (l[i := (l ! i)\<lparr>is_data := data\<rparr>]) simframe) np)
          in if client_count = 1
             then do {
               new \<leftarrow> mem_read client_state 0 (unat dsize);
               cur \<leftarrow> mem_read old 0 (unat dsize);
               data \<leftarrow> mem_write old 0 new;
               Some (store l data, ret \<or> cur \<noteq> new)
             }
             else if client_count = 0
             then do {
               cur \<leftarrow> mem_read old 0 (unat dsize);
               data \<leftarrow> mem_write old 0 (replicate (unat dsize) 0);
               Some (store l data, ret \<or> (\<exists>w \<in> set cur. w \<noteq> 0))
             }
             else (case netplay_input_state_for alloc l 1 dsize False False of
                     (l, None) \<Rightarrow> Some (set_frame sim_ptr (set_resolved device l simframe) np, ret)
                   | (l, Some j) \<Rightarrow> do {
                       cur \<leftarrow> mem_read old 0 (unat dsize);
                       olddata \<leftarrow> mem_write (is_data (l ! j)) 0 cur;
                       let l = l[j := (l ! j)\<lparr>is_data := olddata\<rparr>];
                       data \<leftarrow> mem_write old 0 (replicate (unat dsize) 0);
                       data \<leftarrow> netplay_merge_digital np dsize data simframe device clients
                         (if dtype = RETRO_DEVICE_KEYBOARD then digital_keyboard else digital_common);
                       data \<leftarrow> netplay_merge_analog np dsize data simframe device clients dtype;
                       new \<leftarrow> mem_read data 0 (unat dsize);
                       Some (store l data, ret \<or> new \<noteq> cur)
                     }))
   })"

definition resolve_device :: "(nat \<Rightarrow> bool) \<Rightarrow> nat \<Rightarrow> bool \<Rightarrow> nat \<Rightarrow> netplay \<times> bool \<Rightarrow> (netplay \<times> bool) option" where
  "resolve_device alloc sim_ptr resim device = (\<lambda>(np, ret). do {
     let dtype = np_config_devices np device AND RETRO_DEVICE_MASK;
     let dsize = netplay_expected_input_size np (push_bit device 1);
     simframe \<leftarrow> mem_get (np_buffer np) sim_ptr;
     clients \<leftarrow> real_clients (df_real_input simframe device) dsize (np_device_clients np device);
     (np, client_state, client_count) \<leftarrow>
       for_each [0..<MAX_CLIENTS] (resolve_client alloc sim_ptr resim device dtype dsize clients) (np, [], 0);
     resolve_store alloc sim_ptr device dtype dsize clients client_state client_count (np, ret)
   })"

definition netplay_resolve_input :: "(nat \<Rightarrow> bool) \<Rightarrow> netplay \<Rightarrow> nat \<Rightarrow> bool \<Rightarrow> (netplay \<times> bool) option" where
  "netplay_resolve_input alloc np sim_ptr resim =
     for_each [0..<MAX_INPUT_DEVICES] (resolve_device alloc sim_ptr resim) (np, False)"

section \<open>Checksums of frames\<close>

text \<open>\<open>ptr\<close> is the index of the frame; \<^verbatim>\<open>abs\<close> of the smallest \<^verbatim>\<open>int\<close> is not considered.\<close>

definition netplay_handle_frame_hash :: "netplay \<Rightarrow> nat \<Rightarrow> netplay option" where
  "netplay_handle_frame_hash np ptr = do {
     delta \<leftarrow> mem_get (np_buffer np) ptr;
     if np_is_server np
     then (if np_check_frames np \<noteq> 0 \<and> df_frame delta mod word_of_int \<bar>np_check_frames np\<bar> = 0
           then do {
             crc \<leftarrow> netplay_delta_frame_crc np delta;
             Some ((set_frame ptr (delta\<lparr>df_crc := crc\<rparr>) np)\<lparr>np_out := np_out np @ [CmdCrc (df_frame delta) crc]\<rparr>)
           }
           else Some np)
     else if df_crc delta \<noteq> 0 \<and> np_crcs_valid np
     then do {
       local_crc \<leftarrow> netplay_delta_frame_crc np delta;
       Some (if local_crc \<noteq> df_crc delta
             then (if \<not> np_crc_validity_checked np then np\<lparr>np_crcs_valid := False\<rparr>
                   else if np_check_frames np < 0 then np\<lparr>np_out := np_out np @ [ReportCrcMismatch]\<rparr>
                   else np\<lparr>np_out := np_out np @ [CmdRequestSavestate]\<rparr>)
             else if \<not> np_crc_validity_checked np then np\<lparr>np_crc_validity_checked := True\<rparr>
             else np)
     }
     else Some np
   }"

section \<open>The core\<close>

text \<open>``If the port doesn't seem to correspond to the device, correct it.''\<close>

definition port_for :: "(nat \<Rightarrow> u32) \<Rightarrow> nat \<Rightarrow> u32 \<Rightarrow> nat option" where
  "port_for config_devices port device =
     (if device \<noteq> RETRO_DEVICE_JOYPAD \<and> config_devices port AND RETRO_DEVICE_MASK \<noteq> device
      then find (\<lambda>p. config_devices p AND RETRO_DEVICE_MASK = device) [0..<MAX_INPUT_DEVICES]
      else Some port)"

text \<open>The answer from an input of \<open>sz\<close> words.  Shifting by 32 and more is undefined: 256 asks for all buttons at once, which the
  shift does not allow for.  The numbers are \<^verbatim>\<open>unsigned\<close>, so that sums and products wrap around.\<close>

definition half_at :: "u32 \<Rightarrow> nat \<Rightarrow> u16 option" where
  "half_at w ident =
     (let k = ident * 16 mod 2 ^ 32 in if k < 32 then Some (ucast (drop_bit k w)) else None)"

definition button_at :: "u32 \<Rightarrow> nat \<Rightarrow> u16 option" where
  "button_at w ident = (if ident < 32 then Some (if bit w ident then 1 else 0) else None)"

definition device_answer :: "u32 \<Rightarrow> u32 list \<Rightarrow> u32 \<Rightarrow> nat \<Rightarrow> nat \<Rightarrow> u16 option" where
  "device_answer sz curr_input_state device idx ident =
     (if device = RETRO_DEVICE_JOYPAD
      then do { w \<leftarrow> mem_get curr_input_state 0; button_at w ident }
      else if device = RETRO_DEVICE_ANALOG
      then (if sz \<noteq> 3 then Some 0
            else do { w \<leftarrow> mem_get curr_input_state ((1 + idx) mod 2 ^ 32); half_at w ident })
      else if device = RETRO_DEVICE_MOUSE \<or> device = RETRO_DEVICE_LIGHTGUN
      then (if sz \<noteq> 2 then Some 0
            else if ident \<le> 1
            then do { w \<leftarrow> mem_get curr_input_state 1; half_at w ident }
            else do { w \<leftarrow> mem_get curr_input_state 0; button_at w ident })
      else if device = RETRO_DEVICE_KEYBOARD
      then (let key = netplay_key_hton key_mapping ident in
            if key = NETPLAY_KEY_UNKNOWN then Some 0
            else if key div 32 \<le> unat sz
            then do { w \<leftarrow> mem_get curr_input_state (key div 32);
                      Some (if bit w (key mod 32) then 1 else 0) }
            else Some 0)
      else Some 0)"

text \<open>The callback by which the core reads its input.\<close>

definition netplay_input_state_cb :: "netplay \<Rightarrow> nat \<Rightarrow> u32 \<Rightarrow> nat \<Rightarrow> nat \<Rightarrow> u16 option" where
  "netplay_input_state_cb np port device idx ident =
     (let ptr = (if np_is_replay np then np_replay_ptr np else np_run_ptr np)
      in if port \<ge> MAX_INPUT_DEVICES then Some 0
         else (case port_for (np_config_devices np) port device of
            None \<Rightarrow> Some 0
          | Some port \<Rightarrow> do {
              delta \<leftarrow> mem_get (np_buffer np) ptr;
              (case df_resolved_input delta port of
                 [] \<Rightarrow> Some 0
               | istate # _ \<Rightarrow>
                   if \<not> is_used istate \<or> is_size istate = 0 then Some 0
                   else device_answer (is_size istate) (is_data istate) device idx ident)
            }))"

type_synonym input_callback = "nat \<Rightarrow> u32 \<Rightarrow> nat \<Rightarrow> nat \<Rightarrow> u16 option"

record 'c core_ops =
  co_run :: "input_callback \<Rightarrow> 'c \<Rightarrow> 'c option"
  co_serialize_size :: "'c \<Rightarrow> nat"
  co_serialize :: "'c \<Rightarrow> nat \<Rightarrow> bytes option"
  co_unserialize :: "bytes \<Rightarrow> 'c \<Rightarrow> 'c option"
  co_reset :: "'c \<Rightarrow> 'c"

definition core_run :: "'c core_ops \<Rightarrow> netplay \<Rightarrow> 'c \<Rightarrow> 'c option" where
  "core_run ops np core = co_run ops (netplay_input_state_cb np) core"

text \<open>The bytes in \<^verbatim>\<open>serial_info.data\<close>, zeroed before, and the result of \<^verbatim>\<open>core_serialize\<close>.\<close>

definition core_serialize :: "'c core_ops \<Rightarrow> 'c \<Rightarrow> nat \<Rightarrow> bytes \<times> bool" where
  "core_serialize ops core n =
     (case co_serialize ops core n of None \<Rightarrow> (replicate n 0, False) | Some s \<Rightarrow> (s, True))"

section \<open>After a frame\<close>

text \<open>``Skip ahead if we predicted correctly'': netplay and \<^verbatim>\<open>cont\<close>.\<close>

partial_function (option) skip_ahead :: "(nat \<Rightarrow> bool) \<Rightarrow> netplay \<Rightarrow> (netplay \<times> bool) option" where
  "skip_ahead alloc np =
     (if np_other_frame_count np < np_unread_frame_count np \<and> np_other_frame_count np < np_run_frame_count np
      then Option.bind (netplay_resolve_input alloc np (np_other_ptr np) True) (\<lambda>(np, changed).
        if changed then Some (np, False)
        else Option.bind (netplay_handle_frame_hash np (np_other_ptr np)) (\<lambda>np.
          skip_ahead alloc (np\<lparr>np_other_ptr := NEXT_PTR np (np_other_ptr np),
                               np_other_frame_count := np_other_frame_count np + 1\<rparr>)))
      else Some (np, True))"

partial_function (option) find_replay :: "(nat \<Rightarrow> bool) \<Rightarrow> netplay \<Rightarrow> netplay option" where
  "find_replay alloc np =
     (if np_replay_frame_count np < np_run_frame_count np
      then Option.bind (netplay_resolve_input alloc np (np_replay_ptr np) True) (\<lambda>(np, changed).
        if changed then Some np
        else find_replay alloc (np\<lparr>np_replay_ptr := NEXT_PTR np (np_replay_ptr np),
                                   np_replay_frame_count := np_replay_frame_count np + 1\<rparr>))
      else Some np)"

definition get_time :: "netplay \<Rightarrow> int \<times> netplay" where
  "get_time np = (np_clock np (np_ticks np), np\<lparr>np_ticks := np_ticks np + 1\<rparr>)"

text \<open>The window of the last running times.\<close>

definition record_time :: "int \<Rightarrow> netplay \<Rightarrow> netplay" where
  "record_time tm np =
     (let s = np_frame_run_time_sum np - np_frame_run_time np (np_frame_run_time_ptr np);
          p = np_frame_run_time_ptr np + 1
      in np\<lparr>np_frame_run_time := (np_frame_run_time np)(np_frame_run_time_ptr np := tm),
            np_frame_run_time_sum := s + tm,
            np_frame_run_time_ptr := (if p \<ge> NETPLAY_FRAME_RUN_TIME_WINDOW then 0 else p)\<rparr>)"

text \<open>One round of the loop that replays.\<close>

definition replay_frame :: "(nat \<Rightarrow> bool) \<Rightarrow> 'c core_ops \<Rightarrow> netplay \<times> 'c \<Rightarrow> (netplay \<times> 'c) option" where
  "replay_frame alloc ops = (\<lambda>(np, core). do {
     let ptr = np_replay_ptr np;
     let (start, np) = get_time np;
     delta \<leftarrow> mem_get (np_buffer np) ptr;
     let np = set_frame ptr (delta\<lparr>df_state := fst (core_serialize ops core (np_state_size np))\<rparr>) np;
     np \<leftarrow> (if np_replay_frame_count np < np_unread_frame_count np then netplay_handle_frame_hash np ptr else Some np);
     (np, _) \<leftarrow> netplay_resolve_input alloc np ptr True;
     core \<leftarrow> core_run ops np core;
     let np = np\<lparr>np_replay_ptr := NEXT_PTR np (np_replay_ptr np), np_replay_frame_count := np_replay_frame_count np + 1\<rparr>;
     let (stop, np) = get_time np;
     Some (record_time (stop - start) np, core)
   })"

partial_function (option) replay_frames :: "(nat \<Rightarrow> bool) \<Rightarrow> 'c core_ops \<Rightarrow> netplay \<times> 'c \<Rightarrow> (netplay \<times> 'c) option" where
  "replay_frames alloc ops s =
     (if np_replay_frame_count (fst s) < np_run_frame_count (fst s)
      then Option.bind (replay_frame alloc ops s) (replay_frames alloc ops)
      else Some s)"


section \<open>Preparing for save states\<close>

text \<open>\<open>malloc\<close> gives the memory for a packet buffer.\<close>

fun init_packet_buffers ::
  "(nat \<Rightarrow> bytes option) \<Rightarrow> nat \<Rightarrow> netplay_connection list \<Rightarrow> (netplay_connection list \<times> bool) option" where
  "init_packet_buffers malloc n [] = Some ([], True)"
| "init_packet_buffers malloc n (c # cs) =
     (let go_on = (\<lambda>c. Option.bind (init_packet_buffers malloc n cs) (\<lambda>(cs, ok). Some (c # cs, ok)))
      in if \<not> nc_active c then go_on c
         else (case nc_send_packet_buffer c of
            Some s \<Rightarrow> do {
              (ok, s) \<leftarrow> netplay_resize_socket_buffer (malloc n) n s;
              let c = c\<lparr>nc_send_packet_buffer := Some s\<rparr>;
              if \<not> ok then Some (c # cs, False)
              else do {
                r \<leftarrow> nc_recv_packet_buffer c;
                (ok, r) \<leftarrow> netplay_resize_socket_buffer (malloc n) n r;
                let c = c\<lparr>nc_recv_packet_buffer := Some r\<rparr>;
                if \<not> ok then Some (c # cs, False) else go_on c
              }
            }
          | None \<Rightarrow>
              (case netplay_init_socket_buffer (malloc n) n of
                 None \<Rightarrow> Some (c # cs, False)
               | Some s \<Rightarrow>
                   (let c = c\<lparr>nc_send_packet_buffer := Some s, nc_recv_packet_buffer := netplay_init_socket_buffer (malloc n) n\<rparr>
                    in if nc_recv_packet_buffer c = None then Some (c # cs, False) else go_on c))))"

definition NETPLAY_MAX_STALL_FRAMES :: nat where "NETPLAY_MAX_STALL_FRAMES = 60"

definition netplay_init_socket_buffers :: "(nat \<Rightarrow> bytes option) \<Rightarrow> netplay \<Rightarrow> (netplay \<times> bool) option" where
  "netplay_init_socket_buffers malloc np = do {
     let n = np_zbuffer_size np + NETPLAY_MAX_STALL_FRAMES * 16;
     (cs, ok) \<leftarrow> init_packet_buffers malloc n (np_connections np);
     Some (np\<lparr>np_packet_buffer_size := n, np_connections := cs\<rparr>, ok)
   }"

text \<open>The loop that allocates the states; a failure leaves the frames before it with theirs.\<close>

fun init_states :: "(nat \<Rightarrow> bool) \<Rightarrow> nat \<Rightarrow> delta_frame list \<Rightarrow> delta_frame list \<times> bool" where
  "init_states alloc n [] = ([], True)"
| "init_states alloc n (f # fs) =
     (if \<not> alloc n then (f # fs, False)
      else (case init_states alloc n fs of (fs, ok) \<Rightarrow> (f\<lparr>df_state := replicate n 0\<rparr> # fs, ok)))"

definition netplay_init_serialization :: "(nat \<Rightarrow> bool) \<Rightarrow> 'c core_ops \<Rightarrow> netplay \<Rightarrow> 'c \<Rightarrow> netplay \<times> bool" where
  "netplay_init_serialization alloc ops np core =
     (let n = co_serialize_size ops core in
      if np_state_size np \<noteq> 0 then (np, True)
      else if n = 0 then (np, False)
      else (case init_states alloc n (np_buffer np) of (fs, ok) \<Rightarrow>
        let np = np\<lparr>np_state_size := n, np_buffer := fs\<rparr> in
        if \<not> ok then (np\<lparr>np_quirks := np_quirks np OR NETPLAY_QUIRK_NO_SAVESTATES\<rparr>, False)
        else if \<not> alloc (n * 2)
        then (np\<lparr>np_quirks := np_quirks np OR NETPLAY_QUIRK_NO_TRANSMISSION, np_zbuffer_size := 0\<rparr>, False)
        else (np\<lparr>np_zbuffer_size := n * 2\<rparr>, True)))"

definition netplay_try_init_serialization ::
  "(nat \<Rightarrow> bool) \<Rightarrow> (nat \<Rightarrow> bytes option) \<Rightarrow> 'c core_ops \<Rightarrow> netplay \<Rightarrow> 'c \<Rightarrow> (netplay \<times> bool) option" where
  "netplay_try_init_serialization alloc malloc ops np core =
     (if np_state_size np \<noteq> 0 then Some (np, True)
      else (case netplay_init_serialization alloc ops np core of
         (np, False) \<Rightarrow> Some (np, False)
       | (np, True) \<Rightarrow> do {
           delta \<leftarrow> mem_get (np_buffer np) (np_run_ptr np);
           let (s, ok) = core_serialize ops core (np_state_size np);
           let np = set_frame (np_run_ptr np) (delta\<lparr>df_state := s\<rparr>) np;
           if \<not> ok then Some (np, False)
           else netplay_init_socket_buffers malloc (np\<lparr>np_quirks := np_quirks np AND NOT NETPLAY_QUIRK_INITIALIZATION\<rparr>)
         }))"

text \<open>At most 60 frames.\<close>

fun wait_and_init :: "nat \<Rightarrow> (nat \<Rightarrow> bool) \<Rightarrow> (nat \<Rightarrow> bytes option) \<Rightarrow> 'c core_ops \<Rightarrow> netplay \<times> 'c \<Rightarrow> (netplay \<times> 'c \<times> bool) option" where
  "wait_and_init 0 alloc malloc ops (np, core) = Some (np, core, False)"
| "wait_and_init (Suc n) alloc malloc ops (np, core) = do {
     (np, ok) \<leftarrow> netplay_try_init_serialization alloc malloc ops np core;
     if ok then Some (np, core, True)
     else do { core \<leftarrow> core_run ops np core; wait_and_init n alloc malloc ops (np, core) }
   }"

definition netplay_wait_and_init_serialization ::
  "(nat \<Rightarrow> bool) \<Rightarrow> (nat \<Rightarrow> bytes option) \<Rightarrow> 'c core_ops \<Rightarrow> netplay \<Rightarrow> 'c \<Rightarrow> (netplay \<times> 'c \<times> bool) option" where
  "netplay_wait_and_init_serialization alloc malloc ops np core =
     (if np_state_size np \<noteq> 0 then Some (np, core, True) else wait_and_init 60 alloc malloc ops (np, core))"

section \<open>netplay\_sync\_post\_frame\<close>

definition stop_catch_up :: "netplay \<Rightarrow> netplay" where
  "stop_catch_up np = np\<lparr>np_catch_up := False, np_out := np_out np @ [UnsetNonblockState]\<rparr>"

text \<open>The beginning: the frame that was run and the frame of input that was read are over.\<close>

definition advance_frame :: "bool \<Rightarrow> netplay \<Rightarrow> netplay" where
  "advance_frame stalled np =
     (let np = (if stalled then np
                else np\<lparr>np_run_ptr := NEXT_PTR np (np_run_ptr np), np_run_frame_count := np_run_frame_count np + 1\<rparr>)
      in if (\<not> stalled \<or> np_stall np = NETPLAY_STALL_INPUT_LATENCY) \<and>
            np_self_frame_count np < np_run_frame_count np + word_of_int (np_input_latency_frames np)
         then np\<lparr>np_self_ptr := NEXT_PTR np (np_self_ptr np), np_self_frame_count := np_self_frame_count np + 1\<rparr>
         else np)"

text \<open>``Now replay the real input if we've gotten ahead of it''.\<close>

definition replay_input ::
  "(nat \<Rightarrow> bool) \<Rightarrow> (nat \<Rightarrow> bytes option) \<Rightarrow> 'c core_ops \<Rightarrow> netplay \<times> 'c \<Rightarrow> (netplay \<times> 'c) option" where
  "replay_input alloc malloc ops = (\<lambda>(np, core). do {
     let np = np\<lparr>np_is_replay := True\<rparr>;
     core \<leftarrow> (if np_have_updown_device np
              then core_run ops (np\<lparr>np_replay_ptr := PREV_PTR np (np_replay_ptr np),
                                    np_replay_frame_count := np_replay_frame_count np - 1\<rparr>) core
              else Some core);
     let np = (if np_have_updown_device np
               then np\<lparr>np_replay_ptr := NEXT_PTR np (PREV_PTR np (np_replay_ptr np))\<rparr> else np);
     (np, core) \<leftarrow> (if np_quirks np AND NETPLAY_QUIRK_INITIALIZATION \<noteq> 0
                    then do { (np, core, _) \<leftarrow> netplay_wait_and_init_serialization alloc malloc ops np core; Some (np, core) }
                    else Some (np, core));
     delta \<leftarrow> mem_get (np_buffer np) (np_replay_ptr np);
     let loaded = co_unserialize ops (df_state delta) core;
     let core = (case loaded of None \<Rightarrow> core | Some c \<Rightarrow> c);
     let np = (if loaded = None then np\<lparr>np_out := np_out np @ [ReportLoadFailed]\<rparr> else np);
     (np, core) \<leftarrow> replay_frames alloc ops (np, core);
     let np = np\<lparr>np_frame_run_time_avg := np_frame_run_time_sum np sdiv int NETPLAY_FRAME_RUN_TIME_WINDOW\<rparr>;
     let np = (if np_unread_frame_count np < np_run_frame_count np
               then np\<lparr>np_other_ptr := np_unread_ptr np, np_other_frame_count := np_unread_frame_count np\<rparr>
               else np\<lparr>np_other_ptr := np_run_ptr np, np_other_frame_count := np_run_frame_count np\<rparr>);
     Some (np\<lparr>np_is_replay := False, np_force_rewind := False\<rparr>, core)
   })"


definition CATCH_UP_CHECK_TIME_USEC :: int where "CATCH_UP_CHECK_TIME_USEC = 500 * 1000"
definition NETPLAY_MAX_REQ_STALL_FREQUENCY :: u32 where "NETPLAY_MAX_REQ_STALL_FREQUENCY = 120"

text \<open>Asking the clients that are ahead to stall.\<close>

definition request_stall :: "nat \<Rightarrow> netplay \<Rightarrow> netplay option" where
  "request_stall i np = do {
     connection \<leftarrow> mem_get (np_connections np) i;
     if \<not> nc_active connection \<or> nc_mode connection \<noteq> NETPLAY_CONNECTION_PLAYING then Some np
     else if i + 1 \<ge> MAX_CLIENTS then None
     else if np_self_frame_count np + 3 < np_read_frame_count np (i + 1) \<and>
       nc_stall_frame connection + NETPLAY_MAX_REQ_STALL_FREQUENCY < np_self_frame_count np
     then Some (np\<lparr>np_connections := (np_connections np)[i := connection\<lparr>nc_stall_frame := np_self_frame_count np\<rparr>],
             np_out := np_out np @ [CmdStall i (np_read_frame_count np (i + 1) - np_self_frame_count np + 1)]\<rparr>)
     else Some np
   }"

definition highest_read :: "netplay \<Rightarrow> u32" where
  "highest_read np =
     fold (\<lambda>client hi. if bit (np_connected_players np) client \<and> np_read_frame_count np client > hi
                        then np_read_frame_count np client else hi)
       [0..<MAX_CLIENTS] (np_unread_frame_count np)"

text \<open>``If we're behind, try to catch up'', the end of \<^verbatim>\<open>netplay_sync_post_frame\<close>.\<close>

definition catch_up :: "bool \<Rightarrow> netplay \<Rightarrow> netplay option" where
  "catch_up stalled np =
     (let lo = (if np_is_server np then np_unread_frame_count np else np_server_frame_count np);
          hi = (if np_is_server np then highest_read np else np_server_frame_count np);
          self = np_self_frame_count np
      in if np_catch_up np then Some (if self + 1 \<ge> lo then stop_catch_up np else np)
         else if stalled then Some (np\<lparr>np_catch_up_time := 0\<rparr>)
         else if self + 3 < lo
         then (let (cur_time, np) = get_time np;
                   cur_behind = lo - self
               in Some (if np_catch_up_time np = 0
                        then np\<lparr>np_catch_up_time := cur_time, np_catch_up_behind := cur_behind\<rparr>
                        else if cur_time - np_catch_up_time np > CATCH_UP_CHECK_TIME_USEC
                        then (if np_catch_up_behind np \<le> cur_behind
                              then np\<lparr>np_catch_up := True, np_catch_up_time := 0, np_out := np_out np @ [SetNonblockState]\<rparr>
                              else np\<lparr>np_catch_up_time := cur_time, np_catch_up_behind := cur_behind\<rparr>)
                        else np))
         else if self + 3 < hi
         then for_each [0..<length (np_connections np)] request_stall (np\<lparr>np_catch_up_time := 0\<rparr>)
         else Some (np\<lparr>np_catch_up_time := 0\<rparr>))"

text \<open>Finding the frame from which to replay: the part between the reset and the replay.\<close>

definition plan_replay :: "(nat \<Rightarrow> bool) \<Rightarrow> netplay \<Rightarrow> netplay option" where
  "plan_replay alloc np = do {
     let np = np\<lparr>np_replay_ptr := np_other_ptr np, np_replay_frame_count := np_other_frame_count np\<rparr>;
     if np_force_rewind np then Some np
     else do {
       (np, cont) \<leftarrow> skip_ahead alloc np;
       let np = np\<lparr>np_replay_ptr := np_other_ptr np, np_replay_frame_count := np_other_frame_count np\<rparr>;
       if cont then find_replay alloc np else Some np
     }
   }"

definition netplay_sync_post_frame ::
  "(nat \<Rightarrow> bool) \<Rightarrow> (nat \<Rightarrow> bytes option) \<Rightarrow> 'c core_ops \<Rightarrow> bool \<Rightarrow> netplay \<times> 'c \<Rightarrow> (netplay \<times> 'c) option" where
  "netplay_sync_post_frame alloc malloc ops stalled = (\<lambda>(np, core). do {
     let np = advance_frame stalled np;
     if (np_is_server np \<and> np_connected_players np \<le> 1) \<or> np_self_mode np < NETPLAY_CONNECTION_CONNECTED \<or> np_desync np \<noteq> 0
     then do {
       let np = np\<lparr>np_other_frame_count := np_self_frame_count np, np_other_ptr := np_self_ptr np\<rparr>;
       Some (if np_catch_up np then stop_catch_up np else np, core)
     }
     else do {
       let core = (if np_force_reset np then co_reset ops core else core);
       np \<leftarrow> plan_replay alloc (np\<lparr>np_force_reset := False\<rparr>);
       (np, core) \<leftarrow> (if np_force_rewind np \<or> np_replay_frame_count np < np_run_frame_count np
                      then replay_input alloc malloc ops (np, core) else Some (np, core));
       np \<leftarrow> catch_up stalled np;
       Some (np, core)
     }
   })"

section \<open>Before a frame\<close>

text \<open>\<^verbatim>\<open>netplay_force_future\<close> and \<^verbatim>\<open>netplay_load_savestate\<close> of \<^verbatim>\<open>netplay_frontend.c\<close>.\<close>

definition netplay_force_future :: "netplay \<Rightarrow> netplay" where
  "netplay_force_future np =
     (let np = np\<lparr>np_run_ptr := np_self_ptr np, np_run_frame_count := np_self_frame_count np\<rparr>;
          np = netplay_update_unread_ptr np;
          run = np_run_frame_count np;
          np = (if np_unread_frame_count np < run
            then (let behind = (\<lambda>c. c < MAX_CLIENTS \<and> bit (np_connected_players np) c \<and> np_read_frame_count np c < run);
                      np = np\<lparr>np_read_ptr := (\<lambda>c. if behind c then np_run_ptr np else np_read_ptr np c),
                              np_read_frame_count := (\<lambda>c. if behind c then run else np_read_frame_count np c)\<rparr>;
                      np = (if np_server_frame_count np < run
                            then np\<lparr>np_server_ptr := np_run_ptr np, np_server_frame_count := run\<rparr> else np)
                  in netplay_update_unread_ptr np)
            else np)
      in if np_other_frame_count np < run
         then np\<lparr>np_other_ptr := np_run_ptr np, np_other_frame_count := run\<rparr> else np)"

text \<open>\<open>serial_info\<close> is the state that was loaded, \<open>np_state_size\<close> bytes at most are kept of it.\<close>

definition netplay_load_savestate :: "'c core_ops \<Rightarrow> netplay \<Rightarrow> 'c \<Rightarrow> bytes option \<Rightarrow> bool \<Rightarrow> netplay option" where
  "netplay_load_savestate ops np core serial_info save = do {
     let np = netplay_force_future np;
     let send = (\<lambda>np s. if np_desync np \<noteq> 0 \<or> np_quirks np AND (NETPLAY_QUIRK_NO_SAVESTATES OR NETPLAY_QUIRK_NO_TRANSMISSION) \<noteq> 0
                         then np else np\<lparr>np_out := np_out np @ [SendSavestate (np_run_frame_count np) s]\<rparr>);
     if save \<or> serial_info = None
     then do {
       delta \<leftarrow> mem_get (np_buffer np) (np_run_ptr np);
       (case netplay_delta_frame_ready np delta (np_run_frame_count np) of
          (False, _) \<Rightarrow> Some np
        | (True, delta) \<Rightarrow>
            (case serial_info of
               None \<Rightarrow>
                 (case co_serialize ops core (np_state_size np) of
                    None \<Rightarrow> Some (set_frame (np_run_ptr np) delta np)
                  | Some s \<Rightarrow> Some (send (set_frame (np_run_ptr np) (delta\<lparr>df_state := s\<rparr>) np) s))
             | Some s \<Rightarrow> do {
                 state \<leftarrow> (if length s \<le> np_state_size np then mem_write (df_state delta) 0 s else Some (df_state delta));
                 Some (send (set_frame (np_run_ptr np) (delta\<lparr>df_state := state\<rparr>) np) s)
               }))
     }
     else Some (send np (the serial_info))
   }"

text \<open>The part of \<^verbatim>\<open>netplay_sync_pre_frame\<close> before the connections: saving the state of the frame to be run.\<close>

definition pre_frame_save :: "'c core_ops \<Rightarrow> netplay \<Rightarrow> 'c \<Rightarrow> netplay option" where
  "pre_frame_save ops np core = do {
     delta \<leftarrow> mem_get (np_buffer np) (np_run_ptr np);
     (case netplay_delta_frame_ready np delta (np_run_frame_count np) of
        (False, _) \<Rightarrow> Some np
      | (True, delta) \<Rightarrow> do {
          zeroed \<leftarrow> mem_write (df_state delta) 0 (replicate (np_state_size np) 0);
          let np = set_frame (np_run_ptr np) (delta\<lparr>df_state := zeroed\<rparr>) np;
          np \<leftarrow>
            (if np_quirks np AND NETPLAY_QUIRK_INITIALIZATION \<noteq> 0 \<or> np_run_frame_count np = 0 then Some np
             else (case if np_quirks np AND NETPLAY_QUIRK_NO_SAVESTATES = 0 then co_serialize ops core (np_state_size np) else None of
                Some s \<Rightarrow> do {
                  let np = set_frame (np_run_ptr np) (delta\<lparr>df_state := s\<rparr>) np;
                  if np_force_send_savestate np \<and> np_stall np = NETPLAY_STALL_NONE \<and> \<not> np_remote_paused np
                  then do {
                    np \<leftarrow> (if np_run_ptr np \<noteq> np_self_ptr np
                           then do {
                             self \<leftarrow> mem_get (np_buffer np) (np_self_ptr np);
                             state \<leftarrow> mem_write (df_state self) 0 s;
                             Some ((set_frame (np_self_ptr np) (self\<lparr>df_state := state\<rparr>) np)
                               \<lparr>np_run_ptr := np_self_ptr np, np_run_frame_count := np_self_frame_count np\<rparr>)
                           }
                           else Some np);
                    frame \<leftarrow> mem_get (np_buffer np) (np_run_ptr np);
                    np \<leftarrow> netplay_load_savestate ops np core (Some (df_state frame)) False;
                    Some (np\<lparr>np_force_send_savestate := False\<rparr>)
                  }
                  else Some np
                }
              | None \<Rightarrow> Some (np\<lparr>np_quirks := np_quirks np OR NETPLAY_QUIRK_NO_SAVESTATES, np_stateless_mode := True\<rparr>)));
          Some (if np_run_frame_count np > 0 \<and>
                   np_quirks np AND (NETPLAY_QUIRK_NO_SAVESTATES OR NETPLAY_QUIRK_NO_TRANSMISSION) \<noteq> 0 \<and>
                   (case np_connections np of [] \<Rightarrow> True
                    | c # _ \<Rightarrow> \<not> nc_active c \<or> nc_mode c < NETPLAY_CONNECTION_CONNECTED)
                then np\<lparr>np_stall := NETPLAY_STALL_NO_CONNECTION\<rparr> else np)
        })
   }"

end
