(* ===== verification/Netplay_Merge.thy ===== *)
theory Netplay_Merge
  imports Netplay_Sync
begin

text \<open>
  What merging the input of several clients gives (\<^verbatim>\<open>netplay_merge_digital\<close> and \<^verbatim>\<open>merge_analog_part\<close> of
  \<^verbatim>\<open>network/netplay/netplay_sync.c\<close>): every bit is the or, the exclusive or, or the majority of the clients'
  bits.  The majority of a keyboard leaves the array of votes, and an average of negative values is not one.
\<close>

unbundle bit_operations_syntax

section \<open>Loops\<close>

text \<open>A loop whose body is defined as long as \<open>P\<close> holds is a fold.\<close>

lemma for_each_fold:
  assumes "P s" "\<And>x s. x \<in> set xs \<Longrightarrow> P s \<Longrightarrow> f x s = Some (g x s) \<and> P (g x s)"
  shows "for_each xs f s = Some (fold g xs s) \<and> P (fold g xs s)"
  using assms
proof (induction xs arbitrary: s)
  case (Cons x xs)
  have "f x s = Some (g x s)" "P (g x s)" using Cons.prems by auto
  then show ?case using Cons.IH [of "g x s"] Cons.prems(2) by simp
qed simp

lemma for_each_append: "for_each (xs @ ys) f s = Option.bind (for_each xs f s) (for_each ys f)"
  by (induction xs arbitrary: s) (auto simp: bind_assoc split: Option.bind_split)

lemma for_each_induct:
  assumes "P 0 s" "\<And>i s. i < n \<Longrightarrow> P i s \<Longrightarrow> \<exists>s'. f i s = Some s' \<and> P (Suc i) s'"
  shows "\<exists>s'. for_each [0..<n] f s = Some s' \<and> P n s'"
  using assms
proof (induction n)
  case (Suc n)
  then obtain s' where "for_each [0..<n] f s = Some s'" "P n s'" by fastforce
  then show ?case using Suc.prems(2) [of n s'] by (auto simp: for_each_append)
qed simp

section \<open>The clients that take part\<close>

definition voters :: "netplay \<Rightarrow> delta_frame \<Rightarrow> nat \<Rightarrow> u32 \<Rightarrow> nat \<Rightarrow> netplay_input_state list" where
  "voters np simframe device clients n =
     List.map_filter (\<lambda>c. if bit clients c then netplay_device_client_state np simframe device c else None) [0..<n]"

lemma voters_Suc:
  "voters np f device clients (Suc n) = voters np f device clients n @
     (if bit clients n then (case netplay_device_client_state np f device n of None \<Rightarrow> [] | Some s \<Rightarrow> [s]) else [])"
  by (simp add: voters_def List.map_filter_def split: option.split)

lemma voters_0 [simp]: "voters np f device clients 0 = []"
  by (simp add: voters_def List.map_filter_def)

lemma length_voters: "length (voters np f device clients n) \<le> n"
  by (induction n) (auto simp: voters_Suc split: option.split)

definition votes_for :: "netplay_input_state list \<Rightarrow> nat \<Rightarrow> nat \<Rightarrow> nat" where
  "votes_for ss w b = length (filter (\<lambda>s. bit (is_data s ! w) b) ss)"

lemma votes_for_snoc: "votes_for (ss @ [s]) w b = votes_for ss w b + (if bit (is_data s ! w) b then 1 else 0)"
  by (simp add: votes_for_def)

section \<open>Or and exclusive or\<close>

lemma bit_push1: "bit (2 ^ b :: u32) i \<longleftrightarrow> i = b \<and> i < 32"
  by (auto simp: bit_exp_iff)

definition combined :: "u8 \<Rightarrow> u32 \<Rightarrow> u32 \<Rightarrow> u32" where
  "combined share_mode r p = (if share_mode = NETPLAY_SHARE_DIGITAL_XOR then r XOR p else r OR p)"

lemma combine_word_eq:
  assumes "w < length digital" "w < length part" "w < length data"
  shows "combine_word m digital part w data = Some (data[w := combined m (data ! w) (part ! w AND digital ! w)])"
proof -
  let ?d = "digital ! w" and ?p = "part ! w"
  have zero: "data[w := combined m (data ! w) 0] = data" by (simp add: combined_def)
  show ?thesis
  proof (cases "?d = 0 \<or> ?d = - 1")
    case True
    then show ?thesis
      using assms zero by (auto simp: combine_word_def mem_get_Some mem_set_Some combined_def)
  next
    case False
    let ?step = "\<lambda>b data. if \<not> bit ?d b then Some data else do {
       r \<leftarrow> mem_get data w;
       mem_set data w (if m = NETPLAY_SHARE_DIGITAL_XOR then r XOR (?p AND push_bit b 1) else r OR (?p AND push_bit b 1))
     }"
    let ?P = "\<lambda>n e. e = data[w := combined m (data ! w) (?p AND ?d AND mask n)]"
    have "\<exists>e. for_each [0..<32] ?step data = Some e \<and> ?P 32 e"
    proof (rule for_each_induct)
      show "?P 0 data" by (simp add: combined_def)
    next
      fix i e assume i: "i < (32 :: nat)" and e: "?P i e"
      have "combined m (combined m (data ! w) (?p AND ?d AND mask i)) (if bit ?d i then ?p AND push_bit i 1 else 0) =
          combined m (data ! w) (?p AND ?d AND mask (Suc i))"
        unfolding combined_def
        by (rule bit_word_eqI)
          (auto simp: bit_or_iff bit_xor_iff bit_and_iff bit_push1 bit_mask_iff less_Suc_eq)
      then show "\<exists>e'. ?step i e = Some e' \<and> ?P (Suc i) e'"
        using assms e zero by (auto simp: mem_get_Some mem_set_Some combined_def split: if_splits)
    qed
    moreover have "?p AND ?d AND mask 32 = ?p AND ?d"
      by (rule bit_word_eqI) (auto simp: bit_and_iff bit_mask_iff)
    ultimately show ?thesis
      using False assms by (auto simp: combine_word_def mem_get_Some)
  qed
qed

lemma combine_client_bits:
  assumes "length (is_data s) = n" "n \<le> length digital" "length data = n"
  shows "\<exists>data'. for_each [0..<n] (combine_word m digital (is_data s)) data = Some data' \<and> length data' = n \<and>
    (\<forall>w < n. data' ! w = combined m (data ! w) (is_data s ! w AND digital ! w))"
proof -
  let ?P = "\<lambda>k e. length e = n \<and> (\<forall>w < n. e ! w = (if w < k then combined m (data ! w) (is_data s ! w AND digital ! w) else data ! w))"
  have "\<exists>e. for_each [0..<n] (combine_word m digital (is_data s)) data = Some e \<and> ?P n e"
    by (rule for_each_induct) (use assms in \<open>auto simp: combine_word_eq nth_list_update less_Suc_eq\<close>)
  then show ?thesis by auto
qed

lemma combined_bit:
  "b < 32 \<Longrightarrow> bit (combined m r (p AND d)) b \<longleftrightarrow>
    (if m = NETPLAY_SHARE_DIGITAL_XOR then bit r b \<noteq> (bit p b \<and> bit d b) else bit r b \<or> (bit p b \<and> bit d b))"
  by (simp add: combined_def bit_or_iff bit_xor_iff bit_and_iff)

lemma combine_clients:
  assumes "\<And>c s. c < 32 \<Longrightarrow> netplay_device_client_state np f device c = Some s \<Longrightarrow> length (is_data s) = unat sz"
    and "unat sz \<le> length digital" "length data = unat sz" "n \<le> 32"
  shows "\<exists>data'. for_each [0..<n] (combine_client np f device sz m digital clients) data = Some data' \<and>
    length data' = unat sz \<and> (\<forall>w < unat sz. \<forall>b < 32. bit (data' ! w) b \<longleftrightarrow>
      (let v = votes_for (voters np f device clients n) w b in
       if m = NETPLAY_SHARE_DIGITAL_XOR then bit (data ! w) b \<noteq> (bit (digital ! w) b \<and> odd v)
       else bit (data ! w) b \<or> (bit (digital ! w) b \<and> v > 0)))"
    (is "\<exists>data'. _ \<and> ?P n data'")
proof (rule for_each_induct [where P = ?P])
  show "?P 0 data" using assms(3) by (simp add: votes_for_def)
next
  fix i e assume i: "i < n" and e: "?P i e"
  show "\<exists>e'. combine_client np f device sz m digital clients i e = Some e' \<and> ?P (Suc i) e'"
  proof (cases "if bit clients i then netplay_device_client_state np f device i else None")
    case None
    then have "voters np f device clients (Suc i) = voters np f device clients i"
        "combine_client np f device sz m digital clients i e = Some e"
      by (simp_all add: combine_client_def voters_Suc split: if_splits)
    then show ?thesis using e by simp
  next
    case (Some s)
    then have s: "bit clients i" "netplay_device_client_state np f device i = Some s" by (auto split: if_splits)
    have len: "length (is_data s) = unat sz" using assms(1) [OF _ s(2)] assms(4) i by simp
    obtain e' where e': "for_each [0..<unat sz] (combine_word m digital (is_data s)) e = Some e'" "length e' = unat sz"
        "\<forall>w < unat sz. e' ! w = combined m (e ! w) (is_data s ! w AND digital ! w)"
      using combine_client_bits [OF len assms(2)] e by blast
    have "?P (Suc i) e'"
    proof (intro conjI allI impI)
      fix w b assume w: "w < unat sz" "b < (32 :: nat)"
      have "voters np f device clients (Suc i) = voters np f device clients i @ [s]" using s by (simp add: voters_Suc)
      moreover have "bit (e' ! w) b \<longleftrightarrow> (if m = NETPLAY_SHARE_DIGITAL_XOR
          then bit (e ! w) b \<noteq> (bit (is_data s ! w) b \<and> bit (digital ! w) b)
          else bit (e ! w) b \<or> (bit (is_data s ! w) b \<and> bit (digital ! w) b))"
        using e'(3) w combined_bit by simp
      ultimately show "bit (e' ! w) b \<longleftrightarrow> (let v = votes_for (voters np f device clients (Suc i)) w b in
          if m = NETPLAY_SHARE_DIGITAL_XOR then bit (data ! w) b \<noteq> (bit (digital ! w) b \<and> odd v)
          else bit (data ! w) b \<or> (bit (digital ! w) b \<and> v > 0))"
        using e w by (cases "bit (is_data s ! w) b") (auto simp: votes_for_snoc Let_def)
    qed (rule e'(2))
    then show ?thesis using s e'(1) by (simp add: combine_client_def)
  qed
qed

section \<open>The majority\<close>

lemma vote_index: "b < 32 \<Longrightarrow> k = 32 * w + b \<longleftrightarrow> k div 32 = w \<and> k mod 32 = (b :: nat)"
  by auto

text \<open>Whether an input votes for the bit with index \<open>k\<close>.\<close>

definition votes_bit :: "u32 list \<Rightarrow> u32 list \<Rightarrow> nat \<Rightarrow> bool" where
  "votes_bit digital data k \<longleftrightarrow> bit (digital ! (k div 32)) (k mod 32) \<and> bit (data ! (k div 32)) (k mod 32)"

lemma count_word_votes:
  assumes "w < 3" "w < length digital" "w < length data" "length votes = 96"
  shows "\<exists>v. count_word digital data w votes = Some v \<and> length v = 96 \<and>
    (\<forall>k < 96. v ! k = votes ! k + (if k div 32 = w \<and> votes_bit digital data k then 1 else 0))"
proof (cases "digital ! w = 0")
  case True
  then show ?thesis using assms by (auto simp: count_word_def mem_get_Some votes_bit_def)
next
  case False
  let ?step = "count_bit (digital ! w) data w"
  let ?P = "\<lambda>i v. length v = 96 \<and>
    (\<forall>k < 96. v ! k = votes ! k + (if k div 32 = w \<and> k mod 32 < i \<and> votes_bit digital data k then 1 else 0))"
  have "\<exists>v. for_each [0..<32] ?step votes = Some v \<and> ?P 32 v"
  proof (rule for_each_induct [where P = ?P])
    show "?P 0 votes" using assms(4) by simp
  next
    fix i v assume i: "i < (32 :: nat)" and v: "?P i v"
    have get: "mem_get v (32 * w + i) = Some (v ! (32 * w + i))"
        "mem_set v (32 * w + i) x = Some (v[32 * w + i := x])" for x
      using assms(1) i v by (simp_all add: mem_get_Some mem_set_Some)
    have bit: "votes_bit digital data (32 * w + i) \<longleftrightarrow> bit (digital ! w) i \<and> bit (data ! w) i"
      using i by (simp add: votes_bit_def)
    show "\<exists>v'. ?step i v = Some v' \<and> ?P (Suc i) v'"
    proof (cases "bit (digital ! w) i \<and> bit (data ! w) i")
      case True
      have "?P (Suc i) (v[32 * w + i := v ! (32 * w + i) + 1])"
      proof (intro conjI allI impI)
        fix k assume k: "k < (96 :: nat)"
        show "v[32 * w + i := v ! (32 * w + i) + 1] ! k =
            votes ! k + (if k div 32 = w \<and> k mod 32 < Suc i \<and> votes_bit digital data k then 1 else 0)"
        proof (cases "k = 32 * w + i")
          case True
          moreover have "(32 * w + i) div 32 = w" "(32 * w + i) mod 32 = i" using i by simp_all
          ultimately show ?thesis using v bit \<open>bit (digital ! w) i \<and> bit (data ! w) i\<close> k by simp
        next
          case False
          then show ?thesis using v k vote_index [OF i, of k w] by (auto simp: less_Suc_eq)
        qed
      qed (use v in simp)
      then show ?thesis using True get assms(3) by (simp add: count_bit_def mem_get_Some)
    next
      case False
      then have "?P (Suc i) v" using v bit vote_index [OF i] by (auto simp: less_Suc_eq)
      moreover have "?step i v = Some v" using False assms(3) by (auto simp: count_bit_def mem_get_Some)
      ultimately show ?thesis by blast
    qed
  qed
  then show ?thesis using False assms(2) by (simp add: count_word_def mem_get_Some)
qed

lemma count_words_votes:
  assumes "n \<le> 3" "n \<le> length digital" "n \<le> length data" "length votes = 96"
  shows "\<exists>v. for_each [0..<n] (count_word digital data) votes = Some v \<and> length v = 96 \<and>
    (\<forall>k < 96. v ! k = votes ! k + (if k div 32 < n \<and> votes_bit digital data k then 1 else 0))"
    (is "\<exists>v. _ \<and> ?P n v")
proof (rule for_each_induct [where P = ?P])
  show "?P 0 votes" using assms(4) by simp
next
  fix i v assume i: "i < n" and v: "?P i v"
  obtain v' where v': "count_word digital data i v = Some v'" "length v' = 96"
      "\<forall>k < 96. v' ! k = v ! k + (if k div 32 = i \<and> votes_bit digital data k then 1 else 0)"
    using count_word_votes [of i digital data v] assms i v by auto
  have "?P (Suc i) v'" using v v'(2,3) by (auto simp: less_Suc_eq)
  then show "\<exists>v'. count_word digital data i v = Some v' \<and> ?P (Suc i) v'" using v'(1) by blast
qed

lemma vote_clients:
  assumes "\<And>c s. c < 32 \<Longrightarrow> netplay_device_client_state np f device c = Some s \<Longrightarrow> length (is_data s) = unat sz"
    and "unat sz \<le> 3" "unat sz \<le> length digital" "n \<le> 32"
  shows "\<exists>r. for_each [0..<n] (vote_client np f device sz digital clients) (replicate 96 0, 0) = Some r \<and>
    length (fst r) = 96 \<and> snd r = of_nat (length (voters np f device clients n)) \<and>
    (\<forall>k < 96. fst r ! k = of_nat (if k div 32 < unat sz \<and> bit (digital ! (k div 32)) (k mod 32)
       then votes_for (voters np f device clients n) (k div 32) (k mod 32) else 0))"
    (is "\<exists>r. _ \<and> ?P n r")
proof (rule for_each_induct [where P = ?P])
  show "?P 0 (replicate 96 0, 0)" by (simp add: votes_for_def)
next
  fix i and r :: "u16 list \<times> u32" assume i: "i < n" and r: "?P i r"
  show "\<exists>r'. vote_client np f device sz digital clients i r = Some r' \<and> ?P (Suc i) r'"
  proof (cases "if bit clients i then netplay_device_client_state np f device i else None")
    case None
    then have "voters np f device clients (Suc i) = voters np f device clients i"
        "vote_client np f device sz digital clients i r = Some r"
      by (simp_all add: vote_client_def voters_Suc split: if_splits)
    then show ?thesis using r by simp
  next
    case (Some s)
    then have s: "bit clients i" "netplay_device_client_state np f device i = Some s" by (auto split: if_splits)
    have len: "length (is_data s) = unat sz" using assms(1) [OF _ s(2)] assms(4) i by simp
    have v: "voters np f device clients (Suc i) = voters np f device clients i @ [s]" using s by (simp add: voters_Suc)
    obtain v' where v': "for_each [0..<unat sz] (count_word digital (is_data s)) (fst r) = Some v'" "length v' = 96"
        "\<forall>k < 96. v' ! k = fst r ! k + (if k div 32 < unat sz \<and> votes_bit digital (is_data s) k then 1 else 0)"
      using count_words_votes [of "unat sz" digital "is_data s" "fst r"] assms(2,3) len r by auto
    have "?P (Suc i) (v', snd r + 1)"
      unfolding v using r v'(2,3) by (auto simp: votes_for_snoc votes_bit_def)
    then show ?thesis using s v'(1) by (simp add: vote_client_def)
  qed
qed

lemma majority: "m \<le> 32 \<Longrightarrow> n \<le> 32 \<Longrightarrow> ucast (of_nat m :: u16) > (of_nat n div 2 :: u32) \<longleftrightarrow> n < 2 * m"
  by (auto simp: word_less_nat_alt unsigned_ucast_eq unat_of_nat unat_div take_bit_nat_eq_self)

lemma votes_for_bound: "length ss \<le> n \<Longrightarrow> votes_for ss w b \<le> n"
  by (metis votes_for_def length_filter_le order_trans)

lemma elect_word_bits:
  fixes data :: "u32 list"
  assumes "w < 3" "w < length data" "length votes = 96"
  shows "\<exists>e. elect_word votes c w data = Some e \<and> length e = length data \<and>
    (\<forall>x < length data. \<forall>b < 32. bit (e ! x) b \<longleftrightarrow> bit (data ! x) b \<or> (x = w \<and> ucast (votes ! (32 * w + b)) > c))"
  unfolding elect_word_def
proof -
  let ?step = "\<lambda>b data. do { v \<leftarrow> mem_get votes (32 * w + b);
      if ucast v > c then do { d \<leftarrow> mem_get data w; mem_set data w (d OR push_bit b 1) } else Some data }"
  let ?P = "\<lambda>i e. length e = length data \<and> (\<forall>x < length data. \<forall>b < 32. bit (e ! x) b \<longleftrightarrow>
      bit (data ! x) b \<or> (x = w \<and> b < i \<and> ucast (votes ! (32 * w + b)) > c))"
  have "\<exists>e. for_each [0..<32] ?step data = Some e \<and> ?P 32 e"
  proof (rule for_each_induct [where P = ?P])
    show "?P 0 data" by simp
  next
    fix i and e :: "u32 list" assume i: "i < (32 :: nat)" and e: "?P i e"
    have get: "mem_get votes (32 * w + i) = Some (votes ! (32 * w + i))" using assms i by (simp add: mem_get_Some)
    show "\<exists>e'. ?step i e = Some e' \<and> ?P (Suc i) e'"
    proof (cases "ucast (votes ! (32 * w + i)) > c")
      case True
      have "?P (Suc i) (e[w := e ! w OR 2 ^ i])"
        using e True assms(2) by (auto simp: nth_list_update bit_or_iff bit_push1 less_Suc_eq)
      then show ?thesis using True get e assms(2) by (simp add: mem_get_Some mem_set_Some)
    next
      case False
      then have "?P (Suc i) e" using e by (auto simp: less_Suc_eq)
      then show ?thesis using False get by simp
    qed
  qed
  then show "\<exists>e. for_each [0..<32] ?step data = Some e \<and> length e = length data \<and>
    (\<forall>x < length data. \<forall>b < 32. bit (e ! x) b \<longleftrightarrow> bit (data ! x) b \<or> (x = w \<and> ucast (votes ! (32 * w + b)) > c))"
    by auto
qed

lemma elect_words_bits:
  fixes data :: "u32 list"
  assumes "n \<le> 3" "length data = n" "length votes = 96"
  shows "\<exists>e. for_each [0..<n] (elect_word votes c) data = Some e \<and> length e = n \<and>
    (\<forall>w < n. \<forall>b < 32. bit (e ! w) b \<longleftrightarrow> bit (data ! w) b \<or> ucast (votes ! (32 * w + b)) > c)"
proof -
  let ?P = "\<lambda>i e. length e = n \<and> (\<forall>w < n. \<forall>b < 32. bit (e ! w) b \<longleftrightarrow> bit (data ! w) b \<or> (w < i \<and> ucast (votes ! (32 * w + b)) > c))"
  have "\<exists>e. for_each [0..<n] (elect_word votes c) data = Some e \<and> ?P n e"
  proof (rule for_each_induct [where P = ?P])
    show "?P 0 data" using assms(2) by simp
  next
    fix i and e :: "u32 list" assume i: "i < n" and e: "?P i e"
    obtain e' where e': "elect_word votes c i e = Some e'" "length e' = n"
        "\<forall>x < n. \<forall>b < 32. bit (e' ! x) b \<longleftrightarrow> bit (e ! x) b \<or> (x = i \<and> ucast (votes ! (32 * i + b)) > c)"
      using elect_word_bits [of i e votes c] assms i e by auto
    have "?P (Suc i) e'" using e e'(2,3) by (auto simp: less_Suc_eq)
    then show "\<exists>e'. elect_word votes c i e = Some e' \<and> ?P (Suc i) e'" using e'(1) by blast
  qed
  then show ?thesis by auto
qed

section \<open>Merging\<close>

lemma vote_bits:
  assumes "\<And>c s. c < 32 \<Longrightarrow> netplay_device_client_state np f device c = Some s \<Longrightarrow> length (is_data s) = unat sz"
    and "unat sz \<le> 3" "unat sz \<le> length digital" "length data = unat sz"
  shows "\<exists>r data'. for_each [0..<32] (vote_client np f device sz digital clients) (replicate 96 0, 0) = Some r \<and>
    for_each [0..<unat sz] (elect_word (fst r) (snd r div 2)) data = Some data' \<and> length data' = unat sz \<and>
    (\<forall>w < unat sz. \<forall>b < 32. bit (data' ! w) b \<longleftrightarrow> bit (data ! w) b \<or>
      (bit (digital ! w) b \<and> length (voters np f device clients 32) < 2 * votes_for (voters np f device clients 32) w b))"
proof -
  let ?v = "voters np f device clients 32"
  obtain r where r: "for_each [0..<32] (vote_client np f device sz digital clients) (replicate 96 0, 0) = Some r"
      "length (fst r) = 96" "snd r = of_nat (length ?v)"
      "\<forall>k < 96. fst r ! k = of_nat (if k div 32 < unat sz \<and> bit (digital ! (k div 32)) (k mod 32)
         then votes_for ?v (k div 32) (k mod 32) else 0)"
    using vote_clients [of np f device sz digital 32 clients] assms(1-3) by auto
  obtain data' where data': "for_each [0..<unat sz] (elect_word (fst r) (snd r div 2)) data = Some data'" "length data' = unat sz"
      "\<forall>w < unat sz. \<forall>b < 32. bit (data' ! w) b \<longleftrightarrow> bit (data ! w) b \<or> ucast (fst r ! (32 * w + b)) > snd r div 2"
    using elect_words_bits [OF assms(2,4) r(2)] by blast
  have "ucast (fst r ! (32 * w + b)) > snd r div 2 \<longleftrightarrow>
      bit (digital ! w) b \<and> length ?v < 2 * votes_for ?v w b" if "w < unat sz" "b < 32" for w b
  proof -
    have "fst r ! (32 * w + b) = of_nat (if bit (digital ! w) b then votes_for ?v w b else 0)"
      using r(4) [rule_format, of "32 * w + b"] that assms(2) by simp
    then show ?thesis
      using majority [OF votes_for_bound length_voters] length_voters majority [of 0 "length ?v"] length_voters [of np f device clients 32]
      unfolding r(3) by (simp add: votes_for_bound)
  qed
  then show ?thesis using r(1) data' by auto
qed

text \<open>C38. Merging the digital parts of an input of at most three words: every bit that is digital is set in the result
  if it was set before, or if (or) some client, (exclusive or) an odd number of clients or (vote) more than half
  of the clients that take part have it set; without a vote the size does not matter.\<close>

theorem netplay_merge_digital_bits:
  assumes "\<And>c s. c < 32 \<Longrightarrow> netplay_device_client_state np simframe device c = Some s \<Longrightarrow> length (is_data s) = unat sz"
    and "real_clients (df_real_input simframe device) sz clients = Some everyone"
    and "unat sz \<le> length digital" "length data = unat sz"
    and "np_device_share_modes np device AND NETPLAY_SHARE_DIGITAL_BITS = mode"
    and "mode = NETPLAY_SHARE_DIGITAL_VOTE \<longrightarrow> unat sz \<le> 3"
  shows "\<exists>data'. netplay_merge_digital np sz data simframe device clients digital = Some data' \<and> length data' = unat sz \<and>
    (\<forall>w < unat sz. \<forall>b < 32. bit (data' ! w) b \<longleftrightarrow>
      (let ss = voters np simframe device everyone 32; v = votes_for ss w b in
       if mode = NETPLAY_SHARE_DIGITAL_VOTE then bit (data ! w) b \<or> (bit (digital ! w) b \<and> length ss < 2 * v)
       else if mode = NETPLAY_SHARE_DIGITAL_XOR then bit (data ! w) b \<noteq> (bit (digital ! w) b \<and> odd v)
       else bit (data ! w) b \<or> (bit (digital ! w) b \<and> v > 0)))"
proof (cases "mode = NETPLAY_SHARE_DIGITAL_VOTE")
  case True
  then show ?thesis
    using vote_bits [where np = np and f = simframe and device = device and sz = sz and digital = digital and data = data and clients = everyone] assms
    by (fastforce simp: netplay_merge_digital_def MAX_CLIENTS_def Let_def)
next
  case False
  then show ?thesis
    using combine_clients [where np = np and f = simframe and device = device and sz = sz and digital = digital and data = data
        and clients = everyone and n = 32 and m = mode] assms(1-5)
    by (fastforce simp: netplay_merge_digital_def MAX_CLIENTS_def Let_def)
qed


text \<open>A frame and a netplay of zero bytes, for examples.\<close>

definition zero_frame :: delta_frame where
  "zero_frame = \<lparr>df_used = False, df_frame = 0, df_state = [], df_crc = 0, df_resolved_input = (\<lambda>_. []),
     df_real_input = (\<lambda>_. []), df_simlated_input = (\<lambda>_. []), df_have_local = False, df_have_real = (\<lambda>_. False)\<rparr>"

definition zero_netplay :: netplay where
  "zero_netplay = \<lparr>np_is_server = False, np_self_client_num = 0, np_self_mode = NETPLAY_CONNECTION_NONE,
     np_connections = [], np_connected_players = 0, np_connected_slaves = 0, np_device_clients = (\<lambda>_. 0),
     np_device_share_modes = (\<lambda>_. 0), np_desync = 0, np_config_devices = (\<lambda>_. 0), np_have_updown_device = False,
     np_buffer = [], np_buffer_size = 0, np_zbuffer_size = 0, np_packet_buffer_size = 0, np_self_ptr = 0,
     np_self_frame_count = 0, np_run_ptr = 0, np_run_frame_count = 0, np_other_ptr = 0, np_other_frame_count = 0,
     np_unread_ptr = 0, np_unread_frame_count = 0, np_read_ptr = (\<lambda>_. 0), np_read_frame_count = (\<lambda>_. 0),
     np_server_ptr = 0, np_server_frame_count = 0, np_replay_ptr = 0, np_replay_frame_count = 0, np_state_size = 0,
     np_is_replay = False, np_force_rewind = False, np_force_reset = False, np_force_send_savestate = False,
     np_remote_paused = False, np_stateless_mode = False, np_quirks = 0, np_frame_run_time = (\<lambda>_. 0),
     np_frame_run_time_ptr = 0, np_frame_run_time_sum = 0, np_frame_run_time_avg = 0, np_input_latency_frames = 0,
     np_stall = NETPLAY_STALL_NONE, np_catch_up = False, np_catch_up_time = 0, np_catch_up_behind = 0,
     np_check_frames = 0, np_crc_validity_checked = False, np_crcs_valid = False, np_out = [], np_clock = (\<lambda>_. 0),
     np_ticks = 0\<rparr>"

text \<open>An input that client \<open>c\<close> sent.\<close>

definition input_of :: "u32 \<Rightarrow> u32 list \<Rightarrow> netplay_input_state" where
  "input_of c ws = \<lparr>is_used = True, is_client_num = c, is_size = of_nat (length ws), is_data = ws\<rparr>"

definition device_size :: "u32 \<Rightarrow> u32" where
  "device_size t =
     (if t = RETRO_DEVICE_JOYPAD then 1 else if t = RETRO_DEVICE_MOUSE then 2 else if t = RETRO_DEVICE_KEYBOARD then 5
      else if t = RETRO_DEVICE_LIGHTGUN then 2 else if t = RETRO_DEVICE_ANALOG then 3 else 0)"

lemma sum_list_none: "d \<notin> set xs \<Longrightarrow> (\<Sum>x \<leftarrow> xs. if x \<noteq> d then 0 else f x) = (0 :: u32)"
  by (induction xs) auto

lemma expected_size_one:
  "device < MAX_INPUT_DEVICES \<Longrightarrow>
    netplay_expected_input_size np (push_bit device 1) = device_size (np_config_devices np device AND RETRO_DEVICE_MASK)"
proof -
  assume "device < MAX_INPUT_DEVICES"
  then have split: "[0..<MAX_INPUT_DEVICES] = [0..<device] @ device # [Suc device..<MAX_INPUT_DEVICES]"
    by (metis le_add_same_cancel1 less_imp_add_positive upt_add_eq_append upt_conv_Cons zero_le)
  show ?thesis
    using \<open>device < MAX_INPUT_DEVICES\<close>
    unfolding netplay_expected_input_size_def split
    by (simp add: bit_push1 device_size_def MAX_INPUT_DEVICES_def Let_def sum_list_none)
qed

text \<open>Three players on a gamepad with a vote for the buttons: the second and the third hold a button.\<close>

theorem netplay_merge_digital_bits_witness:
  "\<exists>data'. netplay_merge_digital
      (zero_netplay\<lparr>np_config_devices := (\<lambda>_. 1), np_device_share_modes := (\<lambda>_. 0xc)\<rparr>) 1 [0]
      (zero_frame\<lparr>df_real_input := (\<lambda>_. [input_of 0 [1], input_of 1 [3], input_of 2 [2]])\<rparr>) 0 0 [- 1] = Some data' \<and>
    length data' = unat (1 :: u32) \<and> (\<forall>w < unat (1 :: u32). \<forall>b < 32. bit (data' ! w) b \<longleftrightarrow>
      (let ss = voters (zero_netplay\<lparr>np_config_devices := (\<lambda>_. 1), np_device_share_modes := (\<lambda>_. 0xc)\<rparr>)
            (zero_frame\<lparr>df_real_input := (\<lambda>_. [input_of 0 [1], input_of 1 [3], input_of 2 [2]])\<rparr>) 0 7 32;
          v = votes_for ss w b in
       if (0xc :: u8) = NETPLAY_SHARE_DIGITAL_VOTE then bit ([0 :: u32] ! w) b \<or> (bit ([- 1 :: u32] ! w) b \<and> length ss < 2 * v)
       else if (0xc :: u8) = NETPLAY_SHARE_DIGITAL_XOR then bit ([0 :: u32] ! w) b \<noteq> (bit ([- 1 :: u32] ! w) b \<and> odd v)
       else bit ([0 :: u32] ! w) b \<or> (bit ([- 1 :: u32] ! w) b \<and> v > 0)))"
proof (rule netplay_merge_digital_bits)
  fix c s
  show "netplay_device_client_state (zero_netplay\<lparr>np_config_devices := (\<lambda>_. 1), np_device_share_modes := (\<lambda>_. 0xc)\<rparr>)
      (zero_frame\<lparr>df_real_input := (\<lambda>_. [input_of 0 [1], input_of 1 [3], input_of 2 [2]])\<rparr>) 0 c = Some s \<Longrightarrow>
    length (is_data s) = unat (1 :: u32)"
    by (auto simp: netplay_device_client_state_def input_lookup_def input_of_def zero_frame_def zero_netplay_def
        expected_size_one [of 0, simplified] MAX_INPUT_DEVICES_def Let_def split: if_splits)
qed (simp_all add: input_of_def zero_frame_def zero_netplay_def shift1_def NETPLAY_SHARE_DIGITAL_BITS_def)

section \<open>Votes over a keyboard\<close>

lemma for_each_None: "x \<in> set xs \<Longrightarrow> (\<And>s. f x s = None) \<Longrightarrow> for_each xs f s = None"
  by (induction xs arbitrary: s) (auto split: Option.bind_split)

lemma for_each_invariant:
  "for_each xs f s = Some s' \<Longrightarrow> P s \<Longrightarrow> (\<And>x s s'. x \<in> set xs \<Longrightarrow> P s \<Longrightarrow> f x s = Some s' \<Longrightarrow> P s') \<Longrightarrow> P s'"
proof (induction xs arbitrary: s)
  case (Cons x xs)
  then obtain s1 where "f x s = Some s1" "for_each xs f s1 = Some s'" by (auto simp: bind_eq_Some_conv)
  then show ?case using Cons.IH [of s1] Cons.prems(2,3) by (metis list.set_intros)
qed simp

lemma length_votes:
  "vote_client np f device sz digital clients c r = Some r' \<Longrightarrow> length (fst r') = length (fst r)"
proof -
  have word: "length v' = length v" if counted: "count_word digital data w v = Some v'" for data w v v'
  proof -
    obtain d where d: "v' = v \<or> for_each [0..<32] (count_bit d data w) v = Some v'"
      using counted by (auto simp: count_word_def bind_eq_Some_conv split: if_splits)
    have "length v' = length v" if "for_each [0..<32] (count_bit d data w) v = Some v'"
      by (rule for_each_invariant [where P = "\<lambda>u. length u = length v", OF that])
        (auto simp: count_bit_def bind_eq_Some_conv length_mem_set split: if_splits)
    then show ?thesis using d by auto
  qed
  show "vote_client np f device sz digital clients c r = Some r' \<Longrightarrow> length (fst r') = length (fst r)"
    by (auto simp: vote_client_def bind_eq_Some_conv split: if_splits option.splits
        elim!: for_each_invariant [where P = "\<lambda>u. length u = length (fst r)"]) (metis word)
qed

text \<open>The array of votes has room for three words, so a vote over a keyboard's five words leaves it, whoever
  takes part.\<close>

theorem netplay_keyboard_vote_overruns:
  assumes "np_device_share_modes np device AND NETPLAY_SHARE_DIGITAL_BITS = NETPLAY_SHARE_DIGITAL_VOTE" "3 < unat sz"
  shows "netplay_merge_digital np sz data simframe device clients digital = None"
proof -
  have "for_each [0..<unat sz] (elect_word votes c) data = None" if "length votes = 96" for votes c
  proof (rule for_each_None [of 3])
    fix s
    have "[0..<32] = 0 # [1..<32]" by (simp add: upt_conv_Cons)
    then show "elect_word votes c 3 s = None"
      using that unfolding elect_word_def by (simp add: mem_get_def)
  qed (use assms(2) in simp)
  moreover have "length (fst r) = 96"
    if "for_each [0..<MAX_CLIENTS] (vote_client np simframe device sz digital clients') (replicate 96 0, 0) = Some r" for r clients'
    using that by (rule for_each_invariant [where P = "\<lambda>r. length (fst r) = 96"]) (auto dest: length_votes)
  ultimately show ?thesis
    using assms(1) by (fastforce simp: netplay_merge_digital_def Let_def split: Option.bind_split)
qed

theorem netplay_keyboard_vote_overruns_witness:
  "netplay_merge_digital (zero_netplay\<lparr>np_device_share_modes := (\<lambda>_. 0xc)\<rparr>) 5 [0, 0, 0, 0, 0] zero_frame 0 3
     digital_keyboard = None"
  by (rule netplay_keyboard_vote_overruns)
    (simp_all add: zero_netplay_def NETPLAY_SHARE_DIGITAL_BITS_def NETPLAY_SHARE_DIGITAL_VOTE_def)

section \<open>Averages\<close>

definition analog_value :: "nat \<Rightarrow> nat \<Rightarrow> netplay_input_state \<Rightarrow> int" where
  "analog_value w b s = sint (ucast (drop_bit b (is_data s ! w) AND 0xffff) :: u16)"

lemma average_clients:
  assumes "\<And>c s. c < 32 \<Longrightarrow> netplay_device_client_state np f device c = Some s \<Longrightarrow> w < length (is_data s)" "n \<le> 32"
  shows "for_each [0..<n] (analog_client np f device NETPLAY_SHARE_ANALOG_AVERAGE clients w b) (0, 0) =
    Some (sum_list (map (analog_value w b) (voters np f device clients n)), of_nat (length (voters np f device clients n)))"
  using assms(2)
proof (induction n)
  case (Suc n)
  show ?case
  proof (cases "if bit clients n then netplay_device_client_state np f device n else None")
    case None
    then have "voters np f device clients (Suc n) = voters np f device clients n"
        "analog_client np f device NETPLAY_SHARE_ANALOG_AVERAGE clients w b n r = Some r" for r
      by (simp_all add: analog_client_def voters_Suc split: if_splits)
    then show ?thesis using Suc by (simp add: for_each_append)
  next
    case (Some s)
    then have s: "bit clients n" "netplay_device_client_state np f device n = Some s" by (auto split: if_splits)
    have "w < length (is_data s)" using assms(1) [OF _ s(2)] Suc.prems by simp
    then have "analog_client np f device NETPLAY_SHARE_ANALOG_AVERAGE clients w b n r = Some (fst r + analog_value w b s, snd r + 1)" for r
      using s by (simp add: analog_client_def mem_get_Some analog_value_def Let_def)
    moreover have "voters np f device clients (Suc n) = voters np f device clients n @ [s]" using s by (simp add: voters_Suc)
    ultimately show ?thesis using Suc by (simp add: for_each_append)
  qed
qed simp

text \<open>C39. The average of an analog part is the sum of the clients' values, taken as an unsigned number, divided by
  the number of the clients: it is their mean as long as the sum is not negative.\<close>

theorem netplay_analog_average:
  assumes "np_device_share_modes np device AND NETPLAY_SHARE_ANALOG_BITS = NETPLAY_SHARE_ANALOG_AVERAGE"
    and "\<And>c s. c < 32 \<Longrightarrow> netplay_device_client_state np simframe device c = Some s \<Longrightarrow> w < length (is_data s)"
    and "real_clients (df_real_input simframe device) sz clients = Some everyone"
    and "w < length data" "voters np simframe device everyone 32 \<noteq> []"
  defines "ss \<equiv> voters np simframe device everyone 32"
  shows "merge_analog_part np sz simframe device clients w b data =
    Some (data[w := data ! w OR push_bit b (ucast (word_of_int (sum_list (map (analog_value w b) ss) mod 2 ^ 32 div int (length ss)) :: u16))])"
proof -
  let ?s = "sum_list (map (analog_value w b) ss)"
  have n: "0 < length ss" "length ss \<le> 32" using assms(5) length_voters [of np simframe device everyone 32] by (simp_all add: ss_def)
  then have count: "(of_nat (length ss) :: u32) > 0" "uint (of_nat (length ss) :: u32) = int (length ss)"
    by (simp_all add: word_greater_zero_iff word_of_nat_eq_0_iff nat_dvd_not_less uint_nat unat_of_nat)
  have "uint ((word_of_int ?s :: u32) div of_nat (length ss)) = ?s mod 2 ^ 32 div int (length ss)"
    by (simp add: uint_div uint_word_of_int count(2))
  then have "ucast ((word_of_int ?s :: u32) div of_nat (length ss)) = (word_of_int (?s mod 2 ^ 32 div int (length ss)) :: u16)"
    by (metis ucast_eq)
  moreover have "for_each [0..<MAX_CLIENTS] (analog_client np simframe device NETPLAY_SHARE_ANALOG_AVERAGE everyone w b) (0, 0) =
      Some (?s, of_nat (length ss))"
    unfolding MAX_CLIENTS_def ss_def by (rule average_clients [OF assms(2)]) auto
  ultimately show ?thesis
    using assms(1,3,4) count(1) by (simp add: merge_analog_part_def mem_get_Some mem_set_Some Let_def)
qed

text \<open>Three players push a stick to the left by one each: the average is 21844, nearly to the right.\<close>

theorem netplay_analog_average_witness:
  "merge_analog_part (zero_netplay\<lparr>np_config_devices := (\<lambda>_. 5), np_device_share_modes := (\<lambda>_. 0x40)\<rparr>) 3
     (zero_frame\<lparr>df_real_input := (\<lambda>_. [input_of 0 [0, 0xffff, 0], input_of 1 [0, 0xffff, 0], input_of 2 [0, 0xffff, 0]])\<rparr>)
     0 7 1 0 [0, 0, 0] = Some [0, 21844, 0]"
proof -
  let ?np = "zero_netplay\<lparr>np_config_devices := (\<lambda>_. 5), np_device_share_modes := (\<lambda>_. 0x40)\<rparr>"
  let ?f = "zero_frame\<lparr>df_real_input := (\<lambda>_. [input_of 0 [0, 0xffff, 0], input_of 1 [0, 0xffff, 0], input_of 2 [0, 0xffff, 0]])\<rparr>"
  have size: "netplay_expected_input_size ?np 1 = 3"
    using expected_size_one [of 0 ?np] by (simp add: zero_netplay_def device_size_def device_defs RETRO_DEVICE_MASK_def MAX_INPUT_DEVICES_def)
  have state: "netplay_device_client_state ?np ?f 0 c =
      (if of_nat c = (0 :: u32) \<or> of_nat c = (1 :: u32) \<or> of_nat c = (2 :: u32) then Some (input_of (of_nat c) [0, 0xffff, 0]) else None)" for c
    unfolding netplay_device_client_state_def using size
    by (auto simp: input_lookup_def input_of_def zero_frame_def Let_def)
  have seven: "bit (7 :: u32) n \<longleftrightarrow> n < 3" for n
    using bit_mask_iff [of 3 n, where ?'a = "32 word"] by (auto simp: mask_eq_exp_minus_1)
  have ss: "voters ?np ?f 0 7 32 = [input_of 0 [0, 0xffff, 0], input_of 1 [0, 0xffff, 0], input_of 2 [0, 0xffff, 0]]"
  proof -
    have "voters ?np ?f 0 7 (3 + k) = [input_of 0 [0, 0xffff, 0], input_of 1 [0, 0xffff, 0], input_of 2 [0, 0xffff, 0]]" if "k \<le> 29" for k
      using that
    proof (induction k)
      case 0
      show ?case by (simp add: numeral_3_eq_3 voters_Suc state seven)
    next
      case (Suc k)
      have "\<not> bit (7 :: u32) (3 + k)" by (subst seven) simp
      then have "voters ?np ?f 0 7 (Suc (3 + k)) = voters ?np ?f 0 7 (3 + k)" unfolding voters_Suc by (simp only: if_False append_Nil2)
      then show ?case using Suc by (simp only: add_Suc_right)
    qed
    from this [of 29] show ?thesis by simp
  qed
  have "merge_analog_part ?np 3 ?f 0 7 1 0 [0, 0, 0] =
      Some ([0, 0, 0][1 := [0, 0, 0] ! 1 OR push_bit 0 (ucast (word_of_int (sum_list (map (analog_value 1 0) (voters ?np ?f 0 7 32)) mod 2 ^ 32
        div int (length (voters ?np ?f 0 7 32))) :: u16))])"
    by (rule netplay_analog_average)
      (auto simp: zero_netplay_def zero_frame_def input_of_def shift1_def state [unfolded zero_netplay_def zero_frame_def input_of_def, simplified] ss [unfolded zero_netplay_def zero_frame_def input_of_def, simplified]
        NETPLAY_SHARE_ANALOG_BITS_def NETPLAY_SHARE_ANALOG_AVERAGE_def split: if_splits)
  then show ?thesis unfolding ss by (simp add: analog_value_def input_of_def)
qed

end
