(* ===== verification/Netplay_Resolve.thy ===== *)
theory Netplay_Resolve
  imports Netplay_Merge
begin

text \<open>
  What resolving the input of a frame does (\<^verbatim>\<open>netplay_resolve_input\<close>): in a netplay whose inputs have their sizes
  it returns, changes nothing but the guesses and the resolved input of that frame, says whether the input
  that the core sees has changed, and for a frame whose input was read from everyone computes it from what was
  read, whatever had been guessed.
\<close>

unbundle bit_operations_syntax

section \<open>Well-formed inputs\<close>

definition input_ok :: "netplay_input_state \<Rightarrow> bool" where
  "input_ok s \<longleftrightarrow> length (is_data s) = unat (is_size s)"

abbreviation inputs_ok :: "netplay_input_state list \<Rightarrow> bool" where
  "inputs_ok l \<equiv> \<forall>s \<in> set l. input_ok s"

abbreviation dtype :: "netplay \<Rightarrow> nat \<Rightarrow> u32" where
  "dtype np d \<equiv> np_config_devices np d AND RETRO_DEVICE_MASK"

abbreviation dsize :: "netplay \<Rightarrow> nat \<Rightarrow> u32" where
  "dsize np d \<equiv> netplay_expected_input_size np (2 ^ d)"

text \<open>The inputs that were read, and the resolved ones, have the size of their device.\<close>

definition frame_ok :: "netplay \<Rightarrow> delta_frame \<Rightarrow> bool" where
  "frame_ok np f \<longleftrightarrow> (\<forall>d < MAX_INPUT_DEVICES.
     inputs_ok (df_real_input f d) \<and> inputs_ok (df_simlated_input f d) \<and>
     (\<forall>s \<in> set (df_resolved_input f d). input_ok s \<and> is_size s = dsize np d) \<and>
     (\<forall>s \<in> set (df_real_input f d). is_used s \<longrightarrow> unat (is_client_num s) < 32 \<and> is_size s = dsize np d \<and> dsize np d \<noteq> 0))"

text \<open>The buttons of a keyboard are not shared by a vote, and a device without words has no clients.\<close>

definition devices_ok :: "netplay \<Rightarrow> bool" where
  "devices_ok np \<longleftrightarrow> (\<forall>d < MAX_INPUT_DEVICES.
     (dtype np d = RETRO_DEVICE_KEYBOARD \<longrightarrow>
        np_device_share_modes np d AND NETPLAY_SHARE_DIGITAL_BITS \<noteq> NETPLAY_SHARE_DIGITAL_VOTE) \<and>
     (dsize np d = 0 \<longrightarrow> np_device_clients np d = 0))"

definition np_ok :: "netplay \<Rightarrow> bool" where
  "np_ok np \<longleftrightarrow> length (np_buffer np) = np_buffer_size np \<and> 0 < np_buffer_size np \<and>
     (\<forall>f \<in> set (np_buffer np). frame_ok np f) \<and> (\<forall>c < MAX_CLIENTS. np_read_ptr np c < np_buffer_size np) \<and> devices_ok np"

lemma set_frame_simps [simp]:
  "np_config_devices (set_frame p f np) = np_config_devices np"
  "np_device_share_modes (set_frame p f np) = np_device_share_modes np"
  "np_device_clients (set_frame p f np) = np_device_clients np"
  "np_read_ptr (set_frame p f np) = np_read_ptr np"
  "np_read_frame_count (set_frame p f np) = np_read_frame_count np"
  "np_buffer (set_frame p f np) = (np_buffer np)[p := f]"
  "np_buffer_size (set_frame p f np) = np_buffer_size np"
  "PREV_PTR (set_frame p f np) x = PREV_PTR np x"
  "NEXT_PTR (set_frame p f np) x = NEXT_PTR np x"
  "set_frame p g (set_frame p f np) = set_frame p g np"
  by (simp_all add: set_frame_def PREV_PTR_def NEXT_PTR_def)

lemma size_set_frame [simp]: "netplay_expected_input_size (set_frame p f np) b = netplay_expected_input_size np b"
  unfolding netplay_expected_input_size_def set_frame_simps ..

lemma client_state_set_frame [simp]:
  "netplay_device_client_state (set_frame p g np) f d c = netplay_device_client_state np f d c"
  unfolding netplay_device_client_state_def size_set_frame set_frame_simps ..

lemma merge_digital_set_frame [simp]:
  "netplay_merge_digital (set_frame p g np) sz data f d clients digital = netplay_merge_digital np sz data f d clients digital"
  unfolding netplay_merge_digital_def vote_client_def [abs_def] combine_client_def [abs_def] client_state_set_frame set_frame_simps ..

lemma merge_analog_set_frame [simp]:
  "netplay_merge_analog (set_frame p g np) sz data f d clients t = netplay_merge_analog np sz data f d clients t"
  unfolding netplay_merge_analog_def merge_analog_part_def analog_client_def [abs_def] client_state_set_frame set_frame_simps ..

lemma set_frame_same: "p < length (np_buffer np) \<Longrightarrow> np_buffer np ! p = f \<Longrightarrow> set_frame p f np = np"
  by (auto simp: set_frame_def)

lemma frame_ok_set_frame [simp]: "frame_ok (set_frame p g np) f \<longleftrightarrow> frame_ok np f"
  unfolding frame_ok_def size_set_frame ..

lemma set_simlated_simps [simp]:
  "df_real_input (set_simlated d l f) = df_real_input f"
  "df_resolved_input (set_simlated d l f) = df_resolved_input f"
  "df_frame (set_simlated d l f) = df_frame f"
  "df_simlated_input (set_simlated d l f) d = l"
  "set_simlated d l' (set_simlated d l f) = set_simlated d l' f"
  by (simp_all add: set_simlated_def)

section \<open>Lists of inputs\<close>

lemma input_state_for_found:
  "netplay_input_state_for alloc l c sz mc False = (l', Some i) \<Longrightarrow>
    i < length l' \<and> is_used (l' ! i) \<and> is_client_num (l' ! i) = c \<and> is_size (l' ! i) = sz \<and> (inputs_ok l \<longrightarrow> inputs_ok l')"
proof (induction l arbitrary: l' i)
  case Nil
  then show ?case by (auto simp: input_ok_def split: if_splits)
next
  case (Cons r l)
  show ?case
  proof (cases "(\<not> is_used r \<and> is_size r = sz) \<or> (is_used r \<and> is_client_num r = c)")
    case True
    then show ?thesis using Cons.prems by (auto simp: input_ok_def split: if_splits)
  next
    case False
    then obtain l1 i1 where "netplay_input_state_for alloc l c sz mc False = (l1, Some i1)" "l' = r # l1" "i = Suc i1"
      using Cons.prems by (auto split: prod.splits if_splits)
    then show ?thesis using Cons.IH by auto
  qed
qed

lemma input_state_for_none: "netplay_input_state_for alloc l c sz mc mnc = (l', None) \<Longrightarrow> l' = l"
  by (induction l arbitrary: l') (auto split: if_splits prod.splits)

lemma lookup_simps [simp]:
  "input_lookup [] c sz = None"
  "input_lookup (r # l) c sz =
    (if is_used r \<and> is_client_num r = c then if is_size r = sz then Some r else None else input_lookup l c sz)"
  by (auto simp: input_lookup_def split: prod.splits option.splits)

lemma lookup_Some: "input_lookup l c sz = Some s \<Longrightarrow> s \<in> set l \<and> is_used s \<and> is_client_num s = c \<and> is_size s = sz"
  by (induction l) (auto split: if_splits)

lemma lookup_length: "input_lookup l c sz = Some s \<Longrightarrow> inputs_ok l \<Longrightarrow> length (is_data s) = unat sz"
  by (auto dest!: lookup_Some simp: input_ok_def)

lemma lookup_used:
  "s \<in> set l \<Longrightarrow> is_used s \<Longrightarrow> \<forall>s \<in> set l. is_used s \<longrightarrow> is_size s = sz \<Longrightarrow> input_lookup l (is_client_num s) sz \<noteq> None"
  by (induction l) auto

lemma real_clients_Some:
  "\<forall>s \<in> set l. is_used s \<longrightarrow> unat (is_client_num s) < 32 \<Longrightarrow>
    \<exists>r. real_clients l sz clients = Some r \<and> (\<forall>c. bit r c \<longrightarrow> bit clients c \<or> (\<exists>s \<in> set l. is_used s \<and> c = unat (is_client_num s)))"
proof (induction l arbitrary: clients)
  case (Cons s l)
  show ?case
  proof (cases "\<not> is_used s \<or> is_size s \<noteq> sz")
    case False
    obtain r where "real_clients l sz (clients OR push_bit (unat (is_client_num s)) 1) = Some r"
        "\<And>c. bit r c \<Longrightarrow> bit (clients OR push_bit (unat (is_client_num s)) 1) c \<or> (\<exists>s \<in> set l. is_used s \<and> c = unat (is_client_num s))"
      using Cons by fastforce
    then show ?thesis using False Cons.prems by (auto simp: shift1_def bit_simps)
  qed (use Cons in fastforce)
qed simp

section \<open>Merging is defined\<close>

lemma device_sizes:
  assumes "d < MAX_INPUT_DEVICES"
  shows "dtype np d = RETRO_DEVICE_JOYPAD \<Longrightarrow> dsize np d = 1"
    and "dtype np d = RETRO_DEVICE_ANALOG \<Longrightarrow> dsize np d = 3"
    and "dtype np d = RETRO_DEVICE_KEYBOARD \<Longrightarrow> dsize np d = 5"
    and "dtype np d = RETRO_DEVICE_MOUSE \<Longrightarrow> dsize np d = 2"
    and "dtype np d = RETRO_DEVICE_LIGHTGUN \<Longrightarrow> dsize np d = 2"
    and "dtype np d \<noteq> RETRO_DEVICE_KEYBOARD \<Longrightarrow> unat (dsize np d) \<le> 3" and "unat (dsize np d) \<le> 5"
    and "dsize np d \<noteq> 0 \<Longrightarrow> dtype np d \<noteq> RETRO_DEVICE_JOYPAD \<Longrightarrow> dtype np d \<noteq> RETRO_DEVICE_KEYBOARD \<Longrightarrow> 2 \<le> unat (dsize np d)"
  unfolding expected_size_one [OF assms, simplified] device_size_def device_defs by (auto split: if_splits)

lemma merge_digital_some:
  assumes "\<And>c s. c < 32 \<Longrightarrow> netplay_device_client_state np f d c = Some s \<Longrightarrow> length (is_data s) = unat sz"
    and "real_clients (df_real_input f d) sz clients = Some everyone" "unat sz \<le> length digital" "length data = unat sz"
    and "np_device_share_modes np d AND NETPLAY_SHARE_DIGITAL_BITS = NETPLAY_SHARE_DIGITAL_VOTE \<longrightarrow> unat sz \<le> 3"
  shows "\<exists>data'. netplay_merge_digital np sz data f d clients digital = Some data' \<and> length data' = unat sz"
  using vote_bits [where np = np and f = f and device = d and sz = sz and digital = digital and data = data and clients = everyone]
    combine_clients [where np = np and f = f and device = d and sz = sz and digital = digital and data = data
      and clients = everyone and n = 32 and m = "np_device_share_modes np d AND NETPLAY_SHARE_DIGITAL_BITS"] assms
  by (fastforce simp: netplay_merge_digital_def MAX_CLIENTS_def Let_def)

lemma merge_analog_part_some:
  assumes "\<And>c s. c < 32 \<Longrightarrow> netplay_device_client_state np f d c = Some s \<Longrightarrow> w < length (is_data s)"
    and "real_clients (df_real_input f d) sz clients = Some everyone" "w < length data"
  shows "\<exists>data'. merge_analog_part np sz f d clients w b data = Some data' \<and> length data' = length data"
proof -
  let ?step = "analog_client np f d (np_device_share_modes np d AND NETPLAY_SHARE_ANALOG_BITS) everyone w b"
  have "\<exists>r. ?step c s = Some r" if "c < 32" for c s
    using assms(1) [OF that] by (auto simp: analog_client_def mem_get_Some Let_def split: option.split)
  then obtain r where "for_each [0..<MAX_CLIENTS] ?step (0, 0) = Some r"
    using for_each_induct [where P = "\<lambda>_ _. True" and f = ?step and n = 32 and s = "(0, 0)"] by (auto simp: MAX_CLIENTS_def)
  then show ?thesis using assms(2,3) by (cases r) (simp add: merge_analog_part_def mem_get_Some mem_set_Some Let_def)
qed

lemma merge_analog_some:
  assumes "\<And>c s. c < 32 \<Longrightarrow> netplay_device_client_state np f d c = Some s \<Longrightarrow> length (is_data s) = unat (dsize np d)"
    and "real_clients (df_real_input f d) (dsize np d) clients = Some everyone" "length data = unat (dsize np d)"
    and "d < MAX_INPUT_DEVICES" "dsize np d \<noteq> 0"
  shows "\<exists>data'. netplay_merge_analog np (dsize np d) data f d clients (dtype np d) = Some data' \<and> length data' = unat (dsize np d)"
proof (cases "dtype np d = RETRO_DEVICE_JOYPAD \<or> dtype np d = RETRO_DEVICE_KEYBOARD")
  case True
  then show ?thesis using assms(3) by (auto simp: netplay_merge_analog_def)
next
  case False
  then have two: "2 \<le> unat (dsize np d)" using device_sizes(8) [OF assms(4,5)] by blast
  have part: "\<exists>data'. merge_analog_part np (dsize np d) f d clients w b data = Some data' \<and> length data' = unat (dsize np d)"
    if "length data = unat (dsize np d)" "w < unat (dsize np d)" for w b data
    using merge_analog_part_some [where np = np and f = f and d = d and w = w and data = data and b = b, OF _ assms(2)] assms(1) that by auto
  obtain d1 where d1: "merge_analog_part np (dsize np d) f d clients 1 0 data = Some d1" "length d1 = unat (dsize np d)"
    using part [OF assms(3), of 1 0] two by auto
  obtain d2 where d2: "merge_analog_part np (dsize np d) f d clients 1 16 d1 = Some d2" "length d2 = unat (dsize np d)"
    using part [OF d1(2), of 1 16] two by auto
  show ?thesis
  proof (cases "dtype np d = RETRO_DEVICE_ANALOG")
    case True
    then have three: "2 < unat (dsize np d)" using device_sizes(2) [OF assms(4), of np] by simp
    obtain d3 where d3: "merge_analog_part np (dsize np d) f d clients 2 0 d2 = Some d3" "length d3 = unat (dsize np d)"
      using part [OF d2(2) three, of 0] by auto
    obtain d4 where "merge_analog_part np (dsize np d) f d clients 2 16 d3 = Some d4" "length d4 = unat (dsize np d)"
      using part [OF d3(2) three, of 16] by auto
    then show ?thesis using True False d1(1) d2(1) d3(1) by (simp add: netplay_merge_analog_def)
  qed (use False d1(1) d2 in \<open>simp add: netplay_merge_analog_def\<close>)
qed

section \<open>The clients of a device\<close>

lemma client_state_length:
  assumes "frame_ok np f" "d < MAX_INPUT_DEVICES" "netplay_device_client_state np f d c = Some s"
  shows "length (is_data s) = unat (dsize np d)"
  using assms by (auto simp: netplay_device_client_state_def frame_ok_def Let_def dest: lookup_length split: option.splits if_splits)

lemma copy_input_some:
  assumes "d < MAX_INPUT_DEVICES" "length data = unat (dsize np d)" "length pdata = unat (dsize np d)"
  shows "\<exists>e. copy_input resim (dtype np d) (dsize np d) data pdata = Some e \<and> length e = unat (dsize np d)"
proof (cases "resim \<and> (dtype np d = RETRO_DEVICE_JOYPAD \<or> dtype np d = RETRO_DEVICE_ANALOG)")
  case True
  then have "0 < unat (dsize np d)" using device_sizes(1,2) [OF assms(1), of np] by auto
  then show ?thesis using assms(2,3) True by (simp add: copy_input_def mem_get_Some mem_set_Some)
next
  case False
  then show ?thesis using assms(2,3) unfolding copy_input_def if_not_P [OF False] by (simp add: mem_read_Some mem_write_Some)
qed

text \<open>A client's turn only changes the guesses.\<close>

lemma resolve_client_some:
  assumes ok: "np_ok np" and p: "p < np_buffer_size np" and d: "d < MAX_INPUT_DEVICES" and c: "c < 32"
    and f: "f = np_buffer np ! p" and l: "inputs_ok l" and cs: "cc = 0 \<or> length cs = unat (dsize np d)"
  shows "\<exists>l' cs' cc'. resolve_client alloc p resim d (dtype np d) (dsize np d) clients c
      (set_frame p (set_simlated d l f) np, cs, of_nat cc) = Some (set_frame p (set_simlated d l' f) np, cs', of_nat cc') \<and>
    inputs_ok l' \<and> cc' \<le> Suc cc \<and> (cc' = 0 \<or> length cs' = unat (dsize np d))"
proof -
  let ?sz = "dsize np d" and ?np = "set_frame p (set_simlated d l f) np"
  have lens: "p < length (np_buffer np)" "length (np_buffer np) = np_buffer_size np" using ok p by (auto simp: np_ok_def)
  have frame: "mem_get ((np_buffer np)[p := g]) p = Some g" for g using lens by (simp add: mem_get_Some)
  have okf: "frame_ok np f" using ok lens f by (auto simp: np_ok_def)
  have prev: "PREV_PTR np (np_read_ptr np c) < length (np_buffer np)"
    using ok c by (auto simp: np_ok_def PREV_PTR_def MAX_CLIENTS_def less_imp_diff_less)
  have okp: "inputs_ok (df_real_input g d)" if "g = f \<or> g \<in> set (np_buffer np)" for g
    using that ok okf d by (auto simp: np_ok_def frame_ok_def)
  have turn: "resolve_client alloc p resim d (dtype np d) ?sz clients c (?np, cs, of_nat cc) =
     (if \<not> bit clients c then Some (?np, cs, of_nat cc)
      else (case input_lookup (df_real_input f d) (of_nat c) ?sz of
          Some s \<Rightarrow> Some (?np, is_data s, of_nat (Suc cc))
        | None \<Rightarrow>
            if np_read_frame_count np c > df_frame f then Some (?np, cs, of_nat cc)
            else (case netplay_input_state_for alloc l (of_nat c) ?sz False False of
                (l, None) \<Rightarrow> Some (set_frame p (set_simlated d l f) np, cs, of_nat cc)
              | (l, Some i) \<Rightarrow>
                  Option.bind (mem_get ((np_buffer np)[p := set_simlated d l f]) (PREV_PTR np (np_read_ptr np c))) (\<lambda>pframe.
                  (case input_lookup (df_real_input pframe d) (of_nat c) ?sz of
                     None \<Rightarrow> Some (set_frame p (set_simlated d l f) np, cs, of_nat cc)
                   | Some q \<Rightarrow> Option.bind (copy_input resim (dtype np d) ?sz (is_data (l ! i)) (is_data q)) (\<lambda>data.
                       Some (set_frame p (set_simlated d (l[i := (l ! i)\<lparr>is_data := data\<rparr>]) f) np, data, of_nat (Suc cc))))))))"
    unfolding resolve_client_def
    by (simp add: frame add.commute Let_def cong: option.case_cong prod.case_cong)
  show ?thesis
  proof (cases "bit clients c \<and> input_lookup (df_real_input f d) (of_nat c) ?sz = None \<and> \<not> np_read_frame_count np c > df_frame f")
    case False
    show ?thesis
    proof (cases "if bit clients c then input_lookup (df_real_input f d) (of_nat c) ?sz else None")
      case None
      then have "resolve_client alloc p resim d (dtype np d) ?sz clients c (?np, cs, of_nat cc) = Some (?np, cs, of_nat cc)"
        using False unfolding turn by (simp split: if_splits)
      then show ?thesis using l cs by (intro exI [of _ l] exI [of _ cs] exI [of _ cc]) simp
    next
      case (Some s)
      then have "bit clients c" and s: "input_lookup (df_real_input f d) (of_nat c) ?sz = Some s" by (auto split: if_splits)
      then have "resolve_client alloc p resim d (dtype np d) ?sz clients c (?np, cs, of_nat cc) = Some (?np, is_data s, of_nat (Suc cc))"
        unfolding turn by simp
      then show ?thesis using l lookup_length [OF s okp [of f]]
        by (intro exI [of _ l] exI [of _ "is_data s"] exI [of _ "Suc cc"]) simp
    qed
  next
    case True
    obtain l1 i1 where st: "netplay_input_state_for alloc l (of_nat c) ?sz False False = (l1, i1)" by fastforce
    show ?thesis
    proof (cases i1)
      case None
      then show ?thesis using True st l cs input_state_for_none [of alloc l "of_nat c" ?sz False False l1]
        unfolding turn by (auto intro!: exI [of _ cc])
    next
      case (Some i)
      then have i: "i < length l1" "is_size (l1 ! i) = ?sz" "inputs_ok l1"
        using input_state_for_found [of alloc l "of_nat c" ?sz False l1 i] st l by auto
      let ?pf = "(np_buffer np)[p := set_simlated d l1 f] ! PREV_PTR np (np_read_ptr np c)"
      have pf: "inputs_ok (df_real_input ?pf d)"
        using okp [of f] okp [of "np_buffer np ! PREV_PTR np (np_read_ptr np c)"] prev lens(1)
        by (auto simp: nth_list_update set_simlated_def)
      show ?thesis
      proof (cases "input_lookup (df_real_input ?pf d) (of_nat c) ?sz")
        case None
        then show ?thesis using True st Some i(3) cs prev unfolding turn
          by (auto simp: mem_get_Some intro!: exI [of _ l1] exI [of _ cc])
      next
        case (Some q)
        have "length (is_data (l1 ! i)) = unat ?sz" using i by (metis input_ok_def nth_mem)
        then obtain e where e: "copy_input resim (dtype np d) ?sz (is_data (l1 ! i)) (is_data q) = Some e" "length e = unat ?sz"
          using copy_input_some [OF d _ lookup_length [OF Some pf]] by blast
        have "inputs_ok (l1[i := (l1 ! i)\<lparr>is_data := e\<rparr>])"
          using i e(2) by (auto simp: input_ok_def dest!: set_update_subset_insert [THEN subsetD])
        then show ?thesis using True st \<open>i1 = Some i\<close> Some e prev unfolding turn
          by (auto simp: mem_get_Some intro!: exI [of _ "Suc cc"])
      qed
    qed
  qed
qed

lemma resolve_clients_some:
  assumes ok: "np_ok np" and p: "p < np_buffer_size np" and d: "d < MAX_INPUT_DEVICES" and f: "f = np_buffer np ! p"
  shows "\<exists>l cs cc. for_each [0..<MAX_CLIENTS] (resolve_client alloc p resim d (dtype np d) (dsize np d) clients) (np, [], 0) =
      Some (set_frame p (set_simlated d l f) np, cs, of_nat cc) \<and>
    inputs_ok l \<and> cc \<le> 32 \<and> (cc = 0 \<or> length cs = unat (dsize np d))"
proof -
  let ?P = "\<lambda>n r. \<exists>l cs cc. r = (set_frame p (set_simlated d l f) np, cs, of_nat cc) \<and> inputs_ok l \<and> cc \<le> n \<and>
    (cc = 0 \<or> length cs = unat (dsize np d))"
  have len: "p < length (np_buffer np)" using ok p by (auto simp: np_ok_def)
  have "set_frame p (set_simlated d (df_simlated_input f d) f) np = np"
    by (rule set_frame_same [OF len]) (simp add: f set_simlated_def)
  moreover
  have "frame_ok np f" using ok f len by (simp add: np_ok_def)
  then have "inputs_ok (df_simlated_input f d)" using d by (simp add: frame_ok_def)
  ultimately have "?P 0 (np, [], 0)" by (intro exI [of _ "df_simlated_input f d"] exI [of _ "[]"] exI [of _ 0]) simp
  moreover have "\<exists>r'. resolve_client alloc p resim d (dtype np d) (dsize np d) clients i r = Some r' \<and> ?P (Suc i) r'"
    if i: "i < 32" and inv: "?P i r" for i r
  proof -
    obtain l cs cc where r: "r = (set_frame p (set_simlated d l f) np, cs, of_nat cc)" "inputs_ok l" "cc \<le> i"
        "cc = 0 \<or> length cs = unat (dsize np d)" using inv by blast
    obtain l' cs' cc' where "resolve_client alloc p resim d (dtype np d) (dsize np d) clients i r =
        Some (set_frame p (set_simlated d l' f) np, cs', of_nat cc')" "inputs_ok l'" "cc' \<le> Suc cc"
        "cc' = 0 \<or> length cs' = unat (dsize np d)"
      unfolding r(1) using resolve_client_some [OF ok p d i f r(2,4), of alloc resim clients] by blast
    moreover have "cc' \<le> Suc i" using calculation(3) r(3) by simp
    ultimately show ?thesis by blast
  qed
  ultimately have "\<exists>r. for_each [0..<32] (resolve_client alloc p resim d (dtype np d) (dsize np d) clients) (np, [], 0) = Some r \<and> ?P 32 r"
    by (rule for_each_induct [where P = ?P]) simp_all
  then show ?thesis unfolding MAX_CLIENTS_def by blast
qed

text \<open>Everybody's input for a frame is there, or was there and did not contain this device.\<close>

definition all_real :: "netplay \<Rightarrow> delta_frame \<Rightarrow> nat \<Rightarrow> u32 \<Rightarrow> bool" where
  "all_real np f d clients \<longleftrightarrow> (\<forall>c < 32. bit clients c \<longrightarrow>
     input_lookup (df_real_input f d) (of_nat c) (dsize np d) \<noteq> None \<or> np_read_frame_count np c > df_frame f)"

lemma all_real_state:
  "all_real np f d clients \<Longrightarrow> c < 32 \<Longrightarrow> bit clients c \<Longrightarrow>
    netplay_device_client_state np f d c = input_lookup (df_real_input f d) (of_nat c) (dsize np d)"
  by (auto simp: all_real_def netplay_device_client_state_def Let_def split: option.split)

lemma resolve_clients_real:
  assumes real: "all_real np f d clients" and frame: "mem_get (np_buffer np) p = Some f" and n: "n \<le> 32"
  shows "for_each [0..<n] (resolve_client alloc p resim d t (dsize np d) clients) (np, [], 0) =
    (let ss = voters np f d clients n in Some (np, if ss = [] then [] else is_data (last ss), of_nat (length ss)))"
  using n
proof (induction n)
  case (Suc n)
  have IH: "for_each [0..<n] (resolve_client alloc p resim d t (dsize np d) clients) (np, [], 0) =
    (let ss = voters np f d clients n in Some (np, if ss = [] then [] else is_data (last ss), of_nat (length ss)))"
    using Suc by simp
  show ?case
  proof (cases "bit clients n")
    case True
    have look: "netplay_device_client_state np f d n = input_lookup (df_real_input f d) (of_nat n) (dsize np d)"
      using all_real_state [OF real _ True] Suc.prems by simp
    show ?thesis
    proof (cases "input_lookup (df_real_input f d) (of_nat n) (dsize np d)")
      case None
      then have "np_read_frame_count np n > df_frame f" using real True Suc.prems unfolding all_real_def by (metis Suc_le_lessD)
      then have "resolve_client alloc p resim d t (dsize np d) clients n (np, cs, cc) = Some (np, cs, cc)" for cs cc
        using None frame by (simp add: resolve_client_def)
      then show ?thesis using IH look None by (simp add: for_each_append voters_Suc Let_def)
    next
      case (Some s)
      then have "resolve_client alloc p resim d t (dsize np d) clients n (np, cs, cc) = Some (np, is_data s, cc + 1)" for cs cc
        using True frame by (simp add: resolve_client_def)
      then show ?thesis using IH look True Some by (simp add: for_each_append voters_Suc Let_def)
    qed
  next
    case False
    then have "resolve_client alloc p resim d t (dsize np d) clients n (np, cs, cc) = Some (np, cs, cc)" for cs cc
      by (simp add: resolve_client_def)
    then show ?thesis using IH False by (simp add: for_each_append voters_Suc Let_def)
  qed
qed simp

section \<open>Storing the result\<close>

text \<open>The input that the core is given is the first in the list.\<close>

definition shown :: "netplay_input_state list \<Rightarrow> u32 \<Rightarrow> bool" where
  "shown l sz \<longleftrightarrow> (case l of [] \<Rightarrow> False | s # _ \<Rightarrow> is_used s \<and> is_client_num s = 0 \<and> is_size s = sz \<and> input_ok s)"

abbreviation shown_words :: "netplay_input_state list \<Rightarrow> u32 list" where
  "shown_words l \<equiv> is_data (hd l)"

abbreviation sized :: "u32 \<Rightarrow> netplay_input_state list \<Rightarrow> bool" where
  "sized sz l \<equiv> \<forall>s \<in> set l. input_ok s \<and> is_size s = sz"

lemma head_for:
  assumes "sized sz l"
  shows "\<exists>s r. netplay_input_state_for (\<lambda>_. True) (dropWhile (\<lambda>r. is_size r \<noteq> sz \<or> is_client_num r \<noteq> 0) l) 0 sz False False =
      (s # r, Some 0) \<and> is_used s \<and> is_client_num s = 0 \<and> sized sz (s # r) \<and> (shown l sz \<longrightarrow> s = hd l)"
proof (cases "dropWhile (\<lambda>r. is_size r \<noteq> sz \<or> is_client_num r \<noteq> 0) l")
  case Nil
  then have "\<not> shown l sz" by (cases l) (auto simp: shown_def split: if_splits)
  then show ?thesis unfolding Nil by (simp add: input_ok_def)
next
  case (Cons s r)
  have s: "is_size s = sz" "is_client_num s = 0"
    using hd_dropWhile [of "\<lambda>r. is_size r \<noteq> sz \<or> is_client_num r \<noteq> 0" l] unfolding Cons by auto
  have ok: "sized sz (s # r)" using assms set_dropWhileD [of _ "\<lambda>r. is_size r \<noteq> sz \<or> is_client_num r \<noteq> 0" l] unfolding Cons by blast
  have hd: "s = hd l" if "shown l sz"
    using that Cons by (cases l) (auto simp: shown_def split: if_splits)
  show ?thesis
  proof (cases "is_used s")
    case True
    then show ?thesis unfolding Cons using s ok hd by (intro exI [of _ s] exI [of _ r]) simp
  next
    case False
    have "\<not> shown l sz" using False hd by (cases l) (auto simp: shown_def)
    then show ?thesis unfolding Cons using s ok False
      by (intro exI [of _ "s\<lparr>is_client_num := 0, is_used := True, is_data := replicate (unat sz) 0\<rparr>"] exI [of _ r])
        (simp add: input_ok_def)
  qed
qed

lemma second_found:
  "sized sz l \<Longrightarrow> \<exists>l' i. netplay_input_state_for (\<lambda>_. True) l c sz False False = (l', Some i) \<and> i < length l' \<and> sized sz l'"
proof (induction l)
  case (Cons s l)
  then obtain l' i where "netplay_input_state_for (\<lambda>_. True) l c sz False False = (l', Some i)" "i < length l'" "sized sz l'" by auto
  then have l': "netplay_input_state_for (\<lambda>_. True) l c sz False False = (l', Some i)" "i < length l'" "sized sz l'" by auto
  have sz: "is_size s = sz" using Cons.prems by simp
  show ?case
  proof (cases "is_used s \<and> is_client_num s \<noteq> c")
    case True
    then have "netplay_input_state_for (\<lambda>_. True) (s # l) c sz False False = (s # l', Some (Suc i))" using l'(1) by simp
    moreover have "sized sz (s # l')" using Cons.prems l'(3) by simp
    ultimately show ?thesis using l'(2) by (intro exI [of _ "s # l'"] exI [of _ "Suc i"]) simp
  next
    case False
    let ?s = "if is_used s then s else s\<lparr>is_client_num := c, is_used := True, is_data := replicate (unat sz) 0\<rparr>"
    have "netplay_input_state_for (\<lambda>_. True) (s # l) c sz False False = (?s # l, Some 0)" using False sz by auto
    moreover have "sized sz (?s # l)" using Cons.prems sz by (simp add: input_ok_def)
    ultimately show ?thesis by (intro exI [of _ "?s # l"] exI [of _ 0]) simp
  qed
qed (simp add: input_ok_def)

lemma second_for:
  assumes "is_used s" "is_client_num s = 0" "sized sz (s # r)"
  shows "\<exists>r' i. netplay_input_state_for (\<lambda>_. True) (s # r) 1 sz False False = (s # r', Some (Suc i)) \<and> sized sz r' \<and> i < length r'"
  using second_found [of r sz 1] assms by auto

text \<open>The words of a device that several clients share.\<close>

definition merged :: "netplay \<Rightarrow> delta_frame \<Rightarrow> nat \<Rightarrow> u32 \<Rightarrow> u32 list option" where
  "merged np f d clients = do {
     data \<leftarrow> netplay_merge_digital np (dsize np d) (replicate (unat (dsize np d)) 0) f d clients
       (if dtype np d = RETRO_DEVICE_KEYBOARD then digital_keyboard else digital_common);
     netplay_merge_analog np (dsize np d) data f d clients (dtype np d)
   }"

lemma merged_some:
  assumes "devices_ok np" "frame_ok np f" "d < MAX_INPUT_DEVICES" "dsize np d \<noteq> 0"
    and "real_clients (df_real_input f d) (dsize np d) clients = Some everyone"
  shows "\<exists>data. merged np f d clients = Some data \<and> length data = unat (dsize np d)"
proof -
  let ?digital = "if dtype np d = RETRO_DEVICE_KEYBOARD then digital_keyboard else digital_common"
  have sizes: "unat (dsize np d) \<le> length ?digital"
      "np_device_share_modes np d AND NETPLAY_SHARE_DIGITAL_BITS = NETPLAY_SHARE_DIGITAL_VOTE \<longrightarrow> unat (dsize np d) \<le> 3"
    using device_sizes(6,7) [OF assms(3), of np] assms(1,3)
    by (auto simp: digital_keyboard_def digital_common_def devices_ok_def)
  have states: "length (is_data s) = unat (dsize np d)" if "netplay_device_client_state np f d c = Some s" for c s
    using client_state_length [OF assms(2,3) that] .
  have "\<exists>data. netplay_merge_digital np (dsize np d) (replicate (unat (dsize np d)) 0) f d clients ?digital = Some data \<and>
      length data = unat (dsize np d)"
    by (rule merge_digital_some [OF _ assms(5) sizes(1) _ sizes(2)]) (auto dest: states)
  then obtain data where data: "netplay_merge_digital np (dsize np d) (replicate (unat (dsize np d)) 0) f d clients ?digital = Some data"
      "length data = unat (dsize np d)" by blast
  have "\<exists>e. netplay_merge_analog np (dsize np d) data f d clients (dtype np d) = Some e \<and> length e = unat (dsize np d)"
    by (rule merge_analog_some [OF _ assms(5) data(2) assms(3,4)]) (auto dest: states)
  then show ?thesis using data(1) by (simp add: merged_def)
qed

lemma set_resolved_simps [simp]:
  "df_real_input (set_resolved d l f) = df_real_input f"
  "df_simlated_input (set_resolved d l f) = df_simlated_input f"
  "df_frame (set_resolved d l f) = df_frame f"
  "df_resolved_input (set_resolved d l f) d = l"
  by (simp_all add: set_resolved_def)

lemma resolve_store_some:
  assumes dev: "devices_ok np" and okf: "frame_ok np f" and d: "d < MAX_INPUT_DEVICES"
    and frame: "mem_get (np_buffer np) p = Some f" and cc: "cc \<le> 32" "cc = 0 \<or> length cs = unat (dsize np d)"
    and none: "dsize np d = 0 \<Longrightarrow> cc \<le> 1"
    and everyone: "real_clients (df_real_input f d) (dsize np d) clients = Some everyone"
  shows "\<exists>l ch. resolve_store (\<lambda>_. True) p d (dtype np d) (dsize np d) clients cs (of_nat cc) (np, ret) =
      Some (set_frame p (set_resolved d l f) np, ret \<or> ch) \<and> shown l (dsize np d) \<and> sized (dsize np d) l \<and>
    (\<not> ch \<longrightarrow> shown (df_resolved_input f d) (dsize np d) \<longrightarrow> shown_words l = shown_words (df_resolved_input f d)) \<and>
    Some (shown_words l) = (if cc = 1 then Some cs else if cc = 0 then Some (replicate (unat (dsize np d)) 0) else merged np f d clients)"
proof -
  let ?sz = "dsize np d"
  have "sized ?sz (df_resolved_input f d)" using okf d by (simp add: frame_ok_def)
  then obtain s r where head: "netplay_input_state_for (\<lambda>_. True)
        (dropWhile (\<lambda>r. is_size r \<noteq> ?sz \<or> is_client_num r \<noteq> 0) (df_resolved_input f d)) 0 ?sz False False = (s # r, Some 0)"
      and s: "is_used s" "is_client_num s = 0" "sized ?sz (s # r)" "shown (df_resolved_input f d) ?sz \<longrightarrow> s = hd (df_resolved_input f d)"
    using head_for [of "df_resolved_input f d" ?sz] by blast
  have len: "length (is_data s) = unat ?sz" using s(3) by (simp add: input_ok_def)
  have new: "shown (s\<lparr>is_data := e\<rparr> # t) ?sz" "sized ?sz (s\<lparr>is_data := e\<rparr> # t)"
    if "length e = unat ?sz" "sized ?sz t" for e t
    using that s by (auto simp: shown_def input_ok_def)
  have num: "(of_nat cc :: u32) = 1 \<longleftrightarrow> cc = 1" "(of_nat cc :: u32) = 0 \<longleftrightarrow> cc = 0"
    using cc(1) by (auto simp: word_unat_eq_iff unat_of_nat)
  let ?store = "\<lambda>t e ch. Some (set_frame p (set_resolved d (s\<lparr>is_data := e\<rparr> # t) f) np, ret \<or> ch)"
  have store: "resolve_store (\<lambda>_. True) p d (dtype np d) ?sz clients cs (of_nat cc) (np, ret) =
     (if cc = 1 then ?store r cs (is_data s \<noteq> cs)
      else if cc = 0 then ?store r (replicate (unat ?sz) 0) (\<exists>w \<in> set (is_data s). w \<noteq> 0)
      else (case netplay_input_state_for (\<lambda>_. True) (s # r) 1 ?sz False False of
          (l, None) \<Rightarrow> Some (set_frame p (set_resolved d l f) np, ret)
        | (l, Some j) \<Rightarrow> Option.bind (mem_write (is_data (l ! j)) 0 (is_data s)) (\<lambda>olddata.
            Option.bind (merged np f d clients) (\<lambda>data. Option.bind (mem_read data 0 (unat ?sz)) (\<lambda>new.
              Some (set_frame p (set_resolved d ((l[j := (l ! j)\<lparr>is_data := olddata\<rparr>])[0 := ((l[j := (l ! j)\<lparr>is_data := olddata\<rparr>]) ! 0)\<lparr>is_data := data\<rparr>]) f) np,
                ret \<or> new \<noteq> is_data s))))))"
    using cc(2) len
    by (simp add: resolve_store_def frame head [simplified] num mem_read_Some mem_write_Some Let_def merged_def bind_assoc
        del: netplay_input_state_for.simps cong: option.case_cong prod.case_cong)
      (auto simp: mem_read_Some mem_write_Some)
  have finish: ?thesis
    if "resolve_store (\<lambda>_. True) p d (dtype np d) ?sz clients cs (of_nat cc) (np, ret) = ?store t e ch"
      "length e = unat ?sz" "sized ?sz t" "\<not> ch \<Longrightarrow> e = is_data s"
      "Some e = (if cc = 1 then Some cs else if cc = 0 then Some (replicate (unat ?sz) 0) else merged np f d clients)" for t e ch
  proof (intro exI conjI impI)
    assume "\<not> ch" "shown (df_resolved_input f d) ?sz"
    then show "shown_words (s\<lparr>is_data := e\<rparr> # t) = shown_words (df_resolved_input f d)" using that(4) s(4) by simp
  qed (use that(1) that(5) new [OF that(2,3)] in simp_all)
  consider "cc = 1" | "cc = 0" | "cc \<noteq> 1" "cc \<noteq> 0" by blast
  then show ?thesis
  proof cases
    case 1
    show ?thesis
    proof (rule finish)
      show "resolve_store (\<lambda>_. True) p d (dtype np d) ?sz clients cs (of_nat cc) (np, ret) = ?store r cs (is_data s \<noteq> cs)"
        unfolding store using 1 by simp
    qed (use 1 cc(2) s(3) in simp_all)
  next
    case 2
    show ?thesis
    proof (rule finish)
      show "resolve_store (\<lambda>_. True) p d (dtype np d) ?sz clients cs (of_nat cc) (np, ret) =
          ?store r (replicate (unat ?sz) 0) (\<exists>w \<in> set (is_data s). w \<noteq> 0)"
        unfolding store using 2 by simp
      show "\<not> (\<exists>w \<in> set (is_data s). w \<noteq> 0) \<Longrightarrow> replicate (unat ?sz) 0 = is_data s"
        using len by (metis replicate_eqI)
    qed (use 2 s(3) in simp_all)
  next
    case 3
    then have "?sz \<noteq> 0" using none by fastforce
    then obtain e where e: "merged np f d clients = Some e" "length e = unat ?sz"
      using merged_some [OF dev okf d _ everyone] by blast
    obtain r' i where second: "netplay_input_state_for (\<lambda>_. True) (s # r) 1 ?sz False False = (s # r', Some (Suc i))"
        "sized ?sz r'" "i < length r'" using second_for [OF s(1-3)] by blast
    let ?r = "r'[i := (r' ! i)\<lparr>is_data := is_data s\<rparr>]"
    have "length (is_data (r' ! i)) = unat ?sz" using second(2,3) by (metis input_ok_def nth_mem)
    then have eq: "resolve_store (\<lambda>_. True) p d (dtype np d) ?sz clients cs (of_nat cc) (np, ret) = ?store ?r e (e \<noteq> is_data s)"
      unfolding store using 3 second(1) len e by (simp add: mem_read_Some mem_write_Some del: netplay_input_state_for.simps)
    show ?thesis
    proof (rule finish [OF eq e(2)])
      show "sized ?sz ?r"
        using second(2,3) len by (auto simp: input_ok_def dest!: set_update_subset_insert [THEN subsetD])
    qed (use 3 e(1) in simp_all)
  qed
qed

section \<open>What everybody's input means\<close>

definition raw_frame :: "delta_frame \<Rightarrow> delta_frame" where
  "raw_frame f = f\<lparr>df_state := [], df_crc := 0, df_simlated_input := (\<lambda>_. []), df_resolved_input := (\<lambda>_. [])\<rparr>"

lemma raw_frame_simps [simp]:
  "df_real_input (raw_frame f) = df_real_input f" "df_frame (raw_frame f) = df_frame f"
  "raw_frame (set_simlated d l f) = raw_frame f" "raw_frame (set_resolved d l f) = raw_frame f"
  by (simp_all add: raw_frame_def set_simlated_def set_resolved_def)

text \<open>The words of a device in a frame as far as they follow from what was read: nothing, one client's words, or
  the merged words of several clients.\<close>

definition confirmed :: "netplay \<Rightarrow> delta_frame \<Rightarrow> nat \<Rightarrow> u32 list option" where
  "confirmed np f d = do {
     clients \<leftarrow> real_clients (df_real_input f d) (dsize np d) (np_device_clients np d);
     (case voters np (raw_frame f) d clients 32 of
        [] \<Rightarrow> Some (replicate (unat (dsize np d)) 0)
      | [s] \<Rightarrow> Some (is_data s)
      | _ \<Rightarrow> merged np (raw_frame f) d clients)
   }"

definition all_read :: "netplay \<Rightarrow> delta_frame \<Rightarrow> bool" where
  "all_read np f \<longleftrightarrow> (\<forall>d < MAX_INPUT_DEVICES. \<forall>c < 32. bit (np_device_clients np d) c \<longrightarrow>
     input_lookup (df_real_input f d) (of_nat c) (dsize np d) \<noteq> None \<or> np_read_frame_count np c > df_frame f)"

lemma all_read_real:
  assumes "all_read np f" "frame_ok np f" "d < MAX_INPUT_DEVICES"
    and "real_clients (df_real_input f d) (dsize np d) (np_device_clients np d) = Some clients"
  shows "all_real np f d clients"
  unfolding all_real_def
proof (intro allI impI)
  fix c assume c: "c < 32" "bit clients c"
  have real: "\<forall>s \<in> set (df_real_input f d). is_used s \<longrightarrow> unat (is_client_num s) < 32"
      "\<forall>s \<in> set (df_real_input f d). is_used s \<longrightarrow> is_size s = dsize np d"
    using assms(2,3) by (auto simp: frame_ok_def)
  consider "bit (np_device_clients np d) c" | s where "s \<in> set (df_real_input f d)" "is_used s" "c = unat (is_client_num s)"
    using real_clients_Some [OF real(1), of "dsize np d" "np_device_clients np d"] assms(4) c(2) by auto
  then show "input_lookup (df_real_input f d) (of_nat c) (dsize np d) \<noteq> None \<or> np_read_frame_count np c > df_frame f"
  proof cases
    case 1
    then show ?thesis using assms(1,3) c(1) by (simp add: all_read_def)
  next
    case 2
    then show ?thesis using lookup_used [OF _ _ real(2)] by simp
  qed
qed

lemma real_clients_more:
  "real_clients l sz a = Some b \<Longrightarrow> (\<forall>c. bit a c \<longrightarrow> bit b c) \<and> (\<forall>x. (\<forall>c. bit b c \<longrightarrow> bit x c) \<longrightarrow> real_clients l sz x = Some x)"
proof (induction l arbitrary: a)
  case Nil
  then show ?case by simp
next
  case (Cons s l)
  show ?case
  proof (cases "\<not> is_used s \<or> is_size s \<noteq> sz")
    case True
    then have skip: "real_clients (s # l) sz x = real_clients l sz x" for x by auto
    show ?thesis unfolding skip using Cons.IH [OF Cons.prems [unfolded skip]] .
  next
    case False
    then obtain m where m: "shift1 (is_client_num s) = Some m" and l: "real_clients l sz (a OR m) = Some b"
      using Cons.prems by (auto simp: bind_eq_Some_conv)
    have more: "\<forall>c. bit (a OR m) c \<longrightarrow> bit b c" "\<And>x. (\<forall>c. bit b c \<longrightarrow> bit x c) \<Longrightarrow> real_clients l sz x = Some x"
      using Cons.IH [OF l] by auto
    have "x OR m = x" if "\<forall>c. bit b c \<longrightarrow> bit x c" for x
      by (rule bit_eqI) (use more(1) that in \<open>auto simp: bit_or_iff\<close>)
    then show ?thesis using more False m by (auto simp: bit_or_iff)
  qed
qed

lemma real_clients_again: "real_clients l sz a = Some b \<Longrightarrow> real_clients l sz b = Some b"
  using real_clients_more by blast

lemma for_each_cong: "(\<And>x s. x \<in> set xs \<Longrightarrow> f x s = g x s) \<Longrightarrow> for_each xs f s = for_each xs g s"
  by (induction xs arbitrary: s) (auto split: Option.bind_split)

lemma merged_set_frame [simp]: "merged (set_frame p g np) f d clients = merged np f d clients"
  by (simp add: merged_def)

lemma voters_set_frame [simp]: "voters (set_frame p g np) f d clients n = voters np f d clients n"
  unfolding voters_def client_state_set_frame ..

lemma state_raw:
  "all_real np f d clients \<Longrightarrow> c < 32 \<Longrightarrow> bit clients c \<Longrightarrow>
    netplay_device_client_state np (raw_frame f) d c = netplay_device_client_state np f d c"
  using all_real_state [of np f d clients c] all_real_state [of np "raw_frame f" d clients c] by (simp add: all_real_def)

lemma voters_raw:
  assumes "all_real np f d clients"
  shows "voters np (raw_frame f) d clients 32 = voters np f d clients 32"
proof -
  have "voters np (raw_frame f) d clients n = voters np f d clients n" if "n \<le> 32" for n
    using that by (induction n) (auto simp: voters_Suc state_raw [OF assms])
  then show ?thesis by simp
qed

lemma merged_raw:
  assumes real: "all_real np f d clients" and same: "real_clients (df_real_input f d) (dsize np d) clients = Some clients"
  shows "merged np (raw_frame f) d clients = merged np f d clients"
proof -
  have "for_each [0..<MAX_CLIENTS] (vote_client np (raw_frame f) d sz digital clients) = for_each [0..<MAX_CLIENTS] (vote_client np f d sz digital clients)"
    "for_each [0..<MAX_CLIENTS] (combine_client np (raw_frame f) d sz m digital clients) = for_each [0..<MAX_CLIENTS] (combine_client np f d sz m digital clients)"
    "for_each [0..<MAX_CLIENTS] (analog_client np (raw_frame f) d m clients w b) = for_each [0..<MAX_CLIENTS] (analog_client np f d m clients w b)"
    for sz digital m w b
    by (rule ext, rule for_each_cong,
        simp add: vote_client_def combine_client_def analog_client_def MAX_CLIENTS_def state_raw [OF real])+
  then have "netplay_merge_digital np (dsize np d) data (raw_frame f) d clients digital = netplay_merge_digital np (dsize np d) data f d clients digital"
    "merge_analog_part np (dsize np d) (raw_frame f) d clients w b = merge_analog_part np (dsize np d) f d clients w b"
    for data digital w b
    by (simp_all add: fun_eq_iff netplay_merge_digital_def merge_analog_part_def same Let_def)
  then show ?thesis by (simp add: merged_def netplay_merge_analog_def cong: if_cong)
qed

section \<open>Devices\<close>

lemma no_clients_loop:
  "for_each xs (resolve_client alloc p resim d t sz 0) r = Some r"
  by (induction xs) (cases r, simp_all add: resolve_client_def)+

lemma clients_of_nothing:
  assumes "devices_ok np" "frame_ok np f" "d < MAX_INPUT_DEVICES" "dsize np d = 0"
    and "real_clients (df_real_input f d) (dsize np d) (np_device_clients np d) = Some clients"
  shows "clients = 0"
proof -
  have "\<forall>s \<in> set (df_real_input f d). \<not> is_used s" "np_device_clients np d = 0"
    using assms(1-4) by (auto simp: frame_ok_def devices_ok_def)
  then have "\<not> bit clients c" for c
    using real_clients_Some [of "df_real_input f d" "dsize np d" "np_device_clients np d"] assms(5) by auto
  then show ?thesis by (simp add: bit_eq_iff)
qed

text \<open>What is known of a device's input after resolving it: \<open>l\<close> was the list of resolved inputs before, \<open>l'\<close> is the
  list after, and \<open>ch\<close> tells whether the code says that the input has changed.\<close>

definition resolved :: "netplay \<Rightarrow> delta_frame \<Rightarrow> nat \<Rightarrow> netplay_input_state list \<Rightarrow> bool \<Rightarrow> bool" where
  "resolved np f d l' ch \<longleftrightarrow> shown l' (dsize np d) \<and> sized (dsize np d) l' \<and>
     (\<not> ch \<longrightarrow> shown (df_resolved_input f d) (dsize np d) \<longrightarrow> shown_words l' = shown_words (df_resolved_input f d)) \<and>
     (all_read np f \<longrightarrow> confirmed np f d = Some (shown_words l'))"

lemma resolve_device_some:
  assumes ok: "np_ok np" and p: "p < np_buffer_size np" and d: "d < MAX_INPUT_DEVICES" and f: "f = np_buffer np ! p"
  shows "\<exists>l r ch. resolve_device (\<lambda>_. True) p resim d (np, ret) =
      Some (set_frame p (set_resolved d r (set_simlated d l f)) np, ret \<or> ch) \<and> inputs_ok l \<and> resolved np f d r ch"
proof -
  let ?sz = "dsize np d"
  have len: "p < length (np_buffer np)" and okf: "frame_ok np f" and dev: "devices_ok np"
    using ok p f by (auto simp: np_ok_def)
  have frame: "mem_get (np_buffer np) p = Some f" using len f by (simp add: mem_get_Some)
  have "\<forall>s \<in> set (df_real_input f d). is_used s \<longrightarrow> unat (is_client_num s) < 32" using okf d by (simp add: frame_ok_def)
  then obtain clients where clients: "real_clients (df_real_input f d) ?sz (np_device_clients np d) = Some clients"
    using real_clients_Some by blast
  obtain l cs cc where loop: "for_each [0..<MAX_CLIENTS] (resolve_client (\<lambda>_. True) p resim d (dtype np d) ?sz clients) (np, [], 0) =
        Some (set_frame p (set_simlated d l f) np, cs, of_nat cc)"
      and l: "inputs_ok l" and cc: "cc \<le> 32" "cc = 0 \<or> length cs = unat ?sz"
    using resolve_clients_some [OF ok p d f] by blast
  let ?np = "set_frame p (set_simlated d l f) np" and ?f = "set_simlated d l f"
  have none: "cc \<le> 1" if "?sz = 0"
  proof -
    have "clients = 0" by (rule clients_of_nothing [OF dev okf d that clients])
    then have "(of_nat cc :: u32) = 0" using loop no_clients_loop by fastforce
    then show ?thesis using cc(1) by (simp add: word_unat_eq_iff unat_of_nat)
  qed
  have okf': "frame_ok ?np ?f"
    using okf l by (auto simp: frame_ok_def set_simlated_def)
  have "\<exists>r ch. resolve_store (\<lambda>_. True) p d (dtype np d) ?sz clients cs (of_nat cc) (?np, ret) =
      Some (set_frame p (set_resolved d r ?f) np, ret \<or> ch) \<and> shown r ?sz \<and> sized ?sz r \<and>
    (\<not> ch \<longrightarrow> shown (df_resolved_input f d) ?sz \<longrightarrow> shown_words r = shown_words (df_resolved_input f d)) \<and>
    Some (shown_words r) = (if cc = 1 then Some cs else if cc = 0 then Some (replicate (unat ?sz) 0) else merged np ?f d clients)"
    using resolve_store_some [of ?np ?f d p cc cs clients _ ret] dev okf' d len cc none real_clients_again [OF clients]
    by (simp add: mem_get_Some devices_ok_def cong: if_cong)
  then obtain r ch where store: "resolve_store (\<lambda>_. True) p d (dtype np d) ?sz clients cs (of_nat cc) (?np, ret) =
        Some (set_frame p (set_resolved d r ?f) np, ret \<or> ch)"
      and r: "shown r ?sz" "sized ?sz r"
        "\<not> ch \<longrightarrow> shown (df_resolved_input f d) ?sz \<longrightarrow> shown_words r = shown_words (df_resolved_input f d)"
        "Some (shown_words r) = (if cc = 1 then Some cs else if cc = 0 then Some (replicate (unat ?sz) 0) else merged np ?f d clients)"
    by blast
  have "confirmed np f d = Some (shown_words r)" if "all_read np f"
  proof -
    have real: "all_real np f d clients" by (rule all_read_real [OF that okf d clients])
    define ss where "ss = voters np f d clients 32"
    have "length ss \<le> 32" unfolding ss_def by (rule length_voters)
    moreover have "?np = np" "cs = (if ss = [] then [] else is_data (last ss))" "(of_nat cc :: u32) = of_nat (length ss)"
      using loop resolve_clients_real [OF real frame, of 32 "\<lambda>_. True" resim "dtype np d"] unfolding MAX_CLIENTS_def ss_def Let_def by auto
    ultimately have same: "cc = length ss" "cs = (if ss = [] then [] else is_data (last ss))" "set_frame p ?f np = np"
      using cc(1) by (auto simp: word_unat_eq_iff unat_of_nat)
    have "?f = f" using arg_cong [OF same(3), of "\<lambda>np. np_buffer np ! p"] len f by simp
    then show ?thesis
      using r(4) same(1,2) merged_raw [OF real real_clients_again [OF clients]] clients
      by (auto simp: confirmed_def voters_raw [OF real] ss_def [symmetric] split: list.split)
  qed
  then have "resolved np f d r ch" using r(1-3) by (simp add: resolved_def)
  moreover have "resolve_device (\<lambda>_. True) p resim d (np, ret) =
      Some (set_frame p (set_resolved d r ?f) np, ret \<or> ch)"
    using frame clients loop store by (simp add: resolve_device_def Let_def)
  ultimately show ?thesis using l by blast
qed

section \<open>The whole frame\<close>

definition with_inputs :: "(nat \<Rightarrow> netplay_input_state list) \<Rightarrow> (nat \<Rightarrow> netplay_input_state list) \<Rightarrow> delta_frame \<Rightarrow> delta_frame" where
  "with_inputs g h f = f\<lparr>df_simlated_input := g, df_resolved_input := h\<rparr>"

lemma with_inputs_simps [simp]:
  "df_real_input (with_inputs g h f) = df_real_input f" "df_frame (with_inputs g h f) = df_frame f"
  "df_used (with_inputs g h f) = df_used f" "df_state (with_inputs g h f) = df_state f"
  "df_simlated_input (with_inputs g h f) = g" "df_resolved_input (with_inputs g h f) = h"
  "raw_frame (with_inputs g h f) = raw_frame f"
  "set_resolved d r (set_simlated d l (with_inputs g h f)) = with_inputs (g(d := l)) (h(d := r)) f"
  "with_inputs g' h' (with_inputs g h f) = with_inputs g' h' f"
  by (simp_all add: with_inputs_def raw_frame_def set_simlated_def set_resolved_def)

lemma with_inputs_same: "with_inputs (df_simlated_input f) (df_resolved_input f) f = f"
  by (simp add: with_inputs_def)

lemma resolved_more: "resolved np f d l ch \<Longrightarrow> (ch \<longrightarrow> ch') \<Longrightarrow> resolved np f d l ch'"
  by (auto simp: resolved_def)

lemma all_read_simps [simp]: "all_read (set_frame p g np) f = all_read np f" "all_read np (with_inputs g' h' f) = all_read np f"
  unfolding all_read_def size_set_frame by simp_all

lemma confirmed_simps [simp]:
  "confirmed (set_frame p g np) f d = confirmed np f d" "confirmed np (with_inputs g' h' f) d = confirmed np f d"
  unfolding confirmed_def voters_set_frame merged_set_frame size_set_frame with_inputs_simps by simp_all

lemma resolved_with_inputs:
  "h d = df_resolved_input f d \<Longrightarrow> resolved (set_frame p x np) (with_inputs g h f) d l ch = resolved np f d l ch"
  by (simp add: resolved_def)

lemma resolve_input_some:
  assumes ok: "np_ok np" and p: "p < np_buffer_size np" and f: "f = np_buffer np ! p"
  shows "\<exists>g h ch. netplay_resolve_input (\<lambda>_. True) np p resim = Some (set_frame p (with_inputs g h f) np, ch) \<and>
    (\<forall>d < MAX_INPUT_DEVICES. inputs_ok (g d) \<and> resolved np f d (h d) ch)"
proof -
  let ?P = "\<lambda>n r. \<exists>g h ch. r = (set_frame p (with_inputs g h f) np, ch) \<and> (\<forall>d < MAX_INPUT_DEVICES. inputs_ok (g d)) \<and>
    (\<forall>d < n. resolved np f d (h d) ch) \<and> (\<forall>d \<ge> n. h d = df_resolved_input f d)"
  have len: "p < length (np_buffer np)" and okf: "frame_ok np f" using ok p f by (auto simp: np_ok_def)
  have "set_frame p (with_inputs (df_simlated_input f) (df_resolved_input f) f) np = np"
    unfolding with_inputs_same by (rule set_frame_same [OF len f [symmetric]])
  moreover have "\<forall>d < MAX_INPUT_DEVICES. inputs_ok (df_simlated_input f d)" using okf by (simp add: frame_ok_def)
  ultimately have start: "?P 0 (np, False)"
    by (intro exI [of _ "df_simlated_input f"] exI [of _ "df_resolved_input f"] exI [of _ False]) simp
  have step: "\<exists>r'. resolve_device (\<lambda>_. True) p resim d r = Some r' \<and> ?P (Suc d) r'"
    if d: "d < MAX_INPUT_DEVICES" and inv: "?P d r" for d r
  proof -
    obtain g h ch where r: "r = (set_frame p (with_inputs g h f) np, ch)" "\<forall>d < MAX_INPUT_DEVICES. inputs_ok (g d)"
        "\<forall>x < d. resolved np f x (h x) ch" "\<forall>x \<ge> d. h x = df_resolved_input f x" using inv by blast
    have "sized (dsize np x) (h x)" if "x < MAX_INPUT_DEVICES" for x
      using r(3,4) okf that by (cases "x < d") (auto simp: resolved_def frame_ok_def)
    then have "frame_ok np (with_inputs g h f)" using okf r(2) by (simp add: frame_ok_def)
    then have ok': "np_ok (set_frame p (with_inputs g h f) np)"
      using ok by (auto simp: np_ok_def devices_ok_def dest!: set_update_subset_insert [THEN subsetD])
    obtain l x c where dev: "resolve_device (\<lambda>_. True) p resim d r = Some (set_frame p (with_inputs (g(d := l)) (h(d := x)) f) np, ch \<or> c)"
        "inputs_ok l" "resolved np f d x c"
      using resolve_device_some [OF ok' _ d refl, of p resim ch] p len r(1,4) by (auto simp: resolved_with_inputs)
    have "?P (Suc d) (set_frame p (with_inputs (g(d := l)) (h(d := x)) f) np, ch \<or> c)"
      using r(2-4) dev(2,3) resolved_more
      by (intro exI [of _ "g(d := l)"] exI [of _ "h(d := x)"] exI [of _ "ch \<or> c"]) (auto simp: less_Suc_eq)
    then show ?thesis using dev(1) by blast
  qed
  have "\<exists>r. for_each [0..<MAX_INPUT_DEVICES] (resolve_device (\<lambda>_. True) p resim) (np, False) = Some r \<and> ?P MAX_INPUT_DEVICES r"
    by (rule for_each_induct [where P = ?P, OF start step])
  then show ?thesis unfolding netplay_resolve_input_def by blast
qed

end
