(* ===== verification/Netplay_Ring.thy ===== *)
theory Netplay_Ring
  imports Netplay_Resolve
begin

text \<open>
  What synchronising netplay is built on (\<^verbatim>\<open>network/netplay/netplay_sync.c\<close>): how the core's requests for input are
  answered from the words of a frame, what resolving and checking one frame of the ring changes and leaves
  alone, and what is asked of the core.
\<close>

unbundle bit_operations_syntax

section \<open>What the core reads\<close>

text \<open>The answers to a core whose ports have the words \<open>ws\<close>.\<close>

definition answer :: "(nat \<Rightarrow> u32) \<Rightarrow> (nat \<Rightarrow> u32 list) \<Rightarrow> input_callback" where
  "answer config ws port device idx ident =
     (if port \<ge> MAX_INPUT_DEVICES then Some 0
      else (case port_for config port device of
         None \<Rightarrow> Some 0
       | Some p \<Rightarrow> if ws p = [] then Some 0 else device_answer (of_nat (length (ws p))) (ws p) device idx ident))"

lemma port_for_Some:
  "port_for config port device = Some p \<Longrightarrow> port < MAX_INPUT_DEVICES \<Longrightarrow>
    p < MAX_INPUT_DEVICES \<and> (device = RETRO_DEVICE_JOYPAD \<or> config p AND RETRO_DEVICE_MASK = device)"
  by (auto simp: port_for_def find_Some_iff split: if_splits)

lemma answer_cong:
  assumes "\<And>p. p < MAX_INPUT_DEVICES \<Longrightarrow> ws p = ws' p"
  shows "answer config ws = answer config ws'"
proof (intro ext)
  fix port device idx ident
  show "answer config ws port device idx ident = answer config ws' port device idx ident"
    using assms port_for_Some [of config port device]
    by (cases "port_for config port device") (simp_all add: answer_def)
qed

text \<open>What a core may ask for so that every shift and every index of the callback is defined.\<close>

definition request_ok :: "u32 \<Rightarrow> nat \<Rightarrow> nat \<Rightarrow> bool" where
  "request_ok device idx ident \<longleftrightarrow>
     (device \<in> {RETRO_DEVICE_JOYPAD, RETRO_DEVICE_MOUSE, RETRO_DEVICE_LIGHTGUN} \<longrightarrow> ident < 32) \<and>
     (device = RETRO_DEVICE_ANALOG \<longrightarrow> idx < 2 \<and> ident < 2)"

lemma answer_defined:
  assumes "\<And>p. p < MAX_INPUT_DEVICES \<Longrightarrow> length (ws p) = unat (device_size (config p AND RETRO_DEVICE_MASK))"
    and "request_ok device idx ident"
  shows "answer config ws port device idx ident \<noteq> None"
proof (cases "port < MAX_INPUT_DEVICES \<and> port_for config port device \<noteq> None")
  case True
  then obtain p where p: "port_for config port device = Some p" "p < MAX_INPUT_DEVICES"
      "device = RETRO_DEVICE_JOYPAD \<or> config p AND RETRO_DEVICE_MASK = device"
    using port_for_Some by blast
  have "netplay_key_hton key_mapping ident div 32 < 5"
    using hton_bound [of ident] by (simp add: NETPLAY_KEY_LAST_def)
  moreover have "length (ws p) = 5" if "device = RETRO_DEVICE_KEYBOARD"
    using assms(1) [OF p(2)] p(3) that by (auto simp: device_size_def device_defs)
  moreover have "length (ws p) \<le> 5" using assms(1) [OF p(2)] by (auto simp: device_size_def split: if_splits)
  moreover have num: "(of_nat (length (ws p)) :: u32) = 3 \<longleftrightarrow> length (ws p) = 3" "(of_nat (length (ws p)) :: u32) = 2 \<longleftrightarrow> length (ws p) = 2"
      "unat (of_nat (length (ws p)) :: u32) = length (ws p)"
    using calculation(3) by (auto simp: word_unat_eq_iff unat_of_nat)
  ultimately have "device_answer (of_nat (length (ws p))) (ws p) device idx ident \<noteq> None" if "ws p \<noteq> []"
    using assms(2) that unfolding device_answer_def num request_ok_def
    by (cases "device = RETRO_DEVICE_JOYPAD"; cases "device = RETRO_DEVICE_ANALOG"; cases "device = RETRO_DEVICE_KEYBOARD")
      (simp_all add: mem_get_def Let_def half_at_def button_at_def)
  then show ?thesis using True p(1) by (simp add: answer_def)
qed (auto simp: answer_def)

definition shown_all :: "netplay \<Rightarrow> delta_frame \<Rightarrow> bool" where
  "shown_all np f \<longleftrightarrow> (\<forall>d < MAX_INPUT_DEVICES. shown (df_resolved_input f d) (dsize np d))"

definition frame_input :: "netplay \<Rightarrow> delta_frame \<Rightarrow> input_callback" where
  "frame_input np f = answer (np_config_devices np) (\<lambda>d. shown_words (df_resolved_input f d))"

lemma shown_cases:
  "shown l sz \<Longrightarrow> \<exists>s t. l = s # t \<and> is_used s \<and> is_size s = sz \<and> length (is_data s) = unat sz"
  by (cases l) (auto simp: shown_def input_ok_def)

text \<open>The callback answers from the frame that is run or replayed.\<close>

lemma callback_answers:
  assumes "(if np_is_replay np then np_replay_ptr np else np_run_ptr np) = p" "p < length (np_buffer np)"
    and "shown_all np (np_buffer np ! p)"
  shows "netplay_input_state_cb np = frame_input np (np_buffer np ! p)"
proof (intro ext)
  fix port device idx ident
  let ?f = "np_buffer np ! p"
  have get: "mem_get (np_buffer np) p = Some ?f" using assms(2) by (simp add: mem_get_Some)
  show "netplay_input_state_cb np port device idx ident = frame_input np ?f port device idx ident"
  proof (cases "port < MAX_INPUT_DEVICES \<and> port_for (np_config_devices np) port device \<noteq> None")
    case True
    then obtain q where q: "port_for (np_config_devices np) port device = Some q" "q < MAX_INPUT_DEVICES"
      using port_for_Some by blast
    obtain s t where s: "df_resolved_input ?f q = s # t" "is_used s" "length (is_data s) = unat (is_size s)"
      using shown_cases [of "df_resolved_input ?f q"] assms(3) q(2) unfolding shown_all_def by metis
    have size: "is_size s = of_nat (length (is_data s))" using s(3) by simp
    have "netplay_input_state_cb np port device idx ident =
        (if is_data s = [] then Some 0 else device_answer (of_nat (length (is_data s))) (is_data s) device idx ident)"
      using True q s get by (auto simp add: netplay_input_state_cb_def assms(1) Let_def unat_eq_0)
    then show ?thesis using True q(1) s(1) by (simp add: frame_input_def answer_def)
  next
    case False
    then show ?thesis
      by (auto simp: netplay_input_state_cb_def frame_input_def answer_def port_for_def Let_def)
  qed
qed

section \<open>What synchronising leaves alone\<close>

text \<open>Netplay without what resolving, checking and replaying frames change.\<close>

definition frozen :: "netplay \<Rightarrow> netplay" where
  "frozen np = np\<lparr>np_buffer := map raw_frame (np_buffer np), np_other_ptr := 0, np_other_frame_count := 0,
     np_replay_ptr := 0, np_replay_frame_count := 0, np_is_replay := False, np_force_rewind := False, np_out := [],
     np_crc_validity_checked := False, np_crcs_valid := False, np_frame_run_time := (\<lambda>_. 0), np_frame_run_time_ptr := 0,
     np_frame_run_time_sum := 0, np_frame_run_time_avg := 0, np_ticks := 0, np_catch_up := False, np_catch_up_time := 0,
     np_catch_up_behind := 0, np_connections := map (\<lambda>c. c\<lparr>nc_stall_frame := 0\<rparr>) (np_connections np)\<rparr>"

lemma frozen_fields:
  assumes "frozen np = frozen np'"
  shows "np_config_devices np = np_config_devices np'" "np_device_share_modes np = np_device_share_modes np'"
    "np_device_clients np = np_device_clients np'" "np_read_ptr np = np_read_ptr np'"
    "np_read_frame_count np = np_read_frame_count np'" "np_buffer_size np = np_buffer_size np'"
    "np_run_ptr np = np_run_ptr np'" "np_run_frame_count np = np_run_frame_count np'"
    "np_unread_ptr np = np_unread_ptr np'" "np_unread_frame_count np = np_unread_frame_count np'"
    "np_state_size np = np_state_size np'" "length (np_connections np) = length (np_connections np')" "np_quirks np = np_quirks np'"
    "np_have_updown_device np = np_have_updown_device np'" "map raw_frame (np_buffer np) = map raw_frame (np_buffer np')"
  using assms by (cases np; cases np'; auto simp add: frozen_def dest: map_eq_imp_length_eq)+

lemma size_cong:
  assumes "np_config_devices np = np_config_devices np'"
  shows "netplay_expected_input_size np b = netplay_expected_input_size np' b"
  unfolding netplay_expected_input_size_def assms ..

lemma client_state_cong:
  assumes "np_config_devices np = np_config_devices np'" "np_read_frame_count np = np_read_frame_count np'"
  shows "netplay_device_client_state np f d c = netplay_device_client_state np' f d c"
  unfolding netplay_device_client_state_def size_cong [OF assms(1)] assms(2) ..

lemma merged_cong:
  assumes "np_config_devices np = np_config_devices np'" "np_read_frame_count np = np_read_frame_count np'"
    and "np_device_share_modes np = np_device_share_modes np'"
  shows "merged np f d clients = merged np' f d clients"
  unfolding merged_def netplay_merge_digital_def netplay_merge_analog_def merge_analog_part_def analog_client_def [abs_def]
    vote_client_def [abs_def] combine_client_def [abs_def] client_state_cong [OF assms(1,2)] size_cong [OF assms(1)] assms(1,3) ..

lemma confirmed_frozen:
  assumes "frozen np = frozen np'"
  shows "confirmed np f d = confirmed np' f d" "all_read np f = all_read np' f" "frame_ok np f = frame_ok np' f"
    "devices_ok np = devices_ok np'" "shown_all np f = shown_all np' f" "frame_input np f = frame_input np' f"
    "dsize np d = dsize np' d"
proof -
  note eqs = frozen_fields [OF assms]
  show "confirmed np f d = confirmed np' f d"
    unfolding confirmed_def voters_def client_state_cong [OF eqs(1,5)] merged_cong [OF eqs(1,5,2)] size_cong [OF eqs(1)] eqs(3) ..
  show "all_read np f = all_read np' f" unfolding all_read_def size_cong [OF eqs(1)] eqs(3,5) ..
  show "frame_ok np f = frame_ok np' f" unfolding frame_ok_def size_cong [OF eqs(1)] ..
  show "devices_ok np = devices_ok np'" unfolding devices_ok_def size_cong [OF eqs(1)] eqs(1-3) ..
  show "shown_all np f = shown_all np' f" unfolding shown_all_def size_cong [OF eqs(1)] ..
  show "frame_input np f = frame_input np' f" unfolding frame_input_def eqs(1) ..
  show "dsize np d = dsize np' d" by (rule size_cong [OF eqs(1)])
qed

lemma raw_raw [simp]: "raw_frame (raw_frame f) = raw_frame f"
  by (simp add: raw_frame_def)

lemma raw_only:
  assumes "raw_frame f = raw_frame g"
  shows "confirmed np f d = confirmed np g d" "all_read np f = all_read np g" "df_frame f = df_frame g"
proof -
  have eqs: "df_real_input f = df_real_input g" "df_frame f = df_frame g"
    using arg_cong [OF assms, of df_real_input] arg_cong [OF assms, of df_frame] by simp_all
  show "confirmed np f d = confirmed np g d" unfolding confirmed_def eqs assms ..
  show "all_read np f = all_read np g" unfolding all_read_def eqs ..
  show "df_frame f = df_frame g" by (rule eqs(2))
qed

section \<open>The ring\<close>

text \<open>Where the frames lie, counted from \<open>np_other_frame_count\<close>.\<close>

definition ring_ptr :: "netplay \<Rightarrow> nat \<Rightarrow> nat" where
  "ring_ptr np f = (np_other_ptr np + (f - unat (np_other_frame_count np))) mod np_buffer_size np"

lemma ring_bound: "0 < np_buffer_size np \<Longrightarrow> ring_ptr np f < np_buffer_size np"
  by (simp add: ring_ptr_def)

lemma ring_next:
  "unat (np_other_frame_count np) \<le> f \<Longrightarrow> np_buffer_size np' = np_buffer_size np \<Longrightarrow> NEXT_PTR np' (ring_ptr np f) = ring_ptr np (Suc f)"
  by (simp add: ring_ptr_def NEXT_PTR_def Suc_diff_le mod_simps)

lemma ring_inj:
  assumes "ring_ptr np f = ring_ptr np g" "unat (np_other_frame_count np) \<le> f" "unat (np_other_frame_count np) \<le> g"
    and "f < unat (np_other_frame_count np) + np_buffer_size np" "g < unat (np_other_frame_count np) + np_buffer_size np"
  shows "f = g"
proof -
  have same: "x = y" if "(a + x) mod n = (a + y) mod n" "x \<le> y" "y < n" for a x y n :: nat
  proof -
    have "n dvd y - x" using that(1,2) mod_eq_dvd_iff_nat [of "a + x" "a + y" n] by (simp add: eq_commute)
    then show ?thesis using that(2,3) nat_dvd_not_less [of "y - x" n] by fastforce
  qed
  let ?o = "unat (np_other_frame_count np)"
  note ptrs = assms(1) [unfolded ring_ptr_def]
  have "f - ?o = g - ?o"
  proof (cases "f \<le> g")
    case True
    show ?thesis by (rule same [OF ptrs diff_le_mono [OF True]]) (use assms(3,5) in simp)
  next
    case False
    have "g - ?o = f - ?o" by (rule same [OF ptrs [symmetric]]) (use False assms(2,4) in simp_all)
    then show ?thesis ..
  qed
  then show ?thesis using assms(2,3) by simp
qed

section \<open>One frame\<close>

abbreviation start :: "netplay \<Rightarrow> nat" where "start np \<equiv> unat (np_other_frame_count np)"
abbreviation finish :: "netplay \<Rightarrow> nat" where "finish np \<equiv> unat (np_run_frame_count np)"
abbreviation frame_of :: "netplay \<Rightarrow> netplay \<Rightarrow> nat \<Rightarrow> delta_frame" where
  "frame_of np0 np f \<equiv> np_buffer np ! ring_ptr np0 f"

definition confirmed_input :: "netplay \<Rightarrow> delta_frame \<Rightarrow> input_callback" where
  "confirmed_input np f = answer (np_config_devices np) (\<lambda>d. the (confirmed np f d))"

definition ptrs :: "netplay \<Rightarrow> nat \<times> u32 \<times> nat \<times> u32 \<times> bool \<times> bool" where
  "ptrs np = (np_other_ptr np, np_other_frame_count np, np_replay_ptr np, np_replay_frame_count np, np_is_replay np, np_force_rewind np)"

lemma frozen_set_frame:
  assumes "p < length (np_buffer np)" "raw_frame f = raw_frame (np_buffer np ! p)"
  shows "frozen (set_frame p f np) = frozen np"
proof -
  have "map raw_frame ((np_buffer np)[p := f]) = map raw_frame (np_buffer np)"
    by (metis assms(2) list_update_id map_update)
  then show ?thesis by (simp add: frozen_def set_frame_def)
qed

lemma ptrs_set_frame [simp]: "ptrs (set_frame p f np) = ptrs np"
  by (simp add: ptrs_def set_frame_def)

lemma raw_frozen: "frozen np = frozen np' \<Longrightarrow> p < length (np_buffer np) \<Longrightarrow> raw_frame (np_buffer np ! p) = raw_frame (np_buffer np' ! p)"
  using frozen_fields(15) [of np np'] by (metis length_map nth_map)

lemma np_ok_set_frame:
  "np_ok np \<Longrightarrow> frame_ok np f \<Longrightarrow> np_ok (set_frame p f np)"
  by (auto simp: np_ok_def devices_ok_def dest!: set_update_subset_insert [THEN subsetD])

lemma np_ok_frozen:
  assumes "frozen np' = frozen np" "np_buffer np' = np_buffer np"
  shows "np_ok np' = np_ok np"
  unfolding np_ok_def confirmed_frozen(3,4) [OF assms(1)] frozen_fields(4,6) [OF assms(1)] assms(2) ..

text \<open>Resolving the input of frame \<open>f\<close>, where \<open>np0\<close> is netplay before synchronising.\<close>

lemma resolve_step:
  assumes frozen: "frozen np = frozen np0" and ok: "np_ok np" and f: "start np0 \<le> f" "f < start np0 + np_buffer_size np0"
  shows "\<exists>np' ch. netplay_resolve_input (\<lambda>_. True) np (ring_ptr np0 f) resim = Some (np', ch) \<and> frozen np' = frozen np0 \<and> np_ok np' \<and>
    ptrs np' = ptrs np \<and>
    (\<forall>x. x \<noteq> f \<longrightarrow> start np0 \<le> x \<longrightarrow> x < start np0 + np_buffer_size np0 \<longrightarrow> frame_of np0 np' x = frame_of np0 np x) \<and>
    df_state (frame_of np0 np' f) = df_state (frame_of np0 np f) \<and> shown_all np0 (frame_of np0 np' f) \<and>
    (\<not> ch \<longrightarrow> shown_all np0 (frame_of np0 np f) \<longrightarrow> frame_input np0 (frame_of np0 np' f) = frame_input np0 (frame_of np0 np f)) \<and>
    (all_read np0 (frame_of np0 np0 f) \<longrightarrow> frame_input np0 (frame_of np0 np' f) = confirmed_input np0 (frame_of np0 np0 f))"
proof -
  let ?p = "ring_ptr np0 f"
  have size: "np_buffer_size np = np_buffer_size np0" by (rule frozen_fields(6) [OF frozen])
  have p: "?p < np_buffer_size np" "?p < length (np_buffer np)" using ok ring_bound [of np0 f] size by (auto simp: np_ok_def)
  let ?f = "frame_of np0 np f"
  obtain g h ch where res: "netplay_resolve_input (\<lambda>_. True) np ?p resim = Some (set_frame ?p (with_inputs g h ?f) np, ch)"
      "\<forall>d < MAX_INPUT_DEVICES. inputs_ok (g d) \<and> resolved np ?f d (h d) ch"
    using resolve_input_some [OF ok p(1) refl] by blast
  let ?np = "set_frame ?p (with_inputs g h ?f) np"
  have okf: "frame_ok np ?f" using ok p(2) by (auto simp: np_ok_def)
  have "frame_ok np (with_inputs g h ?f)" using okf res(2) by (simp add: frame_ok_def resolved_def)
  then have "np_ok ?np" using ok by (rule np_ok_set_frame [rotated])
  moreover have "frozen ?np = frozen np0" using frozen_set_frame [OF p(2)] frozen by simp
  moreover have "frame_of np0 ?np x = frame_of np0 np x"
    if "x \<noteq> f" "start np0 \<le> x" "x < start np0 + np_buffer_size np0" for x
  proof -
    have "ring_ptr np0 f \<noteq> ring_ptr np0 x" using ring_inj [of np0 x f] that f by metis
    then show ?thesis by simp
  qed
  moreover have at: "frame_of np0 ?np f = with_inputs g h ?f" using p(2) by simp
  moreover have "shown_all np0 (with_inputs g h ?f)"
    using res(2) unfolding confirmed_frozen(5) [OF frozen, symmetric] by (simp add: shown_all_def resolved_def)
  moreover have "frame_input np0 (with_inputs g h ?f) = frame_input np0 ?f" if "\<not> ch" "shown_all np0 ?f"
    unfolding frame_input_def using that(2) res(2) that(1)
    unfolding confirmed_frozen(5) [OF frozen, symmetric] by (intro answer_cong) (simp add: shown_all_def resolved_def)
  moreover have "frame_input np0 (with_inputs g h ?f) = confirmed_input np0 (frame_of np0 np0 f)" if "all_read np0 (frame_of np0 np0 f)"
  proof -
    have raw: "raw_frame ?f = raw_frame (frame_of np0 np0 f)" by (rule raw_frozen [OF frozen p(2)])
    have "all_read np ?f" using that confirmed_frozen(2) [OF frozen] raw_only(2) [OF raw] by simp
    then have "confirmed np0 (frame_of np0 np0 f) d = Some (shown_words (h d))" if "d < MAX_INPUT_DEVICES" for d
      using res(2) that unfolding resolved_def confirmed_frozen(1) [OF frozen] raw_only(1) [OF raw] by blast
    then show ?thesis unfolding frame_input_def confirmed_input_def by (intro answer_cong) simp
  qed
  ultimately show ?thesis using res(1) by (intro exI [of _ ?np] exI [of _ ch]) simp
qed

text \<open>Checking a frame only changes checksums.\<close>

lemma hash_step:
  assumes "p < length (np_buffer np)" "np_state_size np \<le> length (df_state (np_buffer np ! p))" "np_ok np"
  shows "\<exists>np'. netplay_handle_frame_hash np p = Some np' \<and> frozen np' = frozen np \<and> np_ok np' \<and> ptrs np' = ptrs np \<and>
    (\<forall>q. df_state (np_buffer np' ! q) = df_state (np_buffer np ! q) \<and>
         df_resolved_input (np_buffer np' ! q) = df_resolved_input (np_buffer np ! q))"
proof -
  let ?f = "np_buffer np ! p"
  have get: "mem_get (np_buffer np) p = Some ?f" using assms(1) by (simp add: mem_get_Some)
  obtain crc where crc: "netplay_delta_frame_crc np ?f = Some crc"
    using assms(2) by (cases "np_state_size np = 0") (auto simp: netplay_delta_frame_crc_def mem_read_Some)
  show ?thesis
  proof (cases "np_is_server np")
    case True
    let ?np = "(set_frame p (?f\<lparr>df_crc := crc\<rparr>) np)\<lparr>np_out := np_out np @ [CmdCrc (df_frame ?f) crc]\<rparr>"
    have "frame_ok np ?f" using assms(1,3) by (simp add: np_ok_def)
    then have "frame_ok np (?f\<lparr>df_crc := crc\<rparr>)" by (simp add: frame_ok_def)
    then have "np_ok (set_frame p (?f\<lparr>df_crc := crc\<rparr>) np)" using assms(3) by (rule np_ok_set_frame [rotated])
    then have "np_ok ?np" by (subst np_ok_frozen [where np = "set_frame p (?f\<lparr>df_crc := crc\<rparr>) np"]) (simp_all add: frozen_def)
    moreover have "frozen ?np = frozen np"
      using frozen_set_frame [OF assms(1), of "?f\<lparr>df_crc := crc\<rparr>"] by (simp add: frozen_def raw_frame_def)
    moreover have "df_state ((np_buffer np)[p := ?f\<lparr>df_crc := crc\<rparr>] ! q) = df_state (np_buffer np ! q)"
        "df_resolved_input ((np_buffer np)[p := ?f\<lparr>df_crc := crc\<rparr>] ! q) = df_resolved_input (np_buffer np ! q)" for q
      using assms(1) by (cases "q = p"; simp)+
    ultimately show ?thesis
      using True get crc assms(3) by (auto simp: netplay_handle_frame_hash_def ptrs_def set_frame_def)
  next
    case False
    have "\<exists>np'. netplay_handle_frame_hash np p = Some np' \<and> frozen np' = frozen np \<and> np_buffer np' = np_buffer np \<and> ptrs np' = ptrs np"
      using False get crc by (auto simp: netplay_handle_frame_hash_def ptrs_def frozen_def)
    then show ?thesis using np_ok_frozen assms(3) by metis
  qed
qed

section \<open>The core\<close>

text \<open>A core that saves and loads completely, and that runs when its requests are answered.\<close>

definition core_ok :: "'c core_ops \<Rightarrow> nat \<Rightarrow> bool" where
  "core_ok ops n \<longleftrightarrow>
     (\<forall>c. \<exists>s. co_serialize ops c n = Some s \<and> length s = n \<and> (\<forall>c'. co_unserialize ops s c' = Some c)) \<and>
     (\<forall>cb c. (\<forall>port device idx ident. request_ok device idx ident \<longrightarrow> cb port device idx ident \<noteq> None) \<longrightarrow> co_run ops cb c \<noteq> None)"

lemma core_ok_saves:
  assumes "core_ok ops n"
  obtains s where "co_serialize ops c n = Some s" "length s = n"
  using assms by (auto simp: core_ok_def)

lemma core_ok_loads:
  assumes "core_ok ops n" "co_serialize ops c n = Some s"
  shows "co_unserialize ops s c' = Some c"
proof -
  obtain t where "co_serialize ops c n = Some t" "\<forall>c'. co_unserialize ops t c' = Some c"
    using assms(1) unfolding core_ok_def by blast
  then show ?thesis using assms(2) by simp
qed

lemma core_ok_runs:
  assumes "core_ok ops n" "shown_all np f"
  obtains c' where "co_run ops (frame_input np f) c = Some c'"
proof -
  have "length (shown_words (df_resolved_input f d)) = unat (device_size (np_config_devices np d AND RETRO_DEVICE_MASK))"
    if "d < MAX_INPUT_DEVICES" for d
  proof -
    have "shown (df_resolved_input f d) (device_size (np_config_devices np d AND RETRO_DEVICE_MASK))"
      using assms(2) that unfolding shown_all_def expected_size_one [OF that, of np, simplified, symmetric] by simp
    then show ?thesis using shown_cases by fastforce
  qed
  then have "frame_input np f port device idx ident \<noteq> None" if "request_ok device idx ident" for port device idx ident
    unfolding frame_input_def using that by (rule answer_defined)
  then show ?thesis using assms(1) that unfolding core_ok_def by blast
qed

text \<open>A frame holds the core's state before it, and the input with which the core was run from it.\<close>

definition saved :: "'c core_ops \<Rightarrow> netplay \<Rightarrow> delta_frame \<Rightarrow> 'c \<Rightarrow> bool" where
  "saved ops np f c \<longleftrightarrow> co_serialize ops c (np_state_size np) = Some (df_state f)"

definition stepped :: "'c core_ops \<Rightarrow> netplay \<Rightarrow> delta_frame \<Rightarrow> 'c \<Rightarrow> 'c \<Rightarrow> bool" where
  "stepped ops np f c c' \<longleftrightarrow> shown_all np f \<and> co_run ops (frame_input np f) c = Some c'"

text \<open>The step of the core that everybody's input asks for.\<close>

definition confirmed_step :: "'c core_ops \<Rightarrow> netplay \<Rightarrow> delta_frame \<Rightarrow> 'c \<Rightarrow> 'c \<Rightarrow> bool" where
  "confirmed_step ops np f c c' \<longleftrightarrow> co_run ops (confirmed_input np f) c = Some c'"

text \<open>The part of a frame that these speak about.\<close>

definition core_part :: "delta_frame \<Rightarrow> bytes \<times> (nat \<Rightarrow> netplay_input_state list)" where
  "core_part f = (df_state f, df_resolved_input f)"

lemma core_part_same:
  assumes "core_part f = core_part g"
  shows "saved ops np f c = saved ops np g c" "stepped ops np f c c' = stepped ops np g c c'"
  using assms by (simp_all add: core_part_def saved_def stepped_def shown_all_def frame_input_def)

lemma saved_length: "core_ok ops (np_state_size np) \<Longrightarrow> saved ops np f c \<Longrightarrow> length (df_state f) = np_state_size np"
  by (metis core_ok_saves option.inject saved_def)

end
