(* ===== verification/Netplay_Rollback.thy ===== *)
theory Netplay_Rollback
  imports Netplay_Ring
begin

text \<open>
  Rewinding and replaying (\<^verbatim>\<open>netplay_sync_post_frame\<close>).  The ring holds a history of the core: its state before every
  frame and the input with which it was run from there.  Proved here: saving the state and running a frame extends the
  history, and synchronising after a frame returns with a history in which every frame up to the first unread one was
  run with the input that follows from what was read, however wrong the guesses were.
\<close>

section \<open>Skipping ahead\<close>

abbreviation known :: "netplay \<Rightarrow> nat" where
  "known np \<equiv> min (unat (np_unread_frame_count np)) (finish np)"

text \<open>The frames from \<open>a\<close> on are kept, and the core was run with those from \<open>b\<close> on.\<close>

definition keeps :: "'c core_ops \<Rightarrow> netplay \<Rightarrow> netplay \<Rightarrow> (nat \<Rightarrow> 'c) \<Rightarrow> nat \<Rightarrow> bool" where
  "keeps ops np0 np cs f \<longleftrightarrow> saved ops np0 (frame_of np0 np f) (cs f) \<and> stepped ops np0 (frame_of np0 np f) (cs f) (cs (Suc f))"

definition in_ring :: "netplay \<Rightarrow> nat \<Rightarrow> bool" where
  "in_ring np f \<longleftrightarrow> start np \<le> f \<and> f < finish np"

text \<open>What holds before and during synchronising.\<close>

definition syncing :: "'c core_ops \<Rightarrow> netplay \<Rightarrow> netplay \<Rightarrow> bool" where
  "syncing ops np0 np \<longleftrightarrow> frozen np = frozen np0 \<and> np_ok np \<and> core_ok ops (np_state_size np0) \<and>
     finish np0 \<le> start np0 + np_buffer_size np0 \<and> (\<forall>f. start np0 \<le> f \<longrightarrow> f < known np0 \<longrightarrow> all_read np0 (frame_of np0 np0 f))"

lemma syncing_frozen: "syncing ops np0 np \<Longrightarrow> frozen np = frozen np0"
  by (simp add: syncing_def)

lemmas syncing_fields = frozen_fields [OF syncing_frozen]

lemma syncing_resolve:
  assumes "syncing ops np0 np" "in_ring np0 f"
  shows "\<exists>np' ch. netplay_resolve_input (\<lambda>_. True) np (ring_ptr np0 f) resim = Some (np', ch) \<and> syncing ops np0 np' \<and>
    ptrs np' = ptrs np \<and> (\<forall>x. x \<noteq> f \<longrightarrow> in_ring np0 x \<longrightarrow> frame_of np0 np' x = frame_of np0 np x) \<and>
    (saved ops np0 (frame_of np0 np f) c \<longrightarrow> saved ops np0 (frame_of np0 np' f) c) \<and> shown_all np0 (frame_of np0 np' f) \<and>
    (\<not> ch \<longrightarrow> stepped ops np0 (frame_of np0 np f) c c' \<longrightarrow> stepped ops np0 (frame_of np0 np' f) c c') \<and>
    (f < known np0 \<longrightarrow> stepped ops np0 (frame_of np0 np' f) c c' \<longrightarrow> confirmed_step ops np0 (frame_of np0 np0 f) c c')"
proof -
  have range: "start np0 \<le> f" "f < start np0 + np_buffer_size np0"
    and other: "in_ring np0 x \<Longrightarrow> start np0 \<le> x \<and> x < start np0 + np_buffer_size np0" for x
    using assms by (auto simp: syncing_def in_ring_def)
  have "\<exists>np' ch. netplay_resolve_input (\<lambda>_. True) np (ring_ptr np0 f) resim = Some (np', ch) \<and> frozen np' = frozen np0 \<and> np_ok np' \<and>
    ptrs np' = ptrs np \<and>
    (\<forall>x. x \<noteq> f \<longrightarrow> start np0 \<le> x \<longrightarrow> x < start np0 + np_buffer_size np0 \<longrightarrow> frame_of np0 np' x = frame_of np0 np x) \<and>
    df_state (frame_of np0 np' f) = df_state (frame_of np0 np f) \<and> shown_all np0 (frame_of np0 np' f) \<and>
    (\<not> ch \<longrightarrow> shown_all np0 (frame_of np0 np f) \<longrightarrow> frame_input np0 (frame_of np0 np' f) = frame_input np0 (frame_of np0 np f)) \<and>
    (all_read np0 (frame_of np0 np0 f) \<longrightarrow> frame_input np0 (frame_of np0 np' f) = confirmed_input np0 (frame_of np0 np0 f))"
    using assms(1) range by (intro resolve_step) (simp_all add: syncing_def)
  then obtain np' ch where res: "netplay_resolve_input (\<lambda>_. True) np (ring_ptr np0 f) resim = Some (np', ch)"
      "frozen np' = frozen np0" "np_ok np'" "ptrs np' = ptrs np"
      "\<forall>x. x \<noteq> f \<longrightarrow> start np0 \<le> x \<longrightarrow> x < start np0 + np_buffer_size np0 \<longrightarrow> frame_of np0 np' x = frame_of np0 np x"
      "df_state (frame_of np0 np' f) = df_state (frame_of np0 np f)" "shown_all np0 (frame_of np0 np' f)"
      "\<not> ch \<longrightarrow> shown_all np0 (frame_of np0 np f) \<longrightarrow> frame_input np0 (frame_of np0 np' f) = frame_input np0 (frame_of np0 np f)"
      "all_read np0 (frame_of np0 np0 f) \<longrightarrow> frame_input np0 (frame_of np0 np' f) = confirmed_input np0 (frame_of np0 np0 f)"
    by blast
  have "syncing ops np0 np'" using assms(1) res(2,3) by (simp add: syncing_def)
  moreover have "\<forall>x. x \<noteq> f \<longrightarrow> in_ring np0 x \<longrightarrow> frame_of np0 np' x = frame_of np0 np x" using res(5) other by blast
  moreover have "saved ops np0 (frame_of np0 np f) c \<longrightarrow> saved ops np0 (frame_of np0 np' f) c" using res(6) by (simp add: saved_def)
  moreover have "\<not> ch \<longrightarrow> stepped ops np0 (frame_of np0 np f) c c' \<longrightarrow> stepped ops np0 (frame_of np0 np' f) c c'"
    using res(7,8) by (simp add: stepped_def)
  moreover have "confirmed_step ops np0 (frame_of np0 np0 f) c c'" if "f < known np0" "stepped ops np0 (frame_of np0 np' f) c c'"
    using that res(9) assms(1) range(1) by (simp add: stepped_def confirmed_step_def syncing_def)
  ultimately show ?thesis using res(1,4,7) by blast
qed

lemma syncing_hash:
  assumes "syncing ops np0 np" "in_ring np0 f" "saved ops np0 (frame_of np0 np f) c"
  shows "\<exists>np'. netplay_handle_frame_hash np (ring_ptr np0 f) = Some np' \<and> syncing ops np0 np' \<and> ptrs np' = ptrs np \<and>
    (\<forall>q. core_part (np_buffer np' ! q) = core_part (np_buffer np ! q))"
proof -
  have size: "np_buffer_size np = np_buffer_size np0" "np_state_size np = np_state_size np0"
    using assms(1) frozen_fields [of np np0] by (simp_all add: syncing_def)
  then have "ring_ptr np0 f < length (np_buffer np)" using assms(1) ring_bound [of np0 f] by (auto simp: syncing_def np_ok_def)
  then have "\<exists>np'. netplay_handle_frame_hash np (ring_ptr np0 f) = Some np' \<and> frozen np' = frozen np \<and> np_ok np' \<and> ptrs np' = ptrs np \<and>
    (\<forall>q. df_state (np_buffer np' ! q) = df_state (np_buffer np ! q) \<and> df_resolved_input (np_buffer np' ! q) = df_resolved_input (np_buffer np ! q))"
    using assms saved_length [of ops np0] size(2) by (intro hash_step) (auto simp: syncing_def)
  then show ?thesis using assms(1) by (auto simp: syncing_def core_part_def)
qed

lemma count_less: "k \<le> finish np \<Longrightarrow> of_nat k < (w :: u32) \<longleftrightarrow> k < unat w"
  by (simp add: word_less_nat_alt le_unat_uoi)

lemma skip_ahead_some:
  assumes "syncing ops np0 np" "np_other_ptr np = ring_ptr np0 k" "np_other_frame_count np = of_nat k"
    and "start np0 \<le> k" "k \<le> known np0" "\<forall>f. k \<le> f \<longrightarrow> f < finish np0 \<longrightarrow> keeps ops np0 np cs f"
  shows "\<exists>np' go k'. skip_ahead (\<lambda>_. True) np = Some (np', go) \<and> syncing ops np0 np' \<and>
    np_other_ptr np' = ring_ptr np0 k' \<and> np_other_frame_count np' = of_nat k' \<and> np_force_rewind np' = np_force_rewind np \<and>
    k \<le> k' \<and> k' \<le> known np0 \<and> (if go then k' = known np0 else k' < known np0) \<and>
    (\<forall>f. k' < f \<longrightarrow> f < finish np0 \<longrightarrow> keeps ops np0 np' cs f) \<and>
    (k' < finish np0 \<longrightarrow> saved ops np0 (frame_of np0 np' k') (cs k') \<and> (go \<longrightarrow> keeps ops np0 np' cs k')) \<and>
    (\<forall>f. k \<le> f \<longrightarrow> f < k' \<longrightarrow> confirmed_step ops np0 (frame_of np0 np0 f) (cs f) (cs (Suc f)))"
  using assms
proof (induction "known np0 - k" arbitrary: np k)
  case 0
  note eqs = syncing_fields(8,10) [OF 0(2)]
  have "k = known np0" using 0 by simp
  then have "\<not> (np_other_frame_count np < np_unread_frame_count np \<and> np_other_frame_count np < np_run_frame_count np)"
    using 0(4) count_less [of k np0] by (simp add: eqs)
  then have "skip_ahead (\<lambda>_. True) np = Some (np, True)" by (subst skip_ahead.simps) (simp only: if_False)
  then show ?case using 0 \<open>k = known np0\<close> by (intro exI [of _ np] exI [of _ True] exI [of _ k]) (auto simp: keeps_def)
next
  case (Suc m)
  note eqs = syncing_fields(8,10) [OF Suc(3)]
  have k: "k < known np0" "in_ring np0 k" using Suc(2,6) by (auto simp: in_ring_def)
  have cond: "np_other_frame_count np < np_unread_frame_count np \<and> np_other_frame_count np < np_run_frame_count np"
    using k Suc(5) count_less [of k np0] by (simp add: eqs)
  have keep: "saved ops np0 (frame_of np0 np k) (cs k)" "stepped ops np0 (frame_of np0 np k) (cs k) (cs (Suc k))"
    using Suc(8) k by (auto simp: keeps_def)
  obtain np1 ch where res: "netplay_resolve_input (\<lambda>_. True) np (ring_ptr np0 k) True = Some (np1, ch)" "syncing ops np0 np1"
      "ptrs np1 = ptrs np" "\<forall>x. x \<noteq> k \<longrightarrow> in_ring np0 x \<longrightarrow> frame_of np0 np1 x = frame_of np0 np x"
      "saved ops np0 (frame_of np0 np1 k) (cs k)"
      "\<not> ch \<longrightarrow> stepped ops np0 (frame_of np0 np1 k) (cs k) (cs (Suc k))"
      "stepped ops np0 (frame_of np0 np1 k) (cs k) (cs (Suc k)) \<longrightarrow> confirmed_step ops np0 (frame_of np0 np0 k) (cs k) (cs (Suc k))"
    using syncing_resolve [OF Suc(3) k(2), of True "cs k" "cs (Suc k)"] keep k(1) by blast
  have keep1: "keeps ops np0 np1 cs f" if "k < f" "f < finish np0" for f
    using Suc(8) that res(4) k(2) by (auto simp: keeps_def in_ring_def)
  show ?case
  proof (cases ch)
    case True
    then have "skip_ahead (\<lambda>_. True) np = Some (np1, False)"
      using cond res(1) Suc(4) by (subst skip_ahead.simps) simp
    then show ?thesis using Suc(4,5) res(2,3,5) k keep1
      by (intro exI [of _ np1] exI [of _ False] exI [of _ k]) (auto simp: ptrs_def)
  next
    case False
    obtain np2 where hash: "netplay_handle_frame_hash np1 (ring_ptr np0 k) = Some np2" "syncing ops np0 np2" "ptrs np2 = ptrs np1"
        "\<forall>q. core_part (np_buffer np2 ! q) = core_part (np_buffer np1 ! q)"
      using syncing_hash [OF res(2) k(2) res(5)] by blast
    let ?np = "np2\<lparr>np_other_ptr := NEXT_PTR np2 (ring_ptr np0 k), np_other_frame_count := of_nat k + 1\<rparr>"
    have nxt: "NEXT_PTR np2 (ring_ptr np0 k) = ring_ptr np0 (Suc k)"
      using Suc(6) frozen_fields(6) [of np2 np0] hash(2) by (intro ring_next) (auto simp: syncing_def)
    have sync: "syncing ops np0 ?np"
      using hash(2) np_ok_frozen [of ?np np2] by (simp add: syncing_def frozen_def)
    have keep2: "\<forall>f. Suc k \<le> f \<longrightarrow> f < finish np0 \<longrightarrow> keeps ops np0 ?np cs f"
      using keep1 core_part_same [OF hash(4) [rule_format], of ops] by (simp add: keeps_def)
    have more: "m = known np0 - Suc k" "np_other_ptr ?np = ring_ptr np0 (Suc k)" "np_other_frame_count ?np = of_nat (Suc k)"
        "start np0 \<le> Suc k" "Suc k \<le> known np0"
      using Suc(2,6) k nxt by simp_all
    obtain np' go k' where rec: "skip_ahead (\<lambda>_. True) ?np = Some (np', go)" "syncing ops np0 np'"
        "np_other_ptr np' = ring_ptr np0 k'" "np_other_frame_count np' = of_nat k'" "np_force_rewind np' = np_force_rewind ?np"
        "Suc k \<le> k'" "k' \<le> known np0" "if go then k' = known np0 else k' < known np0"
        "\<forall>f. k' < f \<longrightarrow> f < finish np0 \<longrightarrow> keeps ops np0 np' cs f"
        "k' < finish np0 \<longrightarrow> saved ops np0 (frame_of np0 np' k') (cs k') \<and> (go \<longrightarrow> keeps ops np0 np' cs k')"
        "\<forall>f. Suc k \<le> f \<longrightarrow> f < k' \<longrightarrow> confirmed_step ops np0 (frame_of np0 np0 f) (cs f) (cs (Suc f))"
      using Suc(1) [OF more(1) sync more(2-5) keep2] by blast
    have "skip_ahead (\<lambda>_. True) np = Some (np', go)"
      using cond res(1) False hash(1,3) res(3) Suc(4,5) rec(1) by (subst skip_ahead.simps) (simp add: ptrs_def)
    moreover have "confirmed_step ops np0 (frame_of np0 np0 f) (cs f) (cs (Suc f))" if "k \<le> f" "f < k'" for f
      using that rec(11) res(6,7) False by (cases "f = k") auto
    moreover have "np_force_rewind np' = np_force_rewind np" using rec(5) hash(3) res(3) by (simp add: ptrs_def)
    moreover have "k \<le> k'" using rec(6) by simp
    ultimately show ?thesis using rec(2-4,7-10) by blast
  qed
qed

section \<open>Replaying\<close>

lemma syncing_same:
  assumes "syncing ops np0 np" "frozen np' = frozen np" "np_buffer np' = np_buffer np"
  shows "syncing ops np0 np'"
  using assms(1) unfolding syncing_def assms(2) np_ok_frozen [OF assms(2,3)] .

lemma syncing_bound:
  assumes "syncing ops np0 np"
  shows "ring_ptr np0 f < length (np_buffer np)"
proof -
  have "length (np_buffer np) = np_buffer_size np" "0 < np_buffer_size np"
    using assms unfolding syncing_def np_ok_def by blast+
  then show ?thesis using ring_bound [of np0 f] syncing_fields(6) [OF assms] by simp
qed

lemma syncing_next: "syncing ops np0 np \<Longrightarrow> start np0 \<le> f \<Longrightarrow> NEXT_PTR np (ring_ptr np0 f) = ring_ptr np0 (Suc f)"
  by (rule ring_next) (simp_all add: syncing_fields(6))

lemma find_replay_some:
  assumes "syncing ops np0 np" "np_replay_ptr np = ring_ptr np0 r" "np_replay_frame_count np = of_nat r"
    and "start np0 \<le> lo" "lo \<le> r" "r \<le> finish np0" "\<forall>f. lo \<le> f \<longrightarrow> f < finish np0 \<longrightarrow> keeps ops np0 np cs f"
  shows "\<exists>np' r'. find_replay (\<lambda>_. True) np = Some np' \<and> syncing ops np0 np' \<and>
    np_replay_ptr np' = ring_ptr np0 r' \<and> np_replay_frame_count np' = of_nat r' \<and> np_force_rewind np' = np_force_rewind np \<and>
    np_other_ptr np' = np_other_ptr np \<and> np_other_frame_count np' = np_other_frame_count np \<and>
    r \<le> r' \<and> r' \<le> finish np0 \<and> (\<forall>f. lo \<le> f \<longrightarrow> f < finish np0 \<longrightarrow> f \<noteq> r' \<longrightarrow> keeps ops np0 np' cs f) \<and>
    (r' < finish np0 \<longrightarrow> saved ops np0 (frame_of np0 np' r') (cs r'))"
  using assms
proof (induction "finish np0 - r" arbitrary: np r)
  case 0
  then have "r = finish np0" by simp
  then have "\<not> np_replay_frame_count np < np_run_frame_count np"
    using 0(4) count_less [of r np0] syncing_fields(8) [OF 0(2)] by simp
  then have "find_replay (\<lambda>_. True) np = Some np" by (subst find_replay.simps) simp
  then show ?case using 0 \<open>r = finish np0\<close> by (intro exI [of _ np] exI [of _ r]) auto
next
  case (Suc m)
  have r: "in_ring np0 r" using Suc(2,6,7) by (simp add: in_ring_def)
  have cond: "np_replay_frame_count np < np_run_frame_count np"
    using Suc(2,5) count_less [of r np0] syncing_fields(8) [OF Suc(3)] by simp
  have keep: "saved ops np0 (frame_of np0 np r) (cs r)" "stepped ops np0 (frame_of np0 np r) (cs r) (cs (Suc r))"
    using Suc(2,7,9) by (auto simp: keeps_def)
  obtain np1 ch where res: "netplay_resolve_input (\<lambda>_. True) np (ring_ptr np0 r) True = Some (np1, ch)" "syncing ops np0 np1"
      "ptrs np1 = ptrs np" "\<forall>x. x \<noteq> r \<longrightarrow> in_ring np0 x \<longrightarrow> frame_of np0 np1 x = frame_of np0 np x"
      "saved ops np0 (frame_of np0 np1 r) (cs r)" "\<not> ch \<longrightarrow> stepped ops np0 (frame_of np0 np1 r) (cs r) (cs (Suc r))"
    using syncing_resolve [OF Suc(3) r, of True "cs r" "cs (Suc r)"] keep by blast
  have keep1: "keeps ops np0 np1 cs f" if "lo \<le> f" "f < finish np0" "f \<noteq> r" for f
    using Suc(6,9) that res(4) by (auto simp: keeps_def in_ring_def)
  show ?case
  proof (cases ch)
    case True
    then have "find_replay (\<lambda>_. True) np = Some np1" using cond res(1) Suc(4) by (subst find_replay.simps) simp
    then show ?thesis using Suc(4,5,8) res(2,3,5) keep1 by (intro exI [of _ np1] exI [of _ r]) (simp add: ptrs_def)
  next
    case False
    let ?np = "np1\<lparr>np_replay_ptr := NEXT_PTR np1 (ring_ptr np0 r), np_replay_frame_count := of_nat r + 1\<rparr>"
    have sync: "syncing ops np0 ?np" using res(2) by (rule syncing_same) (simp_all add: frozen_def)
    have keep2: "\<forall>f. lo \<le> f \<longrightarrow> f < finish np0 \<longrightarrow> keeps ops np0 ?np cs f"
      using keep1 res(5,6) False by (auto simp: keeps_def)
    have more: "m = finish np0 - Suc r" "np_replay_ptr ?np = ring_ptr np0 (Suc r)" "np_replay_frame_count ?np = of_nat (Suc r)"
        "lo \<le> Suc r" "Suc r \<le> finish np0"
      using Suc(2,6,7) syncing_next [OF res(2), of r] by simp_all
    obtain np' r' where rec: "find_replay (\<lambda>_. True) ?np = Some np'" "syncing ops np0 np'"
        "np_replay_ptr np' = ring_ptr np0 r'" "np_replay_frame_count np' = of_nat r'" "np_force_rewind np' = np_force_rewind ?np"
        "np_other_ptr np' = np_other_ptr ?np" "np_other_frame_count np' = np_other_frame_count ?np"
        "Suc r \<le> r'" "r' \<le> finish np0" "\<forall>f. lo \<le> f \<longrightarrow> f < finish np0 \<longrightarrow> f \<noteq> r' \<longrightarrow> keeps ops np0 np' cs f"
        "r' < finish np0 \<longrightarrow> saved ops np0 (frame_of np0 np' r') (cs r')"
      using Suc(1) [OF more(1) sync more(2,3) Suc(6) more(4,5) keep2] by blast
    have "find_replay (\<lambda>_. True) np = Some np'"
      using cond res(1,3) False Suc(4,5) rec(1) by (subst find_replay.simps) (simp add: ptrs_def)
    moreover have "np_force_rewind np' = np_force_rewind np" "np_other_ptr np' = np_other_ptr np"
        "np_other_frame_count np' = np_other_frame_count np" "r \<le> r'"
      using rec(5-8) res(3) by (simp_all add: ptrs_def)
    ultimately show ?thesis using rec(2-4,9-11) by blast
  qed
qed

lemma replay_frame_some:
  assumes sync: "syncing ops np0 np" and ptr: "np_replay_ptr np = ring_ptr np0 r" "np_replay_frame_count np = of_nat r"
    and r: "in_ring np0 r" and replay: "np_is_replay np"
  shows "\<exists>np' c'. replay_frame (\<lambda>_. True) ops (np, c) = Some (np', c') \<and> syncing ops np0 np' \<and> np_is_replay np' \<and>
    np_replay_ptr np' = ring_ptr np0 (Suc r) \<and> np_replay_frame_count np' = of_nat (Suc r) \<and>
    saved ops np0 (frame_of np0 np' r) c \<and> stepped ops np0 (frame_of np0 np' r) c c' \<and>
    (r < known np0 \<longrightarrow> confirmed_step ops np0 (frame_of np0 np0 r) c c') \<and>
    (\<forall>x. x \<noteq> r \<longrightarrow> in_ring np0 x \<longrightarrow> core_part (frame_of np0 np' x) = core_part (frame_of np0 np x))"
proof -
  let ?p = "ring_ptr np0 r"
  obtain t1 np1 where t1: "get_time np = (t1, np1)" by fastforce
  then have np1: "syncing ops np0 np1" "np_buffer np1 = np_buffer np" "ptrs np1 = ptrs np" "frozen np1 = frozen np"
    using syncing_same [OF sync, of np1] by (auto simp: get_time_def frozen_def ptrs_def)
  let ?f = "frame_of np0 np r"
  have p: "?p < length (np_buffer np1)" by (rule syncing_bound [OF np1(1)])
  have size: "np_state_size np1 = np_state_size np0" by (rule syncing_fields(11) [OF np1(1)])
  have "core_ok ops (np_state_size np0)" using sync by (simp add: syncing_def)
  then obtain s where s: "co_serialize ops c (np_state_size np0) = Some s" by (rule core_ok_saves)
  let ?np2 = "set_frame ?p (?f\<lparr>df_state := s\<rparr>) np1"
  have "frame_ok np1 ?f" using np1(1,2) p by (simp add: syncing_def np_ok_def)
  then have "np_ok ?np2" using np1(1) by (intro np_ok_set_frame) (simp_all add: syncing_def frame_ok_def)
  moreover have "frozen ?np2 = frozen np1" by (rule frozen_set_frame [OF p]) (simp add: np1(2) raw_frame_def)
  ultimately have np2: "syncing ops np0 ?np2" using np1(1) by (simp add: syncing_def)
  have at2: "frame_of np0 ?np2 r = ?f\<lparr>df_state := s\<rparr>" using p by simp
  have other2: "frame_of np0 ?np2 x = frame_of np0 np x" if "x \<noteq> r" "in_ring np0 x" for x
  proof -
    have "ring_ptr np0 x \<noteq> ?p"
    proof
      assume "ring_ptr np0 x = ?p"
      then have "x = r" by (rule ring_inj) (use that r sync in \<open>auto simp: in_ring_def syncing_def\<close>)
      then show False using that by simp
    qed
    then show ?thesis by (simp add: np1(2))
  qed
  have saved2: "saved ops np0 (frame_of np0 ?np2 r) c" unfolding at2 by (simp add: saved_def s)
  obtain np3 where hash: "(if np_replay_frame_count ?np2 < np_unread_frame_count ?np2 then netplay_handle_frame_hash ?np2 ?p else Some ?np2) = Some np3"
      "syncing ops np0 np3" "ptrs np3 = ptrs ?np2" "\<forall>q. core_part (np_buffer np3 ! q) = core_part (np_buffer ?np2 ! q)"
    using syncing_hash [OF np2 r saved2] np2 by (cases "np_replay_frame_count ?np2 < np_unread_frame_count ?np2") auto
  have saved3: "saved ops np0 (frame_of np0 np3 r) c"
    using saved2 core_part_same(1) [OF hash(4) [rule_format], of ops] by blast
  obtain np4 ch where res: "netplay_resolve_input (\<lambda>_. True) np3 ?p True = Some (np4, ch)" "syncing ops np0 np4"
      "ptrs np4 = ptrs np3" "\<forall>x. x \<noteq> r \<longrightarrow> in_ring np0 x \<longrightarrow> frame_of np0 np4 x = frame_of np0 np3 x"
      "saved ops np0 (frame_of np0 np4 r) c" "shown_all np0 (frame_of np0 np4 r)"
    using syncing_resolve [OF hash(2) r, of True c] saved3 by blast
  have conf: "stepped ops np0 (frame_of np0 np4 r) c c' \<longrightarrow> confirmed_step ops np0 (frame_of np0 np0 r) c c'" if "r < known np0" for c'
    using syncing_resolve [OF hash(2) r, of True c c'] res(1) that by auto
  obtain c' where c': "co_run ops (frame_input np0 (frame_of np0 np4 r)) c = Some c'"
    using core_ok_runs [OF \<open>core_ok ops (np_state_size np0)\<close> res(6)] by blast
  have "ptrs np4 = ptrs np" using res(3) hash(3) np1(3) by simp
  then have ptrs4: "np_is_replay np4" "np_replay_ptr np4 = ?p" "np_replay_frame_count np4 = of_nat r"
    using \<open>ptrs np4 = ptrs np\<close> ptr replay by (simp_all add: ptrs_def)
  have "netplay_input_state_cb np4 = frame_input np4 (frame_of np0 np4 r)"
    using ptrs4(1,2) syncing_bound [OF res(2)] res(6) confirmed_frozen(5) [OF syncing_frozen [OF res(2)]] by (intro callback_answers) simp_all
  then have run: "core_run ops np4 c = Some c'"
    using c' confirmed_frozen(6) [OF syncing_frozen [OF res(2)]] by (simp add: core_run_def)
  let ?np5 = "np4\<lparr>np_replay_ptr := NEXT_PTR np4 ?p, np_replay_frame_count := of_nat r + 1\<rparr>"
  obtain t2 np6 where t2: "get_time ?np5 = (t2, np6)" by fastforce
  let ?np7 = "record_time (t2 - t1) np6"
  have np7: "frozen ?np7 = frozen np4" "np_buffer ?np7 = np_buffer np4" "np_is_replay ?np7" "np_replay_ptr ?np7 = NEXT_PTR np4 ?p"
      "np_replay_frame_count ?np7 = of_nat r + 1"
    using t2 ptrs4(1) by (auto simp: get_time_def frozen_def record_time_def Let_def)
  have get: "mem_get (np_buffer np1) ?p = Some ?f" using p np1(2) by (simp add: mem_get_Some)
  have "replay_frame (\<lambda>_. True) ops (np, c) = Some (?np7, c')"
    using t1 get s size hash(1) res(1) run t2 ptr(1) ptrs4(2,3)
    by (simp add: replay_frame_def core_serialize_def)
  moreover have "syncing ops np0 ?np7" by (rule syncing_same [OF res(2) np7(1,2)])
  moreover have "core_part (frame_of np0 np4 x) = core_part (frame_of np0 np x)" if "x \<noteq> r" "in_ring np0 x" for x
    using res(4) hash(4) other2 [OF that] that by simp
  moreover have "NEXT_PTR np4 ?p = ring_ptr np0 (Suc r)" using syncing_next [OF res(2)] r by (simp add: in_ring_def)
  moreover have "stepped ops np0 (frame_of np0 np4 r) c c'" using c' res(6) by (simp add: stepped_def)
  ultimately show ?thesis using np7 res(5) conf [of c']
    by (intro exI [of _ ?np7] exI [of _ c']) (simp add: add.commute)
qed

lemma replay_frames_some:
  assumes "syncing ops np0 np" "np_replay_ptr np = ring_ptr np0 r" "np_replay_frame_count np = of_nat r"
    and "start np0 \<le> r" "r \<le> finish np0" "np_is_replay np"
  shows "\<exists>np' ds. replay_frames (\<lambda>_. True) ops (np, c) = Some (np', ds (finish np0)) \<and> syncing ops np0 np' \<and> ds r = c \<and>
    (\<forall>f. r \<le> f \<longrightarrow> f < finish np0 \<longrightarrow> keeps ops np0 np' ds f \<and>
      (f < known np0 \<longrightarrow> confirmed_step ops np0 (frame_of np0 np0 f) (ds f) (ds (Suc f)))) \<and>
    (\<forall>x. x < r \<longrightarrow> in_ring np0 x \<longrightarrow> core_part (frame_of np0 np' x) = core_part (frame_of np0 np x))"
  using assms
proof (induction "finish np0 - r" arbitrary: np r c)
  case 0
  then have "r = finish np0" by simp
  then have "\<not> np_replay_frame_count np < np_run_frame_count np"
    using 0(4) count_less [of r np0] syncing_fields(8) [OF 0(2)] by simp
  then have "replay_frames (\<lambda>_. True) ops (np, c) = Some (np, c)" by (subst replay_frames.simps) simp
  then show ?case using 0 \<open>r = finish np0\<close> by (intro exI [of _ np] exI [of _ "\<lambda>_. c"]) auto
next
  case (Suc m)
  have r: "in_ring np0 r" using Suc(2,6) by (simp add: in_ring_def)
  have cond: "np_replay_frame_count np < np_run_frame_count np"
    using Suc(2,5) count_less [of r np0] syncing_fields(8) [OF Suc(3)] by simp
  obtain np1 c1 where one: "replay_frame (\<lambda>_. True) ops (np, c) = Some (np1, c1)" "syncing ops np0 np1" "np_is_replay np1"
      "np_replay_ptr np1 = ring_ptr np0 (Suc r)" "np_replay_frame_count np1 = of_nat (Suc r)"
      "saved ops np0 (frame_of np0 np1 r) c" "stepped ops np0 (frame_of np0 np1 r) c c1"
      "r < known np0 \<longrightarrow> confirmed_step ops np0 (frame_of np0 np0 r) c c1"
      "\<forall>x. x \<noteq> r \<longrightarrow> in_ring np0 x \<longrightarrow> core_part (frame_of np0 np1 x) = core_part (frame_of np0 np x)"
    using replay_frame_some [OF Suc(3,4,5) r Suc(8), of c] by blast
  have more: "m = finish np0 - Suc r" "start np0 \<le> Suc r" "Suc r \<le> finish np0" using Suc(2,6) by simp_all
  obtain np' ds where rec: "replay_frames (\<lambda>_. True) ops (np1, c1) = Some (np', ds (finish np0))" "syncing ops np0 np'" "ds (Suc r) = c1"
      "\<forall>f. Suc r \<le> f \<longrightarrow> f < finish np0 \<longrightarrow> keeps ops np0 np' ds f \<and>
        (f < known np0 \<longrightarrow> confirmed_step ops np0 (frame_of np0 np0 f) (ds f) (ds (Suc f)))"
      "\<forall>x. x < Suc r \<longrightarrow> in_ring np0 x \<longrightarrow> core_part (frame_of np0 np' x) = core_part (frame_of np0 np1 x)"
    using Suc(1) [OF more(1) one(2,4,5) more(2,3) one(3), of c1] by blast
  let ?ds = "ds(r := c)"
  have "replay_frames (\<lambda>_. True) ops (np, c) = Some (np', ?ds (finish np0))"
    using cond one(1) rec(1) more(3) by (subst replay_frames.simps) simp
  moreover have "keeps ops np0 np' ?ds f \<and> (f < known np0 \<longrightarrow> confirmed_step ops np0 (frame_of np0 np0 f) (?ds f) (?ds (Suc f)))"
    if "r \<le> f" "f < finish np0" for f
  proof (cases "f = r")
    case True
    have "core_part (frame_of np0 np' r) = core_part (frame_of np0 np1 r)" using rec(5) r by simp
    then show ?thesis using True one(6-8) rec(3) core_part_same [of "frame_of np0 np' r" _ ops] by (simp add: keeps_def)
  next
    case False
    then show ?thesis using rec(4) that by (simp add: keeps_def)
  qed
  moreover have "core_part (frame_of np0 np' x) = core_part (frame_of np0 np x)" if "x < r" "in_ring np0 x" for x
    using rec(5) one(9) that by simp
  ultimately show ?case using rec(2) by (intro exI [of _ np'] exI [of _ ?ds]) simp
qed

section \<open>Planning\<close>

lemma plan_replay_some:
  assumes sync: "syncing ops np0 np0" and keep: "\<forall>f. start np0 \<le> f \<longrightarrow> f < finish np0 \<longrightarrow> keeps ops np0 np0 cs f"
    and range: "start np0 \<le> known np0" and flags: "\<not> np_force_rewind np0" and ptr: "np_other_ptr np0 < np_buffer_size np0"
  shows "\<exists>np' k r. plan_replay (\<lambda>_. True) np0 = Some np' \<and> syncing ops np0 np' \<and> \<not> np_force_rewind np' \<and>
    np_other_ptr np' = ring_ptr np0 k \<and> np_other_frame_count np' = of_nat k \<and>
    np_replay_ptr np' = ring_ptr np0 r \<and> np_replay_frame_count np' = of_nat r \<and>
    start np0 \<le> k \<and> k \<le> known np0 \<and> k \<le> r \<and> r \<le> finish np0 \<and> (k < known np0 \<longrightarrow> r = k) \<and>
    (\<forall>f. k \<le> f \<longrightarrow> f < finish np0 \<longrightarrow> f \<noteq> r \<longrightarrow> keeps ops np0 np' cs f) \<and>
    (r < finish np0 \<longrightarrow> saved ops np0 (frame_of np0 np' r) (cs r)) \<and>
    (\<forall>f. start np0 \<le> f \<longrightarrow> f < k \<longrightarrow> confirmed_step ops np0 (frame_of np0 np0 f) (cs f) (cs (Suc f)))"
proof -
  let ?np1 = "np0\<lparr>np_replay_ptr := np_other_ptr np0, np_replay_frame_count := np_other_frame_count np0\<rparr>"
  have sync1: "syncing ops np0 ?np1" by (rule syncing_same [OF sync]) (simp_all add: frozen_def)
  have keep1: "\<forall>f. start np0 \<le> f \<longrightarrow> f < finish np0 \<longrightarrow> keeps ops np0 ?np1 cs f" using keep by (simp add: keeps_def)
  have ptr1: "np_other_ptr ?np1 = ring_ptr np0 (start np0)" "np_other_frame_count ?np1 = of_nat (start np0)"
    using ptr by (simp_all add: ring_ptr_def)
  obtain np2 go k where skip: "skip_ahead (\<lambda>_. True) ?np1 = Some (np2, go)" "syncing ops np0 np2"
      "np_other_ptr np2 = ring_ptr np0 k" "np_other_frame_count np2 = of_nat k" "np_force_rewind np2 = np_force_rewind ?np1"
      "start np0 \<le> k" "k \<le> known np0" "if go then k = known np0 else k < known np0"
      "\<forall>f. k < f \<longrightarrow> f < finish np0 \<longrightarrow> keeps ops np0 np2 cs f"
      "k < finish np0 \<longrightarrow> saved ops np0 (frame_of np0 np2 k) (cs k) \<and> (go \<longrightarrow> keeps ops np0 np2 cs k)"
      "\<forall>f. start np0 \<le> f \<longrightarrow> f < k \<longrightarrow> confirmed_step ops np0 (frame_of np0 np0 f) (cs f) (cs (Suc f))"
    using skip_ahead_some [OF sync1 ptr1 le_refl range keep1] by blast
  let ?np3 = "np2\<lparr>np_replay_ptr := np_other_ptr np2, np_replay_frame_count := np_other_frame_count np2\<rparr>"
  have sync3: "syncing ops np0 ?np3" by (rule syncing_same [OF skip(2)]) (simp_all add: frozen_def)
  have plan: "plan_replay (\<lambda>_. True) np0 = (if go then find_replay (\<lambda>_. True) ?np3 else Some ?np3)"
    using flags skip(1) by (simp add: plan_replay_def Let_def)
  show ?thesis
  proof (cases go)
    case False
    then have "k < known np0" using skip(8) by simp
    then show ?thesis using plan False sync3 skip(3-7,9-11) flags
      by (intro exI [of _ ?np3] exI [of _ k] exI [of _ k]) (simp add: keeps_def)
  next
    case True
    have k: "k = known np0" "k \<le> finish np0" using True skip(8) by simp_all
    have keep3: "\<forall>f. k \<le> f \<longrightarrow> f < finish np0 \<longrightarrow> keeps ops np0 ?np3 cs f"
      using skip(9,10) True by (auto simp: keeps_def le_less)
    have ptr3: "np_replay_ptr ?np3 = ring_ptr np0 k" "np_replay_frame_count ?np3 = of_nat k" using skip(3,4) by simp_all
    obtain np' r where found: "find_replay (\<lambda>_. True) ?np3 = Some np'" "syncing ops np0 np'"
        "np_replay_ptr np' = ring_ptr np0 r" "np_replay_frame_count np' = of_nat r" "np_force_rewind np' = np_force_rewind ?np3"
        "np_other_ptr np' = np_other_ptr ?np3" "np_other_frame_count np' = np_other_frame_count ?np3"
        "k \<le> r" "r \<le> finish np0" "\<forall>f. k \<le> f \<longrightarrow> f < finish np0 \<longrightarrow> f \<noteq> r \<longrightarrow> keeps ops np0 np' cs f"
        "r < finish np0 \<longrightarrow> saved ops np0 (frame_of np0 np' r) (cs r)"
      using find_replay_some [OF sync3 ptr3 skip(6) le_refl k(2) keep3] by blast
    have "plan_replay (\<lambda>_. True) np0 = Some np'" using plan True found(1) by simp
    moreover have "\<not> np_force_rewind np'" "np_other_ptr np' = ring_ptr np0 k" "np_other_frame_count np' = of_nat k" "k \<le> known np0"
        "k < known np0 \<longrightarrow> r = k"
      using found(5-7) skip(3-5) flags k by simp_all
    ultimately show ?thesis using found(2-4,8-11) skip(6,11) by blast
  qed
qed

section \<open>The whole\<close>

text \<open>The frames from \<open>start\<close> up to the one to be run next hold a history of the core: its states, and the inputs with
  which it went from one to the next.\<close>

definition consistent :: "'c core_ops \<Rightarrow> netplay \<Rightarrow> (nat \<Rightarrow> 'c) \<Rightarrow> 'c \<Rightarrow> bool" where
  "consistent ops np cs core \<longleftrightarrow> np_other_ptr np < np_buffer_size np \<and> start np \<le> finish np \<and>
     finish np \<le> start np + np_buffer_size np \<and> np_run_ptr np = ring_ptr np (finish np) \<and> cs (finish np) = core \<and>
     (\<forall>f. start np \<le> f \<longrightarrow> f < finish np \<longrightarrow> keeps ops np np cs f)"

text \<open>The first frame of which something is unread is where \<open>np_unread_ptr\<close> says, and the frames before it are read.\<close>

definition unread_ok :: "netplay \<Rightarrow> bool" where
  "unread_ok np \<longleftrightarrow> start np \<le> unat (np_unread_frame_count np) \<and>
     (unat (np_unread_frame_count np) < finish np \<longrightarrow> np_unread_ptr np = ring_ptr np (unat (np_unread_frame_count np))) \<and>
     (\<forall>f. start np \<le> f \<longrightarrow> f < known np \<longrightarrow> all_read np (frame_of np np f))"

lemma ring_shift:
  assumes "np_other_ptr np' = ring_ptr np k" "np_other_frame_count np' = of_nat k" "np_buffer_size np' = np_buffer_size np"
    and "start np \<le> k" "k \<le> finish np" "k \<le> f"
  shows "ring_ptr np' f = ring_ptr np f"
proof -
  have "((a + (k - s)) mod n + (f - k)) mod n = (a + (f - s)) mod n" if "s \<le> k" for a s n :: nat
    unfolding mod_add_left_eq using that assms(6) by simp
  moreover have "unat (np_other_frame_count np') = k" using assms(2,5) by (simp add: le_unat_uoi)
  ultimately show ?thesis using assms(1,3,4) unfolding ring_ptr_def by (simp only:)
qed

text \<open>Making the rest of the way: loading the state, replaying, and moving to the first frame that is not known.\<close>

lemma replay_input_some:
  assumes sync: "syncing ops np0 np" and ptr: "np_replay_ptr np = ring_ptr np0 r" "np_replay_frame_count np = of_nat r"
    and r: "in_ring np0 r" and saved: "saved ops np0 (frame_of np0 np r) c"
    and quirks: "\<not> np_have_updown_device np0" "np_quirks np0 AND NETPLAY_QUIRK_INITIALIZATION = 0"
    and unread: "unread_ok np0" and run: "np_run_ptr np0 = ring_ptr np0 (finish np0)"
  shows "\<exists>np' ds. replay_input (\<lambda>_. True) malloc ops (np, core) = Some (np', ds (finish np0)) \<and> syncing ops np0 np' \<and>
    np_other_ptr np' = ring_ptr np0 (known np0) \<and> np_other_frame_count np' = of_nat (known np0) \<and> ds r = c \<and>
    (\<forall>f. r \<le> f \<longrightarrow> f < finish np0 \<longrightarrow> keeps ops np0 np' ds f \<and>
      (f < known np0 \<longrightarrow> confirmed_step ops np0 (frame_of np0 np0 f) (ds f) (ds (Suc f)))) \<and>
    (\<forall>x. x < r \<longrightarrow> in_ring np0 x \<longrightarrow> core_part (frame_of np0 np' x) = core_part (frame_of np0 np x))"
proof -
  let ?np1 = "np\<lparr>np_is_replay := True\<rparr>"
  have sync1: "syncing ops np0 ?np1" by (rule syncing_same [OF sync]) (simp_all add: frozen_def)
  have flags: "\<not> np_have_updown_device np" "np_quirks np AND NETPLAY_QUIRK_INITIALIZATION = 0"
    using quirks syncing_fields(13,14) [OF sync] by simp_all
  have get: "mem_get (np_buffer np) (ring_ptr np0 r) = Some (frame_of np0 np r)"
    using syncing_bound [OF sync] by (simp add: mem_get_Some)
  have load: "co_unserialize ops (df_state (frame_of np0 np r)) core = Some c"
    using core_ok_loads [of ops "np_state_size np0" c] saved sync by (simp add: saved_def syncing_def)
  have bounds: "start np0 \<le> r" "r \<le> finish np0" using r by (simp_all add: in_ring_def)
  obtain np2 ds where frames: "replay_frames (\<lambda>_. True) ops (?np1, c) = Some (np2, ds (finish np0))" "syncing ops np0 np2" "ds r = c"
      "\<forall>f. r \<le> f \<longrightarrow> f < finish np0 \<longrightarrow> keeps ops np0 np2 ds f \<and>
        (f < known np0 \<longrightarrow> confirmed_step ops np0 (frame_of np0 np0 f) (ds f) (ds (Suc f)))"
      "\<forall>x. x < r \<longrightarrow> in_ring np0 x \<longrightarrow> core_part (frame_of np0 np2 x) = core_part (frame_of np0 ?np1 x)"
    using replay_frames_some [OF sync1, of r c] ptr bounds by auto
  define np3 where "np3 = np2\<lparr>np_frame_run_time_avg := np_frame_run_time_sum np2 sdiv int NETPLAY_FRAME_RUN_TIME_WINDOW\<rparr>"
  define np4 where "np4 = (if np_unread_frame_count np3 < np_run_frame_count np3
      then np3\<lparr>np_other_ptr := np_unread_ptr np3, np_other_frame_count := np_unread_frame_count np3\<rparr>
      else np3\<lparr>np_other_ptr := np_run_ptr np3, np_other_frame_count := np_run_frame_count np3\<rparr>)"
  let ?np5 = "np4\<lparr>np_is_replay := False, np_force_rewind := False\<rparr>"
  have "replay_input (\<lambda>_. True) malloc ops (np, core) = Some (?np5, ds (finish np0))"
    using ptr(1) flags get load frames(1) by (simp add: replay_input_def Let_def np3_def np4_def)
  moreover have same: "frozen ?np5 = frozen np2" "np_buffer ?np5 = np_buffer np2"
    by (simp_all add: np4_def np3_def frozen_def)
  moreover have "np_other_ptr ?np5 = ring_ptr np0 (known np0) \<and> np_other_frame_count ?np5 = of_nat (known np0)"
  proof (cases "np_unread_frame_count np0 < np_run_frame_count np0")
    case True
    then show ?thesis
      using unread syncing_fields(7-10) [OF frames(2)] by (simp add: np4_def np3_def unread_ok_def word_less_nat_alt min_def)
  next
    case False
    then show ?thesis
      using run syncing_fields(7-10) [OF frames(2)] by (simp add: np4_def np3_def word_less_nat_alt min_def)
  qed
  moreover have "syncing ops np0 ?np5" by (rule syncing_same [OF frames(2) same])
  moreover have "keeps ops np0 ?np5 ds f = keeps ops np0 np2 ds f" for f by (simp add: keeps_def same(2))
  ultimately show ?thesis using frames(3-5) by (intro exI [of _ ?np5] exI [of _ ds]) simp
qed

text \<open>Catching up does not touch frames.\<close>

lemma request_stall_some:
  assumes "i < length (np_connections np)" "length (np_connections np) < 32"
  shows "\<exists>np'. request_stall i np = Some np' \<and> frozen np' = frozen np \<and> np_buffer np' = np_buffer np \<and> ptrs np' = ptrs np \<and>
    length (np_connections np') = length (np_connections np)"
proof -
  let ?cs = "np_connections np" and ?c = "(np_connections np ! i)\<lparr>nc_stall_frame := np_self_frame_count np\<rparr>"
  have "map (\<lambda>c. c\<lparr>nc_stall_frame := 0\<rparr>) (?cs[i := ?c]) = map (\<lambda>c. c\<lparr>nc_stall_frame := 0\<rparr>) ?cs"
    by (simp add: map_update) (metis (no_types, lifting) assms(1) list_update_id nth_map)
  then show ?thesis
    using assms by (auto simp: request_stall_def mem_get_Some MAX_CLIENTS_def frozen_def ptrs_def)
qed

lemma catch_up_some:
  assumes "length (np_connections np) < 32"
  shows "\<exists>np'. catch_up stalled np = Some np' \<and> frozen np' = frozen np \<and> np_buffer np' = np_buffer np \<and> ptrs np' = ptrs np"
proof -
  let ?np = "np\<lparr>np_catch_up_time := 0\<rparr>"
  let ?P = "\<lambda>(_ :: nat) np'. frozen np' = frozen np \<and> np_buffer np' = np_buffer np \<and> ptrs np' = ptrs np \<and>
    length (np_connections np') = length (np_connections np)"
  have "\<exists>np'. for_each [0..<length (np_connections np)] request_stall ?np = Some np' \<and> ?P (length (np_connections np)) np'"
  proof (rule for_each_induct [where P = ?P])
    show "?P 0 ?np" by (simp add: frozen_def ptrs_def)
    show "\<exists>np''. request_stall i np' = Some np'' \<and> ?P (Suc i) np''" if "i < length (np_connections np)" "?P i np'" for i np'
      using request_stall_some [of i np'] that assms by auto
  qed
  then obtain np' where loop: "for_each [0..<length (np_connections np)] request_stall ?np = Some np'" "frozen np' = frozen np"
      "np_buffer np' = np_buffer np" "ptrs np' = ptrs np" by blast
  show ?thesis
    unfolding catch_up_def Let_def get_time_def stop_catch_up_def
    by (auto simp: frozen_def ptrs_def) (use loop in \<open>auto simp: frozen_def ptrs_def\<close>)
qed

text \<open>Connected, with nothing that forces a reset, a rewind or an initialisation, and without a keyboard.\<close>

definition in_game :: "netplay \<Rightarrow> bool" where
  "in_game np \<longleftrightarrow> \<not> (np_is_server np \<and> np_connected_players np \<le> 1) \<and> \<not> np_self_mode np < NETPLAY_CONNECTION_CONNECTED \<and>
     np_desync np = 0 \<and> \<not> np_force_rewind np \<and> \<not> np_force_reset np \<and> \<not> np_have_updown_device np \<and>
     np_quirks np AND NETPLAY_QUIRK_INITIALIZATION = 0 \<and> length (np_connections np) < 32"

lemma consistent_after:
  assumes sync: "syncing ops np0 np" and ptr: "np_other_ptr np = ring_ptr np0 (known np0)" "np_other_frame_count np = of_nat (known np0)"
    and before: "consistent ops np0 cs0 c0" "start np0 \<le> known np0"
    and keep: "\<And>f. known np0 \<le> f \<Longrightarrow> f < finish np0 \<Longrightarrow> keeps ops np0 np cs f"
  shows "consistent ops np cs (cs (finish np0))" "start np = known np0" "finish np = finish np0"
proof -
  note eqs = syncing_fields(6,7,8,11) [OF sync]
  have shift: "ring_ptr np f = ring_ptr np0 f" if "known np0 \<le> f" for f
    using ring_shift [OF ptr eqs(1) before(2) _ that] by simp
  show start: "start np = known np0" using ptr(2) le_unat_uoi [of "known np0" "np_run_frame_count np0"] by simp
  show "finish np = finish np0" by (simp add: eqs(3))
  moreover have "keeps ops np np cs f" if "known np0 \<le> f" "f < finish np0" for f
    using keep [OF that] shift [OF that(1)] confirmed_frozen(5,6) [OF syncing_frozen [OF sync]]
    by (simp add: keeps_def saved_def stepped_def eqs(4))
  moreover have "np_run_ptr np = ring_ptr np (finish np0)" using before(1) shift [of "finish np0"] eqs(2) by (simp add: consistent_def)
  moreover have "0 < np_buffer_size np0" using before(1) by (auto simp: consistent_def)
  moreover have "finish np0 \<le> start np0 + np_buffer_size np0" using before(1) by (simp add: consistent_def)
  then have "finish np0 \<le> known np0 + np_buffer_size np0" using before(2) by linarith
  ultimately show "consistent ops np cs (cs (finish np0))"
    using before start ptr(1) eqs(1,3) ring_bound [of np0 "known np0"] by (simp add: consistent_def)
qed

lemma rollback:
  assumes np0: "np0 = advance_frame stalled np" and game: "in_game np0" and ok: "np_ok np0" and core: "core_ok ops (np_state_size np0)"
    and before: "consistent ops np0 cs core" and unread: "unread_ok np0"
  shows "\<exists>np' core' cs'. netplay_sync_post_frame (\<lambda>_. True) malloc ops stalled (np, core) = Some (np', core') \<and>
    np_ok np' \<and> consistent ops np' cs' core' \<and> start np' = known np0 \<and> finish np' = finish np0 \<and>
    cs' (start np0) = cs (start np0) \<and>
    (\<forall>f. start np0 \<le> f \<longrightarrow> f < known np0 \<longrightarrow> confirmed_step ops np0 (frame_of np0 np0 f) (cs' f) (cs' (Suc f)))"
proof -
  have sync: "syncing ops np0 np0" using ok core before unread by (simp add: syncing_def consistent_def unread_ok_def)
  have range: "start np0 \<le> known np0" using before unread by (simp add: consistent_def unread_ok_def)
  have plan_args: "\<forall>f. start np0 \<le> f \<longrightarrow> f < finish np0 \<longrightarrow> keeps ops np0 np0 cs f" "\<not> np_force_rewind np0"
      "np_other_ptr np0 < np_buffer_size np0"
    using before game by (simp_all add: consistent_def in_game_def)
  obtain np1 k r where plan: "plan_replay (\<lambda>_. True) np0 = Some np1" "syncing ops np0 np1" "\<not> np_force_rewind np1"
      "np_other_ptr np1 = ring_ptr np0 k" "np_other_frame_count np1 = of_nat k"
      "np_replay_ptr np1 = ring_ptr np0 r" "np_replay_frame_count np1 = of_nat r"
      "start np0 \<le> k" "k \<le> known np0" "k \<le> r" "r \<le> finish np0" "k < known np0 \<longrightarrow> r = k"
      "\<forall>f. k \<le> f \<longrightarrow> f < finish np0 \<longrightarrow> f \<noteq> r \<longrightarrow> keeps ops np0 np1 cs f"
      "r < finish np0 \<longrightarrow> saved ops np0 (frame_of np0 np1 r) (cs r)"
      "\<forall>f. start np0 \<le> f \<longrightarrow> f < k \<longrightarrow> confirmed_step ops np0 (frame_of np0 np0 f) (cs f) (cs (Suc f))"
    using plan_replay_some [OF sync plan_args(1) range plan_args(2,3)] by blast
  have less: "np_replay_frame_count np1 < np_run_frame_count np1 \<longleftrightarrow> r < finish np0"
    using plan(7,11) count_less [of r np0] syncing_fields(8) [OF plan(2)] by simp
  have "\<exists>np2 cs'. (if np_force_rewind np1 \<or> np_replay_frame_count np1 < np_run_frame_count np1
        then replay_input (\<lambda>_. True) malloc ops (np1, core) else Some (np1, core)) = Some (np2, cs' (finish np0)) \<and>
      syncing ops np0 np2 \<and> np_other_ptr np2 = ring_ptr np0 (known np0) \<and> np_other_frame_count np2 = of_nat (known np0) \<and>
      cs' (start np0) = cs (start np0) \<and> (\<forall>f. known np0 \<le> f \<longrightarrow> f < finish np0 \<longrightarrow> keeps ops np0 np2 cs' f) \<and>
      (\<forall>f. start np0 \<le> f \<longrightarrow> f < known np0 \<longrightarrow> confirmed_step ops np0 (frame_of np0 np0 f) (cs' f) (cs' (Suc f)))"
  proof (cases "r < finish np0")
    case False
    then have "k = known np0" "cs (finish np0) = core" using plan(9-12) before by (auto simp: consistent_def)
    then show ?thesis using False less plan by (intro exI [of _ np1] exI [of _ cs]) auto
  next
    case True
    have r: "in_ring np0 r" using True plan(8,10) by (simp add: in_ring_def)
    have run: "np_run_ptr np0 = ring_ptr np0 (finish np0)" using before by (simp add: consistent_def)
    have quirks: "\<not> np_have_updown_device np0" "np_quirks np0 AND NETPLAY_QUIRK_INITIALIZATION = 0" using game by (simp_all add: in_game_def)
    obtain np2 ds where replayed: "replay_input (\<lambda>_. True) malloc ops (np1, core) = Some (np2, ds (finish np0))" "syncing ops np0 np2"
        "np_other_ptr np2 = ring_ptr np0 (known np0)" "np_other_frame_count np2 = of_nat (known np0)" "ds r = cs r"
        "\<forall>f. r \<le> f \<longrightarrow> f < finish np0 \<longrightarrow> keeps ops np0 np2 ds f \<and>
          (f < known np0 \<longrightarrow> confirmed_step ops np0 (frame_of np0 np0 f) (ds f) (ds (Suc f)))"
        "\<forall>x. x < r \<longrightarrow> in_ring np0 x \<longrightarrow> core_part (frame_of np0 np2 x) = core_part (frame_of np0 np1 x)"
      using replay_input_some [OF plan(2,6,7) r plan(14) [rule_format, OF True] quirks unread run] by blast
    let ?cs = "\<lambda>f. if f < r then cs f else ds f"
    have "keeps ops np0 np2 ?cs f" if "known np0 \<le> f" "f < finish np0" for f
    proof (cases "f < r")
      case True
      then have "core_part (frame_of np0 np2 f) = core_part (frame_of np0 np1 f)" "keeps ops np0 np1 cs f"
        using replayed(7) plan(9,13) that range by (auto simp: in_ring_def)
      moreover have "?cs (Suc f) = cs (Suc f)" using True replayed(5) by (cases "Suc f = r") auto
      ultimately show ?thesis using True core_part_same [of "frame_of np0 np2 f" _ ops] by (simp add: keeps_def)
    next
      case False
      then show ?thesis using replayed(6) that by (simp add: keeps_def)
    qed
    moreover have "confirmed_step ops np0 (frame_of np0 np0 f) (?cs f) (?cs (Suc f))" if "start np0 \<le> f" "f < known np0" for f
    proof (cases "f < k")
      case True
      moreover have "?cs (Suc f) = cs (Suc f)" using True plan(10) replayed(5) by (cases "Suc f = r") auto
      ultimately show ?thesis using plan(10,15) that(1) by simp
    next
      case False
      then have "r = k" using plan(12) that(2) by simp
      then show ?thesis using False replayed(6) that by simp
    qed
    moreover have "?cs (start np0) = cs (start np0)" using plan(8,10) replayed(5) by (cases "start np0 = r") auto
    moreover have "?cs (finish np0) = ds (finish np0)" using True by simp
    ultimately show ?thesis using True less replayed(1-4) by (intro exI [of _ np2] exI [of _ ?cs]) simp
  qed
  then obtain np2 cs' where two: "(if np_force_rewind np1 \<or> np_replay_frame_count np1 < np_run_frame_count np1
        then replay_input (\<lambda>_. True) malloc ops (np1, core) else Some (np1, core)) = Some (np2, cs' (finish np0))"
      "syncing ops np0 np2" "np_other_ptr np2 = ring_ptr np0 (known np0)" "np_other_frame_count np2 = of_nat (known np0)"
      "cs' (start np0) = cs (start np0)" "\<forall>f. known np0 \<le> f \<longrightarrow> f < finish np0 \<longrightarrow> keeps ops np0 np2 cs' f"
      "\<forall>f. start np0 \<le> f \<longrightarrow> f < known np0 \<longrightarrow> confirmed_step ops np0 (frame_of np0 np0 f) (cs' f) (cs' (Suc f))"
    by blast
  have "length (np_connections np2) < 32" using syncing_fields(12) [OF two(2)] game by (simp add: in_game_def)
  then obtain np3 where three: "catch_up stalled np2 = Some np3" "frozen np3 = frozen np2" "np_buffer np3 = np_buffer np2" "ptrs np3 = ptrs np2"
    using catch_up_some by blast
  have sync3: "syncing ops np0 np3" by (rule syncing_same [OF two(2) three(2,3)])
  have same: "np0\<lparr>np_force_reset := False\<rparr> = np0" using game by (cases np0) (simp add: in_game_def)
  have "plan_replay (\<lambda>_. True) (np0\<lparr>np_force_reset := False\<rparr>) = Some np1" unfolding same by (rule plan(1))
  then have "netplay_sync_post_frame (\<lambda>_. True) malloc ops stalled (np, core) = Some (np3, cs' (finish np0))"
    using game two(1) three(1) unfolding netplay_sync_post_frame_def prod.case Let_def np0 [symmetric]
    by (auto simp: in_game_def)
  moreover have "np_other_ptr np3 = ring_ptr np0 (known np0)" "np_other_frame_count np3 = of_nat (known np0)"
    using three(4) two(3,4) by (simp_all add: ptrs_def)
  moreover have "keeps ops np0 np3 cs' f" if "known np0 \<le> f" "f < finish np0" for f
    using two(6) that by (simp add: keeps_def three(3))
  ultimately show ?thesis
    using consistent_after [OF sync3 _ _ before range, of cs'] two(5,7) sync3 by (simp add: syncing_def) blast
qed

section \<open>The first unread frame\<close>

definition reader :: "netplay \<Rightarrow> nat \<Rightarrow> bool" where
  "reader np c \<longleftrightarrow> c < MAX_CLIENTS \<and> bit (np_connected_players np) c \<and> \<not> bit (np_connected_slaves np) c"

text \<open>The loop finds the reader with the least count, if that is not the largest number.\<close>

lemma earliest_reader:
  fixes np q m n
  assumes "n \<le> MAX_CLIENTS"
  defines "r \<equiv> fold (earlier_read np) [0..<n] (q, m)"
  shows "snd r \<le> m" "\<And>c. reader np c \<Longrightarrow> c < n \<Longrightarrow> snd r \<le> np_read_frame_count np c"
    and "r = (q, m) \<or> (\<exists>c < n. reader np c \<and> r = (np_read_ptr np c, np_read_frame_count np c))"
proof -
  have "snd (fold (earlier_read np) [0..<n] (q, m)) \<le> m \<and>
    (\<forall>c < n. reader np c \<longrightarrow> snd (fold (earlier_read np) [0..<n] (q, m)) \<le> np_read_frame_count np c) \<and>
    (fold (earlier_read np) [0..<n] (q, m) = (q, m) \<or>
      (\<exists>c < n. reader np c \<and> fold (earlier_read np) [0..<n] (q, m) = (np_read_ptr np c, np_read_frame_count np c)))"
    using assms(1)
  proof (induction n)
    case (Suc n)
    let ?r = "fold (earlier_read np) [0..<n] (q, m)"
    have IH: "snd ?r \<le> m" "\<forall>c < n. reader np c \<longrightarrow> snd ?r \<le> np_read_frame_count np c"
        "?r = (q, m) \<or> (\<exists>c < n. reader np c \<and> ?r = (np_read_ptr np c, np_read_frame_count np c))"
      using Suc by auto
    have next_r: "fold (earlier_read np) [0..<Suc n] (q, m) = earlier_read np n ?r" by simp
    show ?case
    proof (cases "reader np n \<and> np_read_frame_count np n < snd ?r")
      case True
      then have "earlier_read np n ?r = (np_read_ptr np n, np_read_frame_count np n)" by (simp add: earlier_read_def reader_def)
      then show ?thesis unfolding next_r using True IH by (fastforce simp: less_Suc_eq)
    next
      case False
      then have "earlier_read np n ?r = ?r" using Suc.prems by (auto simp: earlier_read_def reader_def)
      then show ?thesis unfolding next_r using False IH by (fastforce simp: less_Suc_eq not_less)
    qed
  qed simp
  then show "snd r \<le> m" "\<And>c. reader np c \<Longrightarrow> c < n \<Longrightarrow> snd r \<le> np_read_frame_count np c"
      "r = (q, m) \<or> (\<exists>c < n. reader np c \<and> r = (np_read_ptr np c, np_read_frame_count np c))"
    unfolding r_def by auto
qed

text \<open>The pairs of a pointer and a count that the first unread frame may come from: the readers', the server's and our own.\<close>

definition sources :: "netplay \<Rightarrow> (nat \<times> u32) set" where
  "sources np = {(np_read_ptr np c, np_read_frame_count np c) | c. reader np c} \<union>
     (if np_is_server np then {} else {(np_server_ptr np, np_server_frame_count np)})"

lemma update_unread_ptr_least:
  fixes np
  assumes "\<not> (np_is_server np \<and> np_connected_players np \<le> 1)"
  defines "u \<equiv> netplay_update_unread_ptr np"
  shows "(\<forall>(p, c) \<in> sources np. c = - 1) \<and> np_unread_ptr u = np_self_ptr np \<and> np_unread_frame_count u = np_self_frame_count np \<or>
    (np_unread_ptr u, np_unread_frame_count u) \<in> sources np \<and> (\<forall>(p, c) \<in> sources np. np_unread_frame_count u \<le> c)"
proof -
  obtain p c where r: "fold (earlier_read np) [0..<MAX_CLIENTS] (0, - 1) = (p, c)" by fastforce
  note least = earliest_reader [where n = MAX_CLIENTS and np = np and q = 0 and m = "- 1", unfolded r, simplified]
  define pc where "pc = (if \<not> np_is_server np \<and> np_server_frame_count np < c then (np_server_ptr np, np_server_frame_count np) else (p, c))"
  have u: "u = (if snd pc \<noteq> - 1 then np\<lparr>np_unread_ptr := fst pc, np_unread_frame_count := snd pc\<rparr>
      else np\<lparr>np_unread_ptr := np_self_ptr np, np_unread_frame_count := np_self_frame_count np\<rparr>)"
    unfolding u_def netplay_update_unread_ptr_def if_not_P [OF assms(1)] r Let_def prod.case pc_def [symmetric]
    by (simp add: split_beta)
  have below: "snd pc \<le> snd x" if "x \<in> sources np" for x
  proof -
    have "snd pc \<le> c" "\<not> np_is_server np \<Longrightarrow> snd pc \<le> np_server_frame_count np"
      unfolding pc_def by (auto simp: not_less)
    moreover have "c \<le> np_read_frame_count np c'" if "reader np c'" for c' using least(2) [OF that] that by (simp add: reader_def)
    ultimately show ?thesis using that unfolding sources_def by (auto split: if_splits intro: order_trans)
  qed
  have from_where: "pc = (0, - 1) \<or> pc \<in> sources np"
    using least(3) unfolding sources_def pc_def by auto
  show ?thesis
  proof (cases "snd pc = - 1")
    case True
    then have "c' = - 1" if "(p', c') \<in> sources np" for p' c' using below [OF that] by (simp add: word_order.extremum_unique)
    then show ?thesis using u True by auto
  next
    case False
    then have "pc \<in> sources np" using from_where by auto
    then show ?thesis using u False below by auto
  qed
qed

text \<open>The counts of what was read are not behind the history, their pointers point into the ring, every client with a
  device is one that is waited for, and the frames have their numbers.\<close>

definition reads_ok :: "netplay \<Rightarrow> bool" where
  "reads_ok np \<longleftrightarrow>
     (\<forall>(p, c) \<in> sources np. start np \<le> unat c \<and> (unat c < finish np \<longrightarrow> p = ring_ptr np (unat c))) \<and>
     (\<exists>(p, c) \<in> sources np. c \<noteq> - 1) \<and>
     (\<forall>d < MAX_INPUT_DEVICES. \<forall>c < MAX_CLIENTS. bit (np_device_clients np d) c \<longrightarrow> reader np c) \<and>
     (\<forall>f. start np \<le> f \<longrightarrow> f < finish np \<longrightarrow> df_frame (frame_of np np f) = of_nat f)"

lemma advance_frame_fields:
  "sources (advance_frame stalled np) = sources np" "np_unread_ptr (advance_frame stalled np) = np_unread_ptr np"
  "np_unread_frame_count (advance_frame stalled np) = np_unread_frame_count np"
  "np_is_server (advance_frame stalled np) = np_is_server np"
  "np_connected_players (advance_frame stalled np) = np_connected_players np"
  by (simp_all add: advance_frame_def Let_def sources_def reader_def)

lemma update_unread_ptr_fields:
  "sources (netplay_update_unread_ptr np) = sources np"
  "np_is_server (netplay_update_unread_ptr np) = np_is_server np"
  "np_connected_players (netplay_update_unread_ptr np) = np_connected_players np"
  by (auto simp: netplay_update_unread_ptr_def Let_def sources_def reader_def split: prod.split)

lemma reads_unread:
  assumes np0: "np0 = advance_frame stalled (netplay_update_unread_ptr np)" and reads: "reads_ok np0"
    and many: "\<not> (np_is_server np0 \<and> np_connected_players np0 \<le> 1)"
  shows "unread_ok np0"
proof -
  let ?u = "np_unread_frame_count np0"
  have same: "sources np0 = sources np" "np_is_server np0 = np_is_server np" "np_connected_players np0 = np_connected_players np"
      "np_unread_ptr np0 = np_unread_ptr (netplay_update_unread_ptr np)"
      "?u = np_unread_frame_count (netplay_update_unread_ptr np)"
    by (simp_all add: np0 advance_frame_fields update_unread_ptr_fields)
  have "\<not> (\<forall>(p, c) \<in> sources np. c = - 1)" using reads same(1) by (auto simp: reads_ok_def)
  then have u: "(np_unread_ptr np0, ?u) \<in> sources np0" "\<forall>(p, c) \<in> sources np0. ?u \<le> c"
    using update_unread_ptr_least [of np] many same by auto
  have "all_read np0 (frame_of np0 np0 f)" if f: "start np0 \<le> f" "f < known np0" for f
    unfolding all_read_def
  proof (intro allI impI disjI2)
    fix d c assume "d < MAX_INPUT_DEVICES" "c < 32" "bit (np_device_clients np0 d) c"
    then have "reader np0 c" using reads by (simp add: reads_ok_def MAX_CLIENTS_def)
    then have "?u \<le> np_read_frame_count np0 c" using u(2) by (auto simp: sources_def)
    then have "f < unat (np_read_frame_count np0 c)" using f(2) by (simp add: word_le_nat_alt)
    moreover have "df_frame (frame_of np0 np0 f) = of_nat f" using reads f by (simp add: reads_ok_def)
    ultimately show "df_frame (frame_of np0 np0 f) < np_read_frame_count np0 c" using count_less [of f np0] f(2) by simp
  qed
  moreover have "start np0 \<le> unat ?u" "unat ?u < finish np0 \<longrightarrow> np_unread_ptr np0 = ring_ptr np0 (unat ?u)"
    using reads u(1) by (auto simp: reads_ok_def)
  ultimately show ?thesis by (simp add: unread_ok_def)
qed

section \<open>An example\<close>

text \<open>A core of one byte, which doubles it and adds its first button, and a server that plays it against client 1, having
  guessed for frame 0 that the button is up; it was down.  The state in the place of the next frame is \<open>s\<close>.\<close>

definition doubler :: "u8 core_ops" where
  "doubler = \<lparr>co_run = (\<lambda>cb c. map_option (\<lambda>b. 2 * c + ucast b) (cb 0 RETRO_DEVICE_JOYPAD 0 0)),
     co_serialize_size = (\<lambda>_. 1), co_serialize = (\<lambda>c n. Some (c # replicate (n - 1) 0)),
     co_unserialize = (\<lambda>s _. Some (hd s)), co_reset = (\<lambda>c. c)\<rparr>"

definition guessed :: delta_frame where
  "guessed = zero_frame\<lparr>df_used := True, df_state := [1], df_resolved_input := (\<lambda>_. [input_of 0 [0]]),
     df_real_input := (\<lambda>d. if d = 0 then [input_of 1 [1]] else [])\<rparr>"

definition duel :: "bytes \<Rightarrow> netplay" where
  "duel s = zero_netplay\<lparr>np_is_server := True, np_self_mode := NETPLAY_CONNECTION_PLAYING, np_connected_players := 3,
     np_device_clients := (\<lambda>d. if d = 0 then 2 else 0), np_config_devices := (\<lambda>_. 1), np_buffer := [guessed, zero_frame\<lparr>df_state := s\<rparr>],
     np_buffer_size := 2, np_read_ptr := (\<lambda>_. 1), np_read_frame_count := (\<lambda>_. 1), np_state_size := 1\<rparr>"

definition duel1 :: "bytes \<Rightarrow> netplay" where "duel1 s = advance_frame False (netplay_update_unread_ptr (duel s))"

lemma doubler_ok: "core_ok doubler 1"
proof -
  have "request_ok RETRO_DEVICE_JOYPAD 0 0" by (simp add: request_ok_def device_defs)
  then show ?thesis by (auto simp: core_ok_def doubler_def)
qed

lemma duel_unread: "netplay_update_unread_ptr (duel s) = (duel s)\<lparr>np_unread_ptr := 1, np_unread_frame_count := 1\<rparr>"
proof -
  have read: "fold (earlier_read (duel s)) cs (1, 1) = (1, 1)" for cs
    by (induction cs) (simp_all add: earlier_read_def duel_def)
  have "(1 :: u32) < - 1" by (rule word_order.not_eq_extremum [THEN iffD1]) simp
  then have "earlier_read (duel s) 0 (0, - 1) = (1, 1)" by (simp add: earlier_read_def duel_def zero_netplay_def)
  moreover have "[0..<MAX_CLIENTS] = 0 # [1..<MAX_CLIENTS]" by (simp add: upt_conv_Cons MAX_CLIENTS_def del: upt_Suc)
  ultimately have "fold (earlier_read (duel s)) [0..<MAX_CLIENTS] (0, - 1) = (1, 1)"
    using read by simp
  moreover have "np_is_server (duel s)" "\<not> np_connected_players (duel s) \<le> 1" by (simp_all add: duel_def word_le_nat_alt)
  ultimately show ?thesis by (simp add: netplay_update_unread_ptr_def del: upt_Suc)
qed

lemma duel1_fields [simp]:
  "np_is_server (duel1 s)" "np_self_mode (duel1 s) = NETPLAY_CONNECTION_PLAYING" "np_connected_players (duel1 s) = 3"
  "np_connected_slaves (duel1 s) = 0" "np_device_clients (duel1 s) = (\<lambda>d. if d = 0 then 2 else 0)"
  "np_config_devices (duel1 s) = (\<lambda>_. 1)" "np_buffer (duel1 s) = [guessed, zero_frame\<lparr>df_state := s\<rparr>]"
  "np_buffer_size (duel1 s) = 2" "np_read_ptr (duel1 s) = (\<lambda>_. 1)" "np_read_frame_count (duel1 s) = (\<lambda>_. 1)" "np_state_size (duel1 s) = 1"
  "np_run_ptr (duel1 s) = 1" "np_run_frame_count (duel1 s) = 1" "np_other_ptr (duel1 s) = 0" "np_other_frame_count (duel1 s) = 0"
  "np_unread_ptr (duel1 s) = 1" "np_unread_frame_count (duel1 s) = 1"
  "np_desync (duel1 s) = 0" "\<not> np_force_rewind (duel1 s)" "\<not> np_force_reset (duel1 s)" "\<not> np_have_updown_device (duel1 s)"
  "\<not> np_force_send_savestate (duel1 s)" "\<not> np_is_replay (duel1 s)" "np_quirks (duel1 s) = 0"
  "np_connections (duel1 s) = []" "np_device_share_modes (duel1 s) = (\<lambda>_. 0)"
  unfolding duel1_def duel_unread by (simp_all add: advance_frame_def duel_def zero_netplay_def NEXT_PTR_def)

lemma duel1_size: "d < MAX_INPUT_DEVICES \<Longrightarrow> dsize (duel1 s) d = 1"
  using expected_size_one [of d "duel1 s"] by (simp add: device_size_def device_defs RETRO_DEVICE_MASK_def)

lemma duel1_ok: "np_ok (duel1 s)"
  by (auto simp: np_ok_def frame_ok_def devices_ok_def duel1_size guessed_def zero_frame_def input_ok_def input_of_def
      device_defs RETRO_DEVICE_MASK_def)

lemma duel1_game: "in_game (duel1 s)"
  by (simp add: in_game_def mode_order word_le_nat_alt)

lemma duel1_reads: "reads_ok (duel1 s)"
proof -
  have "reader (duel1 s) c" if "c < MAX_CLIENTS" "bit (2 :: u32) c" for c
  proof -
    have "c = 1" using that(2) by (simp add: bit_2_iff)
    then show ?thesis by (simp add: reader_def MAX_CLIENTS_def)
  qed
  moreover have "reader (duel1 s) 0" by (simp add: reader_def MAX_CLIENTS_def)
  then have "sources (duel1 s) = {(1, 1)}" by (auto simp: sources_def)
  ultimately show ?thesis by (auto simp: reads_ok_def ring_ptr_def guessed_def zero_frame_def split: if_splits)
qed

lemma doubler_steps:
  assumes "ws 0 = [w]"
  shows "co_run doubler (answer (\<lambda>_. 1) ws) c = Some (2 * c + (if bit w 0 then 1 else 0))"
  using assms by (simp add: doubler_def answer_def port_for_def device_answer_def button_at_def device_defs MAX_INPUT_DEVICES_def mem_get_Some)

lemma duel1_consistent: "consistent doubler (duel1 s) (\<lambda>f. if f = 0 then 1 else 2) 2"
proof -
  have "frame_input (duel1 s) guessed = answer (\<lambda>_. 1) (\<lambda>_. [0])"
    by (simp add: frame_input_def guessed_def input_of_def)
  then have "co_run doubler (frame_input (duel1 s) guessed) 1 = Some 2"
    using doubler_steps [of "\<lambda>_. [0]" 0 1] by simp
  moreover have "shown_all (duel1 s) guessed"
    by (simp add: shown_all_def duel1_size shown_def guessed_def input_of_def input_ok_def)
  moreover have "co_serialize doubler 1 1 = Some (df_state guessed)" by (simp add: doubler_def guessed_def)
  ultimately have "keeps doubler (duel1 s) (duel1 s) (\<lambda>f. if f = 0 then 1 else 2) 0"
    by (simp add: keeps_def saved_def stepped_def ring_ptr_def)
  then show ?thesis by (simp add: consistent_def ring_ptr_def)
qed

lemma duel1_confirmed: "confirmed_step doubler (duel1 s) guessed c c' \<Longrightarrow> c' = 2 * c + 1"
proof -
  have look: "input_lookup [input_of 1 [1]] 1 1 = Some (input_of 1 [1])"
    by (simp add: input_lookup_def input_of_def)
  then have look: "input_lookup (df_real_input guessed 0) 1 1 = Some (input_of 1 [1])" by (simp add: guessed_def)
  have "dsize (duel1 s) 0 = 1" by (rule duel1_size) (simp add: MAX_INPUT_DEVICES_def)
  then have "netplay_device_client_state (duel1 s) (raw_frame guessed) 0 1 = Some (input_of 1 [1])"
    by (simp add: netplay_device_client_state_def look)
  moreover have "bit (2 :: u32) c \<longleftrightarrow> c = 1" for c by (auto simp: bit_2_iff)
  ultimately have "voters (duel1 s) (raw_frame guessed) 0 2 32 = [input_of 1 [1]]"
    by (simp add: voters_def List.map_filter_def upt_rec)
  then have "confirmed (duel1 s) guessed 0 = Some [1]"
    using duel1_size [of 0] by (simp add: confirmed_def guessed_def input_of_def shift1_def MAX_INPUT_DEVICES_def)
  moreover assume "confirmed_step doubler (duel1 s) guessed c c'"
  ultimately show ?thesis
    using doubler_steps [of "\<lambda>d. the (confirmed (duel1 s) guessed d)" 1 c] by (simp add: confirmed_step_def confirmed_input_def)
qed

section \<open>The theorem\<close>

text \<open>C3. Synchronising after a frame always returns.  The history that the ring holds is then consistent again: it ends in
  the core's new state, it begins at the first frame whose input is not known from everybody, and up to there
  the core has taken exactly the steps that everybody's input asks for, whatever had been guessed.\<close>

theorem netplay_rollback:
  assumes "np0 = advance_frame stalled (netplay_update_unread_ptr np)" "in_game np0" "np_ok np0" "core_ok ops (np_state_size np0)"
    and "consistent ops np0 cs core" "reads_ok np0"
  shows "\<exists>np' core' cs'. netplay_sync_post_frame (\<lambda>_. True) malloc ops stalled (netplay_update_unread_ptr np, core) = Some (np', core') \<and>
    np_ok np' \<and> consistent ops np' cs' core' \<and> start np' = known np0 \<and> finish np' = finish np0 \<and>
    cs' (start np0) = cs (start np0) \<and>
    (\<forall>f. start np0 \<le> f \<longrightarrow> f < known np0 \<longrightarrow> confirmed_step ops np0 (frame_of np0 np0 f) (cs' f) (cs' (Suc f)))"
proof (rule rollback [OF assms(1-5)])
  show "unread_ok np0" by (rule reads_unread [OF assms(1,6)]) (use assms(2) in \<open>simp add: in_game_def\<close>)
qed

theorem netplay_rollback_witness:
  "\<exists>np'. netplay_sync_post_frame (\<lambda>_. True) (\<lambda>_. None) doubler False (netplay_update_unread_ptr (duel [0]), 2) = Some (np', 3) \<and>
     start np' = 1 \<and> finish np' = 1"
proof -
  obtain np' core' cs' where run: "netplay_sync_post_frame (\<lambda>_. True) (\<lambda>_. None) doubler False (netplay_update_unread_ptr (duel [0]), 2) =
        Some (np', core')" "consistent doubler np' cs' core'" "start np' = known (duel1 [0])" "finish np' = finish (duel1 [0])"
      "cs' (start (duel1 [0])) = 1"
      "\<forall>f. start (duel1 [0]) \<le> f \<longrightarrow> f < known (duel1 [0]) \<longrightarrow> confirmed_step doubler (duel1 [0]) (frame_of (duel1 [0]) (duel1 [0]) f) (cs' f) (cs' (Suc f))"
    using netplay_rollback [OF duel1_def [of "[0]"] duel1_game duel1_ok _ duel1_consistent duel1_reads, where malloc = "\<lambda>_. None"] doubler_ok by auto
  have "confirmed_step doubler (duel1 [0]) guessed 1 (cs' 1)" using run(5,6) by (simp add: ring_ptr_def)
  moreover have "cs' 1 = core'" using run(2,4) by (simp add: consistent_def)
  ultimately have "core' = 3" using duel1_confirmed by fastforce
  then show ?thesis using run(1,3,4) by simp
qed

end
