(* ===== verification/Netplay_Round.thy ===== *)
theory Netplay_Round
  imports Netplay_Rollback
begin

text \<open>
  One round of netplay besides the synchronising (\<^verbatim>\<open>network/netplay/netplay_sync.c\<close>): saving the state before a
  frame and running the frame extend the history of the core that the ring of frames holds.
\<close>

section \<open>What the history depends on\<close>

lemma keeps_cong:
  assumes "np_config_devices a = np_config_devices np" "np_state_size a = np_state_size np" "ring_ptr a f = ring_ptr np f"
    and "np_buffer a = np_buffer b" "cs f = ds f" "cs (Suc f) = ds (Suc f)"
  shows "keeps ops a a cs f = keeps ops np b ds f"
proof -
  have "shown_all a g = shown_all np g" "frame_input a g = frame_input np g" for g
    using assms(1) unfolding shown_all_def frame_input_def size_cong [OF assms(1)] by simp_all
  then show ?thesis using assms(2-6) by (simp add: keeps_def saved_def stepped_def)
qed

lemma np_ok_cong:
  assumes "np_config_devices a = np_config_devices b" "np_device_share_modes a = np_device_share_modes b"
    and "np_device_clients a = np_device_clients b" "np_read_ptr a = np_read_ptr b" "np_buffer a = np_buffer b"
    and "np_buffer_size a = np_buffer_size b"
  shows "np_ok a = np_ok b"
  unfolding np_ok_def frame_ok_def devices_ok_def size_cong [OF assms(1)] assms ..


lemma unread_ptr_rest:
  "np_config_devices (netplay_update_unread_ptr np) = np_config_devices np"
  "np_device_share_modes (netplay_update_unread_ptr np) = np_device_share_modes np"
  "np_device_clients (netplay_update_unread_ptr np) = np_device_clients np" "np_read_ptr (netplay_update_unread_ptr np) = np_read_ptr np"
  "np_buffer (netplay_update_unread_ptr np) = np_buffer np" "np_buffer_size (netplay_update_unread_ptr np) = np_buffer_size np"
  "np_run_ptr (netplay_update_unread_ptr np) = np_run_ptr np"
  "np_run_frame_count (netplay_update_unread_ptr np) = np_run_frame_count np"
  "np_self_ptr (netplay_update_unread_ptr np) = np_self_ptr np"
  "np_self_frame_count (netplay_update_unread_ptr np) = np_self_frame_count np"
  "np_other_ptr (netplay_update_unread_ptr np) = np_other_ptr np"
  "np_other_frame_count (netplay_update_unread_ptr np) = np_other_frame_count np"
  "np_state_size (netplay_update_unread_ptr np) = np_state_size np" "np_quirks (netplay_update_unread_ptr np) = np_quirks np"
  "np_desync (netplay_update_unread_ptr np) = np_desync np" "np_out (netplay_update_unread_ptr np) = np_out np"
  "np_stall (netplay_update_unread_ptr np) = np_stall np"
  by (simp_all add: netplay_update_unread_ptr_def Let_def split: prod.split)


section \<open>Forcing the future\<close>





section \<open>Saving the state\<close>







definition waits_now :: "netplay \<Rightarrow> bool" where
  "waits_now np \<longleftrightarrow> np_run_frame_count np > 0 \<and> np_quirks np AND (NETPLAY_QUIRK_NO_SAVESTATES OR NETPLAY_QUIRK_NO_TRANSMISSION) \<noteq> 0 \<and>
     (\<forall>c. np_connections np \<noteq> [] \<and> c = hd (np_connections np) \<longrightarrow> \<not> nc_active c \<or> nc_mode c < NETPLAY_CONNECTION_CONNECTED)"

text \<open>The last step: to stall when netplay has to wait.\<close>

definition stalled_if :: "netplay \<Rightarrow> netplay" where
  "stalled_if np = (if waits_now np then np\<lparr>np_stall := NETPLAY_STALL_NO_CONNECTION\<rparr> else np)"



lemma stalled_if_fields [simp]:
  "np_buffer (stalled_if np) = np_buffer np" "np_run_ptr (stalled_if np) = np_run_ptr np"
  "np_run_frame_count (stalled_if np) = np_run_frame_count np" "np_other_frame_count (stalled_if np) = np_other_frame_count np"
  "np_quirks (stalled_if np) = np_quirks np" "np_stateless_mode (stalled_if np) = np_stateless_mode np"
  "np_out (stalled_if np) = np_out np" "np_force_send_savestate (stalled_if np) = np_force_send_savestate np"
  "np_stall (stalled_if np) = (if waits_now np then NETPLAY_STALL_NO_CONNECTION else np_stall np)"
  by (simp_all add: stalled_if_def)

lemma waits_stalled [simp]: "waits_now (stalled_if np) = waits_now np"
proof (cases "waits_now np")
  case True
  then show ?thesis by (auto simp: stalled_if_def) (auto simp: waits_now_def)
qed (simp add: stalled_if_def)












lemma duel1_self: "np_self_ptr (duel1 s) = 1" "np_self_frame_count (duel1 s) = 1"
  unfolding duel1_def duel_unread by (simp_all add: advance_frame_def duel_def zero_netplay_def NEXT_PTR_def)


section \<open>Running a frame\<close>

text \<open>C4. Resolving the input of the frame to be run and running it makes the history one frame longer.\<close>

theorem netplay_frame_extends:
  assumes ok: "np_ok np" and core: "core_ok ops (np_state_size np)" and before: "consistent ops np cs core"
    and saved: "saved ops np (np_buffer np ! np_run_ptr np) core" and room: "finish np < start np + np_buffer_size np"
    and wrap: "Suc (finish np) < 2 ^ 32" and play: "\<not> np_is_replay np"
  shows "\<exists>np' changed core'. netplay_resolve_input (\<lambda>_. True) np (np_run_ptr np) False = Some (np', changed) \<and>
    core_run ops np' core = Some core' \<and> np_ok (advance_frame False np') \<and>
    consistent ops (advance_frame False np') (cs(Suc (finish np) := core')) core' \<and>
    start (advance_frame False np') = start np \<and> finish (advance_frame False np') = Suc (finish np)"
proof -
  have run: "np_run_ptr np = ring_ptr np (finish np)" and range: "start np \<le> finish np" and size: "0 < np_buffer_size np"
    using before by (auto simp: consistent_def)
  obtain np' ch where res: "netplay_resolve_input (\<lambda>_. True) np (ring_ptr np (finish np)) False = Some (np', ch)" "frozen np' = frozen np"
      "np_ok np'" "ptrs np' = ptrs np"
      "\<forall>x. x \<noteq> finish np \<longrightarrow> start np \<le> x \<longrightarrow> x < start np + np_buffer_size np \<longrightarrow> frame_of np np' x = frame_of np np x"
      "df_state (frame_of np np' (finish np)) = df_state (frame_of np np (finish np))" "shown_all np (frame_of np np' (finish np))"
    using resolve_step [OF refl ok range room, of False] by blast
  note eqs = frozen_fields [OF res(2)]
  obtain core' where core': "co_run ops (frame_input np (frame_of np np' (finish np))) core = Some core'"
    using core_ok_runs [OF core res(7)] by blast
  have "netplay_input_state_cb np' = frame_input np' (frame_of np np' (finish np))"
  proof (rule callback_answers)
    show "(if np_is_replay np' then np_replay_ptr np' else np_run_ptr np') = ring_ptr np (finish np)"
      using play res(4) eqs(7) run by (simp add: ptrs_def)
    show "ring_ptr np (finish np) < length (np_buffer np')"
      using ring_bound [OF size] res(3) eqs(6) by (simp add: np_ok_def)
    show "shown_all np' (frame_of np np' (finish np))" using res(7) confirmed_frozen(5) [OF res(2)] by simp
  qed
  then have ran: "core_run ops np' core = Some core'" using core' confirmed_frozen(6) [OF res(2)] by (simp add: core_run_def)
  let ?a = "advance_frame False np'" and ?cs = "cs(Suc (finish np) := core')"
  have fields: "np_config_devices ?a = np_config_devices np" "np_state_size ?a = np_state_size np" "np_buffer ?a = np_buffer np'"
      "np_other_ptr ?a = np_other_ptr np" "np_other_frame_count ?a = np_other_frame_count np" "np_buffer_size ?a = np_buffer_size np"
      "np_run_ptr ?a = NEXT_PTR np' (np_run_ptr np)" "np_run_frame_count ?a = np_run_frame_count np + 1"
    using res(4) eqs by (simp_all add: advance_frame_def Let_def ptrs_def)
  have ring: "ring_ptr ?a f = ring_ptr np f" for f by (simp add: ring_ptr_def fields)
  have len: "finish ?a = Suc (finish np)" using wrap by (simp add: fields unat_word_ariths)
  have "keeps ops ?a ?a ?cs f" if f: "start np \<le> f" "f < Suc (finish np)" for f
  proof -
    have "keeps ops np np' ?cs f"
    proof (cases "f = finish np")
      case True
      have "cs f = core" using before True by (simp add: consistent_def)
      then show ?thesis using True saved res(6,7) core' by (simp add: keeps_def saved_def stepped_def run)
    next
      case False
      then have "frame_of np np' f = frame_of np np f" "keeps ops np np cs f" using res(5) f room before by (simp_all add: consistent_def)
      then show ?thesis using False f by (simp add: keeps_def)
    qed
    then show ?thesis using keeps_cong [of ?a np f np' ?cs ?cs ops] fields ring by simp
  qed
  moreover have "np_run_ptr ?a = ring_ptr np (Suc (finish np))" using ring_next [OF range eqs(6)] by (simp add: fields run)
  moreover have "np_other_ptr np < np_buffer_size np" using before by (simp add: consistent_def)
  ultimately have "consistent ops ?a ?cs core'" using range room by (simp add: consistent_def fields(4-7) ring len)
  moreover have "np_ok ?a"
    using res(3) np_ok_cong [of ?a np'] by (simp add: advance_frame_def Let_def)
  ultimately show ?thesis using res(1) ran len by (intro exI [of _ np'] exI [of _ ch] exI [of _ core']) (simp add: run [symmetric] fields(5))
qed

theorem netplay_frame_extends_witness:
  "\<exists>np' changed core'. netplay_resolve_input (\<lambda>_. True) (duel1 [2]) 1 False = Some (np', changed) \<and>
     core_run doubler np' 2 = Some core' \<and> consistent doubler (advance_frame False np') ((\<lambda>f. if f = 0 then 1 else 2)(2 := core')) core'"
proof -
  have "saved doubler (duel1 [2]) (np_buffer (duel1 [2]) ! np_run_ptr (duel1 [2])) 2" by (simp add: saved_def doubler_def)
  then show ?thesis
    using netplay_frame_extends [OF duel1_ok _ duel1_consistent, of "[2]"] doubler_ok by (auto simp flip: numeral_2_eq_2)
qed

section \<open>Operations that keep netplay well-formed\<close>

text \<open>A pointer into the ring and the frame it is for: it lies where that frame lies, and that is not before the history.\<close>

abbreviation in_place :: "netplay \<Rightarrow> nat \<times> u32 \<Rightarrow> bool" where
  "in_place np pc \<equiv> start np \<le> unat (snd pc) \<and> fst pc = ring_ptr np (unat (snd pc))"

text \<open>The pointers are in step with their frame counts: to the frame to be run, to the frame of one's own input, to the first
  unread frame, and those of the clients that are waited for and of the server.\<close>

definition in_step :: "netplay \<Rightarrow> bool" where
  "in_step np \<longleftrightarrow> np_other_ptr np < np_buffer_size np \<and> in_place np (np_run_ptr np, np_run_frame_count np) \<and>
     in_place np (np_self_ptr np, np_self_frame_count np) \<and> in_place np (np_unread_ptr np, np_unread_frame_count np) \<and>
     (\<forall>pc \<in> sources np. in_place np pc)"

lemma in_step_cong:
  assumes "sources a = sources b" "np_buffer_size a = np_buffer_size b" "np_other_ptr a = np_other_ptr b"
    and "np_other_frame_count a = np_other_frame_count b" "np_run_ptr a = np_run_ptr b"
    and "np_run_frame_count a = np_run_frame_count b" "np_self_ptr a = np_self_ptr b" "np_self_frame_count a = np_self_frame_count b"
    and "np_unread_ptr a = np_unread_ptr b" "np_unread_frame_count a = np_unread_frame_count b"
  shows "in_step a = in_step b"
  unfolding in_step_def ring_ptr_def assms ..

lemma in_step_set_frame [simp]: "in_step (set_frame p f np) = in_step np"
  by (rule in_step_cong) (simp_all add: set_frame_def sources_def reader_def)

lemma unread_in_step:
  assumes "in_step np"
  shows "in_step (netplay_update_unread_ptr np)"
proof -
  let ?u = "netplay_update_unread_ptr np"
  have ring: "ring_ptr ?u f = ring_ptr np f" for f by (simp add: ring_ptr_def unread_ptr_rest)
  have "(np_unread_ptr ?u, np_unread_frame_count ?u) \<in> insert (np_self_ptr np, np_self_frame_count np) (sources np)"
  proof (cases "np_is_server np \<and> np_connected_players np \<le> 1")
    case True
    then show ?thesis by (simp add: netplay_update_unread_ptr_def)
  next
    case False
    then show ?thesis using update_unread_ptr_least [of np] by auto
  qed
  then have "in_place np (np_unread_ptr ?u, np_unread_frame_count ?u)" using assms by (auto simp: in_step_def)
  then show ?thesis
    using assms by (simp add: in_step_def unread_ptr_rest ring update_unread_ptr_fields)
qed

lemma count_Suc: "c \<noteq> - 1 \<Longrightarrow> unat (c + 1) = Suc (unat c)" for c :: u32
  by (metis add.commute add.right_inverse add_left_cancel unatSuc)

lemma advance_in_step:
  assumes "in_step np" "np_run_frame_count np \<noteq> - 1" "np_self_frame_count np \<noteq> - 1"
  shows "in_step (advance_frame stalled np)"
proof -
  let ?a = "advance_frame stalled np"
  have other: "np_other_ptr ?a = np_other_ptr np" "np_other_frame_count ?a = np_other_frame_count np"
      "np_buffer_size ?a = np_buffer_size np"
    by (simp_all add: advance_frame_def Let_def)
  have ring: "ring_ptr ?a f = ring_ptr np f" for f by (simp add: ring_ptr_def other)
  have nxt: "in_place np (NEXT_PTR np' p, c + 1)" if "in_place np (p, c)" "c \<noteq> - 1" "np_buffer_size np' = np_buffer_size np" for p c np'
  proof -
    have "unat (c + 1) = Suc (unat c)" using that(2) by (rule count_Suc)
    then show ?thesis using that ring_next [of np "unat c" np'] by simp
  qed
  have "in_place np (np_run_ptr ?a, np_run_frame_count ?a)"
    using nxt [of "np_run_ptr np" "np_run_frame_count np" np] assms by (simp add: advance_frame_def Let_def in_step_def)
  moreover have "in_place np (np_self_ptr ?a, np_self_frame_count ?a)"
    using nxt [of "np_self_ptr np" "np_self_frame_count np"] assms by (simp add: advance_frame_def Let_def in_step_def)
  ultimately show ?thesis using assms(1) by (simp add: in_step_def other ring advance_frame_fields)
qed

lemma resolve_rest:
  assumes "frozen np' = frozen np" "ptrs np' = ptrs np" "np_self_ptr np' = np_self_ptr np"
    and "np_self_frame_count np' = np_self_frame_count np" "sources np' = sources np"
  shows "in_step np' = in_step np"
  using assms frozen_fields [OF assms(1)] by (intro in_step_cong) (simp_all add: ptrs_def)

lemma frozen_more:
  assumes "frozen np = frozen np'"
  shows "np_self_ptr np = np_self_ptr np'" "np_self_frame_count np = np_self_frame_count np'" "sources np = sources np'"
proof -
  note keep = assms [THEN arg_cong, unfolded frozen_def]
  show "np_self_ptr np = np_self_ptr np'" using keep [of np_self_ptr] by simp
  show "np_self_frame_count np = np_self_frame_count np'" using keep [of np_self_frame_count] by simp
  have "np_is_server np = np_is_server np'" using keep [of np_is_server] by simp
  moreover have "np_connected_players np = np_connected_players np'" using keep [of np_connected_players] by simp
  moreover have "np_connected_slaves np = np_connected_slaves np'" using keep [of np_connected_slaves] by simp
  moreover have "np_server_ptr np = np_server_ptr np'" using keep [of np_server_ptr] by simp
  moreover have "np_server_frame_count np = np_server_frame_count np'" using keep [of np_server_frame_count] by simp
  ultimately show "sources np = sources np'" using frozen_fields(4,5) [OF assms] by (simp add: sources_def reader_def)
qed

lemma frozen_in_step:
  assumes "frozen np' = frozen np" "ptrs np' = ptrs np"
  shows "in_step np' = in_step np"
  by (rule resolve_rest [OF assms frozen_more [OF assms(1)]])

text \<open>C36. Netplay stays well-formed (the lists of inputs have the sizes of their devices, the clients' numbers fit into a word), and
  its pointers stay in step with their frame counts, after making a frame ready, resolving its input, checking it, finding
  the first unread frame, and moving on to the next frame, as long as no frame count is at its maximum.\<close>

theorem netplay_well_formed:
  assumes "np_ok np" "in_step np" "p < np_buffer_size np" "np_run_frame_count np \<noteq> - 1" "np_self_frame_count np \<noteq> - 1"
  shows "(\<exists>np' changed. netplay_resolve_input (\<lambda>_. True) np p resim = Some (np', changed) \<and> np_ok np' \<and> in_step np') \<and>
    (let np' = set_frame p (snd (netplay_delta_frame_ready np (np_buffer np ! p) n)) np in np_ok np' \<and> in_step np') \<and>
    (length (df_state (np_buffer np ! p)) = np_state_size np \<longrightarrow>
      (\<exists>np'. netplay_handle_frame_hash np p = Some np' \<and> np_ok np' \<and> in_step np')) \<and>
    np_ok (netplay_update_unread_ptr np) \<and> in_step (netplay_update_unread_ptr np) \<and>
    np_ok (advance_frame stalled np) \<and> in_step (advance_frame stalled np)"
  unfolding Let_def
proof (intro conjI impI)
  have p: "p < length (np_buffer np)" using assms by (simp add: np_ok_def)
  then have f: "frame_ok np (np_buffer np ! p)" using assms by (simp add: np_ok_def)
  obtain g h ch where res: "netplay_resolve_input (\<lambda>_. True) np p resim =
        Some (set_frame p (with_inputs g h (np_buffer np ! p)) np, ch)"
      "\<forall>d < MAX_INPUT_DEVICES. inputs_ok (g d) \<and> resolved np (np_buffer np ! p) d (h d) ch"
    using resolve_input_some [OF assms(1,3) refl] by blast
  have "frame_ok np (with_inputs g h (np_buffer np ! p))" using f res(2) by (simp add: frame_ok_def resolved_def)
  then have "np_ok (set_frame p (with_inputs g h (np_buffer np ! p)) np)" by (rule np_ok_set_frame [OF assms(1)])
  then show "\<exists>np' changed. netplay_resolve_input (\<lambda>_. True) np p resim = Some (np', changed) \<and> np_ok np' \<and> in_step np'"
    using res(1) assms(2) by auto
  have "frame_ok np (snd (netplay_delta_frame_ready np (np_buffer np ! p) n))"
    using f by (auto simp: netplay_delta_frame_ready_def frame_ok_def clear_input_def input_ok_def)
  then show "np_ok (set_frame p (snd (netplay_delta_frame_ready np (np_buffer np ! p) n)) np)" by (rule np_ok_set_frame [OF assms(1)])
  show "in_step (set_frame p (snd (netplay_delta_frame_ready np (np_buffer np ! p) n)) np)" using assms(2) by simp
  show "\<exists>np'. netplay_handle_frame_hash np p = Some np' \<and> np_ok np' \<and> in_step np'"
    if "length (df_state (np_buffer np ! p)) = np_state_size np"
    using hash_step [OF p _ assms(1)] that assms(2) frozen_in_step by (metis order_refl)
  show "np_ok (netplay_update_unread_ptr np)" using assms(1) np_ok_cong [OF unread_ptr_rest(1-6)] by simp
  show "in_step (netplay_update_unread_ptr np)" by (rule unread_in_step [OF assms(2)])
  show "np_ok (advance_frame stalled np)" using assms(1) np_ok_cong [of "advance_frame stalled np" np] by (simp add: advance_frame_def Let_def)
  show "in_step (advance_frame stalled np)" by (rule advance_in_step [OF assms(2,4,5)])
qed

theorem netplay_well_formed_witness:
  "(\<exists>np' changed. netplay_resolve_input (\<lambda>_. True) (duel1 [0]) 0 True = Some (np', changed) \<and> np_ok np' \<and> in_step np') \<and>
   in_step (advance_frame False (duel1 [0]))"
proof -
  have "sources (duel1 [0]) \<subseteq> {(1, 1)}" by (auto simp: sources_def)
  then have "in_step (duel1 [0])" by (auto simp: in_step_def ring_ptr_def duel1_self)
  moreover have "(1 :: u32) \<noteq> - 1" by simp
  ultimately show ?thesis using netplay_well_formed [OF duel1_ok, of "[0]" 0 True 0 False] duel1_self [of "[0]"] by auto
qed

section \<open>What the core is answered\<close>

text \<open>The port whose input is used for a device that is not a gamepad: the one that was asked for if it has that device, and
  otherwise the first that has it.\<close>

definition answering_port :: "netplay \<Rightarrow> nat \<Rightarrow> u32 \<Rightarrow> nat \<Rightarrow> bool" where
  "answering_port np port device q \<longleftrightarrow> q < MAX_INPUT_DEVICES \<and> dtype np q = device \<and>
     (q = port \<or> dtype np port \<noteq> device \<and> (\<forall>r < q. dtype np r \<noteq> device))"

text \<open>The lower and the upper half of a word, as numbers.\<close>

definition half_word :: "u32 \<Rightarrow> nat \<Rightarrow> u16" where
  "half_word w k = of_nat (unat w div 2 ^ (k * 16))"

lemma half_at_word: "k < 2 \<Longrightarrow> half_at w k = Some (half_word w k)"
proof -
  assume k: "k < 2"
  have "k * 16 mod 2 ^ 32 = k * 16" "k * 16 < 32" using k by auto
  moreover have "(ucast (drop_bit (k * 16) w) :: u16) = half_word w k"
    unfolding half_word_def drop_bit_nat_def [symmetric] unat_drop_bit_eq [symmetric] by simp
  ultimately show ?thesis by (simp add: half_at_def Let_def)
qed

lemma answering_port_for:
  assumes "device \<noteq> RETRO_DEVICE_JOYPAD" "port < MAX_INPUT_DEVICES"
  shows "answering_port np port device q \<longleftrightarrow> port_for (np_config_devices np) port device = Some q"
  using assms by (auto simp: answering_port_def port_for_def find_Some_iff)

text \<open>What the devices answer from words of their size.\<close>

lemma analog_answer:
  assumes "length ws = 3"
  shows "idx < 2 \<Longrightarrow> ident < 2 \<Longrightarrow>
      device_answer (device_size RETRO_DEVICE_ANALOG) ws RETRO_DEVICE_ANALOG idx ident = Some (half_word (ws ! (idx + 1)) ident)"
    "device_answer (device_size RETRO_DEVICE_ANALOG) ws RETRO_DEVICE_ANALOG 2 ident = None"
proof -
  have "device_answer (device_size RETRO_DEVICE_ANALOG) ws RETRO_DEVICE_ANALOG i ident =
      Option.bind (mem_get ws ((1 + i) mod 2 ^ 32)) (\<lambda>w. half_at w ident)" for i
    by (simp add: device_answer_def device_size_def device_defs)
  then show "idx < 2 \<Longrightarrow> ident < 2 \<Longrightarrow>
      device_answer (device_size RETRO_DEVICE_ANALOG) ws RETRO_DEVICE_ANALOG idx ident = Some (half_word (ws ! (idx + 1)) ident)"
    "device_answer (device_size RETRO_DEVICE_ANALOG) ws RETRO_DEVICE_ANALOG 2 ident = None"
    using assms by (simp_all add: mem_get_Some half_at_word mem_get_def)
qed

lemma pointer_answer:
  assumes "length ws = 2" "device \<in> {RETRO_DEVICE_MOUSE, RETRO_DEVICE_LIGHTGUN}"
  shows "ident < 2 \<Longrightarrow> device_answer (device_size device) ws device idx ident = Some (half_word (ws ! 1) ident)"
    "2 \<le> ident \<Longrightarrow> ident < 32 \<Longrightarrow> device_answer (device_size device) ws device idx ident = Some (if bit (ws ! 0) ident then 1 else 0)"
proof -
  have "device_answer (device_size device) ws device idx ident = (if ident \<le> 1
      then Option.bind (mem_get ws 1) (\<lambda>w. half_at w ident) else Option.bind (mem_get ws 0) (\<lambda>w. button_at w ident))"
    using assms(2) by (auto simp: device_answer_def device_size_def device_defs)
  then show "ident < 2 \<Longrightarrow> device_answer (device_size device) ws device idx ident = Some (half_word (ws ! 1) ident)"
    "2 \<le> ident \<Longrightarrow> ident < 32 \<Longrightarrow> device_answer (device_size device) ws device idx ident = Some (if bit (ws ! 0) ident then 1 else 0)"
    using assms(1) by (simp_all add: mem_get_Some half_at_word button_at_def)
qed

lemma keyboard_answer:
  assumes "length ws = 5"
  shows "0 < k \<Longrightarrow> k < NETPLAY_KEY_LAST \<Longrightarrow>
      device_answer (device_size RETRO_DEVICE_KEYBOARD) ws RETRO_DEVICE_KEYBOARD idx (netplay_key_ntoh k) =
        Some (if bit (ws ! (k div 32)) (k mod 32) then 1 else 0)"
    "\<forall>k. 0 < k \<and> k < NETPLAY_KEY_LAST \<longrightarrow> netplay_key_ntoh k \<noteq> ident \<Longrightarrow>
      device_answer (device_size RETRO_DEVICE_KEYBOARD) ws RETRO_DEVICE_KEYBOARD idx ident = Some 0"
proof -
  have ans: "device_answer (device_size RETRO_DEVICE_KEYBOARD) ws RETRO_DEVICE_KEYBOARD idx j = (let key = netplay_key_hton key_mapping j in
      if key = 0 \<or> 5 < key div 32 then Some 0
      else Option.bind (mem_get ws (key div 32)) (\<lambda>w. Some (if bit w (key mod 32) then 1 else 0)))" for j
    by (auto simp: device_answer_def device_size_def device_defs NETPLAY_KEY_UNKNOWN_def Let_def)
  show "device_answer (device_size RETRO_DEVICE_KEYBOARD) ws RETRO_DEVICE_KEYBOARD idx (netplay_key_ntoh k) =
      Some (if bit (ws ! (k div 32)) (k mod 32) then 1 else 0)" if "0 < k" "k < NETPLAY_KEY_LAST"
  proof -
    have "k div 32 < 5" using that(2) by (simp add: NETPLAY_KEY_LAST_def)
    then show ?thesis using that by (simp add: ans hton_ntoh Let_def mem_get_Some assms)
  qed
  show "device_answer (device_size RETRO_DEVICE_KEYBOARD) ws RETRO_DEVICE_KEYBOARD idx ident = Some 0"
    if "\<forall>k. 0 < k \<and> k < NETPLAY_KEY_LAST \<longrightarrow> netplay_key_ntoh k \<noteq> ident"
    using hton_unknown [of ident] that by (simp add: ans Let_def NETPLAY_KEY_UNKNOWN_def)
qed

text \<open>C37. In a frame whose input is resolved, the core's requests are answered from the words of the device: a button of a gamepad
  is its bit of the first word; the axes of a stick are the halves of the stick's word; of a mouse or a light gun the
  axes are the halves of the second word and the buttons are bits of the first; a key is the bit that netplay numbers
  for it.  Every request within the buttons and sticks is defined, and a device that no port has gives 0.  A request
  for the analog buttons (index 2) reads behind the three words of an analog device.\<close>

theorem netplay_input_answers:
  assumes "(if np_is_replay np then np_replay_ptr np else np_run_ptr np) = p" "p < length (np_buffer np)"
    and "shown_all np (np_buffer np ! p)" "port < MAX_INPUT_DEVICES"
    and "\<And>q. ws q = shown_words (df_resolved_input (np_buffer np ! p) q)"
  shows "(request_ok device idx ident \<longrightarrow> netplay_input_state_cb np port device idx ident \<noteq> None) \<and>
    (dsize np port \<noteq> 0 \<and> ident < 32 \<longrightarrow>
      netplay_input_state_cb np port RETRO_DEVICE_JOYPAD idx ident = Some (if bit (ws port ! 0) ident then 1 else 0)) \<and>
    (answering_port np port RETRO_DEVICE_ANALOG q \<longrightarrow>
      (idx < 2 \<and> ident < 2 \<longrightarrow>
        netplay_input_state_cb np port RETRO_DEVICE_ANALOG idx ident = Some (half_word (ws q ! (idx + 1)) ident)) \<and>
      netplay_input_state_cb np port RETRO_DEVICE_ANALOG 2 ident = None) \<and>
    (device \<in> {RETRO_DEVICE_MOUSE, RETRO_DEVICE_LIGHTGUN} \<and> answering_port np port device q \<longrightarrow>
      (ident < 2 \<longrightarrow> netplay_input_state_cb np port device idx ident = Some (half_word (ws q ! 1) ident)) \<and>
      (2 \<le> ident \<and> ident < 32 \<longrightarrow> netplay_input_state_cb np port device idx ident = Some (if bit (ws q ! 0) ident then 1 else 0))) \<and>
    (answering_port np port RETRO_DEVICE_KEYBOARD q \<longrightarrow>
      (0 < k \<and> k < NETPLAY_KEY_LAST \<longrightarrow> netplay_input_state_cb np port RETRO_DEVICE_KEYBOARD idx (netplay_key_ntoh k) =
         Some (if bit (ws q ! (k div 32)) (k mod 32) then 1 else 0)) \<and>
      ((\<forall>k. 0 < k \<and> k < NETPLAY_KEY_LAST \<longrightarrow> netplay_key_ntoh k \<noteq> ident) \<longrightarrow>
         netplay_input_state_cb np port RETRO_DEVICE_KEYBOARD idx ident = Some 0)) \<and>
    (device \<noteq> RETRO_DEVICE_JOYPAD \<and> (\<forall>q. \<not> answering_port np port device q) \<longrightarrow>
      netplay_input_state_cb np port device idx ident = Some 0)"
proof -
  let ?f = "np_buffer np ! p"
  have cb: "netplay_input_state_cb np = answer (np_config_devices np) ws"
  proof -
    have "ws = (\<lambda>q. shown_words (df_resolved_input ?f q))" using assms(5) by auto
    then show ?thesis unfolding callback_answers [OF assms(1-3)] frame_input_def by simp
  qed
  have len: "length (ws d) = unat (dsize np d)" if "d < MAX_INPUT_DEVICES" for d
    using shown_cases [of "df_resolved_input ?f d"] assms(3) that unfolding shown_all_def assms(5) by fastforce
  have size: "dsize np d = device_size (dtype np d)" if "d < MAX_INPUT_DEVICES" for d
    using expected_size_one [OF that, of np] by simp
  have at: "length (ws q) = unat (device_size d)" "ws q \<noteq> [] \<Longrightarrow>
      netplay_input_state_cb np port d i j = device_answer (device_size d) (ws q) d i j"
    if "answering_port np port d q" "d \<noteq> RETRO_DEVICE_JOYPAD" for d i j
  proof -
    have q: "q < MAX_INPUT_DEVICES" "dtype np q = d" using that(1) by (auto simp: answering_port_def)
    show l: "length (ws q) = unat (device_size d)" using len [OF q(1)] size [OF q(1)] q(2) by simp
    show "netplay_input_state_cb np port d i j = device_answer (device_size d) (ws q) d i j" if "ws q \<noteq> []"
      using that \<open>answering_port np port d q\<close> answering_port_for [OF \<open>d \<noteq> RETRO_DEVICE_JOYPAD\<close> assms(4)] assms(4) l
      by (simp add: cb answer_def)
  qed
  have "netplay_input_state_cb np port device idx ident \<noteq> None" if "request_ok device idx ident"
    unfolding cb using len size that by (intro answer_defined) simp_all
  moreover have "netplay_input_state_cb np port RETRO_DEVICE_JOYPAD idx ident = Some (if bit (ws port ! 0) ident then 1 else 0)"
    if that: "dsize np port \<noteq> 0 \<and> ident < 32"
  proof -
    have "ws port \<noteq> []" using len [OF assms(4)] that by (auto simp: unat_eq_0)
    then show ?thesis using assms(4) that
      by (simp add: cb answer_def port_for_def device_answer_def button_at_def mem_get_Some)
  qed
  moreover have "(idx < 2 \<and> ident < 2 \<longrightarrow>
        netplay_input_state_cb np port RETRO_DEVICE_ANALOG idx ident = Some (half_word (ws q ! (idx + 1)) ident)) \<and>
      netplay_input_state_cb np port RETRO_DEVICE_ANALOG 2 ident = None"
    if "answering_port np port RETRO_DEVICE_ANALOG q"
  proof -
    have other: "RETRO_DEVICE_ANALOG \<noteq> RETRO_DEVICE_JOYPAD" and three: "unat (device_size RETRO_DEVICE_ANALOG) = 3"
      by (simp_all add: device_size_def device_defs)
    have "length (ws q) = 3" using at(1) [OF that other] three by simp
    then show ?thesis using at(2) [OF that other] analog_answer [of "ws q"] by fastforce
  qed
  moreover have "(ident < 2 \<longrightarrow> netplay_input_state_cb np port device idx ident = Some (half_word (ws q ! 1) ident)) \<and>
      (2 \<le> ident \<and> ident < 32 \<longrightarrow> netplay_input_state_cb np port device idx ident = Some (if bit (ws q ! 0) ident then 1 else 0))"
    if "device \<in> {RETRO_DEVICE_MOUSE, RETRO_DEVICE_LIGHTGUN}" "answering_port np port device q"
  proof -
    have other: "device \<noteq> RETRO_DEVICE_JOYPAD" and two: "unat (device_size device) = 2"
      using that(1) by (auto simp: device_size_def device_defs)
    have "length (ws q) = 2" using at(1) [OF that(2) other] two by simp
    then show ?thesis using at(2) [OF that(2) other] pointer_answer [OF _ that(1), of "ws q"] by fastforce
  qed
  moreover have "(0 < k \<and> k < NETPLAY_KEY_LAST \<longrightarrow> netplay_input_state_cb np port RETRO_DEVICE_KEYBOARD idx (netplay_key_ntoh k) =
         Some (if bit (ws q ! (k div 32)) (k mod 32) then 1 else 0)) \<and>
      ((\<forall>k. 0 < k \<and> k < NETPLAY_KEY_LAST \<longrightarrow> netplay_key_ntoh k \<noteq> ident) \<longrightarrow>
         netplay_input_state_cb np port RETRO_DEVICE_KEYBOARD idx ident = Some 0)"
    if "answering_port np port RETRO_DEVICE_KEYBOARD q"
  proof -
    have other: "RETRO_DEVICE_KEYBOARD \<noteq> RETRO_DEVICE_JOYPAD" and five: "unat (device_size RETRO_DEVICE_KEYBOARD) = 5"
      by (simp_all add: device_size_def device_defs)
    have "length (ws q) = 5" using at(1) [OF that other] five by simp
    then show ?thesis using at(2) [OF that other] keyboard_answer [of "ws q"] by fastforce
  qed
  moreover have "netplay_input_state_cb np port device idx ident = Some 0"
    if "device \<noteq> RETRO_DEVICE_JOYPAD" "\<forall>q. \<not> answering_port np port device q"
    using that answering_port_for [OF that(1) assms(4), of np] assms(4)
    by (cases "port_for (np_config_devices np) port device") (simp_all add: cb answer_def)
  ultimately show ?thesis by blast
qed

text \<open>An analog device on the second port, with its right stick to the right.\<close>

definition stick_frame :: delta_frame where
  "stick_frame = zero_frame\<lparr>df_resolved_input := (\<lambda>d. [if d = 1 then input_of 0 [0, 0, 0x7fff] else input_of 0 [0]])\<rparr>"

theorem netplay_input_answers_witness:
  "netplay_input_state_cb ((set_frame 1 stick_frame (duel1 [0]))\<lparr>np_config_devices := (\<lambda>d. if d = 1 then 5 else 1)\<rparr>)
     0 RETRO_DEVICE_ANALOG 1 0 = Some 0x7fff"
proof -
  let ?np = "(set_frame 1 stick_frame (duel1 [0]))\<lparr>np_config_devices := (\<lambda>d. if d = 1 then 5 else 1)\<rparr>"
  let ?ws = "\<lambda>q. shown_words (df_resolved_input (np_buffer ?np ! 1) q)"
  have get: "np_buffer ?np ! 1 = stick_frame" "1 < length (np_buffer ?np)" "np_run_ptr ?np = 1" "\<not> np_is_replay ?np"
    by (simp_all add: set_frame_def)
  have type: "dtype ?np d = (if d = 1 then 5 else 1)" for d by (simp add: RETRO_DEVICE_MASK_def)
  have size: "dsize ?np d = (if d = 1 then 3 else 1)" if "d < MAX_INPUT_DEVICES" for d
    using expected_size_one [OF that, of ?np] by (simp add: device_size_def device_defs RETRO_DEVICE_MASK_def)
  have all: "shown_all ?np (np_buffer ?np ! 1)"
    unfolding get(1) using size by (auto simp: shown_all_def shown_def stick_frame_def input_of_def input_ok_def)
  have "answering_port ?np 0 RETRO_DEVICE_ANALOG 1"
    unfolding answering_port_def type by (auto simp: device_defs MAX_INPUT_DEVICES_def)
  moreover have "?ws 1 ! Suc (Suc 0) = 0x7fff" unfolding get(1) by (simp add: stick_frame_def input_of_def)
  moreover have "half_word 0x7fff 0 = 0x7fff" by (simp add: half_word_def)
  moreover have "0 < MAX_INPUT_DEVICES" by (simp add: MAX_INPUT_DEVICES_def)
  ultimately show ?thesis
    using netplay_input_answers [of ?np 1 0 ?ws RETRO_DEVICE_ANALOG 1 0 1, THEN conjunct2, THEN conjunct2, THEN conjunct1] get(2-4) all
    by simp
qed

end
