(* ===== verification/Spec2Isabelle.thy ===== *)
theory Spec2Isabelle
  imports Rewind_Control Soft_Patch Fifo_Queue Netplay_Buf File_Crc Dom_Roundtrip Libretrodb_Facts Query_Depth Query_Meaning Message_Queue Netplay_Round
begin

text \<open>
  A model of parts of RetroArch, a front end for emulators (``cores''), in the C of \<^verbatim>\<open>src/\<close>.  Modelled are the parts
  with logic of their own that the front end keeps independent of platforms: rewinding, soft patching, the
  game database with its query language, the queues and streams these use, and the heart of netplay.

  \<^bold>\<open>Conventions.\<close>  A buffer in C is a list, and every access to it is checked (\<open>mem_get\<close>, \<open>mem_set\<close>, \<open>mem_read\<close>,
  \<open>mem_write\<close> of \<open>RA_Prelude\<close>): an access outside is the result \<^term>\<open>None\<close>.  So \<^term>\<open>None\<close> stands for undefined
  behaviour (and, for a \<^theory_text>\<open>partial_function\<close>, also for a loop that does not end), and a theorem that the result
  is \<open>Some x\<close> says that the code returns and stays in its buffers.  Words have their width; sizes are natural
  numbers, with \<open>usub\<close> where the code may subtract too much; a null pointer is \<^term>\<open>None\<close>.  The failure of an
  allocation, the operating system, the files and the core are parameters.  Error codes, booleans and out-parameters
  of the code are values of the functions.

  \<^bold>\<open>Rewinding\<close> (\<^verbatim>\<open>managers/state_manager.c\<close>).  \<open>Rewind_Codec\<close> has the searches \<^verbatim>\<open>find_change\<close> (in its portable and its
  SSE2 form) and \<^verbatim>\<open>find_same\<close>, and the compressor and decompressor of the difference of two states; its theorems
  are the round trip, the bound on the size of a patch and the equivalence of the two searches.  \<open>Rewind_Ring\<close> has
  \<^verbatim>\<open>state_manager_t\<close> with pushing, popping and the dropping of old frames.  It knows the codec only through the
  locale \<open>delta_codec\<close>, and refines a stack of states that loses its oldest.  \<open>Rewind_Control\<close> has the handlers
  that the main loop calls: while the key is held the core is given the states newest first.

  \<^bold>\<open>Checksums and patches\<close> (\<^verbatim>\<open>libretro-common/encodings/encoding_crc32.c\<close>, \<^verbatim>\<open>tasks/task_patch.c\<close>).  \<open>Crc32\<close> relates the
  table to the polynomial; its locale \<open>stream_checksum\<close> gives \<open>File_Crc\<close> the checksum of a file read in pieces.
  \<open>Patch_Base\<close>, \<open>Patch_Bps\<close>, \<open>Patch_Ups\<close> and \<open>Patch_Ips\<close> have the three formats (the locale \<open>number_reader\<close> is
  the coding of numbers that two of them share), and \<open>Soft_Patch\<close> the choice of a patch.  The theorems say what a
  patch does to the content, what a reported success has verified, and that the content is otherwise untouched.

  \<^bold>\<open>Queues\<close> (\<^verbatim>\<open>libretro-common/queues/\<close>).  \<open>Byte_Ring\<close> holds facts on rings and the contract of a byte queue (locale
  \<open>byte_fifo\<close>), which \<open>Fifo_Queue\<close> provides.  \<open>Message_Queue\<close> has the messages shown on the screen: a bag, with
  the order of a heap until the first message is taken out.

  \<^bold>\<open>Files\<close> (\<^verbatim>\<open>libretro-common/streams/file_stream.c\<close>).  \<open>File_Stream\<close> has reading, lines and whole files over the interface
  of the virtual file system, which may fail or give less than asked for at any call: reading, writing, seeking, and
  asking for the size or the position.

  \<^bold>\<open>The database\<close> (\<^verbatim>\<open>libretro-db/\<close>).  \<open>Host_Words\<close> swaps bytes; \<open>Msgpack\<close> reads and writes MessagePack, calling back
  through the contract \<open>msgpack_client\<close>; \<open>Msgpack_Dom\<close>, \<open>Dom_Reader\<close> and \<open>Dom_Roundtrip\<close> have the trees, their reader's
  safety, and that reading what was written gives the mirrored tree.  \<open>Bintree\<close> is the index builder's tree,
  over the contract \<open>ordering_cmp\<close>.  \<open>Libretrodb\<close> and \<open>Libretrodb_Facts\<close> have databases, cursors and indexes.
  \<open>Fnmatch\<close> has wildcards.  \<open>Query\<close> has the query language; \<open>Query_Text\<close> relates its parser to a printer,
  \<open>Query_Depth\<close> shows that the depth given to its parser cannot be observed, and \<open>Query_Meaning\<close> says which documents a query accepts.  The last
  theorem below puts all of this together.

  \<^bold>\<open>Netplay\<close> (\<^verbatim>\<open>network/netplay/\<close>).  \<open>Net_Socket\<close> has the transfer loops over a scripted operating system and \<open>Netplay_Buf\<close>
  the buffers in front of a socket: bytes go on the wire once and in order.  \<open>Netplay_Delta\<close> has the state of
  netplay, a ring of frames with the inputs of every client; \<open>Netplay_Keyboard\<close> the numbering of keys;
  \<open>Netplay_Sync\<close> the merging of inputs, rewinding and replaying of \<^verbatim>\<open>netplay_sync.c\<close> and what it needs of
  \<^verbatim>\<open>netplay_frontend.c\<close> and \<^verbatim>\<open>netplay_init.c\<close>, over a core that is a record of functions.  \<open>Netplay_Merge\<close> proves what
  merging the inputs of several players means bit by bit, and \<open>Netplay_Resolve\<close> that resolving the input of a frame
  always returns, only changes the guesses and the resolved words of that frame, says truly whether these changed,
  and gives the words that follow from what was read once everybody's input is there.  \<open>Netplay_Ring\<close> has what one
  step of synchronising changes and what is asked of a core, \<open>Netplay_Rollback\<close> the theorem on rewinding and
  replaying.  \<open>Netplay_Round\<close> has the rest of a round: every branch of saving the state before a frame, with the forced
  sending of it, and running the frame; that the operations of a round keep netplay well-formed (\<open>np_ok\<close>) and its pointers
  in step with their frame counts (\<open>in_step\<close>); and what the core is answered for every kind of device, word by word
  and bit by bit.  The abstract view is a
  history of the core: the ring of frames from \<open>np_other_frame_count\<close> to \<open>np_run_frame_count\<close> holds its states
  and the inputs between them (\<open>consistent\<close>).  Saving keeps it and running extends it (a forced state restarts it); \<^verbatim>\<open>netplay_sync_post_frame\<close> moves its
  beginning to the first frame that is not read from everybody, with the core then in the state to which only
  confirmed inputs lead up to there.  The hypotheses: the core saves and loads completely and runs when its requests
  are answered (\<open>core_ok\<close>); netplay is connected, nothing forces a reset, a rewind or an initialisation, and no
  device is a keyboard (\<open>in_game\<close>, with a keyboard the code runs the core once more before loading the state);
  devices without words have no clients and keyboards no vote (\<open>devices_ok\<close>, where the code writes outside
  its arrays); memory for inputs can be allocated.

  \<^bold>\<open>Bounds and fuel.\<close>  \<open>libretrodb_query_compile\<close> gives its parser the depth \<open>buff_len + 1\<close>; it cannot be observed,
  since above the length of the text the parser satisfies the recursive equation of the code
  (the lemma \<open>query_parser_recursion\<close> on the model; that queries compile is \<open>query_compile_roundtrip\<close>).  \<open>rmsgpack_read\<close> recurses over a depth that is one more than the bytes left, and
  satisfies the equation of the code at it.  \<open>wait_and_init\<close> counts the 60 frames that the code counts.  Other loops are
  structural recursion, have a measure, or are a \<^theory_text>\<open>partial_function\<close> whose result is proved to be \<open>Some\<close>.

  \<^bold>\<open>Not modelled.\<close>  The drivers for video, audio, input, cameras and so on, the menu, and the code of platforms only
  call libraries that are not part of the sources.  \<^verbatim>\<open>retroarch.c\<close> is the glue between them over global state.  Of
  netplay the protocol (\<^verbatim>\<open>netplay_io.c\<close>, \<^verbatim>\<open>netplay_handshake.c\<close>, \<^verbatim>\<open>netplay_discovery.c\<close>) is left out: it sends and
  receives through sockets at every step.  Configuration, playlists, core information, and the tasks other than
  patching are reading and writing of user files through paths.  Code of other projects (\<^verbatim>\<open>deps\<close>, \<^verbatim>\<open>gfx/include\<close>,
  the decoders of images and discs) is not RetroArch's own.  Functions that only release memory have no model.
\<close>

section \<open>The database and its queries\<close>

lemma printable_free: "printable a \<Longrightarrow> query_argument_free a"
  by (induction a) auto

text \<open>C26. From creating a database to listing the documents that a query text asks for: the number of documents is
  found again, the text compiles, and a cursor with the query lists exactly the documents that match what the
  query means, in the order in which they were written.\<close>

theorem database_query_lists:
  assumes "length (mp_junk env) = 8" "\<And>n. mp_alloc env n"
    and "\<forall>d \<in> set docs. db_document d" "0 < rv" "length (db_body docs) < 2 ^ 62" "p \<noteq> []"
    and "printable (AT_FUNCTION f argv)" "length (show_argument (AT_FUNCTION f argv)) < 2 ^ 32"
  shows "\<exists>fd db q cur. libretrodb_create \<lparr>hfile = vfs_open True [] [], error_flag = False, eof_flag = False\<rparr>
      (map (\<lambda>d. (0, d)) docs @ [(rv, x)]) = Some (1, fd) \<and>
    libretrodb_open env junk md errno p (Some (vfs_open reports [] (vh_data (hfile fd)))) db0 = Some (0, db) \<and>
    db_count db = of_nat (length docs) \<and>
    libretrodb_query_compile (mp_alloc env) (show_argument (AT_FUNCTION f argv) @ [0])
      (length (show_argument (AT_FUNCTION f argv))) = Some (Some q, None) \<and>
    libretrodb_cursor_open errno (Some (vfs_open reports [] (vh_data (hfile fd)))) (Some db) cur0
      (Some (libretrodb_query_filter q)) = Some (0, cur) \<and>
    cursor_list env cur item = Some (filter (call_matches f argv) (map dom_mirror docs))"
proof -
  let ?q = "\<lparr>q_ref_count = 1, q_root = Some (f, argv)\<rparr>"
  have "\<forall>a \<in> set argv. query_argument_free a" using printable_free [OF assms(7)] by simp
  then have m: "libretrodb_query_filter ?q v = Some (call_matches f argv v)" for v by (rule filter_matches)
  then have docs: "\<forall>d \<in> set docs. db_document d \<and> query_answers (Some (libretrodb_query_filter ?q)) (dom_mirror d)"
    using assms(3) by (simp add: query_answers_def)
  have "accepted (Some (libretrodb_query_filter ?q)) docs = filter (call_matches f argv) (map dom_mirror docs)"
    unfolding accepted_def using m by (intro filter_cong refl) (simp add: cursor_accepts_def)
  then show ?thesis
    using create_to_list [OF assms(1,2) docs assms(4-6), of x junk md errno reports db0 cur0 item]
      compile_printed [OF assms(7,8), of "mp_alloc env"] assms(2) by auto
qed

theorem database_query_lists_witness:
  "\<exists>fd db q cur. libretrodb_create \<lparr>hfile = vfs_open True [] [], error_flag = False, eof_flag = False\<rparr>
      (map (\<lambda>d. (0, d)) [RDT_MAP [(RDT_STRING [97], RDT_UINT 5)], RDT_MAP [(RDT_STRING [97], RDT_UINT 6)]] @ [(1, RDT_NULL)]) =
        Some (1, fd) \<and>
    libretrodb_open good_env [] 0 0 ''db'' (Some (vfs_open False [] (vh_data (hfile fd)))) zero_db = Some (0, db) \<and>
    db_count db = 2 \<and>
    libretrodb_query_compile (\<lambda>_. True) [0x7b, 0x22, 0x61, 0x22, 0x3a, 0x36, 0x7d, 0] 7 = Some (Some q, None) \<and>
    libretrodb_cursor_open 0 (Some (vfs_open False [] (vh_data (hfile fd)))) (Some db) zero_cursor
      (Some (libretrodb_query_filter q)) = Some (0, cur) \<and>
    cursor_list good_env cur None = Some [RDT_MAP [(RDT_STRING [97], RDT_UINT 6)]]"
proof -
  have matches: "filter (call_matches query_all_map [AT_VALUE (RDT_STRING [97]), AT_VALUE (RDT_INT 6)])
      (map dom_mirror [RDT_MAP [(RDT_STRING [97], RDT_UINT 5)], RDT_MAP [(RDT_STRING [97], RDT_UINT 6)]]) =
      [RDT_MAP [(RDT_STRING [97], RDT_UINT 6)]]"
    by (simp add: rmsgpack_dom_value_map_value_def rmsgpack_dom_value_cmp_def value_matches_def)
  have "show_argument (AT_FUNCTION query_all_map [AT_VALUE (RDT_STRING [97]), AT_VALUE (RDT_INT 6)]) =
      [0x7b, 0x22, 0x61, 0x22, 0x3a, 0x36, 0x7d]"
    by (simp add: show_string_def show_decimal.simps)
  then have shown: "libretrodb_query_compile a (show_argument (AT_FUNCTION query_all_map [AT_VALUE (RDT_STRING [97]), AT_VALUE (RDT_INT 6)]) @ [0])
      (length (show_argument (AT_FUNCTION query_all_map [AT_VALUE (RDT_STRING [97]), AT_VALUE (RDT_INT 6)]))) =
      libretrodb_query_compile a [0x7b, 0x22, 0x61, 0x22, 0x3a, 0x36, 0x7d, 0] 7" for a
    by (simp add: numeral_eq_Suc)
  show ?thesis
    using database_query_lists [of good_env "[RDT_MAP [(RDT_STRING [97], RDT_UINT 5)], RDT_MAP [(RDT_STRING [97], RDT_UINT 6)]]"
        1 "''db''" query_all_map "[AT_VALUE (RDT_STRING [97]), AT_VALUE (RDT_INT 6)]" RDT_NULL "[]" 0 0 False zero_db
        zero_cursor None]
    unfolding matches shown
    by (simp add: db_document_def db_body_def mp_uint_def mp_string_head_def mp_map_head_def MAX_DEPTH_def Let_def
        show_string_def show_decimal.simps)
qed

end
